(* ===== verification/Prelude.thy ===== *)
theory Prelude
  imports Main "HOL-Library.Word" "HOL-Library.List_Lexorder"
begin

text \<open>
  What every component of the development shares: bytes and byte strings, the
  results and the state-passing computations that stand for Go's multiple
  return values and mutation, the big-endian integers of \<^verbatim>\<open>encoding/binary\<close>,
  the slices of Go with their run-time checks, the comparison of
  \<^verbatim>\<open>bytes.Compare\<close>, and the sorted association lists that are the
  reference for every ordered store.
\<close>

unbundle bit_operations_syntax

section \<open>Types\<close>

type_synonym byte = "8 word"
type_synonym bytes = "8 word list"
type_synonym page_id = "32 word"
type_synonym int64 = "64 word"
type_synonym uint64 = "64 word"

text \<open>
  Every error value the modelled packages return, one constructor per message.
  \<open>Panic\<close> is a Go run-time panic (a slice or an index out of range);
  \<open>Diverges\<close> is the result of a loop that does not return and \<open>ExitStatus\<close> that of a program
  that has ended itself.
\<close>

datatype go_error =
    Panic
  | Diverges
  | ErrClosed
  | ErrFileClosed
  | ErrReadHeader
  | ErrBadMagic
  | ErrReadPage page_id
  | ErrPageBufferSize
  | ErrKeyNotFound
  | ErrKeyTooLarge
  | ErrUnexpectedEOF
  | ErrRowTooShort
  | ErrTruncatedColumn nat
  | ErrUnknownType string
  | ErrEOF
  | ErrTableExists string
  | ErrTableMissing string
  | ErrUnknownTarget string
  | ErrWalReplay go_error
  | ErrUnterminatedString nat
  | ErrUnexpectedChar nat nat
  | ErrTrailingInput string
  | ErrExpectedKeyword string string
  | ErrExpectedPunct string string
  | ErrExpectedIdent string
  | ErrUnexpectedToken string
  | ErrExpectedTableOrIndex string
  | ErrExpectedColumnType string string
  | ErrExpectedNumber string
  | ErrUnexpectedInExpr string
  | ErrNumberSyntax string
  | ErrNumberRange string
  | ErrTxnOpen
  | ErrNoTxnOpen
  | ErrNameTaken string
  | ErrSinglePrimaryKey
  | ErrNoSuchTable string
  | ErrNoSuchColumn string
  | ErrNoSuchColumnOn string string
  | ErrIndexExists string
  | ErrDuplicateValue string
  | ErrValueCount nat nat
  | ErrColumn string go_error
  | ErrMayNotBeNull string
  | ErrAmbiguousColumn string
  | ErrUnknownColumn string
  | ErrBadLiteralKind string
  | ErrUnknownUnary string
  | ErrCountStar
  | ErrUnknownOperator string
  | ErrDivisionByZero
  | ErrUnknownArith string
  | ErrCannotUse byte byte
  | ErrUnexpectedResponse string
  | ErrListen go_error
  | ErrNetClosed
  | ExitStatus nat

type_synonym 'a result = "go_error + 'a"

text \<open>
  A computation on a state: Go keeps the writes made before an error is
  returned, so the state comes back in both cases.
\<close>

type_synonym ('s, 'a) sm = "'s \<Rightarrow> (go_error + 'a) \<times> 's"

named_theorems go_simps \<open>unfolding of the computations on results and states\<close>
named_theorems be_simps \<open>big-endian integers\<close>

section \<open>Numbers as text\<close>

definition digit :: "nat \<Rightarrow> char" where
  "digit d = char_of (48 + d)"

fun decimal_text :: "nat \<Rightarrow> string" where
  "decimal_text n = (if n < 10 then [digit n] else decimal_text (n div 10) @ [digit (n mod 10)])"

declare decimal_text.simps [simp del]

section \<open>Results and computations\<close>

definition rbind :: "'a result \<Rightarrow> ('a \<Rightarrow> 'b result) \<Rightarrow> 'b result" where
  "rbind r f = (case r of Inl e \<Rightarrow> Inl e | Inr x \<Rightarrow> f x)"

definition ret :: "'a \<Rightarrow> ('s, 'a) sm" where
  "ret x s = (Inr x, s)"

definition fail :: "go_error \<Rightarrow> ('s, 'a) sm" where
  "fail e s = (Inl e, s)"

definition lift :: "'a result \<Rightarrow> ('s, 'a) sm" where
  "lift r s = (r, s)"

definition bind :: "('s, 'a) sm \<Rightarrow> ('a \<Rightarrow> ('s, 'b) sm) \<Rightarrow> ('s, 'b) sm" where
  "bind m f s = (case m s of (r, s') \<Rightarrow> (case r of Inl e \<Rightarrow> (Inl e, s') | Inr x \<Rightarrow> f x s'))"

lemma rbind_simps [simp, go_simps]: "rbind (Inl e) f = Inl e" "rbind (Inr x) f = f x"
  by (simp_all add: rbind_def)

lemma rbind_Inr_iff: "rbind r f = Inr y \<longleftrightarrow> (\<exists>x. r = Inr x \<and> f x = Inr y)"
  by (cases r) simp_all

lemma rbind_assoc: "rbind (rbind r f) g = rbind r (\<lambda>x. rbind (f x) g)"
  by (cases r) simp_all

lemma rbind_cong [fundef_cong]:
  "r = r' \<Longrightarrow> (\<And>x. r' = Inr x \<Longrightarrow> f x = f' x) \<Longrightarrow> rbind r f = rbind r' f'"
  by (cases r') simp_all

lemma ret_apply [simp, go_simps]: "ret x s = (Inr x, s)"
  by (simp add: ret_def)

lemma fail_apply [simp, go_simps]: "fail e s = (Inl e, s)"
  by (simp add: fail_def)

lemma lift_apply [simp, go_simps]: "lift r s = (r, s)"
  by (simp add: lift_def)

lemma bind_Inr: "m s = (Inr x, s') \<Longrightarrow> bind m f s = f x s'"
  by (simp add: bind_def)

lemma bind_Inl: "m s = (Inl e, s') \<Longrightarrow> bind m f s = (Inl e, s')"
  by (simp add: bind_def)

lemma bind_lift [simp, go_simps]:
  "bind (lift (Inr x)) f s = f x s" "bind (lift (Inl e)) f s = (Inl e, s)"
  by (simp_all add: bind_def)

lemma bind_ret [simp, go_simps]: "bind (ret x) f s = f x s"
  by (simp add: bind_def)

lemma bind_assoc: "bind (bind f g) h = bind f (\<lambda>x. bind (g x) h)"
  by (rule ext) (simp add: bind_def split: prod.splits sum.splits)

lemma bind_fail [simp, go_simps]: "bind (fail e) f s = (Inl e, s)"
  by (simp add: bind_def)

section \<open>Slices\<close>

text \<open>
  \<open>elem_at b i\<close> is \<^verbatim>\<open>b[i]\<close> and \<open>holds_at P b i\<close> the condition
  \<^verbatim>\<open>i < len(b) && P(b[i])\<close>; an index out of range panics.
\<close>

definition elem_at :: "'a list \<Rightarrow> nat \<Rightarrow> 'a result" where
  "elem_at b i = (if i < length b then Inr (b ! i) else Inl Panic)"

definition holds_at :: "('a \<Rightarrow> bool) \<Rightarrow> 'a list \<Rightarrow> nat \<Rightarrow> bool result" where
  "holds_at P b i = (if i < length b then rbind (elem_at b i) (\<lambda>x. Inr (P x)) else Inr False)"

lemma elem_at_in [simp]: "i < length b \<Longrightarrow> elem_at b i = Inr (b ! i)"
  by (simp add: elem_at_def)

lemma holds_at_eq: "holds_at P b i = Inr (i < length b \<and> P (b ! i))"
  by (simp add: holds_at_def)

text \<open>
  \<open>slice b lo hi\<close> is \<^verbatim>\<open>b[lo:hi]\<close> and \<open>splice b off x\<close> writes \<open>x\<close>
  at \<^verbatim>\<open>b[off:]\<close>; both panic out of range.
\<close>

definition slice :: "'a list \<Rightarrow> nat \<Rightarrow> nat \<Rightarrow> 'a list result" where
  "slice b lo hi = (if lo \<le> hi \<and> hi \<le> length b then Inr (take (hi - lo) (drop lo b)) else Inl Panic)"

definition overwrite :: "'a list \<Rightarrow> nat \<Rightarrow> 'a list \<Rightarrow> 'a list" where
  "overwrite b off x = take off b @ x @ drop (off + length x) b"

definition splice :: "'a list \<Rightarrow> nat \<Rightarrow> 'a list \<Rightarrow> 'a list result" where
  "splice b off x = (if off + length x \<le> length b then Inr (overwrite b off x) else Inl Panic)"

lemma length_overwrite [simp]:
  "off + length x \<le> length b \<Longrightarrow> length (overwrite b off x) = length b"
  by (simp add: overwrite_def)

lemma overwrite_Nil [simp]: "overwrite b off [] = b"
  by (simp add: overwrite_def)

lemma nth_overwrite:
  assumes "off + length x \<le> length b" "i < length b"
  shows "overwrite b off x ! i =
    (if off \<le> i \<and> i < off + length x then x ! (i - off) else b ! i)"
  using assms by (auto simp: overwrite_def nth_append min_def)

text \<open>A window \<open>[lo, lo + n)\<close> of a byte string, and how writes act on it.\<close>

definition window :: "'a list \<Rightarrow> nat \<Rightarrow> nat \<Rightarrow> 'a list" where
  "window b lo n = take n (drop lo b)"

lemma length_window [simp]: "lo + n \<le> length b \<Longrightarrow> length (window b lo n) = n"
  by (simp add: window_def)

lemma window_0 [simp]: "window b lo 0 = []"
  by (simp add: window_def)

lemma nth_window: "lo + n \<le> length b \<Longrightarrow> i < n \<Longrightarrow> window b lo n ! i = b ! (lo + i)"
  by (simp add: window_def)

lemma window_overwrite_same:
  "off + length x \<le> length b \<Longrightarrow> n = length x \<Longrightarrow> window (overwrite b off x) off n = x"
  by (simp add: window_def overwrite_def)

lemma window_eqI:
  assumes "lo + n \<le> length b" "lo' + n \<le> length c"
    and "\<And>i. i < n \<Longrightarrow> b ! (lo + i) = c ! (lo' + i)"
  shows "window b lo n = window c lo' n"
  by (rule nth_equalityI) (use assms in \<open>auto simp: nth_window\<close>)

lemma window_overwrite_disjoint:
  assumes "off + length x \<le> length b" "lo + n \<le> length b"
    and "lo + n \<le> off \<or> off + length x \<le> lo"
  shows "window (overwrite b off x) lo n = window b lo n"
  using assms by (intro window_eqI) (auto simp: nth_overwrite)

lemma window_overwrite_inside:
  assumes "off + length x \<le> length b" "lo \<le> off" "off + length x \<le> lo + n" "lo + n \<le> length b"
  shows "window (overwrite b off x) lo n = overwrite (window b lo n) (off - lo) x"
  using assms by (intro nth_equalityI) (auto simp: nth_window nth_overwrite add.commute)

lemma window_window:
  "lo' + n' \<le> n \<Longrightarrow> lo + n \<le> length b \<Longrightarrow> window (window b lo n) lo' n' = window b (lo + lo') n'"
  by (simp add: window_def take_drop drop_drop add.commute min_def)

lemma window_append_left: "lo + n \<le> length a \<Longrightarrow> window (a @ b) lo n = window a lo n"
  by (simp add: window_def)

lemma window_append_right: "window (a @ b) (length a + k) n = window b k n"
  by (simp add: window_def)

lemma slice_window: "lo \<le> hi \<Longrightarrow> hi \<le> length b \<Longrightarrow> slice b lo hi = Inr (window b lo (hi - lo))"
  by (simp add: slice_def window_def)

section \<open>Big-endian integers\<close>

text \<open>
  \<^verbatim>\<open>binary.BigEndian.PutUintN\<close> and \<^verbatim>\<open>UintN\<close>: most significant byte first.
\<close>

fun be_put :: "nat \<Rightarrow> nat \<Rightarrow> bytes" where
  "be_put 0 v = []"
| "be_put (Suc n) v = be_put n (v div 256) @ [word_of_nat (v mod 256)]"

definition be_get :: "bytes \<Rightarrow> nat" where
  "be_get bs = foldl (\<lambda>a b. a * 256 + unat b) 0 bs"

definition put_u16 :: "16 word \<Rightarrow> bytes" where "put_u16 v = be_put 2 (unat v)"
definition put_u32 :: "32 word \<Rightarrow> bytes" where "put_u32 v = be_put 4 (unat v)"
definition put_u64 :: "64 word \<Rightarrow> bytes" where "put_u64 v = be_put 8 (unat v)"

text \<open>Reads at an offset panic when fewer bytes are left than the integer has.\<close>

definition get_u16 :: "bytes \<Rightarrow> nat \<Rightarrow> 16 word result" where
  "get_u16 b off = (if off + 2 \<le> length b then Inr (word_of_nat (be_get (window b off 2))) else Inl Panic)"

definition get_u32 :: "bytes \<Rightarrow> nat \<Rightarrow> 32 word result" where
  "get_u32 b off = (if off + 4 \<le> length b then Inr (word_of_nat (be_get (window b off 4))) else Inl Panic)"

definition get_u64 :: "bytes \<Rightarrow> nat \<Rightarrow> 64 word result" where
  "get_u64 b off = (if off + 8 \<le> length b then Inr (word_of_nat (be_get (window b off 8))) else Inl Panic)"

lemma length_be_put [simp, be_simps]: "length (be_put n v) = n"
  by (induction n arbitrary: v) simp_all

lemma length_put [simp, be_simps]:
  "length (put_u16 a) = 2" "length (put_u32 b) = 4" "length (put_u64 c) = 8"
  by (simp_all add: put_u16_def put_u32_def put_u64_def)

lemma be_get_snoc [be_simps]: "be_get (bs @ [b]) = be_get bs * 256 + unat b"
  by (simp add: be_get_def)

lemma be_get_Nil [simp, be_simps]: "be_get [] = 0"
  by (simp add: be_get_def)

lemma unat_byte_bound: "unat (b :: byte) < 256"
  using unsigned_less [of b, where 'a = nat] by simp

lemma be_get_put [be_simps]: "be_get (be_put n v) = v mod 256 ^ n"
proof (induction n arbitrary: v)
  case 0
  then show ?case by simp
next
  case (Suc n)
  have "unat (word_of_nat (v mod 256) :: byte) = v mod 256"
    by (simp add: unat_of_nat take_bit_nat_def)
  with Suc show ?case by (simp add: be_get_snoc mod_mult2_eq)
qed

lemma be_put_get: "be_put (length bs) (be_get bs) = bs"
proof (induction bs rule: rev_induct)
  case Nil
  then show ?case by simp
next
  case (snoc b bs)
  have b: "unat b < 256" by (rule unat_byte_bound)
  have "(be_get bs * 256 + unat b) div 256 = be_get bs" using b by simp
  moreover have "(be_get bs * 256 + unat b) mod 256 = unat b" using b by simp
  ultimately show ?case using snoc by (simp add: be_get_snoc)
qed

lemma be_get_bound: "be_get bs < 256 ^ length bs"
proof (induction bs rule: rev_induct)
  case Nil
  then show ?case by simp
next
  case (snoc b bs)
  have "unat b < 256" by (rule unat_byte_bound)
  with snoc show ?case by (simp add: be_get_snoc)
qed

lemma get_put_u16 [be_simps]: "word_of_nat (be_get (put_u16 v)) = (v :: 16 word)"
  using unsigned_less [of v, where 'a = nat] by (simp add: put_u16_def be_get_put)

lemma get_put_u32 [be_simps]: "word_of_nat (be_get (put_u32 v)) = (v :: 32 word)"
  using unsigned_less [of v, where 'a = nat] by (simp add: put_u32_def be_get_put)

lemma get_put_u64 [be_simps]: "word_of_nat (be_get (put_u64 v)) = (v :: 64 word)"
  using unsigned_less [of v, where 'a = nat] by (simp add: put_u64_def be_get_put)

lemma window_mid: "n = length x \<Longrightarrow> off = length pre \<Longrightarrow> window (pre @ x @ post) off n = x"
  by (simp add: window_def)

lemma get_mid [simp]:
  "off = length pre \<Longrightarrow> get_u16 (pre @ put_u16 a @ post) off = Inr a"
  "off = length pre \<Longrightarrow> get_u32 (pre @ put_u32 b @ post) off = Inr b"
  "off = length pre \<Longrightarrow> get_u64 (pre @ put_u64 c @ post) off = Inr c"
  by (simp_all add: get_u16_def get_u32_def get_u64_def window_mid be_simps)

lemma get_Inr:
  "off + 2 \<le> length b \<Longrightarrow> \<exists>w. get_u16 b off = Inr w"
  "off + 4 \<le> length b \<Longrightarrow> \<exists>w. get_u32 b off = Inr w"
  "off + 8 \<le> length b \<Longrightarrow> \<exists>w. get_u64 b off = Inr w"
  by (simp_all add: get_u16_def get_u32_def get_u64_def)

section \<open>Go strings\<close>

text \<open>
  A Go string is a byte sequence: a HOL \<open>string\<close> whose characters are its bytes.
  \<open>str_bytes\<close> and \<open>bytes_str\<close> are the conversions \<^verbatim>\<open>[]byte(s)\<close> and
  \<^verbatim>\<open>string(b)\<close>.
\<close>

definition str_bytes :: "string \<Rightarrow> bytes" where
  "str_bytes s = map (\<lambda>c. word_of_nat (of_char c)) s"

definition bytes_str :: "bytes \<Rightarrow> string" where
  "bytes_str b = map (\<lambda>w. char_of (unat w)) b"

lemma length_str_bytes [simp]: "length (str_bytes s) = length s"
  by (simp add: str_bytes_def)

lemma unat_of_char: "unat (word_of_nat (of_char c) :: byte) = of_char c"
  by (simp add: unat_of_nat take_bit_nat_def)

lemma bytes_str_str_bytes [simp]: "bytes_str (str_bytes s) = s"
  by (simp add: str_bytes_def bytes_str_def unat_of_char comp_def)

lemma str_bytes_bytes_str [simp]: "str_bytes (bytes_str b) = b"
  using unat_byte_bound by (simp add: str_bytes_def bytes_str_def comp_def list.map_ident_strong)

lemma str_bytes_inj [simp]: "str_bytes s = str_bytes t \<longleftrightarrow> s = t"
  by (metis bytes_str_str_bytes)

lemma str_bytes_simps [simp]: "str_bytes [] = []" "str_bytes (s @ t) = str_bytes s @ str_bytes t"
  by (simp_all add: str_bytes_def)

section \<open>Byte order\<close>

text \<open>
  Byte strings are ordered as \<^verbatim>\<open>bytes.Compare\<close> orders them; the order of
  \<open>HOL-Library.List_Lexorder\<close> on lists of unsigned words is the same order.
\<close>

fun bytes_compare :: "bytes \<Rightarrow> bytes \<Rightarrow> int" where
  "bytes_compare [] [] = 0"
| "bytes_compare [] (b # bs) = -1"
| "bytes_compare (a # as) [] = 1"
| "bytes_compare (a # as) (b # bs) =
     (if a < b then -1 else if b < a then 1 else bytes_compare as bs)"

lemma bytes_compare_order:
  "bytes_compare a b = 0 \<longleftrightarrow> a = b"
  "bytes_compare a b < 0 \<longleftrightarrow> a < b"
  "bytes_compare a b > 0 \<longleftrightarrow> b < a"
  by (induction a b rule: bytes_compare.induct) auto

lemma lex_append_same: "(as @ xs :: bytes) < as @ ys \<longleftrightarrow> xs < ys"
  by (induction as) auto

lemma lex_append_diff: "length (as :: bytes) = length bs \<Longrightarrow> as \<noteq> bs \<Longrightarrow> as @ xs < bs @ ys \<longleftrightarrow> as < bs"
  by (induction as bs rule: list_induct2) auto

lemma lex_append_snoc:
  "length (as :: bytes) = length bs \<Longrightarrow> as @ [x] < bs @ [y] \<longleftrightarrow> as < bs \<or> as = bs \<and> x < y"
  by (cases "as = bs") (auto simp: lex_append_same lex_append_diff)

lemma be_put_inj: "u < 256 ^ n \<Longrightarrow> v < 256 ^ n \<Longrightarrow> be_put n u = be_put n v \<longleftrightarrow> u = v"
  by (metis be_get_put mod_less)

lemma base256_less:
  "r < 256 \<Longrightarrow> s < 256 \<Longrightarrow> (a < b \<or> a = b \<and> r < s) \<longleftrightarrow> 256 * a + r < 256 * b + (s :: nat)"
  by linarith

text \<open>Big-endian integers of one width are ordered as their values.\<close>

lemma be_put_less: "u < 256 ^ n \<Longrightarrow> v < 256 ^ n \<Longrightarrow> be_put n u < be_put n v \<longleftrightarrow> u < v"
proof (induction n arbitrary: u v)
  case 0
  then show ?case by simp
next
  case (Suc n)
  have q: "u div 256 < 256 ^ n" "v div 256 < 256 ^ n"
    using Suc.prems by (simp_all add: less_mult_imp_div_less mult.commute)
  have m: "(word_of_nat (u mod 256) :: byte) < word_of_nat (v mod 256) \<longleftrightarrow> u mod 256 < v mod 256"
    by (simp add: word_less_nat_alt unat_of_nat take_bit_nat_def)
  have "be_put (Suc n) u < be_put (Suc n) v \<longleftrightarrow>
      u div 256 < v div 256 \<or> u div 256 = v div 256 \<and> u mod 256 < v mod 256"
    using Suc.IH [OF q] be_put_inj [OF q] m by (simp add: lex_append_snoc)
  also have "\<dots> \<longleftrightarrow> 256 * (u div 256) + u mod 256 < 256 * (v div 256) + v mod 256"
    using mod_less_divisor [of 256 u] mod_less_divisor [of 256 v]
    by (intro base256_less) simp_all
  also have "\<dots> \<longleftrightarrow> u < v" by simp
  finally show ?case .
qed

end
