(* ===== verification/SortedMap.thy ===== *)
theory SortedMap
  imports Prelude
begin

text \<open>
  The reference for an ordered store: association lists sorted by key, with
  insertion and deletion, and the contract a store promises its clients.
\<close>

section \<open>Sorted association lists\<close>

abbreviation keys_sorted :: "(bytes \<times> 'v) list \<Rightarrow> bool" where
  "keys_sorted xs \<equiv> sorted_wrt (<) (map fst xs)"

definition al_put :: "bytes \<Rightarrow> 'v \<Rightarrow> (bytes \<times> 'v) list \<Rightarrow> (bytes \<times> 'v) list" where
  "al_put k v xs = takeWhile (\<lambda>x. fst x < k) xs @ (k, v) # dropWhile (\<lambda>x. fst x \<le> k) xs"

definition al_del :: "bytes \<Rightarrow> (bytes \<times> 'v) list \<Rightarrow> (bytes \<times> 'v) list" where
  "al_del k xs = filter (\<lambda>x. fst x \<noteq> k) xs"

lemma keys_sorted_append:
  "keys_sorted (xs @ ys) \<longleftrightarrow> keys_sorted xs \<and> keys_sorted ys \<and> (\<forall>x\<in>set xs. \<forall>y\<in>set ys. fst x < fst y)"
  by (auto simp: sorted_wrt_append)

lemma al_put_Nil [simp]: "al_put k v [] = [(k, v)]"
  by (simp add: al_put_def)

lemma al_put_Cons:
  "al_put k v ((a, b) # xs) =
     (if a < k then (a, b) # al_put k v xs else if a = k then (k, v) # dropWhile (\<lambda>x. fst x \<le> k) xs
      else (k, v) # (a, b) # xs)"
  by (auto simp: al_put_def)

lemma al_put_append_right: "\<forall>x\<in>set xs. fst x < k \<Longrightarrow> al_put k v (xs @ ys) = xs @ al_put k v ys"
  by (induction xs) (auto simp: al_put_Cons)

lemma dropWhile_above: "\<forall>x\<in>set ys. k < fst x \<Longrightarrow> dropWhile (\<lambda>x. fst x \<le> k) ys = ys"
  for k :: bytes
  by (cases ys) (auto simp: not_le [symmetric])

lemma al_put_append_left: "\<forall>y\<in>set ys. k < fst y \<Longrightarrow> al_put k v (xs @ ys) = al_put k v xs @ ys"
proof (induction xs)
  case Nil
  then have "takeWhile (\<lambda>x. fst x < k) ys = []" by (cases ys) auto
  with Nil show ?case by (simp add: al_put_def dropWhile_above)
next
  case (Cons x xs)
  have "dropWhile (\<lambda>x. fst x \<le> k) (xs @ ys) = dropWhile (\<lambda>x. fst x \<le> k) xs @ ys"
    using Cons.prems by (induction xs) (auto simp: dropWhile_above)
  with Cons show ?case by (cases x) (simp add: al_put_Cons)
qed

lemma set_dropWhile_sorted:
  "keys_sorted xs \<Longrightarrow> set (dropWhile (\<lambda>x. fst x \<le> k) xs) = {x \<in> set xs. k < fst x}"
  by (induction xs) (auto dest: order.strict_trans1 order_le_less_trans)

lemma set_takeWhile_sorted:
  "keys_sorted xs \<Longrightarrow> set (takeWhile (\<lambda>x. fst x < k) xs) = {x \<in> set xs. fst x < k}"
  by (induction xs) (auto dest: order.strict_trans)

lemma set_al_put: "keys_sorted xs \<Longrightarrow> set (al_put k v xs) = insert (k, v) {x \<in> set xs. fst x \<noteq> k}"
  by (auto simp: al_put_def set_takeWhile_sorted set_dropWhile_sorted)

lemma keys_sorted_al_put: "keys_sorted xs \<Longrightarrow> keys_sorted (al_put k v xs)"
proof -
  assume s: "keys_sorted xs"
  have "keys_sorted (takeWhile (\<lambda>x. fst x < k) xs)"
    using s by (metis keys_sorted_append takeWhile_dropWhile_id)
  moreover have "keys_sorted (dropWhile (\<lambda>x. fst x \<le> k) xs)"
    using s by (metis keys_sorted_append takeWhile_dropWhile_id)
  ultimately show ?thesis
    by (auto simp: al_put_def sorted_wrt_append set_takeWhile_sorted [OF s] set_dropWhile_sorted [OF s]
        dest: order.strict_trans)
qed

lemma keys_sorted_al_del: "keys_sorted xs \<Longrightarrow> keys_sorted (al_del k xs)"
  by (induction xs) (auto simp: al_del_def)

lemma al_del_append [simp]: "al_del k (xs @ ys) = al_del k xs @ al_del k ys"
  by (simp add: al_del_def)

lemma al_del_absent: "k \<notin> fst ` set xs \<Longrightarrow> al_del k xs = xs"
  by (force simp: al_del_def filter_id_conv)

lemma set_al_del: "set (al_del k xs) = {x \<in> set xs. fst x \<noteq> k}"
  by (auto simp: al_del_def)

lemma option_ext_iff: "(\<And>y. x = Some y \<longleftrightarrow> x' = Some y) \<Longrightarrow> x = x'"
  by (cases x; cases x') auto

lemma map_of_sorted_iff: "keys_sorted xs \<Longrightarrow> map_of xs k = Some v \<longleftrightarrow> (k, v) \<in> set xs"
  by (intro map_of_eq_Some_iff) (auto simp: strict_sorted_iff)

lemma map_of_al_put: "keys_sorted xs \<Longrightarrow> map_of (al_put k v xs) = (map_of xs)(k \<mapsto> v)"
proof (intro ext option_ext_iff)
  fix j w assume s: "keys_sorted xs"
  show "(map_of (al_put k v xs) j = Some w) \<longleftrightarrow> (((map_of xs)(k \<mapsto> v)) j = Some w)"
    unfolding map_of_sorted_iff [OF keys_sorted_al_put [OF s]] set_al_put [OF s]
    using map_of_sorted_iff [OF s, of j w] by auto
qed

lemma map_of_al_del: "map_of (al_del k xs) = (map_of xs)(k := None)"
  by (induction xs) (auto simp: al_del_def)

lemma sorted_map_of_eq:
  assumes "keys_sorted xs" "keys_sorted ys" "map_of xs = map_of ys"
  shows "xs = ys"
proof -
  have "(k, v) \<in> set xs \<longleftrightarrow> (k, v) \<in> set ys" for k v
    using map_of_sorted_iff [OF assms(1), of k v] map_of_sorted_iff [OF assms(2), of k v] assms(3) by simp
  then have "set xs = set ys" by auto
  moreover have "map fst xs = map fst ys"
    using strict_sorted_equal assms(1,2) \<open>set xs = set ys\<close> by (metis image_set)
  moreover have "inj_on fst (set xs \<union> set ys)"
    using map_of_sorted_iff [OF assms(1)] \<open>set xs = set ys\<close> by (intro inj_onI) (metis Un_absorb option.inject prod.collapse)
  ultimately show ?thesis by (simp add: map_inj_on)
qed

lemma al_put_put: "keys_sorted xs \<Longrightarrow> al_put k v (al_put k w xs) = al_put k v xs"
  by (intro sorted_map_of_eq) (simp_all add: keys_sorted_al_put map_of_al_put)

lemma al_put_same: "keys_sorted xs \<Longrightarrow> map_of xs k = Some v \<Longrightarrow> al_put k v xs = xs"
  by (intro sorted_map_of_eq) (auto simp: keys_sorted_al_put map_of_al_put)

lemma al_del_put: "keys_sorted xs \<Longrightarrow> map_of xs k = None \<Longrightarrow> al_del k (al_put k v xs) = xs"
  by (intro sorted_map_of_eq) (auto simp: keys_sorted_al_put keys_sorted_al_del map_of_al_put map_of_al_del)

lemma al_put_del: "keys_sorted xs \<Longrightarrow> map_of xs k = Some v \<Longrightarrow> al_put k v (al_del k xs) = xs"
  by (intro sorted_map_of_eq) (auto simp: keys_sorted_al_put keys_sorted_al_del map_of_al_put map_of_al_del)

section \<open>The contract of an ordered store\<close>

text \<open>
  A store kept in a state \<open>'s\<close> under a handle \<open>'r\<close> (the root page of a tree, which
  an insertion may replace).  \<open>holds s r kvs\<close> says what it contains; \<open>can_put\<close> is
  the condition under which an insertion is promised to work.
\<close>

locale kv_store =
  fixes get :: "'r \<Rightarrow> bytes \<Rightarrow> ('s, bytes) sm"
    and put :: "'r \<Rightarrow> bytes \<Rightarrow> bytes \<Rightarrow> ('s, 'r) sm"
    and del :: "'r \<Rightarrow> bytes \<Rightarrow> ('s, unit) sm"
    and holds :: "'s \<Rightarrow> 'r \<Rightarrow> (bytes \<times> bytes) list \<Rightarrow> bool"
    and can_put :: "'s \<Rightarrow> 'r \<Rightarrow> bytes \<Rightarrow> bytes \<Rightarrow> bool"
  assumes sorted_law: "holds s r kvs \<Longrightarrow> keys_sorted kvs"
    and get_law: "holds s r kvs \<Longrightarrow>
      get r k s = (case map_of kvs k of None \<Rightarrow> (Inl ErrKeyNotFound, s) | Some v \<Rightarrow> (Inr v, s))"
    and put_law: "holds s r kvs \<Longrightarrow> can_put s r k v \<Longrightarrow>
      \<exists>r' s'. put r k v s = (Inr r', s') \<and> holds s' r' (al_put k v kvs)"
    and del_absent_law: "holds s r kvs \<Longrightarrow> map_of kvs k = None \<Longrightarrow> del r k s = (Inl ErrKeyNotFound, s)"
    and del_law: "holds s r kvs \<Longrightarrow> map_of kvs k = Some v \<Longrightarrow>
      \<exists>s'. del r k s = (Inr (), s') \<and> holds s' r (al_del k kvs)"
begin

lemma get_put:
  assumes "holds s r kvs" "can_put s r k v" "put r k v s = (Inr r', s')"
  shows "get r' j s' = (if j = k then (Inr v, s') else (fst (get r j s), s'))"
proof -
  have "holds s' r' (al_put k v kvs)" using put_law [OF assms(1,2)] assms(3) by auto
  then show ?thesis
    using get_law assms(1) sorted_law [OF assms(1)] by (simp add: map_of_al_put split: option.splits)
qed

lemma get_del:
  assumes "holds s r kvs" "del r k s = (Inr (), s')"
  shows "get r j s' = (if j = k then (Inl ErrKeyNotFound, s') else (fst (get r j s), s'))"
proof -
  obtain v where "map_of kvs k = Some v" using del_absent_law [OF assms(1), of k] assms(2) by (cases "map_of kvs k") auto
  from del_law [OF assms(1) this] have "holds s' r (al_del k kvs)" using assms(2) by auto
  then show ?thesis using get_law assms(1) by (simp add: map_of_al_del split: option.splits)
qed

text \<open>Undoing a change brings back the contents.\<close>

lemma undo_insert:
  assumes "holds s r kvs" "map_of kvs k = None" "can_put s r k v" "put r k v s = (Inr r', s')"
  shows "\<exists>s''. del r' k s' = (Inr (), s'') \<and> holds s'' r' kvs"
proof -
  have h: "holds s' r' (al_put k v kvs)" using put_law [OF assms(1,3)] assms(4) by auto
  have s: "keys_sorted kvs" using sorted_law [OF assms(1)] .
  have "map_of (al_put k v kvs) k = Some v" using s by (simp add: map_of_al_put)
  from del_law [OF h this] show ?thesis using al_del_put [OF s assms(2)] by simp
qed

lemma undo_update:
  assumes "holds s r kvs" "map_of kvs k = Some old" "can_put s r k v" "put r k v s = (Inr r', s')" "can_put s' r' k old"
  shows "\<exists>r'' s''. put r' k old s' = (Inr r'', s'') \<and> holds s'' r'' kvs"
proof -
  have h: "holds s' r' (al_put k v kvs)" using put_law [OF assms(1,3)] assms(4) by auto
  have s: "keys_sorted kvs" using sorted_law [OF assms(1)] .
  from put_law [OF h assms(5)] show ?thesis using al_put_put [OF s] al_put_same [OF s assms(2)] by simp
qed

lemma undo_delete:
  assumes "holds s r kvs" "map_of kvs k = Some old" "del r k s = (Inr (), s')" "can_put s' r k old"
  shows "\<exists>r' s''. put r k old s' = (Inr r', s'') \<and> holds s'' r' kvs"
proof -
  have h: "holds s' r (al_del k kvs)" using del_law [OF assms(1,2)] assms(3) by auto
  from put_law [OF h assms(4)] show ?thesis using al_put_del [OF sorted_law [OF assms(1)] assms(2)] by simp
qed

end

end
