(* ===== verification/Pager.thy ===== *)
theory Pager
  imports Prelude
begin

text \<open>
  \<^verbatim>\<open>internal/storage/pager.go\<close>: the file of fixed-size pages, its header page,
  page allocation and the on-disk free list.  The file is its byte contents as
  the operating system shows them to the process; \<open>durable\<close> is the contents the
  last \<^verbatim>\<open>fsync\<close> made permanent.  Writes to an open file succeed.
\<close>

section \<open>State\<close>

abbreviation (input) PageSize :: nat where "PageSize \<equiv> 4096"

definition headerMagic :: "32 word" where "headerMagic = 0x456C6553"
definition headerFormatMajor :: "16 word" where "headerFormatMajor = 1"

abbreviation (input) "hdrMagicOff \<equiv> 0 :: nat"
abbreviation (input) "hdrVersionOff \<equiv> 4 :: nat"
abbreviation (input) "hdrPageCountOff \<equiv> 6 :: nat"
abbreviation (input) "hdrFreeListOff \<equiv> 10 :: nat"
abbreviation (input) "hdrCatalogOff \<equiv> 14 :: nat"

record pager =
  fdata :: bytes
  durable :: bytes
  pageCount :: "32 word"
  freeList :: page_id
  catalog_root :: page_id
  closed :: bool

text \<open>\<^verbatim>\<open>os.File.ReadAt\<close> fails on a short read; \<^verbatim>\<open>WriteAt\<close> extends the file with zeros.\<close>

definition ReadAt :: "bytes \<Rightarrow> nat \<Rightarrow> nat \<Rightarrow> bytes option" where
  "ReadAt f off n = (if off + n \<le> length f then Some (window f off n) else None)"

definition WriteAt :: "bytes \<Rightarrow> nat \<Rightarrow> bytes \<Rightarrow> bytes" where
  "WriteAt f off x = overwrite (f @ replicate (off + length x - length f) 0) off x"

section \<open>Operations\<close>

definition header_buf :: "32 word \<Rightarrow> page_id \<Rightarrow> page_id \<Rightarrow> bytes" where
  "header_buf pc fl cat =
     (let buf = replicate PageSize 0;
          buf = overwrite buf hdrMagicOff (put_u32 headerMagic);
          buf = overwrite buf hdrVersionOff (put_u16 headerFormatMajor);
          buf = overwrite buf hdrPageCountOff (put_u32 pc);
          buf = overwrite buf hdrFreeListOff (put_u32 fl)
      in overwrite buf hdrCatalogOff (put_u32 cat))"

definition writeHeader :: "(pager, unit) sm" where
  "writeHeader p =
     (if closed p then (Inl ErrFileClosed, p)
      else (Inr (), p\<lparr>fdata := WriteAt (fdata p) 0 (header_buf (pageCount p) (freeList p) (catalog_root p))\<rparr>))"

definition readHeader :: "(pager, unit) sm" where
  "readHeader p =
     (case ReadAt (fdata p) 0 PageSize of
        None \<Rightarrow> (Inl ErrReadHeader, p)
      | Some buf \<Rightarrow>
          bind (lift (get_u32 buf hdrMagicOff)) (\<lambda>magic.
            if magic \<noteq> headerMagic then fail ErrBadMagic
            else bind (lift (get_u32 buf hdrPageCountOff)) (\<lambda>pc.
                 bind (lift (get_u32 buf hdrFreeListOff)) (\<lambda>fl.
                 bind (lift (get_u32 buf hdrCatalogOff)) (\<lambda>cat s.
                   (Inr (), s\<lparr>pageCount := pc, freeList := fl, catalog_root := cat\<rparr>))))) p)"

text \<open>\<open>Open\<close> on the contents of the file, empty for a new one.\<close>

definition Open :: "bytes \<Rightarrow> pager result" where
  "Open contents =
     (let p = \<lparr>fdata = contents, durable = contents, pageCount = 0, freeList = 0, catalog_root = 0, closed = False\<rparr>
      in if length contents = 0
         then (case writeHeader (p\<lparr>pageCount := 1\<rparr>) of (r, p') \<Rightarrow> rbind r (\<lambda>_. Inr p'))
         else (case readHeader p of (r, p') \<Rightarrow> rbind r (\<lambda>_. Inr p')))"

definition CatalogRoot :: "pager \<Rightarrow> page_id" where
  "CatalogRoot p = catalog_root p"

definition SetCatalogRoot :: "page_id \<Rightarrow> (pager, unit) sm" where
  "SetCatalogRoot pid p = writeHeader (p\<lparr>catalog_root := pid\<rparr>)"

definition ReadPage :: "page_id \<Rightarrow> (pager, bytes) sm" where
  "ReadPage pid p =
     (if closed p then (Inl ErrClosed, p)
      else (case ReadAt (fdata p) (unat pid * PageSize) PageSize of
              None \<Rightarrow> (Inl (ErrReadPage pid), p)
            | Some buf \<Rightarrow> (Inr buf, p)))"

definition WritePage :: "page_id \<Rightarrow> bytes \<Rightarrow> (pager, unit) sm" where
  "WritePage pid buf p =
     (if length buf \<noteq> PageSize then (Inl ErrPageBufferSize, p)
      else if closed p then (Inl ErrClosed, p)
      else (Inr (), p\<lparr>fdata := WriteAt (fdata p) (unat pid * PageSize) buf\<rparr>))"

definition AllocatePage :: "(pager, page_id) sm" where
  "AllocatePage p =
     (if freeList p \<noteq> 0 then
        (let pid = freeList p
         in bind (ReadPage pid) (\<lambda>buf.
            bind (lift (get_u32 buf 0)) (\<lambda>next.
            bind (\<lambda>s. writeHeader (s\<lparr>freeList := next\<rparr>)) (\<lambda>_.
            bind (WritePage pid (replicate PageSize 0)) (\<lambda>_. ret pid)))) p)
      else
        (let pid = pageCount p
         in bind (\<lambda>s. writeHeader (s\<lparr>pageCount := pageCount s + 1\<rparr>)) (\<lambda>_.
            bind (WritePage pid (replicate PageSize 0)) (\<lambda>_. ret pid)) p))"

definition FreePage :: "page_id \<Rightarrow> (pager, unit) sm" where
  "FreePage pid p =
     (let head = freeList p;
          buf = overwrite (replicate PageSize 0) 0 (put_u32 head)
      in bind (WritePage pid buf) (\<lambda>_ s. writeHeader (s\<lparr>freeList := pid\<rparr>)) p)"

definition Sync :: "(pager, unit) sm" where
  "Sync p = (if closed p then (Inl ErrClosed, p) else (Inr (), p\<lparr>durable := fdata p\<rparr>))"

definition Close :: "(pager, unit) sm" where
  "Close p = (if closed p then (Inr (), p) else (Inr (), p\<lparr>closed := True, durable := fdata p\<rparr>))"

definition PageCount :: "pager \<Rightarrow> 32 word" where
  "PageCount p = pageCount p"

section \<open>Pages and the free list\<close>

definition page :: "pager \<Rightarrow> page_id \<Rightarrow> bytes" where
  "page p pid = window (fdata p) (unat pid * PageSize) PageSize"

definition page_next :: "bytes \<Rightarrow> page_id" where
  "page_next buf = word_of_nat (be_get (window buf 0 4))"

fun free_chain :: "pager \<Rightarrow> page_id \<Rightarrow> page_id list \<Rightarrow> bool" where
  "free_chain p h [] \<longleftrightarrow> h = 0"
| "free_chain p h (x # xs) \<longleftrightarrow> h = x \<and> x \<noteq> 0 \<and> x < pageCount p \<and> free_chain p (page_next (page p x)) xs"

text \<open>
  The invariant of an open pager: the file is exactly its pages, the header page
  holds the fields, and the free list is the chain \<open>fl\<close>.
\<close>

definition pager_inv :: "pager \<Rightarrow> page_id list \<Rightarrow> bool" where
  "pager_inv p fl \<longleftrightarrow> \<not> closed p \<and> 0 < pageCount p \<and>
     length (fdata p) = unat (pageCount p) * PageSize \<and>
     page p 0 = header_buf (pageCount p) (freeList p) (catalog_root p) \<and>
     free_chain p (freeList p) fl \<and> distinct fl"

section \<open>Reading and writing pages\<close>

definition pages_of :: "pager \<Rightarrow> nat" where
  "pages_of p = unat (pageCount p)"

lemma WriteAt_inside: "off + length x \<le> length f \<Longrightarrow> WriteAt f off x = overwrite f off x"
  by (simp add: WriteAt_def)

lemma WriteAt_end: "WriteAt f (length f) x = f @ x"
  by (simp add: WriteAt_def overwrite_def)

lemma page_bounds: "pid < pageCount p \<Longrightarrow> length (fdata p) = unat (pageCount p) * PageSize \<Longrightarrow>
    unat pid * PageSize + PageSize \<le> length (fdata p)"
  by (simp add: word_less_nat_alt)

lemma length_page: "pid < pageCount p \<Longrightarrow> length (fdata p) = unat (pageCount p) * PageSize \<Longrightarrow>
    length (page p pid) = PageSize"
  using page_bounds [of pid p] by (simp add: page_def)

lemma ReadPage_ok:
  "\<not> closed p \<Longrightarrow> pid < pageCount p \<Longrightarrow> length (fdata p) = unat (pageCount p) * PageSize \<Longrightarrow>
   ReadPage pid p = (Inr (page p pid), p)"
  using page_bounds [of pid p] by (simp add: ReadPage_def ReadAt_def page_def)

definition set_page :: "page_id \<Rightarrow> bytes \<Rightarrow> pager \<Rightarrow> pager" where
  "set_page pid buf p = p\<lparr>fdata := overwrite (fdata p) (unat pid * PageSize) buf\<rparr>"

lemma set_page_fields [simp]:
  "durable (set_page pid buf p) = durable p" "pageCount (set_page pid buf p) = pageCount p"
  "freeList (set_page pid buf p) = freeList p" "catalog_root (set_page pid buf p) = catalog_root p"
  "closed (set_page pid buf p) = closed p"
  by (simp_all add: set_page_def)

lemma WritePage_ok:
  "\<not> closed p \<Longrightarrow> pid < pageCount p \<Longrightarrow> length (fdata p) = unat (pageCount p) * PageSize \<Longrightarrow>
   length buf = PageSize \<Longrightarrow> WritePage pid buf p = (Inr (), set_page pid buf p)"
  using page_bounds [of pid p] by (simp add: WritePage_def WriteAt_inside set_page_def)

lemma length_set_page [simp]:
  "pid < pageCount p \<Longrightarrow> length (fdata p) = unat (pageCount p) * PageSize \<Longrightarrow> length buf = PageSize \<Longrightarrow>
   length (fdata (set_page pid buf p)) = unat (pageCount p) * PageSize"
  using page_bounds [of pid p] by (simp add: set_page_def)

lemma page_set_page:
  assumes "pid < pageCount p" "j < pageCount p" "length (fdata p) = unat (pageCount p) * PageSize"
    and "length buf = PageSize"
  shows "page (set_page pid buf p) j = (if j = pid then buf else page p j)"
proof (cases "j = pid")
  case True
  then show ?thesis
    using page_bounds [OF assms(1,3)] assms(4)
    by (simp add: page_def set_page_def window_overwrite_same)
next
  case False
  then have "unat j < unat pid \<or> unat pid < unat j" by (metis linorder_neqE_nat word_unat_eq_iff)
  then have "unat j * PageSize + PageSize \<le> unat pid * PageSize \<or>
      unat pid * PageSize + length buf \<le> unat j * PageSize"
    using assms(4) by linarith
  with False show ?thesis
    using page_bounds [OF assms(1,3)] page_bounds [OF assms(2,3)] assms(4)
    by (simp add: page_def set_page_def window_overwrite_disjoint)
qed

lemma length_header_buf [simp]: "length (header_buf pc fl cat) = PageSize"
  by (simp add: header_buf_def Let_def)

lemma writeHeader_ok:
  "\<not> closed p \<Longrightarrow> PageSize \<le> length (fdata p) \<Longrightarrow>
   writeHeader p = (Inr (), set_page 0 (header_buf (pageCount p) (freeList p) (catalog_root p)) p)"
  by (simp add: writeHeader_def set_page_def WriteAt_inside)

section \<open>The header page\<close>

lemma header_fields:
  "window (header_buf pc fl cat) hdrMagicOff 4 = put_u32 headerMagic"
  "window (header_buf pc fl cat) hdrPageCountOff 4 = put_u32 pc"
  "window (header_buf pc fl cat) hdrFreeListOff 4 = put_u32 fl"
  "window (header_buf pc fl cat) hdrCatalogOff 4 = put_u32 cat"
  by (simp_all add: header_buf_def Let_def window_overwrite_disjoint window_overwrite_same)

lemma get_header_fields [simp]:
  "get_u32 (header_buf pc fl cat) hdrMagicOff = Inr headerMagic"
  "get_u32 (header_buf pc fl cat) hdrPageCountOff = Inr pc"
  "get_u32 (header_buf pc fl cat) hdrFreeListOff = Inr fl"
  "get_u32 (header_buf pc fl cat) hdrCatalogOff = Inr cat"
  by (simp_all add: get_u32_def header_fields be_simps)

lemma readHeader_header:
  assumes "PageSize \<le> length (fdata p)" "window (fdata p) 0 PageSize = header_buf pc fl cat"
  shows "readHeader p = (Inr (), p\<lparr>pageCount := pc, freeList := fl, catalog_root := cat\<rparr>)"
  using assms by (simp add: readHeader_def ReadAt_def)

section \<open>The invariant\<close>

lemma pager_invD:
  assumes "pager_inv p fl"
  shows "\<not> closed p" "0 < pageCount p" "length (fdata p) = unat (pageCount p) * PageSize"
    "free_chain p (freeList p) fl" "distinct fl"
    "page p 0 = header_buf (pageCount p) (freeList p) (catalog_root p)"
  using assms by (simp_all add: pager_inv_def)

lemma pager_inv_file: "pager_inv p fl \<Longrightarrow> PageSize \<le> length (fdata p)"
  using word_gt_0 by (auto simp: pager_inv_def word_less_nat_alt)

lemma free_chain_members: "free_chain p h fl \<Longrightarrow> x \<in> set fl \<Longrightarrow> x \<noteq> 0 \<and> x < pageCount p"
  by (induction p h fl rule: free_chain.induct) auto

lemma free_chain_cong:
  "free_chain p h fl \<Longrightarrow> pageCount p \<le> pageCount q \<Longrightarrow> (\<And>x. x \<in> set fl \<Longrightarrow> page q x = page p x) \<Longrightarrow>
   free_chain q h fl"
  by (induction p h fl rule: free_chain.induct) auto

lemma pager_inv_frame:
  assumes "pager_inv p fl" "\<not> closed q" "pageCount p \<le> pageCount q"
    and "length (fdata q) = unat (pageCount q) * PageSize"
    and "page q 0 = header_buf (pageCount q) (freeList q) (catalog_root q)"
    and "freeList q = freeList p" "\<And>x. x \<in> set fl \<Longrightarrow> page q x = page p x"
  shows "pager_inv q fl"
proof -
  have "free_chain q (freeList p) fl"
    using free_chain_cong [OF pager_invD(4) [OF assms(1)] assms(3)] assms(7) by blast
  with assms show ?thesis using pager_invD(2) [OF assms(1)] by (auto simp: pager_inv_def)
qed

text \<open>Writing a page that is neither the header nor free keeps the invariant.\<close>

lemma pager_inv_set_page:
  assumes "pager_inv p fl" "pid \<noteq> 0" "pid \<notin> set fl" "pid < pageCount p" "length buf = PageSize"
  shows "pager_inv (set_page pid buf p) fl"
proof (rule pager_inv_frame [OF assms(1)])
  note inv = pager_invD [OF assms(1)]
  show "page (set_page pid buf p) 0 =
      header_buf (pageCount (set_page pid buf p)) (freeList (set_page pid buf p)) (catalog_root (set_page pid buf p))"
    using inv assms by (simp add: page_set_page)
  fix x assume "x \<in> set fl"
  then have "x < pageCount p" "x \<noteq> pid" using free_chain_members [OF inv(4)] assms(3) by auto
  then show "page (set_page pid buf p) x = page p x" using inv assms by (simp add: page_set_page)
qed (use assms pager_invD [OF assms(1)] in simp_all)

text \<open>Rewriting the header page for a new value of its fields.\<close>

lemma page_header_update:
  assumes "pager_inv p fl" "j < pageCount p" "pageCount q = pageCount p" "fdata q = fdata p"
  shows "page (set_page 0 (header_buf a b c) q) j = (if j = 0 then header_buf a b c else page p j)"
proof -
  have "0 < pageCount q" using assms pager_invD(2) by simp
  then have "page (set_page 0 (header_buf a b c) q) j = (if j = 0 then header_buf a b c else page q j)"
    using assms pager_invD(3) [OF assms(1)] by (intro page_set_page) simp_all
  then show ?thesis using assms by (simp add: page_def)
qed

lemma SetCatalogRoot_ok:
  assumes "pager_inv p fl"
  obtains q where "SetCatalogRoot r p = (Inr (), q)" "pager_inv q fl" "catalog_root q = r"
    "pageCount q = pageCount p" "freeList q = freeList p" "\<And>j. j \<noteq> 0 \<Longrightarrow> j < pageCount p \<Longrightarrow> page q j = page p j"
proof -
  note inv = pager_invD [OF assms]
  define q where "q = set_page 0 (header_buf (pageCount p) (freeList p) r) (p\<lparr>catalog_root := r\<rparr>)"
  have pq: "page q j = (if j = 0 then header_buf (pageCount p) (freeList p) r else page p j)"
    if "j < pageCount p" for j
    using that unfolding q_def by (intro page_header_update [OF assms]) simp_all
  have "SetCatalogRoot r p = (Inr (), q)"
    using inv pager_inv_file [OF assms] by (simp add: SetCatalogRoot_def writeHeader_ok q_def)
  moreover have "pager_inv q fl"
  proof (rule pager_inv_frame [OF assms])
    show "length (fdata q) = unat (pageCount q) * PageSize"
      using inv by (simp add: q_def)
    show "page q x = page p x" if "x \<in> set fl" for x
      using free_chain_members [OF inv(4) that] pq by simp
  qed (use inv pq [of 0] in \<open>simp_all add: q_def\<close>)
  ultimately show thesis
    by (rule that) (use pq in \<open>simp_all add: q_def\<close>)
qed

section \<open>Allocation\<close>

lemma get_u32_page_next: "length buf = PageSize \<Longrightarrow> get_u32 buf 0 = Inr (page_next buf)"
  by (simp add: get_u32_def page_next_def)

lemma AllocatePage_reuse:
  assumes "pager_inv p (x # xs)"
  obtains q where "AllocatePage p = (Inr x, q)" "pager_inv q xs" "pageCount q = pageCount p"
    "catalog_root q = catalog_root p" "page q x = replicate PageSize 0"
    "\<And>j. j \<noteq> 0 \<Longrightarrow> j \<noteq> x \<Longrightarrow> j < pageCount p \<Longrightarrow> page q j = page p j"
proof -
  note inv = pager_invD [OF assms]
  have x: "freeList p = x" "x \<noteq> 0" "x < pageCount p" "free_chain p (page_next (page p x)) xs" "x \<notin> set xs"
    using inv(4,5) by auto
  let ?n = "page_next (page p x)"
  define h where "h = set_page 0 (header_buf (pageCount p) ?n (catalog_root p)) (p\<lparr>freeList := ?n\<rparr>)"
  define q where "q = set_page x (replicate PageSize 0) h"
  have ph: "page h j = (if j = 0 then header_buf (pageCount p) ?n (catalog_root p) else page p j)"
    if "j < pageCount p" for j
    using that unfolding h_def by (intro page_header_update [OF assms]) simp_all
  have h: "pageCount h = pageCount p" "\<not> closed h" "length (fdata h) = unat (pageCount p) * PageSize"
    using inv by (simp_all add: h_def)
  have pq: "page q j = (if j = x then replicate PageSize 0 else page h j)" if "j < pageCount p" for j
    using that x h unfolding q_def by (subst page_set_page) simp_all
  have r: "ReadPage x p = (Inr (page p x), p)" "length (page p x) = PageSize"
    using inv x by (simp_all add: ReadPage_ok length_page)
  have w: "WritePage x (replicate PageSize 0) h = (Inr (), q)"
    using h x by (simp add: WritePage_ok q_def)
  have hd: "writeHeader (p\<lparr>freeList := ?n\<rparr>) = (Inr (), h)"
    using inv pager_inv_file [OF assms] by (simp add: writeHeader_ok h_def)
  have "AllocatePage p = (Inr x, q)"
    using x hd w by (simp add: AllocatePage_def Let_def bind_def r(1) get_u32_page_next [OF r(2)])
  moreover have "free_chain q ?n xs"
    by (rule free_chain_cong [OF x(4)])
      (use free_chain_members [OF x(4)] pq ph x(5) h in \<open>auto simp: q_def\<close>)
  then have "pager_inv q xs"
    using inv h x pq [of 0] ph [of 0] by (auto simp: pager_inv_def q_def h_def)
  ultimately show thesis
    by (rule that) (use pq ph x h in \<open>auto simp: q_def h_def\<close>)
qed

lemma page_append: "j < pageCount p \<Longrightarrow> length (fdata p) = unat (pageCount p) * PageSize \<Longrightarrow>
    page (p\<lparr>fdata := fdata p @ x\<rparr>) j = page p j"
  using page_bounds [of j p] by (simp add: page_def window_append_left)

lemma AllocatePage_extend:
  assumes "pager_inv p []" "unat (pageCount p) + 1 < 2 ^ 32"
  obtains q where "AllocatePage p = (Inr (pageCount p), q)" "pager_inv q []"
    "pageCount q = pageCount p + 1" "catalog_root q = catalog_root p"
    "page q (pageCount p) = replicate PageSize 0"
    "\<And>j. j \<noteq> 0 \<Longrightarrow> j < pageCount p \<Longrightarrow> page q j = page p j"
proof -
  note inv = pager_invD [OF assms(1)]
  let ?n = "pageCount p"
  have n: "unat (?n + 1) = unat ?n + 1" using assms(2) by (simp add: unat_word_ariths)
  define p1 where "p1 = p\<lparr>pageCount := ?n + 1\<rparr>"
  let ?H = "header_buf (?n + 1) (freeList p) (catalog_root p)"
  define h where "h = set_page 0 ?H p1"
  define q where "q = h\<lparr>fdata := fdata h @ replicate PageSize 0\<rparr>"
  have fh: "fdata h = fdata (set_page 0 ?H p)" by (simp add: h_def p1_def set_page_def)
  then have lh: "length (fdata h) = unat ?n * PageSize" using inv by simp
  have ph: "page h j = (if j = 0 then ?H else page p j)" if "j < ?n" for j
  proof -
    have "page h j = page (set_page 0 ?H p) j" by (simp add: page_def fh)
    then show ?thesis using page_header_update [OF assms(1) that] by simp
  qed
  have pq: "page q j = page h j" if "j < ?n" for j
    using page_bounds [OF that inv(3)] lh inv(3) by (simp add: page_def q_def window_append_left)
  have pn: "page q ?n = replicate PageSize 0"
    by (simp add: page_def q_def window_def lh)
  have "writeHeader p1 = (Inr (), h)"
    using inv pager_inv_file [OF assms(1)] by (simp add: writeHeader_ok h_def p1_def)
  moreover have "WritePage ?n (replicate PageSize 0) h = (Inr (), q)"
    using inv lh WriteAt_end [of "fdata h"] by (simp add: WritePage_def q_def h_def p1_def)
  ultimately have "AllocatePage p = (Inr ?n, q)"
    using inv(4) by (simp add: AllocatePage_def Let_def bind_def p1_def)
  moreover have "pager_inv q []"
    using inv pq [of 0] ph [of 0] lh n by (simp add: pager_inv_def q_def h_def p1_def word_less_nat_alt)
  ultimately show thesis
    by (rule that) (use pq ph pn in \<open>auto simp: q_def h_def p1_def\<close>)
qed

text \<open>
  One statement for both sources of pages: a fresh page is neither the header, nor
  in use, and the pages in use keep their contents.
\<close>

definition fresh_page :: "pager \<Rightarrow> page_id list \<Rightarrow> page_id \<Rightarrow> bool" where
  "fresh_page p fl pid \<longleftrightarrow> pid \<noteq> 0 \<and> (pid \<in> set fl \<or> pid = pageCount p)"

lemma AllocatePage_ok:
  assumes "pager_inv p fl" "unat (pageCount p) + 1 < 2 ^ 32"
  obtains pid q fl' where "AllocatePage p = (Inr pid, q)" "pager_inv q fl'" "fresh_page p fl pid"
    "set fl' = set fl - {pid}" "pid < pageCount q" "pageCount p \<le> pageCount q"
    "unat (pageCount q) \<le> unat (pageCount p) + 1" "catalog_root q = catalog_root p"
    "page q pid = replicate PageSize 0"
    "\<And>j. j \<noteq> 0 \<Longrightarrow> j \<noteq> pid \<Longrightarrow> j < pageCount p \<Longrightarrow> page q j = page p j"
proof (cases fl)
  case Nil
  have n: "unat (pageCount p + 1) = unat (pageCount p) + 1" using assms(2) by (simp add: unat_word_ariths)
  obtain q where "AllocatePage p = (Inr (pageCount p), q)" "pager_inv q []"
    "pageCount q = pageCount p + 1" "catalog_root q = catalog_root p"
    "page q (pageCount p) = replicate PageSize 0"
    "\<And>j. j \<noteq> 0 \<Longrightarrow> j < pageCount p \<Longrightarrow> page q j = page p j"
    using AllocatePage_extend assms Nil by blast
  with n Nil show thesis
    using pager_invD(2) [OF assms(1)]
    by (intro that [of "pageCount p" q "[]"]) (auto simp: fresh_page_def word_less_nat_alt word_le_nat_alt)
next
  case (Cons x xs)
  obtain q where q: "AllocatePage p = (Inr x, q)" "pager_inv q xs" "pageCount q = pageCount p"
    "catalog_root q = catalog_root p" "page q x = replicate PageSize 0"
    "\<And>j. j \<noteq> 0 \<Longrightarrow> j \<noteq> x \<Longrightarrow> j < pageCount p \<Longrightarrow> page q j = page p j"
    using AllocatePage_reuse assms Cons by blast
  have "x \<noteq> 0" "x < pageCount p" "x \<notin> set xs"
    using pager_invD(4,5) [OF assms(1)] Cons by auto
  with q Cons show thesis
    by (intro that [of x q xs]) (auto simp: fresh_page_def)
qed

section \<open>Freeing and reopening\<close>

lemma page_next_free_buf [simp]: "page_next (overwrite (replicate PageSize 0) 0 (put_u32 h)) = h"
  by (simp add: page_next_def window_overwrite_same be_simps)

lemma FreePage_ok:
  assumes "pager_inv p fl" "pid \<noteq> 0" "pid < pageCount p" "pid \<notin> set fl"
  obtains q where "FreePage pid p = (Inr (), q)" "pager_inv q (pid # fl)" "pageCount q = pageCount p"
    "\<And>j. j \<noteq> 0 \<Longrightarrow> j \<noteq> pid \<Longrightarrow> j < pageCount p \<Longrightarrow> page q j = page p j"
proof -
  let ?b = "overwrite (replicate PageSize 0) 0 (put_u32 (freeList p)) :: bytes"
  define w where "w = set_page pid ?b p"
  have iw: "pager_inv w fl" unfolding w_def by (rule pager_inv_set_page [OF assms(1,2,4,3)]) simp
  note inv = pager_invD [OF assms(1)] and invw = pager_invD [OF iw]
  have pw: "page w j = (if j = pid then ?b else page p j)" if "j < pageCount p" for j
    unfolding w_def by (rule page_set_page) (use inv assms that in simp_all)
  let ?H = "header_buf (pageCount p) pid (catalog_root p)"
  define q where "q = set_page 0 ?H (w\<lparr>freeList := pid\<rparr>)"
  have pq: "page q j = (if j = 0 then ?H else page w j)" if "j < pageCount p" for j
    using that unfolding q_def by (intro page_header_update [OF iw]) (simp_all add: w_def)
  have "FreePage pid p = (Inr (), q)"
    using inv assms invw pager_inv_file [OF iw]
    by (simp add: FreePage_def Let_def bind_def WritePage_ok w_def [symmetric] writeHeader_ok)
      (simp add: q_def w_def)
  moreover have "free_chain q (freeList p) fl"
    by (rule free_chain_cong [OF inv(4)])
      (use free_chain_members [OF inv(4)] pq pw assms(4) in \<open>auto simp: q_def w_def\<close>)
  then have "pager_inv q (pid # fl)"
    using assms inv pq [of 0] pq [of pid] pw [of pid] invw
    by (auto simp: pager_inv_def q_def w_def)
  ultimately show thesis
    by (rule that) (use pq pw in \<open>auto simp: q_def w_def\<close>)
qed

text \<open>The pager of a new, empty file.\<close>

definition new_pager :: pager where
  "new_pager = \<lparr>fdata = header_buf 1 0 0, durable = [], pageCount = 1, freeList = 0, catalog_root = 0,
     closed = False\<rparr>"

lemma Open_new: "Open [] = Inr new_pager"
  by (simp add: Open_def Let_def writeHeader_def WriteAt_def overwrite_def new_pager_def)

lemma pager_inv_new: "pager_inv new_pager []"
  by (simp add: pager_inv_def page_def window_def new_pager_def)

lemma Open_reopen:
  assumes "pager_inv p fl"
  shows "Open (fdata p) = Inr (p\<lparr>durable := fdata p\<rparr>)"
proof -
  have ne: "fdata p \<noteq> []" using pager_inv_file [OF assms] by auto
  have "window (fdata p) 0 PageSize = header_buf (pageCount p) (freeList p) (catalog_root p)"
    using pager_invD(6) [OF assms] by (simp add: page_def)
  then show ?thesis
    using ne pager_inv_file [OF assms] pager_invD(1) [OF assms]
    by (simp add: Open_def Let_def readHeader_header)
qed

section \<open>The allocator contract\<close>

text \<open>
  What users of the pager rely on.  \<open>owned s A\<close> says that \<open>A\<close> is a set of pages
  handed out and not freed; \<open>room\<close> bounds how many more the file format can number.
\<close>

locale page_allocator =
  fixes alloc :: "('s, page_id) sm"
    and release :: "page_id \<Rightarrow> ('s, unit) sm"
    and store :: "page_id \<Rightarrow> bytes \<Rightarrow> ('s, unit) sm"
    and load :: "page_id \<Rightarrow> ('s, bytes) sm"
    and owned :: "'s \<Rightarrow> page_id set \<Rightarrow> bool"
    and contents :: "'s \<Rightarrow> page_id \<Rightarrow> bytes"
    and room :: "'s \<Rightarrow> nat"
  assumes alloc_law: "owned s A \<Longrightarrow> 0 < room s \<Longrightarrow> \<exists>x s'. alloc s = (Inr x, s') \<and> x \<notin> A \<and>
      owned s' (insert x A) \<and> room s \<le> room s' + 1 \<and> (\<forall>j\<in>A. contents s' j = contents s j)"
    and release_law: "owned s A \<Longrightarrow> x \<in> A \<Longrightarrow> \<exists>s'. release x s = (Inr (), s') \<and>
      owned s' (A - {x}) \<and> (\<forall>j\<in>A - {x}. contents s' j = contents s j)"
    and store_law: "owned s A \<Longrightarrow> x \<in> A \<Longrightarrow> length b = PageSize \<Longrightarrow> \<exists>s'. store x b s = (Inr (), s') \<and>
      owned s' A \<and> contents s' x = b \<and> (\<forall>j\<in>A - {x}. contents s' j = contents s j)"
    and load_law: "owned s A \<Longrightarrow> x \<in> A \<Longrightarrow> load x s = (Inr (contents s x), s)"
begin

text \<open>A page written and then read back, with any number of allocations between.\<close>

primrec alloc_many :: "nat \<Rightarrow> ('s, page_id list) sm" where
  "alloc_many 0 = ret []"
| "alloc_many (Suc n) = bind alloc (\<lambda>x. bind (alloc_many n) (\<lambda>xs. ret (x # xs)))"

lemma alloc_many_distinct:
  "owned s A \<Longrightarrow> n \<le> room s \<Longrightarrow> \<exists>xs s'. alloc_many n s = (Inr xs, s') \<and> length xs = n \<and> distinct xs \<and>
     set xs \<inter> A = {} \<and> owned s' (A \<union> set xs) \<and> (\<forall>j\<in>A. contents s' j = contents s j)"
proof (induction n arbitrary: s A)
  case 0
  then show ?case by (simp add: ret_def)
next
  case (Suc n)
  then obtain x s1 where 1: "alloc s = (Inr x, s1)" "x \<notin> A" "owned s1 (insert x A)"
    "room s \<le> room s1 + 1" "\<forall>j\<in>A. contents s1 j = contents s j"
    using alloc_law [of s A] by auto
  then have "n \<le> room s1" using Suc.prems by simp
  then obtain xs s2 where 2: "alloc_many n s1 = (Inr xs, s2)" "length xs = n" "distinct xs"
    "set xs \<inter> insert x A = {}" "owned s2 (insert x A \<union> set xs)"
    "\<forall>j\<in>insert x A. contents s2 j = contents s1 j"
    using Suc.IH [OF 1(3)] by blast
  then show ?case using 1 by (auto simp: bind_def intro!: exI [of _ "x # xs"] exI [of _ s2])
qed

lemma store_load_across_allocs:
  assumes "owned s A" "x \<in> A" "length b = PageSize" "store x b s = (Inr (), s1)"
    and "n \<le> room s1" "alloc_many n s1 = (Inr xs, s2)"
  shows "load x s2 = (Inr b, s2)"
proof -
  have "owned s1 A" "contents s1 x = b" using store_law [OF assms(1-3)] assms(4) by auto
  then have "owned s2 (A \<union> set xs)" "contents s2 x = b"
    using alloc_many_distinct [OF _ assms(5), of A] assms(2,6) by auto
  then show ?thesis using load_law [of s2 "A \<union> set xs" x] assms(2) by simp
qed

end

definition pager_owned :: "pager \<Rightarrow> page_id set \<Rightarrow> bool" where
  "pager_owned p A \<longleftrightarrow> (\<exists>fl. pager_inv p fl \<and> A \<inter> set fl = {} \<and> 0 \<notin> A \<and> (\<forall>x\<in>A. x < pageCount p))"

definition pager_room :: "pager \<Rightarrow> nat" where
  "pager_room p = 2 ^ 32 - 1 - unat (pageCount p)"

lemma pager_alloc_law:
  assumes "pager_owned p A" "0 < pager_room p"
  shows "\<exists>x q. AllocatePage p = (Inr x, q) \<and> x \<notin> A \<and> pager_owned q (insert x A) \<and>
    pager_room p \<le> pager_room q + 1 \<and> (\<forall>j\<in>A. page q j = page p j)"
proof -
  obtain fl where fl: "pager_inv p fl" "A \<inter> set fl = {}" "0 \<notin> A" "\<forall>x\<in>A. x < pageCount p"
    using assms(1) by (auto simp: pager_owned_def)
  have "unat (pageCount p) + 1 < 2 ^ 32" using assms(2) by (simp add: pager_room_def)
  from AllocatePage_ok [OF fl(1) this] obtain x q fl' where
    q: "AllocatePage p = (Inr x, q)" "pager_inv q fl'" "fresh_page p fl x" "set fl' = set fl - {x}"
      "x < pageCount q" "pageCount p \<le> pageCount q" "unat (pageCount q) \<le> unat (pageCount p) + 1"
      "\<And>j. j \<noteq> 0 \<Longrightarrow> j \<noteq> x \<Longrightarrow> j < pageCount p \<Longrightarrow> page q j = page p j"
    by metis
  have x: "x \<notin> A" "x \<noteq> 0" using q(3) fl by (auto simp: fresh_page_def)
  have "pager_owned q (insert x A)"
    unfolding pager_owned_def using q fl x by (intro exI [of _ fl']) auto
  moreover have "page q j = page p j" if "j \<in> A" for j
    by (rule q(8)) (use fl x that in auto)
  moreover have "pager_room p \<le> pager_room q + 1" using q(7) by (simp add: pager_room_def)
  ultimately show ?thesis using q(1) x(1) by blast
qed

lemma pager_release_law:
  assumes "pager_owned p A" "x \<in> A"
  shows "\<exists>q. FreePage x p = (Inr (), q) \<and> pager_owned q (A - {x}) \<and> (\<forall>j\<in>A - {x}. page q j = page p j)"
proof -
  obtain fl where fl: "pager_inv p fl" "A \<inter> set fl = {}" "0 \<notin> A" "\<forall>x\<in>A. x < pageCount p"
    using assms(1) by (auto simp: pager_owned_def)
  have x: "x \<noteq> 0" "x < pageCount p" "x \<notin> set fl" using fl assms(2) by auto
  from FreePage_ok [OF fl(1) x] obtain q where
    q: "FreePage x p = (Inr (), q)" "pager_inv q (x # fl)" "pageCount q = pageCount p"
      "\<And>j. j \<noteq> 0 \<Longrightarrow> j \<noteq> x \<Longrightarrow> j < pageCount p \<Longrightarrow> page q j = page p j"
    by metis
  have "pager_owned q (A - {x})"
    unfolding pager_owned_def using q fl x by (intro exI [of _ "x # fl"]) auto
  moreover have "page q j = page p j" if "j \<in> A - {x}" for j
    by (rule q(4)) (use fl that in auto)
  ultimately show ?thesis using q(1) by blast
qed

lemma pager_store_law:
  assumes "pager_owned p A" "x \<in> A" "length b = PageSize"
  shows "WritePage x b p = (Inr (), set_page x b p)" "pager_owned (set_page x b p) A"
    "page (set_page x b p) x = b" "\<And>j. j \<in> A - {x} \<Longrightarrow> page (set_page x b p) j = page p j"
proof -
  obtain fl where fl: "pager_inv p fl" "A \<inter> set fl = {}" "0 \<notin> A" "\<forall>x\<in>A. x < pageCount p"
    using assms(1) by (auto simp: pager_owned_def)
  note inv = pager_invD [OF fl(1)]
  have x: "x \<noteq> 0" "x \<notin> set fl" "x < pageCount p" using fl assms(2) by auto
  show "WritePage x b p = (Inr (), set_page x b p)" using inv x assms(3) by (simp add: WritePage_ok)
  show "pager_owned (set_page x b p) A"
    unfolding pager_owned_def
    using pager_inv_set_page [OF fl(1) x assms(3)] fl by (intro exI [of _ fl]) simp
  show "page (set_page x b p) x = b" using inv x assms(3) by (simp add: page_set_page)
  show "page (set_page x b p) j = page p j" if "j \<in> A - {x}" for j
    using inv x assms(3) fl that by (simp add: page_set_page)
qed

interpretation pga: page_allocator AllocatePage FreePage WritePage ReadPage pager_owned page pager_room
proof unfold_locales
  show "pager_owned p A \<Longrightarrow> 0 < pager_room p \<Longrightarrow> \<exists>x q. AllocatePage p = (Inr x, q) \<and> x \<notin> A \<and>
      pager_owned q (insert x A) \<and> pager_room p \<le> pager_room q + 1 \<and> (\<forall>j\<in>A. page q j = page p j)" for p A
    by (rule pager_alloc_law)
  show "pager_owned p A \<Longrightarrow> x \<in> A \<Longrightarrow> \<exists>q. FreePage x p = (Inr (), q) \<and> pager_owned q (A - {x}) \<and>
      (\<forall>j\<in>A - {x}. page q j = page p j)" for p A x
    by (rule pager_release_law)
  show "pager_owned p A \<Longrightarrow> x \<in> A \<Longrightarrow> length b = PageSize \<Longrightarrow> \<exists>q. WritePage x b p = (Inr (), q) \<and>
      pager_owned q A \<and> page q x = b \<and> (\<forall>j\<in>A - {x}. page q j = page p j)" for p A x b
    using pager_store_law [of p A x b] by blast
  show "pager_owned p A \<Longrightarrow> x \<in> A \<Longrightarrow> ReadPage x p = (Inr (page p x), p)" for p A x
    unfolding pager_owned_def by (auto dest: pager_invD intro: ReadPage_ok)
qed

section \<open>Runs of the pager\<close>

text \<open>
  A pager in use: pages are allocated, written, freed, the catalog root is moved, and
  the process may stop and reopen the file at any time.  The second component is
  the set of pages its users hold.
\<close>

inductive pager_step :: "pager \<times> page_id set \<Rightarrow> pager \<times> page_id set \<Rightarrow> bool" where
  step_alloc: "0 < pager_room p \<Longrightarrow> AllocatePage p = (Inr x, q) \<Longrightarrow> pager_step (p, A) (q, insert x A)"
| step_free: "x \<in> A \<Longrightarrow> FreePage x p = (Inr (), q) \<Longrightarrow> pager_step (p, A) (q, A - {x})"
| step_write: "x \<in> A \<Longrightarrow> WritePage x b p = (Inr (), q) \<Longrightarrow> pager_step (p, A) (q, A)"
| step_root: "SetCatalogRoot r p = (Inr (), q) \<Longrightarrow> pager_step (p, A) (q, A)"
| step_sync: "Sync p = (Inr (), q) \<Longrightarrow> pager_step (p, A) (q, A)"
| step_reopen: "Open (fdata p) = Inr q \<Longrightarrow> pager_step (p, A) (q, A)"

inductive pager_reachable :: "pager \<times> page_id set \<Rightarrow> bool" where
  reach_new: "Open [] = Inr p \<Longrightarrow> pager_reachable (p, {})"
| reach_step: "pager_reachable c \<Longrightarrow> pager_step c d \<Longrightarrow> pager_reachable d"

lemma pager_owned_cong:
  assumes "pager_owned p A" "fdata q = fdata p" "pageCount q = pageCount p" "freeList q = freeList p"
    "catalog_root q = catalog_root p" "closed q = closed p"
  shows "pager_owned q A"
proof -
  obtain fl where fl: "pager_inv p fl" "A \<inter> set fl = {}" "0 \<notin> A" "\<forall>x\<in>A. x < pageCount p"
    using assms(1) by (auto simp: pager_owned_def)
  have "pager_inv q fl"
    by (rule pager_inv_frame [OF fl(1)]) (use pager_invD [OF fl(1)] assms in \<open>simp_all add: page_def\<close>)
  then show ?thesis using fl assms unfolding pager_owned_def by auto
qed

lemma pager_owned_root:
  assumes "pager_owned p A" "SetCatalogRoot r p = (Inr (), q)"
  shows "pager_owned q A"
proof -
  obtain fl where fl: "pager_inv p fl" "A \<inter> set fl = {}" "0 \<notin> A" "\<forall>x\<in>A. x < pageCount p"
    using assms(1) by (auto simp: pager_owned_def)
  from SetCatalogRoot_ok [OF fl(1), of r] assms(2) have "pager_inv q fl" "pageCount q = pageCount p"
    by (metis prod.inject)+
  then show ?thesis using fl unfolding pager_owned_def by auto
qed

lemma pager_step_owned:
  assumes "pager_step c d" "pager_owned (fst c) (snd c)"
  shows "pager_owned (fst d) (snd d)"
  using assms
proof (cases rule: pager_step.cases)
  case (step_alloc p x q A)
  then show ?thesis using pager_alloc_law [of p A] assms(2) by auto
next
  case (step_free x A p q)
  then show ?thesis using pager_release_law [of p A x] assms(2) by auto
next
  case (step_write x A b p q)
  then have "length b = PageSize" by (simp add: WritePage_def split: if_splits)
  then show ?thesis using step_write pager_store_law [of p A x b] assms(2) by auto
next
  case (step_root r p q A)
  then show ?thesis using pager_owned_root assms(2) by simp
next
  case (step_sync p q A)
  then show ?thesis
    using assms(2) by (auto simp: Sync_def split: if_splits intro: pager_owned_cong [of p A])
next
  case (step_reopen p q A)
  then obtain fl where "pager_inv p fl" using assms(2) by (auto simp: pager_owned_def)
  then have "q = p\<lparr>durable := fdata p\<rparr>" using Open_reopen step_reopen by simp
  then show ?thesis using assms(2) step_reopen by (auto intro: pager_owned_cong [of p A])
qed

lemma pager_reachable_owned: "pager_reachable c \<Longrightarrow> pager_owned (fst c) (snd c)"
proof (induction rule: pager_reachable.induct)
  case (reach_new p)
  then show ?case using Open_new pager_inv_new by (auto simp: pager_owned_def)
next
  case (reach_step c d)
  then show ?case by (blast intro: pager_step_owned)
qed

text \<open>
  C33: in any run of the pager, restarts included, \<^verbatim>\<open>AllocatePage\<close> succeeds while
  page numbers are left, never hands out the header page or a page still in use, and
  leaves the contents of every page in use alone.
\<close>

theorem AllocatePage_never_in_use:
  assumes "pager_reachable (p, A)" "unat (pageCount p) + 1 < 2 ^ 32"
  shows "\<exists>x q. AllocatePage p = (Inr x, q) \<and> x \<noteq> 0 \<and> x \<notin> A \<and> (\<forall>j\<in>A. ReadPage j q = (fst (ReadPage j p), q))"
proof -
  have o: "pager_owned p A" using pager_reachable_owned [OF assms(1)] by simp
  moreover have "0 < pager_room p" using assms(2) by (simp add: pager_room_def)
  ultimately obtain x q where q: "AllocatePage p = (Inr x, q)" "x \<notin> A" "pager_owned q (insert x A)"
    "\<forall>j\<in>A. page q j = page p j"
    using pager_alloc_law by blast
  then have "x \<noteq> 0" by (auto simp: pager_owned_def)
  moreover have "ReadPage j q = (fst (ReadPage j p), q)" if "j \<in> A" for j
    using that q pga.load_law [OF o that] pga.load_law [OF q(3), of j] by simp
  ultimately show ?thesis using q by blast
qed

lemma new_pager_reachable: "pager_reachable (new_pager, {})"
  by (rule reach_new) (rule Open_new)

theorem AllocatePage_never_in_use_witness:
  "\<exists>x q. AllocatePage new_pager = (Inr x, q) \<and> x \<noteq> 0 \<and> x \<notin> {} \<and>
     (\<forall>j\<in>{}. ReadPage j q = (fst (ReadPage j new_pager), q))"
  by (rule AllocatePage_never_in_use [OF new_pager_reachable]) (simp add: new_pager_def)

text \<open>
  A freed page is the next one handed out, zeroed, without growing the file.
\<close>

theorem FreePage_then_AllocatePage:
  assumes "pager_reachable (p, A)" "x \<in> A"
  shows "\<exists>q r. FreePage x p = (Inr (), q) \<and> AllocatePage q = (Inr x, r) \<and>
     ReadPage x r = (Inr (replicate PageSize 0), r) \<and> PageCount r = PageCount p"
proof -
  obtain fl where fl: "pager_inv p fl" "A \<inter> set fl = {}" "0 \<notin> A" "\<forall>x\<in>A. x < pageCount p"
    using pager_reachable_owned [OF assms(1)] by (auto simp: pager_owned_def)
  have x: "x \<noteq> 0" "x < pageCount p" "x \<notin> set fl" using fl assms(2) by auto
  from FreePage_ok [OF fl(1) x] obtain q where
    q: "FreePage x p = (Inr (), q)" "pager_inv q (x # fl)" "pageCount q = pageCount p" by metis
  from AllocatePage_reuse [OF q(2)] obtain r where
    r: "AllocatePage q = (Inr x, r)" "pager_inv r fl" "pageCount r = pageCount q"
      "page r x = replicate PageSize 0" by metis
  then have "ReadPage x r = (Inr (replicate PageSize 0), r)"
    using x q(3) pager_invD [OF r(2)] by (simp add: ReadPage_ok)
  then show ?thesis using q r by (auto simp: PageCount_def)
qed

lemma one_page_reachable:
  "\<exists>q. AllocatePage new_pager = (Inr 1, q) \<and> pager_reachable (q, {1})"
proof -
  have "pageCount new_pager = 1" by (simp add: new_pager_def)
  then obtain q where q: "AllocatePage new_pager = (Inr 1, q)"
    using AllocatePage_extend [OF pager_inv_new] by auto
  then have "pager_step (new_pager, {}) (q, insert 1 {})"
    by (intro step_alloc) (simp_all add: pager_room_def new_pager_def)
  with q show ?thesis using reach_step [OF new_pager_reachable] by auto
qed

theorem FreePage_then_AllocatePage_witness:
  "\<exists>p q r. AllocatePage new_pager = (Inr 1, p) \<and> FreePage 1 p = (Inr (), q) \<and> AllocatePage q = (Inr 1, r) \<and>
     ReadPage 1 r = (Inr (replicate PageSize 0), r) \<and> PageCount r = PageCount p"
proof -
  obtain p where "AllocatePage new_pager = (Inr 1, p)" "pager_reachable (p, {1})"
    using one_page_reachable by blast
  then show ?thesis using FreePage_then_AllocatePage [of p "{1}" 1] by blast
qed

text \<open>
  C37: reopening the file of a running pager restores it: the page count, the free
  list, the catalog root and every page.
\<close>

theorem Open_restores:
  assumes "pager_reachable (p, A)"
  shows "Open (fdata p) = Inr (p\<lparr>durable := fdata p\<rparr>)"
  using pager_reachable_owned [OF assms] Open_reopen by (auto simp: pager_owned_def)

theorem Open_restores_witness: "Open (fdata new_pager) = Inr (new_pager\<lparr>durable := fdata new_pager\<rparr>)"
  by (rule Open_restores [OF new_pager_reachable])

end
