(* ===== verification/Node.thy ===== *)
theory Node
  imports Pager
begin

text \<open>
  The slotted page of \<^verbatim>\<open>internal/storage/btree.go\<close> (lines 10 to 200): header
  fields, the array of cell offsets, cell bodies packed from the end of the page,
  binary search, insertion and removal of cells.  A node's buffer is a page of
  4096 bytes, so the header fields at offsets 0 to 8 are always in range; every
  other access is checked as Go checks it.
\<close>

section \<open>Layout\<close>

definition leafPage :: byte where "leafPage = 1"
definition internalPage :: byte where "internalPage = 2"

abbreviation (input) "hdrPageType \<equiv> 0 :: nat"
abbreviation (input) "hdrNumCells \<equiv> 1 :: nat"
abbreviation (input) "hdrSibling \<equiv> 3 :: nat"
abbreviation (input) "hdrContentTop \<equiv> 7 :: nat"
abbreviation (input) "cellPtrArrayAt \<equiv> 9 :: nat"

record node =
  n_id :: page_id
  n_buf :: bytes

definition newNodeBuf :: "byte \<Rightarrow> bytes" where
  "newNodeBuf pageType =
     (let buf = replicate PageSize 0;
          buf = buf[hdrPageType := pageType];
          buf = overwrite buf hdrNumCells (put_u16 0);
          buf = overwrite buf hdrSibling (put_u32 0)
      in overwrite buf hdrContentTop (put_u16 (word_of_nat PageSize)))"

definition u16_at :: "bytes \<Rightarrow> nat \<Rightarrow> 16 word" where
  "u16_at b off = word_of_nat (be_get (window b off 2))"

definition u32_at :: "bytes \<Rightarrow> nat \<Rightarrow> 32 word" where
  "u32_at b off = word_of_nat (be_get (window b off 4))"

definition pageType :: "node \<Rightarrow> byte" where
  "pageType n = n_buf n ! hdrPageType"

definition isLeaf :: "node \<Rightarrow> bool" where
  "isLeaf n \<longleftrightarrow> n_buf n ! hdrPageType = leafPage"

definition numCells :: "node \<Rightarrow> nat" where
  "numCells n = unat (u16_at (n_buf n) hdrNumCells)"

definition setNumCells :: "int \<Rightarrow> node \<Rightarrow> node" where
  "setNumCells v n = n\<lparr>n_buf := overwrite (n_buf n) hdrNumCells (put_u16 (word_of_int v))\<rparr>"

definition sibling :: "node \<Rightarrow> page_id" where
  "sibling n = u32_at (n_buf n) hdrSibling"

definition setSibling :: "page_id \<Rightarrow> node \<Rightarrow> node" where
  "setSibling pid n = n\<lparr>n_buf := overwrite (n_buf n) hdrSibling (put_u32 pid)\<rparr>"

definition contentTop :: "node \<Rightarrow> nat" where
  "contentTop n = unat (u16_at (n_buf n) hdrContentTop)"

definition setContentTop :: "nat \<Rightarrow> node \<Rightarrow> node" where
  "setContentTop v n = n\<lparr>n_buf := overwrite (n_buf n) hdrContentTop (put_u16 (word_of_nat v))\<rparr>"

definition cellOffset :: "node \<Rightarrow> nat \<Rightarrow> nat result" where
  "cellOffset n i = rbind (get_u16 (n_buf n) (cellPtrArrayAt + 2 * i)) (\<lambda>w. Inr (unat w))"

definition setCellOffset :: "nat \<Rightarrow> nat \<Rightarrow> node \<Rightarrow> node result" where
  "setCellOffset i off n =
     rbind (splice (n_buf n) (cellPtrArrayAt + 2 * i) (put_u16 (word_of_nat off))) (\<lambda>b. Inr (n\<lparr>n_buf := b\<rparr>))"

definition freeSpace :: "node \<Rightarrow> int" where
  "freeSpace n = int (contentTop n) - int (cellPtrArrayAt + 2 * numCells n)"

section \<open>Cells\<close>

definition leafKV :: "node \<Rightarrow> nat \<Rightarrow> (bytes \<times> bytes) result" where
  "leafKV n i =
     rbind (cellOffset n i) (\<lambda>off.
     rbind (get_u16 (n_buf n) off) (\<lambda>kl.
     rbind (get_u16 (n_buf n) (off + 2)) (\<lambda>vl.
     let klen = unat kl; vlen = unat vl in
     rbind (slice (n_buf n) (off + 4) (off + 4 + klen)) (\<lambda>key.
     rbind (slice (n_buf n) (off + 4 + klen) (off + 4 + klen + vlen)) (\<lambda>val.
     Inr (key, val))))))"

definition internalKC :: "node \<Rightarrow> nat \<Rightarrow> (bytes \<times> page_id) result" where
  "internalKC n i =
     rbind (cellOffset n i) (\<lambda>off.
     rbind (get_u16 (n_buf n) off) (\<lambda>kl.
     rbind (get_u32 (n_buf n) (off + 2)) (\<lambda>child.
     rbind (slice (n_buf n) (off + 6) (off + 6 + unat kl)) (\<lambda>key.
     Inr (key, child)))))"

definition cell_key :: "node \<Rightarrow> nat \<Rightarrow> bytes result" where
  "cell_key n i =
     (if isLeaf n then rbind (leafKV n i) (\<lambda>(k, _). Inr k) else rbind (internalKC n i) (\<lambda>(k, _). Inr k))"

text \<open>The binary search of \<^verbatim>\<open>findIndex\<close>.\<close>

function find_loop :: "node \<Rightarrow> bytes \<Rightarrow> nat \<Rightarrow> nat \<Rightarrow> (nat \<times> bool) result" where
  "find_loop n key lo hi =
     (if lo < hi then
        (let mid = (lo + hi) div 2
         in rbind (cell_key n mid) (\<lambda>k.
              let c = bytes_compare k key
              in if c = 0 then Inr (mid, True)
                 else if c < 0 then find_loop n key (mid + 1) hi
                 else find_loop n key lo mid))
      else Inr (lo, False))"
  by pat_completeness auto
termination
  by (relation "measure (\<lambda>(n, key, lo, hi). hi - lo)") auto

declare find_loop.simps [simp del]

definition findIndex :: "node \<Rightarrow> bytes \<Rightarrow> (nat \<times> bool) result" where
  "findIndex n key = find_loop n key 0 (numCells n)"

text \<open>The loop that shifts the offsets \<open>idx\<close> to \<open>i - 1\<close> one place right.\<close>

fun shift_right :: "node \<Rightarrow> nat \<Rightarrow> nat \<Rightarrow> node result" where
  "shift_right n 0 idx = Inr n"
| "shift_right n (Suc i) idx =
     (if Suc i > idx
      then rbind (cellOffset n i) (\<lambda>o1. rbind (setCellOffset (Suc i) o1 n) (\<lambda>n'. shift_right n' i idx))
      else Inr n)"

definition insertCellAt :: "nat \<Rightarrow> bytes \<Rightarrow> node \<Rightarrow> (bool \<times> node) result" where
  "insertCellAt idx body n =
     (let need = int (length body + 2)
      in if freeSpace n < need then Inr (False, n)
         else
           (let top = contentTop n - length body
            in if top > length (n_buf n) then Inl Panic
               else
                 (let n1 = n\<lparr>n_buf := overwrite (n_buf n) top (take (length (n_buf n) - top) body)\<rparr>;
                      n2 = setContentTop top n1;
                      nc = numCells n2
                  in rbind (shift_right n2 nc idx) (\<lambda>n3.
                     rbind (setCellOffset idx top n3) (\<lambda>n4.
                     Inr (True, setNumCells (int nc + 1) n4))))))"

text \<open>The loop that shifts the offsets \<open>i + 1\<close> to \<open>nc - 1\<close> one place left.\<close>

function shift_left :: "node \<Rightarrow> nat \<Rightarrow> nat \<Rightarrow> node result" where
  "shift_left n i nc =
     (if i + 1 < nc
      then rbind (cellOffset n (i + 1)) (\<lambda>o1. rbind (setCellOffset i o1 n) (\<lambda>n'. shift_left n' (i + 1) nc))
      else Inr n)"
  by pat_completeness auto
termination
  by (relation "measure (\<lambda>(n, i, nc). nc - i)") auto

declare shift_left.simps [simp del]

definition removeCellAt :: "nat \<Rightarrow> node \<Rightarrow> node result" where
  "removeCellAt idx n =
     (let nc = numCells n
      in rbind (shift_left n idx nc) (\<lambda>n'. Inr (setNumCells (int nc - 1) n')))"

definition leafCellBody :: "bytes \<Rightarrow> bytes \<Rightarrow> bytes" where
  "leafCellBody key val =
     put_u16 (word_of_nat (length key)) @ put_u16 (word_of_nat (length val)) @ key @ val"

definition internalCellBody :: "bytes \<Rightarrow> page_id \<Rightarrow> bytes" where
  "internalCellBody key child = put_u16 (word_of_nat (length key)) @ put_u32 child @ key"

definition internalCellKeyChild :: "bytes \<Rightarrow> (bytes \<times> page_id) result" where
  "internalCellKeyChild body =
     rbind (get_u16 body 0) (\<lambda>kl.
     rbind (get_u32 body 2) (\<lambda>child.
     rbind (slice body 6 (6 + unat kl)) (\<lambda>key. Inr (key, child))))"

section \<open>Fields of a buffer\<close>

definition coff :: "bytes \<Rightarrow> nat \<Rightarrow> nat" where
  "coff b i = unat (u16_at b (cellPtrArrayAt + 2 * i))"

lemma u16_at_bound: "unat (u16_at b off) < 65536"
  using unsigned_less [of "u16_at b off", where 'a = nat] by simp

lemma unat_word16 [simp]: "v < 65536 \<Longrightarrow> unat (word_of_nat v :: 16 word) = v"
  by (simp add: unat_of_nat take_bit_nat_eq_self)

lemma get_u16_at: "off + 2 \<le> length b \<Longrightarrow> get_u16 b off = Inr (u16_at b off)"
  by (simp add: get_u16_def u16_at_def)

lemma get_u32_at: "off + 4 \<le> length b \<Longrightarrow> get_u32 b off = Inr (u32_at b off)"
  by (simp add: get_u32_def u32_at_def)

lemma cellOffset_coff: "cellPtrArrayAt + 2 * i + 2 \<le> length (n_buf n) \<Longrightarrow> cellOffset n i = Inr (coff (n_buf n) i)"
  by (simp add: cellOffset_def coff_def get_u16_at)

lemma u16_at_overwrite:
  assumes "off + length x \<le> length b" "o' + 2 \<le> length b"
  shows "o' + 2 \<le> off \<or> off + length x \<le> o' \<Longrightarrow> u16_at (overwrite b off x) o' = u16_at b o'"
  using assms by (simp add: u16_at_def window_overwrite_disjoint)

lemma u32_at_overwrite:
  assumes "off + length x \<le> length b" "o' + 4 \<le> length b"
  shows "o' + 4 \<le> off \<or> off + length x \<le> o' \<Longrightarrow> u32_at (overwrite b off x) o' = u32_at b o'"
  using assms by (simp add: u32_at_def window_overwrite_disjoint)

lemma u16_at_put [simp]: "off + 2 \<le> length b \<Longrightarrow> u16_at (overwrite b off (put_u16 w)) off = w"
  by (simp add: u16_at_def window_overwrite_same be_simps)

lemma u32_at_put [simp]: "off + 4 \<le> length b \<Longrightarrow> u32_at (overwrite b off (put_u32 w)) off = w"
  by (simp add: u32_at_def window_overwrite_same be_simps)

lemma coff_set:
  assumes "cellPtrArrayAt + 2 * i + 2 \<le> length b" "cellPtrArrayAt + 2 * j + 2 \<le> length b" "v < 65536"
  shows "coff (overwrite b (cellPtrArrayAt + 2 * i) (put_u16 (word_of_nat v))) j = (if j = i then v else coff b j)"
proof (cases "j = i")
  case True
  then show ?thesis using assms by (simp add: coff_def)
next
  case False
  then have "cellPtrArrayAt + 2 * j + 2 \<le> cellPtrArrayAt + 2 * i \<or> cellPtrArrayAt + 2 * i + 2 \<le> cellPtrArrayAt + 2 * j"
    by linarith
  with False show ?thesis using assms by (simp add: coff_def u16_at_overwrite)
qed

text \<open>
  \<open>same_outside b c lo hi\<close>: two pages that differ at most in the bytes \<open>lo\<close> to
  \<open>hi - 1\<close>.
\<close>

definition same_outside :: "bytes \<Rightarrow> bytes \<Rightarrow> nat \<Rightarrow> nat \<Rightarrow> bool" where
  "same_outside b c lo hi \<longleftrightarrow> length c = length b \<and> (\<forall>x<length b. x < lo \<or> hi \<le> x \<longrightarrow> c ! x = b ! x)"

lemma same_outside_refl [simp]: "same_outside b b lo hi"
  by (simp add: same_outside_def)

lemma same_outside_trans: "same_outside a b lo hi \<Longrightarrow> same_outside b c lo hi \<Longrightarrow> same_outside a c lo hi"
  by (auto simp: same_outside_def)

lemma same_outside_overwrite:
  "off + length x \<le> length b \<Longrightarrow> lo \<le> off \<Longrightarrow> off + length x \<le> hi \<Longrightarrow> same_outside b (overwrite b off x) lo hi"
  by (auto simp: same_outside_def nth_overwrite)

lemma unat_word16_Suc: "Suc k < 65536 \<Longrightarrow> unat (word_of_int (int k + 1) :: 16 word) = Suc k"
proof -
  assume "Suc k < 65536"
  moreover have "(word_of_int (int k + 1) :: 16 word) = word_of_nat (Suc k)" by (simp add: add.commute)
  ultimately show ?thesis by (metis unat_word16)
qed

lemma unat_word16_pred: "0 < k \<Longrightarrow> k < 65536 \<Longrightarrow> unat (word_of_int (int k - 1) :: 16 word) = k - 1"
proof -
  assume "0 < k" "k < 65536"
  moreover from this have "(word_of_int (int k - 1) :: 16 word) = word_of_nat (k - 1)" by simp
  ultimately show ?thesis by (metis unat_word16 less_imp_diff_less)
qed

lemma same_outside_window:
  "same_outside b c lo hi \<Longrightarrow> off + n \<le> length b \<Longrightarrow> off + n \<le> lo \<or> hi \<le> off \<Longrightarrow> window c off n = window b off n"
  by (intro window_eqI) (auto simp: same_outside_def)

lemma same_outside_nth:
  "same_outside b c lo hi \<Longrightarrow> x < length b \<Longrightarrow> x < lo \<or> hi \<le> x \<Longrightarrow> c ! x = b ! x"
  by (auto simp: same_outside_def)

lemma same_outside_u16:
  "same_outside b c lo hi \<Longrightarrow> off + 2 \<le> length b \<Longrightarrow> off + 2 \<le> lo \<or> hi \<le> off \<Longrightarrow> u16_at c off = u16_at b off"
  by (simp add: u16_at_def same_outside_window)

lemma same_outside_u32:
  "same_outside b c lo hi \<Longrightarrow> off + 4 \<le> length b \<Longrightarrow> off + 4 \<le> lo \<or> hi \<le> off \<Longrightarrow> u32_at c off = u32_at b off"
  by (simp add: u32_at_def same_outside_window)

lemma setCellOffset_ok:
  assumes "cellPtrArrayAt + 2 * i + 2 \<le> length (n_buf n)" "v < 65536"
  shows "setCellOffset i v n = Inr (n\<lparr>n_buf := overwrite (n_buf n) (cellPtrArrayAt + 2 * i) (put_u16 (word_of_nat v))\<rparr>)"
  using assms by (simp add: setCellOffset_def splice_def)

section \<open>The shifting loops\<close>

lemma coff_bound: "coff b i < 65536"
  by (simp add: coff_def u16_at_bound)

lemma shift_right_ok:
  assumes "cellPtrArrayAt + 2 * i + 2 \<le> length (n_buf n)"
  shows "\<exists>c. shift_right n i idx = Inr (n\<lparr>n_buf := c\<rparr>) \<and>
    same_outside (n_buf n) c cellPtrArrayAt (cellPtrArrayAt + 2 * i + 2) \<and>
    (\<forall>j\<le>i. coff c j = (if idx < j then coff (n_buf n) (j - 1) else coff (n_buf n) j))"
  using assms
proof (induction i arbitrary: n)
  case 0
  then show ?case by (auto intro!: exI [of _ "n_buf n"])
next
  case (Suc i)
  show ?case
  proof (cases "Suc i > idx")
    case False
    then show ?thesis by (auto intro!: exI [of _ "n_buf n"])
  next
    case True
    let ?b = "n_buf n"
    define c where "c = overwrite ?b (cellPtrArrayAt + 2 * Suc i) (put_u16 (word_of_nat (coff ?b i)))"
    have st: "setCellOffset (Suc i) (coff ?b i) n = Inr (n\<lparr>n_buf := c\<rparr>)"
      unfolding c_def using Suc.prems coff_bound by (intro setCellOffset_ok) simp_all
    have so: "same_outside ?b c cellPtrArrayAt (cellPtrArrayAt + 2 * Suc i + 2)"
      unfolding c_def using Suc.prems by (intro same_outside_overwrite) simp_all
    have co: "coff c j = (if j = Suc i then coff ?b i else coff ?b j)" if "j \<le> Suc i" for j
      unfolding c_def using Suc.prems that coff_bound by (intro coff_set) simp_all
    have lc: "length c = length ?b" using so by (simp add: same_outside_def)
    obtain d where d: "shift_right (n\<lparr>n_buf := c\<rparr>) i idx = Inr (n\<lparr>n_buf := d\<rparr>)"
      "same_outside c d cellPtrArrayAt (cellPtrArrayAt + 2 * i + 2)"
      "\<forall>j\<le>i. coff d j = (if idx < j then coff c (j - 1) else coff c j)"
      using Suc.IH [of "n\<lparr>n_buf := c\<rparr>"] Suc.prems lc by auto
    have "coff d (Suc i) = coff c (Suc i)"
      using same_outside_u16 [OF d(2), of "cellPtrArrayAt + 2 * Suc i"] Suc.prems lc by (simp add: coff_def)
    moreover have "same_outside ?b d cellPtrArrayAt (cellPtrArrayAt + 2 * Suc i + 2)"
      using so d(2) by (auto simp: same_outside_def)
    moreover have "shift_right n (Suc i) idx = Inr (n\<lparr>n_buf := d\<rparr>)"
      using True Suc.prems st d(1) by (simp add: cellOffset_coff)
    moreover have "coff c (j - 1) = coff ?b (j - 1)" if "j \<le> i" for j
      using co [of "j - 1"] that by auto
    ultimately show ?thesis
      using d(3) co True by (intro exI [of _ d]) (auto simp: le_Suc_eq)
  qed
qed

lemma shift_left_ok:
  assumes "cellPtrArrayAt + 2 * nc \<le> length (n_buf n)" "i < nc"
  shows "\<exists>c. shift_left n i nc = Inr (n\<lparr>n_buf := c\<rparr>) \<and>
    same_outside (n_buf n) c (cellPtrArrayAt + 2 * i) (cellPtrArrayAt + 2 * nc) \<and>
    (\<forall>j. i \<le> j \<and> j + 1 < nc \<longrightarrow> coff c j = coff (n_buf n) (j + 1))"
  using assms
proof (induction n i nc rule: shift_left.induct)
  case (1 n i nc)
  show ?case
  proof (cases "i + 1 < nc")
    case False
    then show ?thesis
      by (auto simp: shift_left.simps [of n i nc] intro!: exI [of _ "n_buf n"])
  next
    case True
    let ?b = "n_buf n"
    let ?c = "overwrite ?b (cellPtrArrayAt + 2 * i) (put_u16 (word_of_nat (coff ?b (i + 1))))"
    have st: "setCellOffset i (coff ?b (i + 1)) n = Inr (n\<lparr>n_buf := ?c\<rparr>)"
      using "1.prems" coff_bound by (intro setCellOffset_ok) simp_all
    have co: "cellOffset n (i + 1) = Inr (coff ?b (i + 1))"
      using "1.prems" True by (intro cellOffset_coff) simp
    have cc: "coff ?c j = (if j = i then coff ?b (i + 1) else coff ?b j)" if "j < nc" for j
      using "1.prems" that coff_bound by (intro coff_set) simp_all
    obtain d where d: "shift_left (n\<lparr>n_buf := ?c\<rparr>) (i + 1) nc = Inr (n\<lparr>n_buf := d\<rparr>)"
      "same_outside ?c d (cellPtrArrayAt + 2 * (i + 1)) (cellPtrArrayAt + 2 * nc)"
      "\<forall>j. i + 1 \<le> j \<and> j + 1 < nc \<longrightarrow> coff d j = coff ?c (j + 1)"
      using "1.IH" [OF True co st] "1.prems" True by auto
    have "coff d i = coff ?c i"
      using same_outside_u16 [OF d(2), of "cellPtrArrayAt + 2 * i"] "1.prems" by (simp add: coff_def)
    moreover have "same_outside ?b d (cellPtrArrayAt + 2 * i) (cellPtrArrayAt + 2 * nc)"
      using d(2) "1.prems" by (auto simp: same_outside_def nth_overwrite)
    moreover have "shift_left n i nc = Inr (n\<lparr>n_buf := d\<rparr>)"
      using True co st d(1) by (simp add: shift_left.simps [of n i nc])
    moreover have "coff d j = coff ?b (j + 1)" if "i \<le> j" "j + 1 < nc" for j
      using that d(3) cc calculation(1) by (cases "j = i") auto
    ultimately show ?thesis by blast
  qed
qed

section \<open>What a page holds\<close>

text \<open>
  \<open>node_repr b ty sib ocs\<close>: the page \<open>b\<close> is a well-formed node of type \<open>ty\<close> with
  sibling pointer \<open>sib\<close> whose cells, in order, are \<open>ocs\<close>, each with the offset it
  is stored at: bodies lie in the content area, do not overlap, and the offset
  array does not run into them.
\<close>

definition top_of :: "bytes \<Rightarrow> nat" where
  "top_of b = unat (u16_at b hdrContentTop)"

definition apart :: "nat \<times> bytes \<Rightarrow> nat \<times> bytes \<Rightarrow> bool" where
  "apart x y \<longleftrightarrow> fst x + length (snd x) \<le> fst y \<or> fst y + length (snd y) \<le> fst x"

definition cell_at :: "bytes \<Rightarrow> nat \<times> bytes \<Rightarrow> bool" where
  "cell_at b x \<longleftrightarrow> top_of b \<le> fst x \<and> fst x + length (snd x) \<le> PageSize \<and>
     window b (fst x) (length (snd x)) = snd x"

definition body_bytes :: "(nat \<times> bytes) list \<Rightarrow> nat" where
  "body_bytes ocs = sum_list (map (\<lambda>x. length (snd x)) ocs)"

definition node_repr :: "bytes \<Rightarrow> byte \<Rightarrow> page_id \<Rightarrow> (nat \<times> bytes) list \<Rightarrow> bool" where
  "node_repr b ty sib ocs \<longleftrightarrow> length b = PageSize \<and> b ! hdrPageType = ty \<and> u32_at b hdrSibling = sib \<and>
     unat (u16_at b hdrNumCells) = length ocs \<and> map (coff b) [0..<length ocs] = map fst ocs \<and>
     cellPtrArrayAt + 2 * length ocs \<le> top_of b \<and> top_of b + body_bytes ocs \<le> PageSize \<and>
     (\<forall>x\<in>set ocs. cell_at b x) \<and> sorted_wrt apart ocs"

lemma body_bytes_simps [simp]:
  "body_bytes [] = 0" "body_bytes (x # xs) = length (snd x) + body_bytes xs"
  "body_bytes (xs @ ys) = body_bytes xs + body_bytes ys"
  by (simp_all add: body_bytes_def)

lemma body_bytes_take_drop: "body_bytes (take k xs) + body_bytes (drop k xs) = body_bytes xs"
  by (metis append_take_drop_id body_bytes_simps(3))

lemma apart_sym: "apart x y \<longleftrightarrow> apart y x"
  by (auto simp: apart_def)

lemma sorted_wrt_apart_insert:
  assumes "sorted_wrt apart xs" "\<And>y. y \<in> set xs \<Longrightarrow> apart x y"
  shows "sorted_wrt apart (take k xs @ x # drop k xs)"
proof -
  have "sorted_wrt apart (take k xs)" "sorted_wrt apart (drop k xs)"
    "\<forall>y\<in>set (take k xs). \<forall>z\<in>set (drop k xs). apart y z"
    using assms(1) by (metis append_take_drop_id sorted_wrt_append)+
  moreover have "apart y x" if "y \<in> set xs" for y using assms(2) [OF that] by (simp add: apart_sym)
  ultimately show ?thesis
    using assms(2) by (auto simp: sorted_wrt_append dest: in_set_takeD in_set_dropD)
qed

lemma node_reprD:
  assumes "node_repr b ty sib ocs"
  shows "length b = PageSize" "b ! hdrPageType = ty" "u32_at b hdrSibling = sib"
    "unat (u16_at b hdrNumCells) = length ocs" "map (coff b) [0..<length ocs] = map fst ocs"
    "cellPtrArrayAt + 2 * length ocs \<le> top_of b" "top_of b + body_bytes ocs \<le> PageSize"
    "\<And>x. x \<in> set ocs \<Longrightarrow> cell_at b x" "sorted_wrt apart ocs"
  using assms by (auto simp: node_repr_def)

lemma node_repr_coff: "node_repr b ty sib ocs \<Longrightarrow> i < length ocs \<Longrightarrow> coff b i = fst (ocs ! i)"
  by (auto dest!: node_reprD(5) arg_cong [of "map (coff b) _" _ "\<lambda>xs. xs ! i"])

lemma cell_at_same_outside:
  assumes "cell_at b x" "same_outside b c lo hi" "length b = PageSize" "hi \<le> fst x" "top_of c \<le> fst x"
  shows "cell_at c x"
  using assms same_outside_window [OF assms(2), of "fst x" "length (snd x)"]
  by (auto simp: cell_at_def)

lemma freeSpace_repr:
  "node_repr (n_buf n) ty sib ocs \<Longrightarrow>
   freeSpace n = int (top_of (n_buf n)) - int (cellPtrArrayAt + 2 * length ocs)"
  by (simp only: freeSpace_def contentTop_def numCells_def node_reprD(4) top_of_def)

section \<open>Insertion of a cell\<close>

lemma map_insert_index:
  assumes "length os = n" "idx \<le> n"
    and "\<And>j. j \<le> n \<Longrightarrow> f j = (if j < idx then os ! j else if j = idx then t else os ! (j - 1))"
  shows "map f [0..<Suc n] = take idx os @ t # drop idx os"
proof (rule nth_equalityI)
  show "length (map f [0..<Suc n]) = length (take idx os @ t # drop idx os)"
    using assms by simp
  fix j assume "j < length (map f [0..<Suc n])"
  then have j: "j \<le> n" by simp
  have "[0..<Suc n] ! j = j" using j by (simp del: upt_Suc)
  then have "map f [0..<Suc n] ! j = f j" using j by (simp del: upt_Suc)
  also have "\<dots> = (take idx os @ t # drop idx os) ! j"
  proof (cases "idx < j")
    case True
    then obtain k where "j = Suc (idx + k)" using less_iff_Suc_add by blast
    then show ?thesis using assms j by (simp add: nth_append)
  next
    case False
    then show ?thesis using assms j by (auto simp: nth_append)
  qed
  finally show "map f [0..<Suc n] ! j = (take idx os @ t # drop idx os) ! j" .
qed

text \<open>The cells of a page after a cell is stored at \<open>t\<close> and its offset put at \<open>idx\<close>.\<close>

definition ins_at :: "nat \<Rightarrow> 'a \<Rightarrow> 'a list \<Rightarrow> 'a list" where
  "ins_at idx x xs = take idx xs @ x # drop idx xs"

definition del_at :: "nat \<Rightarrow> 'a list \<Rightarrow> 'a list" where
  "del_at idx xs = take idx xs @ drop (Suc idx) xs"

lemma length_ins_at [simp]: "idx \<le> length xs \<Longrightarrow> length (ins_at idx x xs) = Suc (length xs)"
  by (simp add: ins_at_def)

lemma set_ins_at: "set (ins_at idx x xs) = insert x (set xs)"
  unfolding ins_at_def by (metis append_take_drop_id list.simps(15) set_append Un_insert_right)

lemma map_ins_at: "map f (ins_at idx x xs) = ins_at idx (f x) (map f xs)"
  by (simp add: ins_at_def take_map drop_map)

lemma insertCellAt_no_room:
  "freeSpace n < int (length body + 2) \<Longrightarrow> insertCellAt idx body n = Inr (False, n)"
  by (simp add: insertCellAt_def)

text \<open>The bytes of the page after a successful insertion.\<close>

lemma insertCellAt_buf:
  assumes l: "length (n_buf n) = PageSize" and k: "numCells n = k" and idx: "idx \<le> k"
    and t: "top_of (n_buf n) = t + length body" "cellPtrArrayAt + 2 * k + 2 \<le> t" "t + length body \<le> PageSize"
  obtains c where "insertCellAt idx body n = Inr (True, n\<lparr>n_buf := c\<rparr>)"
    "same_outside (overwrite (n_buf n) t body) c 1 (cellPtrArrayAt + 2 * k + 2)"
    "u32_at c hdrSibling = u32_at (n_buf n) hdrSibling" "unat (u16_at c hdrNumCells) = Suc k" "top_of c = t"
    "\<And>j. j \<le> k \<Longrightarrow> coff c j =
      (if j < idx then coff (n_buf n) j else if j = idx then t else coff (n_buf n) (j - 1))"
proof -
  let ?b = "n_buf n"
  define b1 where "b1 = overwrite ?b t body"
  define b2 where "b2 = overwrite b1 hdrContentTop (put_u16 (word_of_nat t))"
  have l2: "length b1 = PageSize" "length b2 = PageSize" using t l by (simp_all add: b1_def b2_def)
  have so1: "same_outside ?b b1 t PageSize" "same_outside b1 b2 7 9"
    using l l2 t unfolding b1_def b2_def by (intro same_outside_overwrite; simp)+
  obtain b3 where sh: "shift_right (n\<lparr>n_buf := b2\<rparr>) k idx = Inr (n\<lparr>n_buf := b3\<rparr>)"
    and so3: "same_outside b2 b3 9 (9 + 2 * k + 2)"
    and co3: "\<forall>j\<le>k. coff b3 j = (if idx < j then coff b2 (j - 1) else coff b2 j)"
    using shift_right_ok [of k "n\<lparr>n_buf := b2\<rparr>" idx] t l2 by auto
  define b4 where "b4 = overwrite b3 (9 + 2 * idx) (put_u16 (word_of_nat t))"
  define c where "c = overwrite b4 hdrNumCells (put_u16 (word_of_int (int k + 1)))"
  have l3: "length b3 = PageSize" using so3 l2 by (simp add: same_outside_def)
  have so4: "same_outside b3 b4 9 (9 + 2 * k + 2)"
    using l3 idx t unfolding b4_def by (intro same_outside_overwrite) simp_all
  have l4: "length b4 = PageSize" using so4 l3 by (simp add: same_outside_def)
  have so5: "same_outside b4 c 1 3" using l4 unfolding c_def by (intro same_outside_overwrite) simp_all
  note lens = l l2 l3 l4
  have n2: "setContentTop t (n\<lparr>n_buf := b1\<rparr>) = n\<lparr>n_buf := b2\<rparr>" by (simp add: setContentTop_def b2_def)
  have k2: "numCells (n\<lparr>n_buf := b2\<rparr>) = k"
    using k so1 lens t by (simp add: numCells_def same_outside_u16)
  have "contentTop n = t + length body" using t(1) by (simp add: contentTop_def top_of_def)
  moreover from this have "int (length body + 2) \<le> freeSpace n" using k t by (simp add: freeSpace_def)
  moreover have "setCellOffset idx t (n\<lparr>n_buf := b3\<rparr>) = Inr (n\<lparr>n_buf := b4\<rparr>)"
    using setCellOffset_ok [of idx "n\<lparr>n_buf := b3\<rparr>" t] idx t lens by (simp add: b4_def)
  ultimately have "insertCellAt idx body n = Inr (True, n\<lparr>n_buf := c\<rparr>)"
    using t l sh n2 k2 by (simp add: insertCellAt_def b1_def [symmetric] setNumCells_def c_def)
  moreover have "same_outside b1 c 1 (9 + 2 * k + 2)"
    using so1(2) so3 so4 so5 unfolding same_outside_def by auto
  moreover have "u32_at c 3 = u32_at ?b 3"
    using so1 so3 so4 so5 lens t by (simp add: same_outside_u32)
  moreover have "u16_at c 1 = word_of_int (int k + 1)" using lens unfolding c_def by (intro u16_at_put) simp
  then have "unat (u16_at c 1) = Suc k" using unat_word16_Suc [of k] t by simp
  moreover have "top_of c = t"
    using so3 so4 so5 lens t by (simp add: top_of_def same_outside_u16 b2_def)
  moreover have "coff c j = (if j < idx then coff ?b j else if j = idx then t else coff ?b (j - 1))" if "j \<le> k" for j
  proof -
    have "coff c j = coff b4 j" using so5 lens that t by (simp add: coff_def same_outside_u16)
    also have "\<dots> = (if j = idx then t else coff b3 j)"
      unfolding b4_def using that idx t lens by (intro coff_set) simp_all
    also have "\<dots> = (if j < idx then coff b2 j else if j = idx then t else coff b2 (j - 1))"
      using co3 that by auto
    also have "\<dots> = (if j < idx then coff ?b j else if j = idx then t else coff ?b (j - 1))"
    proof -
      have "coff b2 m = coff ?b m" if "m \<le> k" for m
        using so1 lens that t by (simp add: coff_def same_outside_u16)
      from this [of j] this [of "j - 1"] that show ?thesis by simp
    qed
    finally show ?thesis .
  qed
  ultimately show thesis by (intro that [of c]) (simp_all add: b1_def)
qed

lemma insertCellAt_ok:
  assumes r: "node_repr (n_buf n) ty sib ocs" and idx: "idx \<le> length ocs"
    and fs: "int (length body + 2) \<le> freeSpace n"
  obtains c where "insertCellAt idx body n = Inr (True, n\<lparr>n_buf := c\<rparr>)"
    "node_repr c ty sib (ins_at idx (top_of (n_buf n) - length body, body) ocs)"
    "freeSpace (n\<lparr>n_buf := c\<rparr>) = freeSpace n - int (length body + 2)"
proof -
  let ?b = "n_buf n" and ?k = "length ocs"
  note rep = node_reprD [OF r]
  define t where "t = top_of ?b - length body"
  have t: "cellPtrArrayAt + 2 * ?k + 2 \<le> t" "top_of ?b = t + length body" "t + length body \<le> PageSize"
    using fs freeSpace_repr [OF r] rep(7) by (auto simp: t_def)
  obtain c where c: "insertCellAt idx body n = Inr (True, n\<lparr>n_buf := c\<rparr>)"
    "same_outside (overwrite ?b t body) c 1 (cellPtrArrayAt + 2 * ?k + 2)"
    "u32_at c hdrSibling = u32_at ?b hdrSibling" "unat (u16_at c hdrNumCells) = Suc ?k" "top_of c = t"
    "\<And>j. j \<le> ?k \<Longrightarrow> coff c j = (if j < idx then coff ?b j else if j = idx then t else coff ?b (j - 1))"
    using insertCellAt_buf [OF rep(1) _ idx t(2,1,3)] rep(4) by (auto simp: numCells_def)
  have lc: "length c = PageSize" using c(2) rep(1) t by (simp add: same_outside_def)
  have "window c t (length body) = body"
    using same_outside_window [OF c(2), of t "length body"] t rep(1) by (simp add: window_overwrite_same)
  then have new: "cell_at c (t, body)" using t c(5) by (simp add: cell_at_def)
  have old: "cell_at c x" "apart (t, body) x" if x: "x \<in> set ocs" for x
  proof -
    have cx: "top_of ?b \<le> fst x" "fst x + length (snd x) \<le> PageSize" "window ?b (fst x) (length (snd x)) = snd x"
      using rep(8) [OF x] by (simp_all add: cell_at_def)
    have "window c (fst x) (length (snd x)) = window (overwrite ?b t body) (fst x) (length (snd x))"
      using same_outside_window [OF c(2), of "fst x" "length (snd x)"] t rep(1) cx by simp
    also have "\<dots> = snd x" using cx t rep(1) by (simp add: window_overwrite_disjoint)
    finally show "cell_at c x" using cx t c(5) by (simp add: cell_at_def)
    show "apart (t, body) x" using cx t by (simp add: apart_def)
  qed
  have "map (coff c) [0..<Suc ?k] = take idx (map fst ocs) @ t # drop idx (map fst ocs)"
    using c(6) node_repr_coff [OF r] idx by (intro map_insert_index) auto
  then have offs: "map (coff c) [0..<length (ins_at idx (t, body) ocs)] = map fst (ins_at idx (t, body) ocs)"
    using idx by (simp add: map_ins_at del: upt_Suc) (simp add: ins_at_def)
  have "c ! 0 = ?b ! 0" using same_outside_nth [OF c(2), of 0] rep(1) t by (simp add: nth_overwrite)
  moreover have "body_bytes (ins_at idx (t, body) ocs) = length body + body_bytes ocs"
    using body_bytes_take_drop [of idx ocs] by (simp add: ins_at_def)
  moreover have "sorted_wrt apart (ins_at idx (t, body) ocs)"
    unfolding ins_at_def by (rule sorted_wrt_apart_insert [OF rep(9) old(2)])
  ultimately have nr: "node_repr c ty sib (ins_at idx (t, body) ocs)"
    unfolding node_repr_def using c(3-5) lc rep offs new old(1) t idx by (auto simp: set_ins_at)
  have "freeSpace (n\<lparr>n_buf := c\<rparr>) = freeSpace n - int (length body + 2)"
    using freeSpace_repr [OF r] freeSpace_repr [of "n\<lparr>n_buf := c\<rparr>"] nr c(5) t idx by simp
  with c(1) nr show thesis by (intro that) (simp_all add: t_def)
qed

section \<open>Removal of a cell\<close>

lemma set_del_at: "set (del_at idx xs) \<subseteq> set xs"
  by (auto simp: del_at_def dest: in_set_takeD in_set_dropD)

lemma length_del_at [simp]: "idx < length xs \<Longrightarrow> length (del_at idx xs) = length xs - 1"
  by (simp add: del_at_def)

lemma map_del_at: "map f (del_at idx xs) = del_at idx (map f xs)"
  by (simp add: del_at_def take_map drop_map)

lemma sorted_wrt_del_at:
  assumes "sorted_wrt P xs"
  shows "sorted_wrt P (del_at idx xs)"
proof (cases "idx < length xs")
  case True
  then have "sorted_wrt P (take idx xs @ xs ! idx # drop (Suc idx) xs)"
    using assms by (simp add: id_take_nth_drop [symmetric])
  then show ?thesis by (simp add: del_at_def sorted_wrt_append)
next
  case False
  then show ?thesis using assms by (simp add: del_at_def)
qed

lemma body_bytes_del_at: "body_bytes (del_at idx xs) \<le> body_bytes xs"
proof -
  have "body_bytes (drop (Suc idx) xs) \<le> body_bytes (drop idx xs)"
    by (cases "drop idx xs") (simp_all add: drop_Suc tl_drop [symmetric])
  then show ?thesis using body_bytes_take_drop [of idx xs] by (simp add: del_at_def)
qed

lemma map_delete_index:
  assumes "length os = Suc n" "idx \<le> n"
    and "\<And>j. j < n \<Longrightarrow> f j = (if j < idx then os ! j else os ! (j + 1))"
  shows "map f [0..<n] = del_at idx os"
  by (rule nth_equalityI) (use assms in \<open>auto simp: del_at_def nth_append\<close>)

lemma removeCellAt_ok:
  assumes r: "node_repr (n_buf n) ty sib ocs" and idx: "idx < length ocs"
  obtains c where "removeCellAt idx n = Inr (n\<lparr>n_buf := c\<rparr>)"
    "node_repr c ty sib (del_at idx ocs)" "top_of c = top_of (n_buf n)"
proof -
  let ?b = "n_buf n" and ?k = "length ocs"
  note rep = node_reprD [OF r]
  have k: "cellPtrArrayAt + 2 * ?k \<le> length ?b" "?k < 65536" using rep(1,6,7) by simp_all
  obtain d where d: "shift_left n idx ?k = Inr (n\<lparr>n_buf := d\<rparr>)"
    "same_outside ?b d (cellPtrArrayAt + 2 * idx) (cellPtrArrayAt + 2 * ?k)"
    "\<forall>j. idx \<le> j \<and> j + 1 < ?k \<longrightarrow> coff d j = coff ?b (j + 1)"
    using shift_left_ok [OF k(1) idx] by blast
  define c where "c = overwrite d 1 (put_u16 (word_of_int (int ?k - 1)))"
  have ld: "length d = PageSize" using d(2) rep(1) by (simp add: same_outside_def)
  have so: "same_outside d c 1 3" using ld unfolding c_def by (intro same_outside_overwrite) simp_all
  have bc: "same_outside ?b c 1 (cellPtrArrayAt + 2 * ?k)"
    using d(2) so unfolding same_outside_def by auto
  have lc: "length c = PageSize" using bc rep(1) by (simp add: same_outside_def)
  have rm: "removeCellAt idx n = Inr (n\<lparr>n_buf := c\<rparr>)"
    using d(1) rep(4) by (simp add: removeCellAt_def numCells_def setNumCells_def c_def)
  have "u16_at c 1 = word_of_int (int ?k - 1)" using ld unfolding c_def by (intro u16_at_put) simp
  then have nc: "unat (u16_at c 1) = ?k - 1" using unat_word16_pred [of ?k] k idx by fastforce
  have hdr: "top_of c = top_of ?b" "u32_at c 3 = u32_at ?b 3" "c ! 0 = ?b ! 0"
    using so d(2) ld rep(1) k by (simp_all add: top_of_def same_outside_u16 same_outside_u32 same_outside_nth)
  have co: "coff c j = (if j < idx then map fst ocs ! j else map fst ocs ! (j + 1))" if "j < ?k - 1" for j
  proof -
    have "coff c j = coff d j" using so ld that k rep(1) by (simp add: coff_def same_outside_u16)
    also have "\<dots> = (if j < idx then coff ?b j else coff ?b (j + 1))"
      using d(2,3) that k rep(1) by (auto simp: coff_def same_outside_u16)
    also have "\<dots> = (if j < idx then map fst ocs ! j else map fst ocs ! (j + 1))"
      using that idx node_repr_coff [OF r] by auto
    finally show ?thesis .
  qed
  have "map (coff c) [0..<?k - 1] = del_at idx (map fst ocs)"
    using co idx by (intro map_delete_index) auto
  moreover have "cell_at c x" if "x \<in> set ocs" for x
    using rep(8) [OF that] hdr(1) rep(1,6) by (intro cell_at_same_outside [OF _ bc]) (auto simp: cell_at_def)
  ultimately have "node_repr c ty sib (del_at idx ocs)"
    unfolding node_repr_def
    using lc hdr nc rep idx body_bytes_del_at [of idx ocs] set_del_at [of idx ocs] sorted_wrt_del_at
    by (auto simp: map_del_at)
  with rm hdr(1) show thesis by (intro that)
qed

section \<open>Cells of leaf and internal pages\<close>

abbreviation (input) maxKeyValue :: nat where "maxKeyValue \<equiv> 1008"

definition leaf_repr :: "bytes \<Rightarrow> page_id \<Rightarrow> (bytes \<times> bytes) list \<Rightarrow> bool" where
  "leaf_repr b sib kvs \<longleftrightarrow> (\<exists>ocs. node_repr b leafPage sib ocs \<and>
     map snd ocs = map (\<lambda>(k, v). leafCellBody k v) kvs) \<and>
     (\<forall>(k, v)\<in>set kvs. length k \<le> maxKeyValue \<and> length v \<le> maxKeyValue)"

definition internal_repr :: "bytes \<Rightarrow> page_id \<Rightarrow> (bytes \<times> page_id) list \<Rightarrow> bool" where
  "internal_repr b rm kcs \<longleftrightarrow> (\<exists>ocs. node_repr b internalPage rm ocs \<and>
     map snd ocs = map (\<lambda>(k, c). internalCellBody k c) kcs) \<and>
     (\<forall>(k, c)\<in>set kcs. length k \<le> maxKeyValue)"

lemma length_leafCellBody [simp]: "length (leafCellBody k v) = 4 + length k + length v"
  by (simp add: leafCellBody_def)

lemma length_internalCellBody [simp]: "length (internalCellBody k c) = 6 + length k"
  by (simp add: internalCellBody_def)

lemma page_types [simp]: "leafPage \<noteq> internalPage" "internalPage \<noteq> leafPage"
  by (simp_all add: leafPage_def internalPage_def)

lemma sub_window:
  "window b off (length body) = body \<Longrightarrow> off + length body \<le> length b \<Longrightarrow> o' + n \<le> length body \<Longrightarrow>
   window b (off + o') n = window body o' n"
  using window_window [of o' n "length body" off b] by simp

lemma leaf_body_windows:
  "window (leafCellBody k v) 0 2 = put_u16 (word_of_nat (length k))"
  "window (leafCellBody k v) 2 2 = put_u16 (word_of_nat (length v))"
  "window (leafCellBody k v) 4 (length k) = k"
  "window (leafCellBody k v) (4 + length k) (length v) = v"
  by (simp_all add: leafCellBody_def window_def)

lemma internal_body_windows:
  "window (internalCellBody k c) 0 2 = put_u16 (word_of_nat (length k))"
  "window (internalCellBody k c) 2 4 = put_u32 c"
  "window (internalCellBody k c) 6 (length k) = k"
  by (simp_all add: internalCellBody_def window_def)

lemma node_repr_cell:
  assumes "node_repr b ty sib ocs" "i < length ocs"
  shows "cellPtrArrayAt + 2 * i + 2 \<le> length b" "coff b i = fst (ocs ! i)"
    "window b (coff b i) (length (snd (ocs ! i))) = snd (ocs ! i)"
    "coff b i + length (snd (ocs ! i)) \<le> length b"
  using node_reprD [OF assms(1)] node_repr_coff [OF assms] nth_mem [OF assms(2)] assms(2)
  by (fastforce simp: cell_at_def)+

lemma leafKV_repr:
  assumes r: "leaf_repr (n_buf n) sib kvs" and i: "i < length kvs"
  shows "leafKV n i = Inr (kvs ! i)"
proof -
  obtain k v where kv: "kvs ! i = (k, v)" by fastforce
  obtain ocs where ocs: "node_repr (n_buf n) leafPage sib ocs"
    "map snd ocs = map (\<lambda>(k, v). leafCellBody k v) kvs"
    using r by (auto simp: leaf_repr_def)
  have io: "i < length ocs" using ocs(2) i by (metis length_map)
  have body: "snd (ocs ! i) = leafCellBody k v"
    using arg_cong [OF ocs(2), of "\<lambda>xs. xs ! i"] io i kv by simp
  have sz: "length k \<le> maxKeyValue" "length v \<le> maxKeyValue"
    using r nth_mem [OF i] kv by (auto simp: leaf_repr_def)
  note cell = node_repr_cell [OF ocs(1) io, unfolded body]
  note sub = sub_window [OF cell(3,4)]
  let ?o = "coff (n_buf n) i"
  have "u16_at (n_buf n) ?o = word_of_nat (length k)" "u16_at (n_buf n) (?o + 2) = word_of_nat (length v)"
    using sub [of 0 2] sub [of 2 2] by (simp_all add: u16_at_def leaf_body_windows be_simps)
  moreover have "window (n_buf n) (?o + 4) (length k) = k" "window (n_buf n) (?o + 4 + length k) (length v) = v"
    using sub [of 4 "length k"] sub [of "4 + length k" "length v"]
    by (simp_all add: leaf_body_windows add.assoc)
  ultimately show ?thesis
    using cell sz kv by (simp add: leafKV_def cellOffset_coff get_u16_at slice_window)
qed

lemma internalKC_repr:
  assumes r: "internal_repr (n_buf n) rm kcs" and i: "i < length kcs"
  shows "internalKC n i = Inr (kcs ! i)"
proof -
  obtain k c where kc: "kcs ! i = (k, c)" by fastforce
  obtain ocs where ocs: "node_repr (n_buf n) internalPage rm ocs"
    "map snd ocs = map (\<lambda>(k, c). internalCellBody k c) kcs"
    using r by (auto simp: internal_repr_def)
  have io: "i < length ocs" using ocs(2) i by (metis length_map)
  have body: "snd (ocs ! i) = internalCellBody k c"
    using arg_cong [OF ocs(2), of "\<lambda>xs. xs ! i"] io i kc by simp
  have sz: "length k \<le> maxKeyValue"
    using r nth_mem [OF i] kc by (auto simp: internal_repr_def)
  note cell = node_repr_cell [OF ocs(1) io, unfolded body]
  note sub = sub_window [OF cell(3,4)]
  let ?o = "coff (n_buf n) i"
  have "u16_at (n_buf n) ?o = word_of_nat (length k)" "u32_at (n_buf n) (?o + 2) = c"
    using sub [of 0 2] sub [of 2 4] by (simp_all add: u16_at_def u32_at_def internal_body_windows be_simps)
  moreover have "window (n_buf n) (?o + 6) (length k) = k"
    using sub [of 6 "length k"] by (simp add: internal_body_windows)
  ultimately show ?thesis
    using cell sz kc by (simp add: internalKC_def cellOffset_coff get_u16_at get_u32_at slice_window)
qed

lemma leaf_reprD:
  assumes "leaf_repr (n_buf n) sib kvs"
  shows "isLeaf n" "numCells n = length kvs" "sibling n = sib" "length (n_buf n) = PageSize"
  using assms
  by (auto simp: leaf_repr_def node_repr_def isLeaf_def numCells_def sibling_def
      dest!: arg_cong [of "map snd _" _ length])

lemma internal_reprD:
  assumes "internal_repr (n_buf n) rm kcs"
  shows "\<not> isLeaf n" "numCells n = length kcs" "sibling n = rm" "length (n_buf n) = PageSize"
  using assms
  by (auto simp: internal_repr_def node_repr_def isLeaf_def numCells_def sibling_def
      dest!: arg_cong [of "map snd _" _ length])

lemma cell_key_leaf:
  "leaf_repr (n_buf n) sib kvs \<Longrightarrow> i < length kvs \<Longrightarrow> cell_key n i = Inr (map fst kvs ! i)"
  by (simp add: cell_key_def leaf_reprD(1) leafKV_repr split: prod.split)

lemma cell_key_internal:
  "internal_repr (n_buf n) rm kcs \<Longrightarrow> i < length kcs \<Longrightarrow> cell_key n i = Inr (map fst kcs ! i)"
  by (simp add: cell_key_def internal_reprD(1) internalKC_repr split: prod.split)

section \<open>Binary search\<close>

text \<open>The number of keys below \<open>key\<close>: the reference for \<^verbatim>\<open>findIndex\<close>.\<close>

definition lower_bound :: "bytes list \<Rightarrow> bytes \<Rightarrow> nat" where
  "lower_bound ks key = length (takeWhile (\<lambda>k. k < key) ks)"

lemma length_takeWhile_unique:
  "i \<le> length xs \<Longrightarrow> (\<And>j. j < i \<Longrightarrow> P (xs ! j)) \<Longrightarrow> (i < length xs \<Longrightarrow> \<not> P (xs ! i)) \<Longrightarrow>
   length (takeWhile P xs) = i"
proof (induction xs arbitrary: i)
  case Nil
  then show ?case by simp
next
  case (Cons x xs)
  show ?case
  proof (cases i)
    case 0
    then show ?thesis using Cons.prems(3) by simp
  next
    case (Suc m)
    have "length (takeWhile P xs) = m"
      by (rule Cons.IH) (use Cons.prems(1,3) Cons.prems(2) [of "Suc _"] Suc in auto)
    then show ?thesis using Cons.prems(2) [of 0] Suc by simp
  qed
qed

lemma find_loop_ok:
  assumes "\<And>i. i < length ks \<Longrightarrow> cell_key n i = Inr (ks ! i)" "sorted_wrt (<) ks"
    and "lo \<le> hi" "hi \<le> length ks"
    and "\<And>j. j < lo \<Longrightarrow> ks ! j < key" "\<And>j. hi \<le> j \<Longrightarrow> j < length ks \<Longrightarrow> key < ks ! j"
  shows "find_loop n key lo hi = Inr (lower_bound ks key, key \<in> set ks)"
  using assms
proof (induction n key lo hi rule: find_loop.induct)
  case (1 n key lo hi)
  note mono = sorted_wrt_nth_less [OF "1.prems"(2)]
  show ?case
  proof (cases "lo < hi")
    case False
    then have eq: "lo = hi" using "1.prems"(3) by simp
    have "lower_bound ks key = lo"
      unfolding lower_bound_def using "1.prems"(4-6) eq
      by (intro length_takeWhile_unique) (auto dest: less_imp_not_less)
    moreover have "key \<notin> set ks"
      using "1.prems"(5,6) eq by (metis in_set_conv_nth less_irrefl not_le)
    ultimately show ?thesis using False by (simp add: find_loop.simps [of n key lo hi])
  next
    case True
    define mid where "mid = (lo + hi) div 2"
    have mid: "lo \<le> mid" "mid < hi" "mid < length ks" using True "1.prems"(4) by (auto simp: mid_def)
    have ck: "cell_key n mid = Inr (ks ! mid)" using "1.prems"(1) mid by simp
    note unf = find_loop.simps [of n key lo hi, folded mid_def]
    consider "ks ! mid = key" | "ks ! mid < key" | "key < ks ! mid" by force
    then show ?thesis
    proof cases
      case 1
      have "lower_bound ks key = mid"
        unfolding lower_bound_def using 1 mid mono [of _ mid] by (intro length_takeWhile_unique) auto
      moreover have "key \<in> set ks" using 1 mid(3) by auto
      ultimately show ?thesis using 1 True ck by (simp add: unf bytes_compare_order)
    next
      case 2
      then have c: "bytes_compare (ks ! mid) key < 0" by (simp add: bytes_compare_order)
      have lt: "ks ! j < key" if "j < mid + 1" for j
        using that 2 mid mono [of j mid] by (cases "j = mid") auto
      have "find_loop n key (mid + 1) hi = Inr (lower_bound ks key, key \<in> set ks)"
        using mid c "1.prems" lt
        by (intro "1.IH"(1) [OF True mid_def ck refl]) auto
      then show ?thesis using c True ck by (simp add: unf)
    next
      case 3
      then have c: "bytes_compare (ks ! mid) key > 0" by (simp add: bytes_compare_order)
      have gt: "key < ks ! j" if "mid \<le> j" "j < length ks" for j
        using that 3 mono [of mid j] by (cases "j = mid") auto
      have "find_loop n key lo mid = Inr (lower_bound ks key, key \<in> set ks)"
        using mid c "1.prems" gt
        by (intro "1.IH"(2) [OF True mid_def ck refl]) auto
      then show ?thesis using c True ck by (simp add: unf)
    qed
  qed
qed

lemma findIndex_leaf:
  "leaf_repr (n_buf n) sib kvs \<Longrightarrow> sorted_wrt (<) (map fst kvs) \<Longrightarrow>
   findIndex n key = Inr (lower_bound (map fst kvs) key, key \<in> fst ` set kvs)"
  unfolding findIndex_def
  by (subst find_loop_ok [where ks = "map fst kvs"]) (simp_all add: cell_key_leaf leaf_reprD(2))

lemma findIndex_internal:
  "internal_repr (n_buf n) rm kcs \<Longrightarrow> sorted_wrt (<) (map fst kcs) \<Longrightarrow>
   findIndex n key = Inr (lower_bound (map fst kcs) key, key \<in> fst ` set kcs)"
  unfolding findIndex_def
  by (subst find_loop_ok [where ks = "map fst kcs"]) (simp_all add: cell_key_internal internal_reprD(2))

section \<open>Updating pages\<close>

lemma top_of_newNodeBuf [simp]: "top_of (newNodeBuf ty) = PageSize"
  by (simp add: top_of_def newNodeBuf_def Let_def)

lemma node_repr_new: "node_repr (newNodeBuf ty) ty 0 []"
  by (simp add: node_repr_def newNodeBuf_def Let_def u16_at_overwrite u32_at_overwrite nth_overwrite
      top_of_def)

lemma node_repr_setSibling:
  assumes "node_repr b ty sib ocs"
  shows "node_repr (overwrite b hdrSibling (put_u32 s)) ty s ocs"
proof -
  note rep = node_reprD [OF assms]
  let ?c = "overwrite b hdrSibling (put_u32 s)"
  have so: "same_outside b ?c 3 7" using rep(1) by (intro same_outside_overwrite) simp_all
  have t: "top_of ?c = top_of b" using so rep(1) by (simp add: top_of_def same_outside_u16)
  have co: "coff ?c i = coff b i" if "i < length ocs" for i
    using so rep(1,6,7) that by (simp add: coff_def same_outside_u16)
  have "cell_at ?c x" if "x \<in> set ocs" for x
    using rep(8) [OF that] rep(1,6) t by (intro cell_at_same_outside [OF _ so]) (auto simp: cell_at_def)
  moreover have "map (coff ?c) [0..<length ocs] = map fst ocs"
    using rep(5) co by (metis (no_types, lifting) atLeastLessThan_iff atLeast_upt map_cong set_upt)
  ultimately show ?thesis
    unfolding node_repr_def using rep so t
    by (auto simp: same_outside_u16 nth_overwrite)
qed

text \<open>Writing inside one cell body leaves the other cells alone, since bodies do not overlap.\<close>

lemma node_repr_cell_update:
  assumes r: "node_repr b ty sib ocs" and i: "i < length ocs"
    and x: "o' + length x \<le> length (snd (ocs ! i))"
  shows "node_repr (overwrite b (coff b i + o') x) ty sib
    (ocs[i := (fst (ocs ! i), overwrite (snd (ocs ! i)) o' x)])"
proof -
  note rep = node_reprD [OF r]
  obtain o1 c1 where oc: "ocs ! i = (o1, c1)" by fastforce
  have ca: "top_of b \<le> o1" "o1 + length c1 \<le> PageSize" "window b o1 (length c1) = c1"
    using rep(8) [OF nth_mem [OF i]] oc by (simp_all add: cell_at_def)
  have co: "coff b i = o1" using node_repr_coff [OF r i] oc by simp
  let ?c = "overwrite b (o1 + o') x" and ?c1 = "overwrite c1 o' x"
  have xl: "o' + length x \<le> length c1" using x oc by simp
  have lc: "length ?c1 = length c1" using xl by simp
  have so: "same_outside b ?c (o1 + o') (o1 + o' + length x)"
    using ca xl rep(1) by (intro same_outside_overwrite) simp_all
  have t: "top_of ?c = top_of b" using so ca rep(1,6) by (simp add: top_of_def same_outside_u16)
  have offs: "coff ?c j = coff b j" if "j < length ocs" for j
    using so ca rep(1,6) that by (simp add: coff_def same_outside_u16)
  have new: "cell_at ?c (o1, ?c1)"
    using ca xl rep(1) t lc by (simp add: cell_at_def window_overwrite_inside)
  have old: "cell_at ?c (ocs ! j)" if j: "j < length ocs" "j \<noteq> i" for j
  proof -
    have "apart (ocs ! j) (o1, c1)"
      using sorted_wrt_nth_less [OF rep(9), of i j] sorted_wrt_nth_less [OF rep(9), of j i] i j oc
      by (auto simp: apart_sym linorder_neq_iff)
    moreover have "cell_at b (ocs ! j)" using rep(8) j by simp
    ultimately show ?thesis
      using same_outside_window [OF so, of "fst (ocs ! j)" "length (snd (ocs ! j))"] rep(1) xl t
      by (auto simp: cell_at_def apart_def)
  qed
  have "cell_at ?c y" if "y \<in> set (ocs[i := (o1, ?c1)])" for y
    using that new old i by (auto simp: in_set_conv_nth nth_list_update split: if_splits)
  moreover have "map fst (ocs[i := (o1, ?c1)]) = map fst ocs"
    using oc by (metis fst_conv list_update_id map_update)
  moreover have "body_bytes (ocs[i := (o1, ?c1)]) = body_bytes ocs"
    using lc oc by (simp add: body_bytes_def map_update) (metis list_update_id nth_map i length_map snd_conv)
  moreover have "fst (ocs[i := (o1, ?c1)] ! j) = fst (ocs ! j)"
    "length (snd (ocs[i := (o1, ?c1)] ! j)) = length (snd (ocs ! j))" if "j < length ocs" for j
    using that lc oc by (cases "j = i"; simp)+
  then have "sorted_wrt apart (ocs[i := (o1, ?c1)])"
    using rep(9) by (simp add: sorted_wrt_iff_nth_less apart_def)
  moreover have "map (coff ?c) [0..<length ocs] = map fst ocs"
    using rep(5) offs by (metis (no_types, lifting) atLeastLessThan_iff atLeast_upt map_cong set_upt)
  ultimately show ?thesis
    unfolding node_repr_def using rep so t ca oc co xl
    by (simp add: same_outside_u16 same_outside_u32 same_outside_nth)
qed

section \<open>Leaf pages\<close>

text \<open>The bytes a cell takes, its slot in the offset array included, and the bytes of a page for cells.\<close>

abbreviation (input) page_room :: nat where "page_room \<equiv> 4087"

definition leaf_cost :: "(bytes \<times> bytes) list \<Rightarrow> nat" where
  "leaf_cost kvs = sum_list (map (\<lambda>(k, v). 6 + length k + length v) kvs)"

definition internal_cost :: "(bytes \<times> page_id) list \<Rightarrow> nat" where
  "internal_cost kcs = sum_list (map (\<lambda>(k, c). 8 + length k) kcs)"

lemma leaf_cost_simps [simp]:
  "leaf_cost [] = 0" "leaf_cost ((k, v) # kvs) = 6 + length k + length v + leaf_cost kvs"
  "leaf_cost (xs @ ys) = leaf_cost xs + leaf_cost ys"
  by (simp_all add: leaf_cost_def)

lemma internal_cost_simps [simp]:
  "internal_cost [] = 0" "internal_cost ((k, c) # kcs) = 8 + length k + internal_cost kcs"
  "internal_cost (xs @ ys) = internal_cost xs + internal_cost ys"
  by (simp_all add: internal_cost_def)

lemma leaf_cost_bodies:
  "map snd ocs = map (\<lambda>(k, v). leafCellBody k v) kvs \<Longrightarrow> body_bytes ocs + 2 * length ocs = leaf_cost kvs"
  by (induction kvs arbitrary: ocs) auto

lemma internal_cost_bodies:
  "map snd ocs = map (\<lambda>(k, c). internalCellBody k c) kcs \<Longrightarrow> body_bytes ocs + 2 * length ocs = internal_cost kcs"
  by (induction kcs arbitrary: ocs) auto

lemma leaf_repr_cost: "leaf_repr b sib kvs \<Longrightarrow> leaf_cost kvs \<le> page_room"
  by (auto simp: leaf_repr_def node_repr_def dest!: leaf_cost_bodies)

lemma internal_repr_cost: "internal_repr b rm kcs \<Longrightarrow> internal_cost kcs \<le> page_room"
  by (auto simp: internal_repr_def node_repr_def dest!: internal_cost_bodies)

lemma leaf_repr_new: "leaf_repr (newNodeBuf leafPage) 0 []"
  using node_repr_new by (auto simp: leaf_repr_def)

lemma leaf_repr_setSibling: "leaf_repr b sib kvs \<Longrightarrow> leaf_repr (overwrite b 3 (put_u32 s)) s kvs"
  by (auto simp: leaf_repr_def intro: node_repr_setSibling)

lemma internal_repr_setSibling: "internal_repr b sib kcs \<Longrightarrow> internal_repr (overwrite b 3 (put_u32 s)) s kcs"
  by (auto simp: internal_repr_def intro: node_repr_setSibling)

lemma leaf_insert:
  assumes "leaf_repr (n_buf n) sib kvs" "idx \<le> length kvs"
    and "length k \<le> maxKeyValue" "length v \<le> maxKeyValue"
    and "int (length (leafCellBody k v) + 2) \<le> freeSpace n"
  obtains c where "insertCellAt idx (leafCellBody k v) n = Inr (True, n\<lparr>n_buf := c\<rparr>)"
    "leaf_repr c sib (ins_at idx (k, v) kvs)"
    "freeSpace (n\<lparr>n_buf := c\<rparr>) = freeSpace n - int (6 + length k + length v)"
proof -
  obtain ocs where ocs: "node_repr (n_buf n) leafPage sib ocs"
    "map snd ocs = map (\<lambda>(k, v). leafCellBody k v) kvs"
    using assms(1) by (auto simp: leaf_repr_def)
  have "idx \<le> length ocs" using ocs(2) assms(2) by (metis length_map)
  from insertCellAt_ok [OF ocs(1) this assms(5)] obtain c o' where
    c: "insertCellAt idx (leafCellBody k v) n = Inr (True, n\<lparr>n_buf := c\<rparr>)"
      "node_repr c leafPage sib (ins_at idx (o', leafCellBody k v) ocs)"
      "freeSpace (n\<lparr>n_buf := c\<rparr>) = freeSpace n - int (length (leafCellBody k v) + 2)" by metis
  have "map snd (ins_at idx (o', leafCellBody k v) ocs) = map (\<lambda>(k, v). leafCellBody k v) (ins_at idx (k, v) kvs)"
    using ocs(2) by (simp add: map_ins_at)
  with c assms show thesis by (intro that [of c]) (auto simp: leaf_repr_def set_ins_at)
qed

lemma leaf_remove:
  assumes "leaf_repr (n_buf n) sib kvs" "idx < length kvs"
  obtains c where "removeCellAt idx n = Inr (n\<lparr>n_buf := c\<rparr>)" "leaf_repr c sib (del_at idx kvs)"
    "freeSpace n \<le> freeSpace (n\<lparr>n_buf := c\<rparr>)"
proof -
  obtain ocs where ocs: "node_repr (n_buf n) leafPage sib ocs"
    "map snd ocs = map (\<lambda>(k, v). leafCellBody k v) kvs"
    using assms(1) by (auto simp: leaf_repr_def)
  have "idx < length ocs" using ocs(2) assms(2) by (metis length_map)
  from removeCellAt_ok [OF ocs(1) this] obtain c where
    c: "removeCellAt idx n = Inr (n\<lparr>n_buf := c\<rparr>)" "node_repr c leafPage sib (del_at idx ocs)"
      "top_of c = top_of (n_buf n)" by metis
  have fs: "freeSpace n \<le> freeSpace (n\<lparr>n_buf := c\<rparr>)"
    using freeSpace_repr [OF ocs(1)] freeSpace_repr [of "n\<lparr>n_buf := c\<rparr>" leafPage sib "del_at idx ocs"] c
      \<open>idx < length ocs\<close> by simp
  have "map snd (del_at idx ocs) = map (\<lambda>(k, v). leafCellBody k v) (del_at idx kvs)"
    using ocs(2) by (simp add: map_del_at)
  with c fs assms show thesis
    using set_del_at [of idx kvs] by (intro that [of c]) (auto simp: leaf_repr_def)
qed

lemma internal_insert:
  assumes "internal_repr (n_buf n) rm kcs" "idx \<le> length kcs" "length k \<le> maxKeyValue"
    and "int (length (internalCellBody k ch) + 2) \<le> freeSpace n"
  obtains c where "insertCellAt idx (internalCellBody k ch) n = Inr (True, n\<lparr>n_buf := c\<rparr>)"
    "internal_repr c rm (ins_at idx (k, ch) kcs)"
    "freeSpace (n\<lparr>n_buf := c\<rparr>) = freeSpace n - int (8 + length k)"
proof -
  obtain ocs where ocs: "node_repr (n_buf n) internalPage rm ocs"
    "map snd ocs = map (\<lambda>(k, c). internalCellBody k c) kcs"
    using assms(1) by (auto simp: internal_repr_def)
  have "idx \<le> length ocs" using ocs(2) assms(2) by (metis length_map)
  from insertCellAt_ok [OF ocs(1) this assms(4)] obtain c o' where
    c: "insertCellAt idx (internalCellBody k ch) n = Inr (True, n\<lparr>n_buf := c\<rparr>)"
      "node_repr c internalPage rm (ins_at idx (o', internalCellBody k ch) ocs)"
      "freeSpace (n\<lparr>n_buf := c\<rparr>) = freeSpace n - int (length (internalCellBody k ch) + 2)" by metis
  have "map snd (ins_at idx (o', internalCellBody k ch) ocs) =
      map (\<lambda>(k, c). internalCellBody k c) (ins_at idx (k, ch) kcs)"
    using ocs(2) by (simp add: map_ins_at)
  with c assms show thesis by (intro that [of c]) (auto simp: internal_repr_def set_ins_at)
qed

section \<open>Filling a new page\<close>

text \<open>
  The loops of the split routines that append cells at the end of a page; the
  result of \<^verbatim>\<open>insertCellAt\<close> is ignored there.
\<close>

fun append_cells :: "bytes list \<Rightarrow> node \<Rightarrow> node result" where
  "append_cells [] n = Inr n"
| "append_cells (body # bodies) n =
     rbind (insertCellAt (numCells n) body n) (\<lambda>(_, n'). append_cells bodies n')"

lemma ins_at_end [simp]: "ins_at (length xs) x xs = xs @ [x]"
  by (simp add: ins_at_def)

lemma append_cells_leaf:
  assumes "leaf_repr (n_buf n) sib kvs" "int (leaf_cost new) \<le> freeSpace n"
    and "\<forall>(k, v)\<in>set new. length k \<le> maxKeyValue \<and> length v \<le> maxKeyValue"
  shows "\<exists>c. append_cells (map (\<lambda>(k, v). leafCellBody k v) new) n = Inr (n\<lparr>n_buf := c\<rparr>) \<and>
    leaf_repr c sib (kvs @ new)"
  using assms
proof (induction new arbitrary: n kvs)
  case Nil
  then show ?case by (auto intro!: exI [of _ "n_buf n"])
next
  case (Cons x new)
  obtain k v where x: "x = (k, v)" by fastforce
  obtain c where c: "insertCellAt (length kvs) (leafCellBody k v) n = Inr (True, n\<lparr>n_buf := c\<rparr>)"
    "leaf_repr c sib (kvs @ [(k, v)])" "freeSpace (n\<lparr>n_buf := c\<rparr>) = freeSpace n - int (6 + length k + length v)"
    using leaf_insert [OF Cons.prems(1) le_refl, of k v] Cons.prems(2,3) x by auto
  then obtain d where "append_cells (map (\<lambda>(k, v). leafCellBody k v) new) (n\<lparr>n_buf := c\<rparr>) = Inr (n\<lparr>n_buf := d\<rparr>)"
    "leaf_repr d sib ((kvs @ [(k, v)]) @ new)"
    using Cons.IH [of "n\<lparr>n_buf := c\<rparr>" "kvs @ [(k, v)]"] Cons.prems(2,3) x by auto
  then show ?case using c(1) x leaf_reprD(2) [OF Cons.prems(1)] by auto
qed

lemma append_cells_internal:
  assumes "internal_repr (n_buf n) rm kcs" "int (internal_cost new) \<le> freeSpace n"
    and "\<forall>(k, c)\<in>set new. length k \<le> maxKeyValue"
  shows "\<exists>c. append_cells (map (\<lambda>(k, c). internalCellBody k c) new) n = Inr (n\<lparr>n_buf := c\<rparr>) \<and>
    internal_repr c rm (kcs @ new) \<and> freeSpace (n\<lparr>n_buf := c\<rparr>) = freeSpace n - int (internal_cost new)"
  using assms
proof (induction new arbitrary: n kcs)
  case Nil
  then show ?case by (auto intro!: exI [of _ "n_buf n"])
next
  case (Cons x new)
  obtain k ch where x: "x = (k, ch)" by fastforce
  obtain c where c: "insertCellAt (length kcs) (internalCellBody k ch) n = Inr (True, n\<lparr>n_buf := c\<rparr>)"
    "internal_repr c rm (kcs @ [(k, ch)])" "freeSpace (n\<lparr>n_buf := c\<rparr>) = freeSpace n - int (8 + length k)"
    using internal_insert [OF Cons.prems(1) le_refl, of k ch] Cons.prems(2,3) x by auto
  then obtain d where "append_cells (map (\<lambda>(k, c). internalCellBody k c) new) (n\<lparr>n_buf := c\<rparr>) = Inr (n\<lparr>n_buf := d\<rparr>)"
    "internal_repr d rm ((kcs @ [(k, ch)]) @ new)"
    "freeSpace (n\<lparr>n_buf := d\<rparr>) = freeSpace (n\<lparr>n_buf := c\<rparr>) - int (internal_cost new)"
    using Cons.IH [of "n\<lparr>n_buf := c\<rparr>" "kcs @ [(k, ch)]"] Cons.prems(2,3) x by auto
  then show ?case using c(1,3) x internal_reprD(2) [OF Cons.prems(1)] by auto
qed

lemma freeSpace_new: "freeSpace \<lparr>n_id = i, n_buf = newNodeBuf ty\<rparr> = int page_room"
  using freeSpace_repr [of "\<lparr>n_id = i, n_buf = newNodeBuf ty\<rparr>" ty 0 "[]"] node_repr_new by simp

lemma internal_repr_new: "internal_repr (newNodeBuf internalPage) 0 []"
  using node_repr_new by (auto simp: internal_repr_def)

text \<open>A new page filled with cells that fit.\<close>

lemma new_leaf:
  assumes "leaf_cost kvs \<le> page_room" "\<forall>(k, v)\<in>set kvs. length k \<le> maxKeyValue \<and> length v \<le> maxKeyValue"
  shows "\<exists>c. append_cells (map (\<lambda>(k, v). leafCellBody k v) kvs) \<lparr>n_id = i, n_buf = newNodeBuf leafPage\<rparr> =
      Inr \<lparr>n_id = i, n_buf = c\<rparr> \<and> leaf_repr c 0 kvs"
  using append_cells_leaf [of "\<lparr>n_id = i, n_buf = newNodeBuf leafPage\<rparr>" 0 "[]" kvs] assms
  by (simp add: leaf_repr_new freeSpace_new)

lemma new_internal:
  assumes "internal_cost kcs \<le> page_room" "\<forall>(k, c)\<in>set kcs. length k \<le> maxKeyValue"
  shows "\<exists>c. append_cells (map (\<lambda>(k, c). internalCellBody k c) kcs) \<lparr>n_id = i, n_buf = newNodeBuf internalPage\<rparr> =
      Inr \<lparr>n_id = i, n_buf = c\<rparr> \<and> internal_repr c 0 kcs \<and>
      freeSpace \<lparr>n_id = i, n_buf = c\<rparr> = int page_room - int (internal_cost kcs)"
  using append_cells_internal [of "\<lparr>n_id = i, n_buf = newNodeBuf internalPage\<rparr>" 0 "[]" kcs] assms
  by (simp add: internal_repr_new freeSpace_new)

end
