(* ===== verification/BTree.thy ===== *)
theory BTree
  imports Node
begin

text \<open>
  The B+ tree of \<^verbatim>\<open>internal/storage/btree.go\<close> (lines 36 to 563): lookup,
  insertion with page splits, deletion and cursors, on the pages of a pager.
  A tree is its root page id; the pager is the state.

  The loops that follow page pointers are given as many steps as the file has
  pages.  On a file where such a loop needs more, it visits a page twice and so
  does not return in Go either: the model's result is then \<open>Diverges\<close>.
\<close>

section \<open>Nodes\<close>

definition page_fuel :: "pager \<Rightarrow> nat" where
  "page_fuel p = length (fdata p) div PageSize + 1"

definition readNode :: "page_id \<Rightarrow> (pager, node) sm" where
  "readNode pid = bind (ReadPage pid) (\<lambda>buf. ret \<lparr>n_id = pid, n_buf = buf\<rparr>)"

definition writeNode :: "node \<Rightarrow> (pager, unit) sm" where
  "writeNode n = WritePage (n_id n) (n_buf n)"

definition OpenBTree :: "page_id \<Rightarrow> (pager, page_id) sm" where
  "OpenBTree root =
     (if root = 0
      then bind AllocatePage (\<lambda>pid. bind (WritePage pid (newNodeBuf leafPage)) (\<lambda>_. ret pid))
      else ret root)"

text \<open>
  The step down from an internal node, as \<^verbatim>\<open>Get\<close>, \<^verbatim>\<open>putRec\<close>, \<^verbatim>\<open>Delete\<close> and
  \<^verbatim>\<open>NewCursor\<close> take it: the index of the cell followed and the child.
\<close>

definition childFor :: "node \<Rightarrow> bytes \<Rightarrow> (nat \<times> page_id) result" where
  "childFor n key =
     rbind (findIndex n key) (\<lambda>(idx, exact).
       let idx = (if exact then idx + 1 else idx)
       in if idx \<ge> numCells n then Inr (idx, sibling n)
          else rbind (internalKC n idx) (\<lambda>(_, child). Inr (idx, child)))"

fun descend :: "nat \<Rightarrow> bytes \<Rightarrow> node \<Rightarrow> (pager, node) sm" where
  "descend fuel key n =
     (if isLeaf n then ret n
      else case fuel of
        0 \<Rightarrow> fail Diverges
      | Suc f \<Rightarrow> bind (lift (childFor n key)) (\<lambda>(_, child). bind (readNode child) (descend f key)))"

declare descend.simps [simp del]

section \<open>Lookup\<close>

definition Get :: "page_id \<Rightarrow> bytes \<Rightarrow> (pager, bytes) sm" where
  "Get root key p =
     bind (readNode root) (\<lambda>n.
     bind (descend (page_fuel p) key n) (\<lambda>leaf.
     bind (lift (findIndex leaf key)) (\<lambda>(idx, exact).
       if \<not> exact then fail ErrKeyNotFound
       else bind (lift (leafKV leaf idx)) (\<lambda>(_, v). ret v)))) p"

definition Has :: "page_id \<Rightarrow> bytes \<Rightarrow> (pager, bool) sm" where
  "Has root key p =
     (case Get root key p of
        (Inl ErrKeyNotFound, p') \<Rightarrow> (Inr False, p')
      | (Inl e, p') \<Rightarrow> (Inl e, p')
      | (Inr v, p') \<Rightarrow> (Inr True, p'))"

section \<open>Splitting pages\<close>

fun gather_leaf :: "node \<Rightarrow> nat \<Rightarrow> bytes \<Rightarrow> nat \<Rightarrow> nat \<Rightarrow> bytes list result" where
  "gather_leaf n insertIdx insertBody i 0 = Inr []"
| "gather_leaf n insertIdx insertBody i (Suc m) =
     rbind (leafKV n i) (\<lambda>(k, v).
     rbind (gather_leaf n insertIdx insertBody (i + 1) m) (\<lambda>cells.
     Inr ((if i = insertIdx then [insertBody] else []) @ leafCellBody k v # cells)))"

definition splitLeafAndInsert :: "node \<Rightarrow> nat \<Rightarrow> bytes \<Rightarrow> (pager, (bytes \<times> page_id) option) sm" where
  "splitLeafAndInsert n insertIdx insertBody =
     bind (lift (gather_leaf n insertIdx insertBody 0 (numCells n))) (\<lambda>gathered.
     let cells = gathered @ (if insertIdx \<ge> numCells n then [insertBody] else []);
         mid = length cells div 2
     in bind AllocatePage (\<lambda>rightID.
        bind (lift (append_cells (take mid cells) \<lparr>n_id = n_id n, n_buf = newNodeBuf leafPage\<rparr>)) (\<lambda>left.
        bind (lift (append_cells (drop mid cells) \<lparr>n_id = rightID, n_buf = newNodeBuf leafPage\<rparr>)) (\<lambda>right.
        let right = setSibling (sibling n) right;
            left = setSibling rightID left
        in bind (writeNode left) (\<lambda>_.
           bind (writeNode right) (\<lambda>_.
           bind (lift (leafKV right 0)) (\<lambda>(promoteKey, _).
           ret (Some (promoteKey, rightID)))))))))"

fun gather_internal :: "node \<Rightarrow> nat \<Rightarrow> bytes \<Rightarrow> nat \<Rightarrow> nat \<Rightarrow> (bytes \<times> page_id) list result" where
  "gather_internal n insertIdx insertBody i 0 = Inr []"
| "gather_internal n insertIdx insertBody i (Suc m) =
     rbind (internalKC n i) (\<lambda>(k, c).
     rbind (if i = insertIdx then rbind (internalCellKeyChild insertBody) (\<lambda>kc. Inr [kc]) else Inr []) (\<lambda>ins.
     rbind (gather_internal n insertIdx insertBody (i + 1) m) (\<lambda>cells.
     Inr (ins @ (k, c) # cells))))"

definition splitInternalAndInsert ::
    "node \<Rightarrow> nat \<Rightarrow> bytes \<Rightarrow> page_id \<Rightarrow> bool \<Rightarrow> (pager, (bytes \<times> page_id) option) sm" where
  "splitInternalAndInsert n insertIdx insertBody newRightChild insertedWasRightmost =
     bind (lift (gather_internal n insertIdx insertBody 0 (numCells n))) (\<lambda>gathered.
     bind (lift (if insertIdx \<ge> numCells n then rbind (internalCellKeyChild insertBody) (\<lambda>kc. Inr [kc]) else Inr [])) (\<lambda>ins.
     let cells = gathered @ ins;
         oldRightmost = sibling n;
         (cells, oldRightmost) =
           (if \<not> insertedWasRightmost then
              (if insertIdx + 1 < length cells
               then (cells[insertIdx + 1 := (fst (cells ! (insertIdx + 1)), newRightChild)], oldRightmost)
               else (cells, newRightChild))
            else (cells, oldRightmost));
         mid = length cells div 2
     in if mid \<ge> length cells then fail Panic
        else
          (let promote = cells ! mid
           in bind AllocatePage (\<lambda>rightID.
              bind (lift (append_cells (map (\<lambda>(k, c). internalCellBody k c) (take mid cells))
                 \<lparr>n_id = n_id n, n_buf = newNodeBuf internalPage\<rparr>)) (\<lambda>left.
              bind (lift (append_cells (map (\<lambda>(k, c). internalCellBody k c) (drop (mid + 1) cells))
                 \<lparr>n_id = rightID, n_buf = newNodeBuf internalPage\<rparr>)) (\<lambda>right.
              let right = setSibling oldRightmost right;
                  left = setSibling (snd promote) left
              in bind (writeNode left) (\<lambda>_.
                 bind (writeNode right) (\<lambda>_.
                 ret (Some (fst promote, rightID)))))))))) "

definition rewriteChildAt :: "node \<Rightarrow> nat \<Rightarrow> page_id \<Rightarrow> (pager, unit) sm" where
  "rewriteChildAt n idx child =
     bind (lift (rbind (cellOffset n idx) (\<lambda>off. splice (n_buf n) (off + 2) (put_u32 child)))) (\<lambda>buf.
     writeNode (n\<lparr>n_buf := buf\<rparr>))"

section \<open>Insertion\<close>

definition putLeaf :: "node \<Rightarrow> bytes \<Rightarrow> bytes \<Rightarrow> (pager, (bytes \<times> page_id) option) sm" where
  "putLeaf n key val =
     bind (lift (findIndex n key)) (\<lambda>(idx, exact).
     bind (lift (if exact then removeCellAt idx n else Inr n)) (\<lambda>n.
     let body = leafCellBody key val
     in bind (lift (insertCellAt idx body n)) (\<lambda>(ok, n').
        if ok then bind (writeNode n') (\<lambda>_. ret None)
        else splitLeafAndInsert n idx body)))"

text \<open>Linking a split of the child at \<open>idx\<close> into its parent \<open>n\<close>.\<close>

definition linkSplit :: "node \<Rightarrow> nat \<Rightarrow> page_id \<Rightarrow> bytes \<times> page_id \<Rightarrow> (pager, (bytes \<times> page_id) option) sm" where
  "linkSplit n idx child split =
     (case split of (promoteKey, newRight) \<Rightarrow>
       (let body = internalCellBody promoteKey child
        in if idx \<ge> numCells n
           then bind (lift (insertCellAt idx body n)) (\<lambda>(ok, n').
                if ok then bind (writeNode (setSibling newRight n')) (\<lambda>_. ret None)
                else splitInternalAndInsert n idx body newRight True)
           else bind (lift (insertCellAt idx body n)) (\<lambda>(ok, n').
                if ok then bind (rewriteChildAt n' (idx + 1) newRight) (\<lambda>_. ret None)
                else splitInternalAndInsert n idx body newRight False)))"

fun putRec :: "nat \<Rightarrow> page_id \<Rightarrow> bytes \<Rightarrow> bytes \<Rightarrow> (pager, (bytes \<times> page_id) option) sm" where
  "putRec fuel pid key val =
     bind (readNode pid) (\<lambda>n.
       if isLeaf n then putLeaf n key val
       else case fuel of
         0 \<Rightarrow> fail Diverges
       | Suc f \<Rightarrow>
           bind (lift (childFor n key)) (\<lambda>(idx, child).
           bind (putRec f child key val) (\<lambda>split.
           case split of None \<Rightarrow> ret None | Some s \<Rightarrow> linkSplit n idx child s)))"

declare putRec.simps [simp del]

definition Put :: "page_id \<Rightarrow> bytes \<Rightarrow> bytes \<Rightarrow> (pager, page_id) sm" where
  "Put root key val p =
     (if length key > maxKeyValue \<or> length val > maxKeyValue then (Inl ErrKeyTooLarge, p)
      else bind (putRec (page_fuel p) root key val) (\<lambda>split.
           case split of
             None \<Rightarrow> ret root
           | Some (promoteKey, newRight) \<Rightarrow>
               bind AllocatePage (\<lambda>newRootID.
               bind (lift (insertCellAt 0 (internalCellBody promoteKey root)
                  \<lparr>n_id = newRootID, n_buf = newNodeBuf internalPage\<rparr>)) (\<lambda>(_, n).
               bind (writeNode (setSibling newRight n)) (\<lambda>_. ret newRootID)))) p)"

section \<open>Deletion\<close>

definition Delete :: "page_id \<Rightarrow> bytes \<Rightarrow> (pager, unit) sm" where
  "Delete root key p =
     bind (readNode root) (\<lambda>n.
     bind (descend (page_fuel p) key n) (\<lambda>leaf.
     bind (lift (findIndex leaf key)) (\<lambda>(idx, exact).
       if \<not> exact then fail ErrKeyNotFound
       else bind (lift (removeCellAt idx leaf)) writeNode))) p"

section \<open>Cursors\<close>

record cursor =
  c_node :: node
  c_i :: nat

definition firstChild :: "node \<Rightarrow> page_id result" where
  "firstChild n = rbind (internalKC n 0) (\<lambda>(_, child). Inr (if numCells n = 0 then sibling n else child))"

fun descend_from :: "nat \<Rightarrow> bytes option \<Rightarrow> node \<Rightarrow> (pager, node) sm" where
  "descend_from fuel startKey n =
     (if isLeaf n then ret n
      else case fuel of
        0 \<Rightarrow> fail Diverges
      | Suc f \<Rightarrow>
          bind (lift (case startKey of None \<Rightarrow> firstChild n
                      | Some key \<Rightarrow> rbind (childFor n key) (\<lambda>(_, child). Inr child))) (\<lambda>child.
          bind (readNode child) (descend_from f startKey)))"

declare descend_from.simps [simp del]

definition NewCursor :: "page_id \<Rightarrow> bytes option \<Rightarrow> (pager, cursor) sm" where
  "NewCursor root startKey p =
     bind (readNode root) (\<lambda>n.
     bind (descend_from (page_fuel p) startKey n) (\<lambda>leaf.
     bind (lift (case startKey of None \<Rightarrow> Inr 0
                 | Some key \<Rightarrow> rbind (findIndex leaf key) (\<lambda>(i, _). Inr i))) (\<lambda>i.
     ret \<lparr>c_node = leaf, c_i = i\<rparr>))) p"

fun next_loop :: "nat \<Rightarrow> cursor \<Rightarrow> (pager, (bytes \<times> bytes) option \<times> cursor) sm" where
  "next_loop fuel c =
     (if c_i c < numCells (c_node c)
      then bind (lift (leafKV (c_node c) (c_i c))) (\<lambda>kv. ret (Some kv, c\<lparr>c_i := c_i c + 1\<rparr>))
      else (let nxt = sibling (c_node c)
            in if nxt = 0 then ret (None, c)
               else case fuel of
                 0 \<Rightarrow> fail Diverges
               | Suc f \<Rightarrow> bind (readNode nxt) (\<lambda>n. next_loop f (c\<lparr>c_node := n, c_i := 0\<rparr>))))"

declare next_loop.simps [simp del]

definition Next :: "cursor \<Rightarrow> (pager, (bytes \<times> bytes) option \<times> cursor) sm" where
  "Next c p = next_loop (page_fuel p) c p"

end
