(* ===== verification/BTreeShape.thy ===== *)
theory BTreeShape
  imports SortedMap BTree "HOL-Library.Multiset"
begin

text \<open>
  The trees that the pages of a B+ tree file stand for.  A tree is a leaf page with
  its entries or an internal page with a forest of children separated by keys: the
  cells of the page are the children but the last with the separator to their right,
  the last child is the page's sibling field.  The theory holds the functions of
  trees that the operations of \<^verbatim>\<open>btree.go\<close> compute with page pointers (the child
  for a key, the replacement of that child by the outcome of an insertion, the cut of
  a forest in two) and their effect on order, entries and pages.
\<close>

section \<open>Trees and forests\<close>

datatype gtree = GLeaf page_id "(bytes \<times> bytes) list" | GNode page_id gforest
and gforest = FLast gtree | FCons gtree bytes gforest

lemma gforest_induct [case_names FLast FCons]:
  assumes "\<And>t. P (FLast t)" "\<And>t k f. P f \<Longrightarrow> P (FCons t k f)"
  shows "P f"
  using gtree_gforest.induct [of "\<lambda>_. True" P] assms by blast

primrec root_of :: "gtree \<Rightarrow> page_id" where
  "root_of (GLeaf pid kvs) = pid"
| "root_of (GNode pid f) = pid"

primrec leftmost :: "gtree \<Rightarrow> page_id" and fleftmost :: "gforest \<Rightarrow> page_id" where
  "leftmost (GLeaf pid kvs) = pid"
| "leftmost (GNode pid f) = fleftmost f"
| "fleftmost (FLast t) = leftmost t"
| "fleftmost (FCons t k f) = leftmost t"

primrec entries :: "gtree \<Rightarrow> (bytes \<times> bytes) list" and fentries :: "gforest \<Rightarrow> (bytes \<times> bytes) list" where
  "entries (GLeaf pid kvs) = kvs"
| "entries (GNode pid f) = fentries f"
| "fentries (FLast t) = entries t"
| "fentries (FCons t k f) = entries t @ fentries f"

primrec pages :: "gtree \<Rightarrow> page_id list" and fpages :: "gforest \<Rightarrow> page_id list" where
  "pages (GLeaf pid kvs) = [pid]"
| "pages (GNode pid f) = pid # fpages f"
| "fpages (FLast t) = pages t"
| "fpages (FCons t k f) = pages t @ fpages f"

primrec seps :: "gtree \<Rightarrow> bytes list" and fseps :: "gforest \<Rightarrow> bytes list" where
  "seps (GLeaf pid kvs) = []"
| "seps (GNode pid f) = fseps f"
| "fseps (FLast t) = seps t"
| "fseps (FCons t k f) = seps t @ k # fseps f"

primrec height :: "gtree \<Rightarrow> nat" and fheight :: "gforest \<Rightarrow> nat" where
  "height (GLeaf pid kvs) = 0"
| "height (GNode pid f) = Suc (fheight f)"
| "fheight (FLast t) = height t"
| "fheight (FCons t k f) = max (height t) (fheight f)"

primrec fcells :: "gforest \<Rightarrow> (bytes \<times> page_id) list" where
  "fcells (FLast t) = []"
| "fcells (FCons t k f) = (k, root_of t) # fcells f"

primrec flast :: "gforest \<Rightarrow> gtree" where
  "flast (FLast t) = t"
| "flast (FCons t k f) = flast f"

text \<open>Order: keys of a tree lie in \<open>[lo, hi)\<close>; \<open>None\<close> is no upper bound.\<close>

definition below :: "bytes option \<Rightarrow> bytes \<Rightarrow> bool" where
  "below hi k = (case hi of None \<Rightarrow> True | Some h \<Rightarrow> k < h)"

primrec ordered :: "gtree \<Rightarrow> bytes \<Rightarrow> bytes option \<Rightarrow> bool"
  and fordered :: "gforest \<Rightarrow> bytes \<Rightarrow> bytes option \<Rightarrow> bool" where
  "ordered (GLeaf pid kvs) lo hi \<longleftrightarrow> keys_sorted kvs \<and> (\<forall>x\<in>set kvs. lo \<le> fst x \<and> below hi (fst x))"
| "ordered (GNode pid f) lo hi \<longleftrightarrow> fordered f lo hi"
| "fordered (FLast t) lo hi \<longleftrightarrow> ordered t lo hi"
| "fordered (FCons t k f) lo hi \<longleftrightarrow> lo < k \<and> below hi k \<and> ordered t lo (Some k) \<and> fordered f k hi"

text \<open>All leaves at the same depth.\<close>

primrec balanced :: "gtree \<Rightarrow> bool" and fbalanced :: "gforest \<Rightarrow> bool" where
  "balanced (GLeaf pid kvs) \<longleftrightarrow> True"
| "balanced (GNode pid f) \<longleftrightarrow> fbalanced f"
| "fbalanced (FLast t) \<longleftrightarrow> balanced t"
| "fbalanced (FCons t k f) \<longleftrightarrow> balanced t \<and> fbalanced f \<and> height t = fheight f"

lemma below_simps [simp]: "below None k" "below (Some h) k \<longleftrightarrow> k < h"
  by (simp_all add: below_def)

lemma below_less: "k < j \<Longrightarrow> below hi j \<Longrightarrow> below hi k"
  by (cases hi) (auto dest: order.strict_trans)

lemma below_le: "k \<le> j \<Longrightarrow> below hi j \<Longrightarrow> below hi k"
  by (cases hi) (auto dest: order_le_less_trans)

lemma Nil_least [simp]: "[] \<le> (k :: bytes)"
  by simp

lemma root_in_pages [simp]: "root_of t \<in> set (pages t)"
  by (cases t) simp_all

lemma leftmost_in_pages:
  "leftmost t \<in> set (pages t)" "fleftmost f \<in> set (fpages f)"
  by (induction t and f) auto

lemma ordered_bounds:
  "ordered t lo hi \<Longrightarrow> x \<in> set (entries t) \<Longrightarrow> lo \<le> fst x \<and> below hi (fst x)"
  "fordered f lo hi \<Longrightarrow> x \<in> set (fentries f) \<Longrightarrow> lo \<le> fst x \<and> below hi (fst x)"
proof (induction t and f arbitrary: lo hi and lo hi)
  case (FCons t k f)
  show ?case
  proof (cases "x \<in> set (entries t)")
    case True
    then show ?thesis using FCons.IH(1) [of lo "Some k"] FCons.prems below_less [of "fst x" k hi] by simp
  next
    case False
    then show ?thesis using FCons.IH(2) [of k hi] FCons.prems by auto
  qed
qed auto

lemma ordered_sorted:
  "ordered t lo hi \<Longrightarrow> keys_sorted (entries t)" "fordered f lo hi \<Longrightarrow> keys_sorted (fentries f)"
proof (induction t and f arbitrary: lo hi and lo hi)
  case (FCons t k f)
  then have "fst x < fst y" if "x \<in> set (entries t)" "y \<in> set (fentries f)" for x y
    using ordered_bounds(1) [of t lo "Some k" x] ordered_bounds(2) [of f k hi y] that
    by (auto intro: order.strict_trans2)
  with FCons show ?case by (auto simp: sorted_wrt_append)
qed auto

lemma fordered_seps:
  "fordered f lo hi \<Longrightarrow> sorted_wrt (<) (map fst (fcells f)) \<and> (\<forall>k\<in>fst ` set (fcells f). lo < k \<and> below hi k)"
proof (induction f arbitrary: lo rule: gforest_induct)
  case (FCons t k f)
  then show ?case by (auto dest: order.strict_trans)
qed auto

lemma height_less_pages: "height t < length (pages t)" "fheight f < length (fpages f)"
  by (induction t and f) auto

section \<open>The child for a key\<close>

primrec fchild :: "bytes \<Rightarrow> gforest \<Rightarrow> gtree" where
  "fchild key (FLast t) = t"
| "fchild key (FCons t k f) = (if key < k then t else fchild key f)"

primrec fidx :: "bytes \<Rightarrow> gforest \<Rightarrow> nat" where
  "fidx key (FLast t) = 0"
| "fidx key (FCons t k f) = (if key < k then 0 else Suc (fidx key f))"

primrec flo :: "bytes \<Rightarrow> gforest \<Rightarrow> bytes \<Rightarrow> bytes" where
  "flo key (FLast t) lo = lo"
| "flo key (FCons t k f) lo = (if key < k then lo else flo key f k)"

primrec fhi :: "bytes \<Rightarrow> gforest \<Rightarrow> bytes option \<Rightarrow> bytes option" where
  "fhi key (FLast t) hi = hi"
| "fhi key (FCons t k f) hi = (if key < k then Some k else fhi key f hi)"

primrec fnext :: "bytes \<Rightarrow> gforest \<Rightarrow> page_id \<Rightarrow> page_id" where
  "fnext key (FLast t) nxt = nxt"
| "fnext key (FCons t k f) nxt = (if key < k then fleftmost f else fnext key f nxt)"

primrec frest :: "bytes \<Rightarrow> gforest \<Rightarrow> page_id list" where
  "frest key (FLast t) = []"
| "frest key (FCons t k f) = (if key < k then fpages f else pages t @ frest key f)"

text \<open>The leaf a key leads to.\<close>

primrec leaf_of :: "bytes \<Rightarrow> gtree \<Rightarrow> page_id \<times> (bytes \<times> bytes) list"
  and fleaf_of :: "bytes \<Rightarrow> gforest \<Rightarrow> page_id \<times> (bytes \<times> bytes) list" where
  "leaf_of key (GLeaf pid kvs) = (pid, kvs)"
| "leaf_of key (GNode pid f) = fleaf_of key f"
| "fleaf_of key (FLast t) = leaf_of key t"
| "fleaf_of key (FCons t k f) = (if key < k then leaf_of key t else fleaf_of key f)"

lemma fleaf_of_fchild: "fleaf_of key f = leaf_of key (fchild key f)"
  by (induction f rule: gforest_induct) auto

lemma fordered_fchild:
  "fordered f lo hi \<Longrightarrow> ordered (fchild key f) (flo key f lo) (fhi key f hi)"
  by (induction f arbitrary: lo rule: gforest_induct) auto

lemma flo_le: "lo \<le> key \<Longrightarrow> flo key f lo \<le> key"
  by (induction f arbitrary: lo rule: gforest_induct) auto

lemma below_fhi: "below hi key \<Longrightarrow> below (fhi key f hi) key"
  by (induction f rule: gforest_induct) auto

lemma fheight_fchild: "height (fchild key f) \<le> fheight f"
  by (induction f rule: gforest_induct) auto

lemma mset_fpages: "mset (fpages f) = mset (pages (fchild key f)) + mset (frest key f)"
  by (induction f rule: gforest_induct) auto

lemma set_fpages: "set (fpages f) = set (pages (fchild key f)) \<union> set (frest key f)"
  by (induction f rule: gforest_induct) auto

lemma seps_fchild: "set (seps (fchild key f)) \<subseteq> set (fseps f)"
  by (induction f rule: gforest_induct) auto

lemma entries_fchild: "set (entries (fchild key f)) \<subseteq> set (fentries f)"
  by (induction f rule: gforest_induct) auto

lemma fidx_lower_bound:
  "sorted_wrt (<) (map fst (fcells f)) \<Longrightarrow>
   (if key \<in> fst ` set (fcells f) then lower_bound (map fst (fcells f)) key + 1
    else lower_bound (map fst (fcells f)) key) = fidx key f"
proof (induction f rule: gforest_induct)
  case (FCons t k f)
  have none: "takeWhile (\<lambda>j. j < key) (map fst (fcells f)) = []" "key \<notin> fst ` set (fcells f)" if "key \<le> k"
    using FCons.prems that by (cases "map fst (fcells f)"; force)+
  consider "key < k" | "key = k" | "k < key" by (rule linorder_cases)
  then show ?case
  proof cases
    case 2
    then have "fidx key f = 0" using FCons.IH FCons.prems none by (simp add: lower_bound_def)
    with 2 show ?thesis using none by (simp add: lower_bound_def)
  next
    case 3
    then have "fidx key (FCons t k f) = Suc (fidx key f)" "lower_bound (map fst (fcells (FCons t k f))) key =
      Suc (lower_bound (map fst (fcells f)) key)" "key \<in> fst ` set (fcells (FCons t k f)) \<longleftrightarrow> key \<in> fst ` set (fcells f)"
      by (auto simp: lower_bound_def)
    with FCons show ?thesis by (simp split: if_splits)
  qed (use none in \<open>auto simp: lower_bound_def\<close>)
qed (simp add: lower_bound_def)

lemma fidx_le: "fidx key f \<le> length (fcells f)"
  by (induction f rule: gforest_induct) auto

lemma fchild_cell:
  "fidx key f < length (fcells f) \<Longrightarrow> snd (fcells f ! fidx key f) = root_of (fchild key f)"
  "length (fcells f) \<le> fidx key f \<Longrightarrow> flast f = fchild key f"
  by (induction f rule: gforest_induct) auto

section \<open>Replacing the child\<close>

text \<open>
  \<open>fapp l k r\<close> puts the separator \<open>k\<close> between two forests; \<open>fput key g f\<close> replaces
  the child for \<open>key\<close> by the trees of \<open>g\<close>.
\<close>

primrec fapp :: "gforest \<Rightarrow> bytes \<Rightarrow> gforest \<Rightarrow> gforest" where
  "fapp (FLast t) k r = FCons t k r"
| "fapp (FCons t j l) k r = FCons t j (fapp l k r)"

primrec fput :: "bytes \<Rightarrow> gforest \<Rightarrow> gforest \<Rightarrow> gforest" where
  "fput key g (FLast t) = g"
| "fput key g (FCons t k f) = (if key < k then fapp g k f else FCons t k (fput key g f))"

lemma fapp_simps [simp]:
  "fcells (fapp l k r) = fcells l @ (k, root_of (flast l)) # fcells r"
  "flast (fapp l k r) = flast r"
  "fentries (fapp l k r) = fentries l @ fentries r"
  "fpages (fapp l k r) = fpages l @ fpages r"
  "fseps (fapp l k r) = fseps l @ k # fseps r"
  "fleftmost (fapp l k r) = fleftmost l"
  "fheight (fapp l k r) = max (fheight l) (fheight r)"
  by (induction l rule: gforest_induct) auto

lemma fordered_fapp:
  "fordered (fapp l k r) lo hi \<longleftrightarrow> fordered l lo (Some k) \<and> lo < k \<and> below hi k \<and> fordered r k hi"
proof (induction l arbitrary: lo rule: gforest_induct)
  case (FCons t j l)
  then show ?case by (auto dest: order.strict_trans below_less)
qed auto

lemma fbalanced_fapp:
  "fbalanced (fapp l k r) \<longleftrightarrow> fbalanced l \<and> fbalanced r \<and> fheight l = fheight r"
  by (induction l rule: gforest_induct) auto

lemma fordered_fput:
  "fordered f lo hi \<Longrightarrow> fordered g (flo key f lo) (fhi key f hi) \<Longrightarrow> fordered (fput key g f) lo hi"
  by (induction f arbitrary: lo rule: gforest_induct) (auto simp: fordered_fapp)

lemma fheight_fput: "fheight g = height (fchild key f) \<Longrightarrow> fheight (fput key g f) = fheight f"
  by (induction f rule: gforest_induct) (auto split: if_splits)

lemma fbalanced_fput:
  "fbalanced g = balanced (fchild key f) \<Longrightarrow> fheight g = height (fchild key f) \<Longrightarrow>
   fbalanced (fput key g f) = fbalanced f"
  by (induction f rule: gforest_induct) (auto simp: fbalanced_fapp fheight_fput split: if_splits)

lemma mset_fpages_fput: "mset (fpages (fput key g f)) = mset (fpages g) + mset (frest key f)"
  by (induction f rule: gforest_induct) auto

lemma set_fseps_fput: "set (fseps (fput key g f)) \<subseteq> set (fseps f) \<union> set (fseps g)"
  by (induction f rule: gforest_induct) auto

lemma fleftmost_fput: "fleftmost g = leftmost (fchild key f) \<Longrightarrow> fleftmost (fput key g f) = fleftmost f"
  by (induction f rule: gforest_induct) (auto split: if_splits)

lemma distinct_fpages_fput:
  "distinct (fpages (fput key g f)) \<longleftrightarrow>
   distinct (fpages g) \<and> distinct (frest key f) \<and> set (fpages g) \<inter> set (frest key f) = {}"
  using mset_eq_imp_distinct_iff [of "fpages (fput key g f)" "fpages g @ frest key f"]
  by (simp add: mset_fpages_fput)

lemma distinct_fpages:
  "distinct (fpages f) \<longleftrightarrow> distinct (pages (fchild key f)) \<and> distinct (frest key f) \<and>
     set (pages (fchild key f)) \<inter> set (frest key f) = {}"
  using mset_eq_imp_distinct_iff [of "fpages f" "pages (fchild key f) @ frest key f"]
  by (simp add: mset_fpages [of f key])

lemma set_fpages_fput: "set (fpages (fput key g f)) = set (fpages g) \<union> set (frest key f)"
  using arg_cong [OF mset_fpages_fput, of set_mset key g f] by simp

text \<open>The entries of the children before and after the one for the key stay on their side of it.\<close>

lemma fentries_fput_al_put:
  "fordered f lo hi \<Longrightarrow> fentries g = al_put key v (entries (fchild key f)) \<Longrightarrow>
   fentries (fput key g f) = al_put key v (fentries f)"
proof (induction f arbitrary: lo rule: gforest_induct)
  case (FCons t k f)
  show ?case
  proof (cases "key < k")
    case True
    have "\<forall>y\<in>set (fentries f). key < fst y"
      using FCons.prems(1) True ordered_bounds(2) [of f k hi] by (auto intro: order.strict_trans2)
    with True FCons.prems show ?thesis by (simp add: al_put_append_left)
  next
    case False
    have "\<forall>x\<in>set (entries t). fst x < key"
      using FCons.prems(1) False ordered_bounds(1) [of t lo "Some k"] by (force simp: not_less)
    with False FCons show ?thesis by (auto simp: al_put_append_right)
  qed
qed simp

lemma fentries_fput_al_del:
  "fordered f lo hi \<Longrightarrow> fentries g = al_del key (entries (fchild key f)) \<Longrightarrow>
   fentries (fput key g f) = al_del key (fentries f)"
proof (induction f arbitrary: lo rule: gforest_induct)
  case (FCons t k f)
  show ?case
  proof (cases "key < k")
    case True
    have "key \<notin> fst ` set (fentries f)"
      using FCons.prems(1) True ordered_bounds(2) [of f k hi] by fastforce
    with True FCons.prems show ?thesis by (simp add: al_del_absent)
  next
    case False
    have "key \<notin> fst ` set (entries t)"
      using FCons.prems(1) False ordered_bounds(1) [of t lo "Some k"] by fastforce
    with False FCons show ?thesis by (auto simp: al_del_absent)
  qed
qed simp

lemma map_of_fentries:
  "fordered f lo hi \<Longrightarrow> map_of (fentries f) key = map_of (entries (fchild key f)) key"
proof (induction f arbitrary: lo rule: gforest_induct)
  case (FCons t k f)
  have right: "map_of (fentries f) key = None" if "key < k"
    using FCons.prems that ordered_bounds(2) [of f k hi] by (fastforce simp: map_of_eq_None_iff)
  have left: "map_of (entries t) key = None" if "\<not> key < k"
    using FCons.prems that ordered_bounds(1) [of t lo "Some k"] by (fastforce simp: map_of_eq_None_iff)
  show ?case using FCons left right by (auto simp: map_add_def split: option.splits)
qed simp

section \<open>Cutting a forest\<close>

lemma fcut:
  "m < length (fcells f) \<Longrightarrow> \<exists>l k r. f = fapp l k r \<and> fcells l = take m (fcells f) \<and>
     fcells f ! m = (k, root_of (flast l)) \<and> fcells r = drop (Suc m) (fcells f)"
proof (induction f arbitrary: m rule: gforest_induct)
  case (FCons t j f)
  show ?case
  proof (cases m)
    case 0
    then show ?thesis by (intro exI [of _ "FLast t"] exI [of _ j] exI [of _ f]) simp
  next
    case (Suc m')
    then have "m' < length (fcells f)" using FCons.prems by simp
    from FCons.IH [OF this] obtain l k r where eq: "f = fapp l k r" "fcells l = take m' (fcells f)"
      "fcells f ! m' = (k, root_of (flast l))" "fcells r = drop (Suc m') (fcells f)"
      by blast
    have "FCons t j f = fapp (FCons t j l) k r" using eq(1) by simp
    moreover have "fcells (FCons t j l) = take m (fcells (FCons t j f))" using eq(2) Suc by simp
    moreover have "fcells (FCons t j f) ! m = (k, root_of (flast (FCons t j l)))" using eq(3) Suc by simp
    moreover have "fcells r = drop (Suc m) (fcells (FCons t j f))" using eq(4) Suc by simp
    ultimately show ?thesis by blast
  qed
qed simp

text \<open>
  What linking a split child into its parent does to the cells of the parent and to
  its last pointer.
\<close>

definition link_cells :: "nat \<Rightarrow> bytes \<Rightarrow> page_id \<Rightarrow> page_id \<Rightarrow> (bytes \<times> page_id) list \<Rightarrow> (bytes \<times> page_id) list" where
  "link_cells idx s child nr kcs =
     (let cs = ins_at idx (s, child) kcs
      in if idx \<ge> length kcs then cs else cs[idx + 1 := (fst (cs ! (idx + 1)), nr)])"

definition link_last :: "nat \<Rightarrow> page_id \<Rightarrow> (bytes \<times> page_id) list \<Rightarrow> page_id \<Rightarrow> page_id" where
  "link_last idx nr kcs rm = (if idx \<ge> length kcs then nr else rm)"

lemma fcells_fput_one:
  "root_of t' = root_of (fchild key f) \<Longrightarrow>
   fcells (fput key (FLast t') f) = fcells f \<and> root_of (flast (fput key (FLast t') f)) = root_of (flast f)"
  by (induction f rule: gforest_induct) auto

lemma fcells_fput_split:
  "root_of t1 = root_of (fchild key f) \<Longrightarrow>
   fcells (fput key (FCons t1 s (FLast t2)) f) =
     link_cells (fidx key f) s (root_of t1) (root_of t2) (fcells f) \<and>
   root_of (flast (fput key (FCons t1 s (FLast t2)) f)) =
     link_last (fidx key f) (root_of t2) (fcells f) (root_of (flast f))"
proof (induction f rule: gforest_induct)
  case (FCons t k f)
  then show ?case by (auto simp: link_cells_def link_last_def ins_at_def Let_def split: if_splits)
qed (simp add: link_cells_def link_last_def ins_at_def)

lemma length_link_cells [simp]: "idx \<le> length kcs \<Longrightarrow> length (link_cells idx s c nr kcs) = Suc (length kcs)"
  by (simp add: link_cells_def Let_def)

end
