(* ===== verification/BTreePages.thy ===== *)
theory BTreePages
  imports BTreeShape
begin

text \<open>
  How the trees of \<open>BTreeShape\<close> lie in the pages of a pager, what the operations
  of \<^verbatim>\<open>btree.go\<close> on one page do to them (descending, filling a leaf, splitting a
  leaf, linking a split into an internal page, splitting an internal page), and the
  account of which pages an operation may touch.
\<close>

section \<open>Footprints\<close>

text \<open>
  \<open>shifts k p A q B\<close>: going from \<open>p\<close> to \<open>q\<close>, whoever held the pages \<open>A\<close> now holds
  \<open>B\<close>, at most \<open>k\<close> new page numbers were used, and everything held by others
  is as it was.
\<close>

definition shifts :: "nat \<Rightarrow> pager \<Rightarrow> page_id set \<Rightarrow> pager \<Rightarrow> page_id set \<Rightarrow> bool" where
  "shifts k p A q B \<longleftrightarrow> pager_room p \<le> pager_room q + k \<and>
     (\<forall>C. C \<inter> A = {} \<longrightarrow> pager_owned p (A \<union> C) \<longrightarrow>
        pager_owned q (B \<union> C) \<and> B \<inter> C = {} \<and> (\<forall>j\<in>C. page q j = page p j))"

text \<open>Operations on a tree leave the catalog root of the header alone as well.\<close>

definition moves :: "nat \<Rightarrow> pager \<Rightarrow> page_id set \<Rightarrow> pager \<Rightarrow> page_id set \<Rightarrow> bool" where
  "moves k p A q B \<longleftrightarrow> shifts k p A q B \<and> catalog_root q = catalog_root p"

lemma moves_shifts: "moves k p A q B \<Longrightarrow> shifts k p A q B"
  by (simp add: moves_def)

lemma shiftsI:
  assumes "pager_room p \<le> pager_room q + k"
    and "\<And>C. C \<inter> A = {} \<Longrightarrow> pager_owned p (A \<union> C) \<Longrightarrow>
      pager_owned q (B \<union> C) \<and> B \<inter> C = {} \<and> (\<forall>j\<in>C. page q j = page p j)"
  shows "shifts k p A q B"
  using assms by (simp add: shifts_def)

lemma shiftsD:
  assumes "shifts k p A q B" "C \<inter> A = {}" "pager_owned p (A \<union> C)"
  shows "pager_owned q (B \<union> C)" "B \<inter> C = {}" "\<And>j. j \<in> C \<Longrightarrow> page q j = page p j"
  using assms by (auto simp: shifts_def)

lemmas movesD = shiftsD [OF moves_shifts]

lemma shifts_owned: "shifts k p A q B \<Longrightarrow> pager_owned p A \<Longrightarrow> pager_owned q B"
  using shiftsD(1) [of k p A q B "{}"] by simp

lemmas moves_owned = shifts_owned [OF moves_shifts]

lemma shifts_room: "shifts k p A q B \<Longrightarrow> pager_room p \<le> pager_room q + k"
  by (simp add: shifts_def)

lemmas moves_room = shifts_room [OF moves_shifts]

lemma moves_refl: "moves 0 p A p A"
  by (auto simp: moves_def shifts_def)

lemma shifts_mono: "shifts k p A q B \<Longrightarrow> k \<le> l \<Longrightarrow> shifts l p A q B"
  by (auto simp: shifts_def)

lemma moves_mono: "moves k p A q B \<Longrightarrow> k \<le> l \<Longrightarrow> moves l p A q B"
  using shifts_mono by (auto simp: moves_def)

lemma shifts_trans:
  assumes "shifts k p A q B" "shifts l q B r C"
  shows "shifts (k + l) p A r C"
proof (rule shiftsI)
  show "pager_room p \<le> pager_room r + (k + l)" using shifts_room [OF assms(1)] shifts_room [OF assms(2)] by simp
  fix D assume "D \<inter> A = {}" "pager_owned p (A \<union> D)"
  note 1 = shiftsD [OF assms(1) this]
  have "D \<inter> B = {}" using 1(2) by auto
  note 2 = shiftsD [OF assms(2) this 1(1)]
  show "pager_owned r (C \<union> D) \<and> C \<inter> D = {} \<and> (\<forall>j\<in>D. page r j = page p j)" using 1(3) 2 by auto
qed

lemma moves_trans: "moves k p A q B \<Longrightarrow> moves l q B r C \<Longrightarrow> moves (k + l) p A r C"
  using shifts_trans by (fastforce simp: moves_def)

lemma shifts_frame:
  assumes "shifts k p A q B" "C \<inter> A = {}"
  shows "shifts k p (A \<union> C) q (B \<union> C)"
proof (rule shiftsI)
  show "pager_room p \<le> pager_room q + k" by (rule shifts_room [OF assms(1)])
  fix D assume D: "D \<inter> (A \<union> C) = {}" "pager_owned p (A \<union> C \<union> D)"
  have disj: "(C \<union> D) \<inter> A = {}" using D assms(2) by auto
  have own: "pager_owned p (A \<union> (C \<union> D))" using D by (simp add: Un_assoc)
  note 1 = shiftsD [OF assms(1) disj own]
  show "pager_owned q (B \<union> C \<union> D) \<and> (B \<union> C) \<inter> D = {} \<and> (\<forall>j\<in>D. page q j = page p j)"
    using 1 D(1) by (auto simp: Un_assoc)
qed

lemma moves_frame: "moves k p A q B \<Longrightarrow> C \<inter> A = {} \<Longrightarrow> moves k p (A \<union> C) q (B \<union> C)"
  using shifts_frame by (simp add: moves_def)

lemma readNode_owned:
  "pager_owned p A \<Longrightarrow> pid \<in> A \<Longrightarrow> readNode pid p = (Inr \<lparr>n_id = pid, n_buf = page p pid\<rparr>, p)"
  by (simp add: readNode_def bind_def pga.load_law)

lemma writeNode_owned:
  assumes "pager_owned p A" "n_id n \<in> A" "length (n_buf n) = PageSize"
  obtains q where "writeNode n p = (Inr (), q)" "moves 0 p A q A" "page q (n_id n) = n_buf n"
    "\<And>j. j \<in> A \<Longrightarrow> j \<noteq> n_id n \<Longrightarrow> page q j = page p j"
proof
  let ?q = "set_page (n_id n) (n_buf n) p"
  note w = pager_store_law [OF assms]
  show "writeNode n p = (Inr (), ?q)" using w(1) by (simp add: writeNode_def)
  show "page ?q (n_id n) = n_buf n" by (rule w(3))
  show "page ?q j = page p j" if "j \<in> A" "j \<noteq> n_id n" for j using w(4) that by simp
  show "moves 0 p A ?q A"
    unfolding moves_def shifts_def
  proof (intro conjI allI impI)
    fix C assume C: "C \<inter> A = {}" "pager_owned p (A \<union> C)"
    then have n: "n_id n \<in> A \<union> C" using assms(2) by simp
    note v = pager_store_law [OF C(2) n assms(3)]
    show "pager_owned ?q (A \<union> C)" by (rule v(2))
    show "A \<inter> C = {}" using C by auto
    show "\<forall>j\<in>C. page ?q j = page p j" using C assms(2) by (intro ballI v(4)) auto
  qed (simp_all add: pager_room_def)
qed

lemma AllocatePage_catalog_root: "AllocatePage p = (r, q) \<Longrightarrow> catalog_root q = catalog_root p"
  by (auto simp: AllocatePage_def Let_def bind_def ReadPage_def WritePage_def writeHeader_def lift_def ret_def
      split: if_splits option.splits sum.splits)

lemma AllocatePage_owned:
  assumes "pager_owned p A" "0 < pager_room p"
  obtains x q where "AllocatePage p = (Inr x, q)" "x \<notin> A" "moves 1 p A q (insert x A)"
    "\<And>j. j \<in> A \<Longrightarrow> page q j = page p j"
proof -
  obtain x q where q: "AllocatePage p = (Inr x, q)" "x \<notin> A" "pager_room p \<le> pager_room q + 1"
    "\<forall>j\<in>A. page q j = page p j"
    using pga.alloc_law [OF assms] by blast
  have "moves 1 p A q (insert x A)"
    unfolding moves_def shifts_def
  proof (intro conjI allI impI)
    fix C assume C: "C \<inter> A = {}" "pager_owned p (A \<union> C)"
    then show "pager_owned q (insert x A \<union> C)" "insert x A \<inter> C = {}" "\<forall>j\<in>C. page q j = page p j"
      using pga.alloc_law [OF C(2) assms(2)] q(1) by auto
  qed (use q AllocatePage_catalog_root in simp_all)
  with q that show thesis by blast
qed

section \<open>Internal pages\<close>

text \<open>
  An internal page in use has a cell and no dead bytes: cells are only added to it.
\<close>

definition inner_repr :: "bytes \<Rightarrow> page_id \<Rightarrow> (bytes \<times> page_id) list \<Rightarrow> bool" where
  "inner_repr b rm kcs \<longleftrightarrow> internal_repr b rm kcs \<and> kcs \<noteq> [] \<and>
     freeSpace \<lparr>n_id = 0, n_buf = b\<rparr> = int page_room - int (internal_cost kcs)"

lemma freeSpace_buf: "freeSpace n = freeSpace \<lparr>n_id = 0, n_buf = n_buf n\<rparr>"
  by (simp add: freeSpace_def contentTop_def numCells_def)

lemma inner_freeSpace:
  "inner_repr (n_buf n) rm kcs \<Longrightarrow> freeSpace n = int page_room - int (internal_cost kcs)"
  using freeSpace_buf [of n] by (simp add: inner_repr_def)

lemma inner_setSibling:
  assumes "internal_repr b rm kcs" "kcs \<noteq> []" "freeSpace \<lparr>n_id = i, n_buf = b\<rparr> = int page_room - int (internal_cost kcs)"
  shows "inner_repr (overwrite b hdrSibling (put_u32 s)) s kcs"
proof -
  let ?c = "overwrite b hdrSibling (put_u32 s)"
  have l: "length b = PageSize" using internal_reprD(4) [of "\<lparr>n_id = 0, n_buf = b\<rparr>"] assms(1) by simp
  have so: "same_outside b ?c 3 7" using l by (intro same_outside_overwrite) simp_all
  then have "freeSpace \<lparr>n_id = 0, n_buf = ?c\<rparr> = freeSpace \<lparr>n_id = 0, n_buf = b\<rparr>"
    using l by (simp add: freeSpace_def contentTop_def numCells_def same_outside_u16)
  then show ?thesis
    using assms freeSpace_buf [of "\<lparr>n_id = i, n_buf = b\<rparr>"] internal_repr_setSibling [OF assms(1)]
    by (simp add: inner_repr_def)
qed

lemma overwrite_internalCellBody: "overwrite (internalCellBody k c) 2 (put_u32 c') = internalCellBody k c'"
  by (simp add: overwrite_def internalCellBody_def)

lemma internal_cost_update: "i < length kcs \<Longrightarrow> internal_cost (kcs[i := (fst (kcs ! i), c)]) = internal_cost kcs"
proof (induction kcs arbitrary: i)
  case (Cons x kcs)
  then show ?case by (cases i; cases x) auto
qed simp

text \<open>The write of \<^verbatim>\<open>rewriteChildAt\<close>.\<close>

lemma inner_rewrite_child:
  assumes r: "internal_repr (n_buf n) rm kcs" and i: "i < length kcs"
    and fs: "freeSpace n = int page_room - int (internal_cost kcs)"
  obtains c where "rbind (cellOffset n i) (\<lambda>off. splice (n_buf n) (off + 2) (put_u32 ch)) = Inr c"
    "inner_repr c rm (kcs[i := (fst (kcs ! i), ch)])"
proof -
  let ?b = "n_buf n"
  obtain ocs where ocs: "node_repr ?b internalPage rm ocs"
    "map snd ocs = map (\<lambda>(k, c). internalCellBody k c) kcs"
    using r by (auto simp: internal_repr_def)
  have len: "length ocs = length kcs" using ocs(2) by (metis length_map)
  have i': "i < length ocs" using i len by simp
  obtain k c0 where kc: "kcs ! i = (k, c0)" by fastforce
  have body: "snd (ocs ! i) = internalCellBody k c0" using ocs(2) i i' kc by (metis nth_map case_prod_conv)
  note cell = node_repr_cell [OF ocs(1) i']
  let ?c = "overwrite ?b (coff ?b i + 2) (put_u32 ch)"
  have "node_repr ?c internalPage rm (ocs[i := (fst (ocs ! i), overwrite (snd (ocs ! i)) 2 (put_u32 ch))])"
    by (rule node_repr_cell_update [OF ocs(1) i']) (simp add: body)
  then have nr: "node_repr ?c internalPage rm (ocs[i := (fst (ocs ! i), internalCellBody k ch)])"
    by (simp add: body overwrite_internalCellBody)
  moreover have "map snd (ocs[i := (fst (ocs ! i), internalCellBody k ch)]) =
      map (\<lambda>(k, c). internalCellBody k c) (kcs[i := (k, ch)])"
    using ocs(2) by (simp add: map_update)
  moreover have "\<forall>(k, c)\<in>set (kcs[i := (k, ch)]). length k \<le> maxKeyValue"
    using r kc nth_mem [OF i] set_update_subset_insert [of kcs i "(k, ch)"] by (fastforce simp: internal_repr_def)
  ultimately have ir: "internal_repr ?c rm (kcs[i := (k, ch)])"
    by (auto simp: internal_repr_def)
  have l: "length ?b = PageSize" "cellPtrArrayAt + 2 * length ocs \<le> top_of ?b"
    using node_reprD [OF ocs(1)] by auto
  have top: "top_of ?b \<le> coff ?b i"
    using node_reprD(8) [OF ocs(1) nth_mem [OF i']] cell(2) by (simp add: cell_at_def)
  have so: "same_outside ?b ?c (coff ?b i + 2) (coff ?b i + 6)"
    using cell(4) body by (intro same_outside_overwrite) simp_all
  then have "freeSpace \<lparr>n_id = 0, n_buf = ?c\<rparr> = freeSpace n"
    using l top by (simp add: freeSpace_def contentTop_def numCells_def same_outside_u16)
  then have "inner_repr ?c rm (kcs[i := (fst (kcs ! i), ch)])"
    using ir fs i kc internal_cost_update [OF i, of ch] by (simp add: inner_repr_def) fastforce
  moreover have "rbind (cellOffset n i) (\<lambda>off. splice ?b (off + 2) (put_u32 ch)) = Inr ?c"
    using cell body cellOffset_coff [OF cell(1)] by (simp add: splice_def)
  ultimately show thesis using that by blast
qed

section \<open>Trees in pages\<close>

primrec stored :: "gtree \<Rightarrow> pager \<Rightarrow> page_id \<Rightarrow> bool" and fstored :: "gforest \<Rightarrow> pager \<Rightarrow> page_id \<Rightarrow> bool" where
  "stored (GLeaf pid kvs) p nxt \<longleftrightarrow> leaf_repr (page p pid) nxt kvs"
| "stored (GNode pid f) p nxt \<longleftrightarrow> inner_repr (page p pid) (root_of (flast f)) (fcells f) \<and> fstored f p nxt"
| "fstored (FLast t) p nxt \<longleftrightarrow> stored t p nxt"
| "fstored (FCons t k f) p nxt \<longleftrightarrow> stored t p (fleftmost f) \<and> fstored f p nxt"

lemma stored_cong:
  "(\<And>j. j \<in> set (pages t) \<Longrightarrow> page q j = page p j) \<Longrightarrow> stored t q nxt = stored t p nxt"
  "(\<And>j. j \<in> set (fpages f) \<Longrightarrow> page q j = page p j) \<Longrightarrow> fstored f q nxt = fstored f p nxt"
  by (induction t and f arbitrary: nxt and nxt) auto

lemma fstored_fapp: "fstored (fapp l k r) p nxt \<longleftrightarrow> fstored l p (fleftmost r) \<and> fstored r p nxt"
  by (induction l rule: gforest_induct) auto

lemma fstored_fchild: "fstored f p nxt \<Longrightarrow> stored (fchild key f) p (fnext key f nxt)"
  by (induction f rule: gforest_induct) auto

lemma fstored_fput:
  "fstored f p nxt \<Longrightarrow> (\<And>j. j \<in> set (frest key f) \<Longrightarrow> page q j = page p j) \<Longrightarrow>
   fstored g q (fnext key f nxt) \<Longrightarrow> fleftmost g = leftmost (fchild key f) \<Longrightarrow> fstored (fput key g f) q nxt"
proof (induction f rule: gforest_induct)
  case (FCons t k f)
  then show ?case
    using stored_cong(1) [of t q p] stored_cong(2) [of f q p]
    by (auto simp: fstored_fapp fleftmost_fput split: if_splits)
qed auto

text \<open>The step down from an internal page follows the child for the key.\<close>

lemma childFor_inner:
  assumes "inner_repr (n_buf n) (root_of (flast f)) (fcells f)" "fordered f lo hi"
  shows "childFor n key = Inr (fidx key f, root_of (fchild key f))"
proof -
  have r: "internal_repr (n_buf n) (root_of (flast f)) (fcells f)" using assms(1) by (simp add: inner_repr_def)
  have s: "sorted_wrt (<) (map fst (fcells f))" using fordered_seps [OF assms(2)] by simp
  have "findIndex n key = Inr (lower_bound (map fst (fcells f)) key, key \<in> fst ` set (fcells f))"
    by (rule findIndex_internal [OF r s])
  moreover note fidx_lower_bound [OF s, of key] fchild_cell [where key = key and f = f] internal_reprD [OF r]
  ultimately show ?thesis
    using internalKC_repr [OF r, of "fidx key f"]
    by (cases "fcells f ! fidx key f") (auto simp: childFor_def Let_def not_le)
qed

lemma descend_stored:
  assumes "stored t p nxt" "ordered t lo hi" "pager_owned p A" "set (pages t) \<subseteq> A" "height t \<le> fuel"
  shows "descend fuel key \<lparr>n_id = root_of t, n_buf = page p (root_of t)\<rparr> p =
    (Inr \<lparr>n_id = fst (leaf_of key t), n_buf = page p (fst (leaf_of key t))\<rparr>, p)"
  using assms
proof (induction fuel arbitrary: t lo hi nxt)
  case 0
  then show ?case using leaf_reprD(1) by (cases t) (auto simp: descend.simps)
next
  case (Suc fuel)
  show ?case
  proof (cases t)
    case (GLeaf pid kvs)
    with Suc show ?thesis using leaf_reprD(1) by (auto simp: descend.simps)
  next
    case (GNode pid f)
    let ?n = "\<lparr>n_id = pid, n_buf = page p pid\<rparr>"
    have i: "inner_repr (n_buf ?n) (root_of (flast f)) (fcells f)" "fstored f p nxt" "fordered f lo hi"
      using Suc.prems GNode by simp_all
    then have nl: "\<not> isLeaf ?n" using internal_reprD(1) [of ?n] unfolding inner_repr_def by blast
    let ?t = "fchild key f"
    have sub: "set (pages ?t) \<subseteq> A" using Suc.prems(4) GNode set_fpages [of f key] by auto
    then have "root_of ?t \<in> A" by auto
    then have "readNode (root_of ?t) p = (Inr \<lparr>n_id = root_of ?t, n_buf = page p (root_of ?t)\<rparr>, p)"
      using readNode_owned Suc.prems(3) by blast
    moreover have "height ?t \<le> fuel" using Suc.prems(5) GNode fheight_fchild [of key f] by simp
    ultimately show ?thesis
      using nl childFor_inner [OF i(1,3), of key] GNode
        Suc.IH [OF fstored_fchild [OF i(2)] fordered_fchild [OF i(3)] Suc.prems(3) sub]
      by (simp add: descend.simps [of "Suc fuel"] bind_def fleaf_of_fchild)
  qed
qed

end
