(* ===== verification/BTreeLeafPut.thy ===== *)
theory BTreeLeafPut
  imports BTreePages
begin

text \<open>
  Insertion at a leaf page: the new cell goes in at its place, or the page is split
  in two halves by number of cells.  The halves are only guaranteed to fit when the
  new cell is not more than twice as big as any other: \<open>halves_fit\<close> is the
  arithmetic behind that.
\<close>

section \<open>Lists\<close>

lemma ins_at_0 [simp]: "ins_at 0 x xs = x # xs"
  by (simp add: ins_at_def)

lemma ins_at_Suc [simp]: "ins_at (Suc i) x (y # ys) = y # ins_at i x ys"
  by (simp add: ins_at_def)

lemma del_at_0 [simp]: "del_at 0 (x # xs) = xs"
  by (simp add: del_at_def)

lemma del_at_Suc [simp]: "del_at (Suc i) (y # ys) = y # del_at i ys"
  by (simp add: del_at_def)

lemma lower_bound_simps [simp]:
  "lower_bound [] key = 0" "lower_bound (k # ks) key = (if k < key then Suc (lower_bound ks key) else 0)"
  by (simp_all add: lower_bound_def)

lemma lower_bound_le: "lower_bound ks key \<le> length ks"
  by (simp add: lower_bound_def length_takeWhile_le)

lemma lower_bound_least: "\<forall>k\<in>set ks. key < k \<Longrightarrow> lower_bound ks key = 0" for key :: bytes
  by (cases ks) auto

lemma lower_bound_less: "sorted_wrt (<) ks \<Longrightarrow> key \<in> set ks \<Longrightarrow> lower_bound ks key < length ks"
  by (induction ks) (auto dest: order.asym)

definition without :: "bytes \<Rightarrow> (bytes \<times> bytes) list \<Rightarrow> (bytes \<times> bytes) list" where
  "without key kvs = (if key \<in> fst ` set kvs then del_at (lower_bound (map fst kvs) key) kvs else kvs)"

lemma without_al_del: "keys_sorted kvs \<Longrightarrow> without key kvs = al_del key kvs"
proof (induction kvs)
  case (Cons x kvs)
  obtain k v where x: "x = (k, v)" by fastforce
  show ?case
  proof (cases "k = key")
    case True
    then have "key \<notin> fst ` set kvs" using Cons.prems x by auto
    then have "filter (\<lambda>x. fst x \<noteq> key) kvs = kvs" using al_del_absent by (simp add: al_del_def)
    with True x show ?thesis by (simp add: without_def al_del_def)
  next
    case False
    then have "k < key" if "key \<in> fst ` set kvs" using Cons.prems x that by auto
    with False Cons x show ?thesis by (simp add: without_def al_del_def split: if_splits)
  qed
qed (simp add: without_def al_del_def)

lemma al_put_sorted_head: "\<forall>x\<in>set kvs. key < fst x \<Longrightarrow> al_put key v kvs = (key, v) # kvs"
  by (cases kvs) (auto simp: al_put_def dest: order.asym)

lemma lower_bound_without:
  "keys_sorted kvs \<Longrightarrow> lower_bound (map fst kvs) key \<le> length (without key kvs)"
  using lower_bound_less [of "map fst kvs" key] lower_bound_le [of "map fst kvs" key]
  by (cases "key \<in> fst ` set kvs") (simp_all add: without_def)

lemma ins_at_without:
  "keys_sorted kvs \<Longrightarrow> ins_at (lower_bound (map fst kvs) key) (key, v) (without key kvs) = al_put key v kvs"
proof (induction kvs)
  case (Cons x kvs)
  obtain k w where x: "x = (k, w)" by fastforce
  consider "k < key" | "k = key" | "key < k" by (rule linorder_cases)
  then show ?case
  proof cases
    case 1
    then have "without key (x # kvs) = x # without key kvs" using x by (auto simp: without_def)
    with 1 Cons x show ?thesis by (simp add: al_put_Cons)
  next
    case 2
    then have "without key (x # kvs) = kvs" using x by (simp add: without_def)
    moreover have "dropWhile (\<lambda>x. fst x \<le> k) kvs = kvs" using Cons.prems x by (intro dropWhile_above) auto
    ultimately show ?thesis using 2 x by (simp add: al_put_Cons)
  next
    case 3
    then have "key \<notin> fst ` set (x # kvs)" using Cons.prems x by auto
    then have "without key (x # kvs) = x # kvs" by (simp only: without_def if_False)
    with 3 x show ?thesis by (auto simp: al_put_Cons)
  qed
qed (simp add: without_def)

section \<open>The halves of a split fit\<close>

lemma sum_list_lower: "(\<And>x. x \<in> set xs \<Longrightarrow> a \<le> x) \<Longrightarrow> a * length xs \<le> sum_list xs" for a :: nat
  using sum_list_mono [of xs "\<lambda>_. a" "\<lambda>x. x"] by (simp add: sum_list_triv mult.commute)

lemma sum_list_upper: "(\<And>x. x \<in> set xs \<Longrightarrow> x \<le> a) \<Longrightarrow> sum_list xs \<le> a * length xs" for a :: nat
  using sum_list_mono [of xs "\<lambda>x. x" "\<lambda>_. a"] by (simp add: sum_list_triv mult.commute)

text \<open>
  One half of a split: \<open>x\<close> is the new cell, \<open>rest\<close> the other cells, which came
  from a page.  If the other half has two cells, the new one costs no more than them.
\<close>

lemma half_fits:
  fixes x R M :: nat
  assumes "sum_list half + sum_list other \<le> R + x" "length half \<le> length other + 1"
    and "\<And>y. y \<in> set other \<Longrightarrow> x \<le> 2 * y" "\<And>y. y \<in> set half \<Longrightarrow> y \<le> M" "2 * M \<le> R"
  shows "sum_list half \<le> R"
proof (cases "2 \<le> length other")
  case True
  have "x * length other \<le> 2 * sum_list other"
    using sum_list_lower [of "map ((*) 2) other" x] assms(3) by (auto simp: sum_list_const_mult)
  moreover have "x * 2 \<le> x * length other" using True by simp
  ultimately have "x \<le> sum_list other" by linarith
  with assms(1) show ?thesis by simp
next
  case False
  then have "length half \<le> 2" using assms(2) by simp
  then have "M * length half \<le> M * 2" by simp
  moreover have "sum_list half \<le> M * length half" using assms(4) by (rule sum_list_upper)
  ultimately show ?thesis using assms(5) by linarith
qed

text \<open>\<open>m\<close> is the cut; the new cell \<open>x\<close> is in one of the halves.\<close>

lemma halves_fit:
  fixes x R M :: nat
  assumes "sum_list ys \<le> R" "m = length (ins_at i x ys) div 2"
    and "\<And>y. y \<in> set ys \<Longrightarrow> x \<le> 2 * y" "\<And>y. y \<in> set ys \<Longrightarrow> y \<le> M" "x \<le> M" "2 * M \<le> R"
  shows "sum_list (take m (ins_at i x ys)) \<le> R"
    "sum_list (drop m (ins_at i x ys)) \<le> R"
proof -
  define cs where "cs = ins_at i x ys"
  let ?l = "take m cs" and ?r = "drop m cs"
  have cs: "set cs \<subseteq> insert x (set ys)" unfolding cs_def by (simp add: set_ins_at)
  have total: "sum_list ?l + sum_list ?r = sum_list cs" by (metis append_take_drop_id sum_list_append)
  have sum: "sum_list cs \<le> R + x"
    using assms(1) sum_list_append [of "take i ys" "drop i ys"] unfolding cs_def ins_at_def append_take_drop_id by simp
  have small: "y \<le> M" if "y \<in> set cs" for y using that cs assms(4,5) by auto
  have big: "x \<le> 2 * y" if "y \<in> set cs" for y using that cs assms(3) by auto
  have m: "m = length cs div 2" using assms(2) unfolding cs_def .
  have len: "length ?l \<le> length ?r + 1" "length ?r \<le> length ?l + 1" using m by auto
  show "sum_list (take m (ins_at i x ys)) \<le> R"
    using half_fits [of ?l ?r R x M] total sum len big small assms(6)
    unfolding cs_def [symmetric] by (auto dest: in_set_takeD in_set_dropD)
  show "sum_list (drop m (ins_at i x ys)) \<le> R"
    using half_fits [of ?r ?l R x M] total sum len big small assms(6)
    unfolding cs_def [symmetric] by (auto dest: in_set_takeD in_set_dropD)
qed

section \<open>Gathering the cells\<close>

lemma gather_leaf_ok:
  assumes "leaf_repr (n_buf n) sib kvs" "i + m = length kvs"
  shows "gather_leaf n idx body i m = Inr
    (if i \<le> idx \<and> idx < length kvs then ins_at (idx - i) body (map (\<lambda>(k, v). leafCellBody k v) (drop i kvs))
     else map (\<lambda>(k, v). leafCellBody k v) (drop i kvs))"
  using assms(2)
proof (induction m arbitrary: i)
  case (Suc m)
  then have i: "i < length kvs" by simp
  obtain k v where kv: "kvs ! i = (k, v)" by fastforce
  have d: "drop i kvs = (k, v) # drop (Suc i) kvs" using Cons_nth_drop_Suc [OF i] kv by simp
  have "idx - i = Suc (idx - Suc i)" if "i < idx" using that by simp
  then show ?case
    using Suc.IH [of "Suc i"] Suc.prems leafKV_repr [OF assms(1) i] kv d
    by (auto simp: not_le)
qed simp

lemma gather_leaf_all:
  assumes "leaf_repr (n_buf n) sib kvs" "idx \<le> length kvs"
  shows "\<exists>g. gather_leaf n idx (leafCellBody k v) 0 (numCells n) = Inr g \<and>
    g @ (if idx \<ge> numCells n then [leafCellBody k v] else []) =
      map (\<lambda>(k, v). leafCellBody k v) (ins_at idx (k, v) kvs)"
  using gather_leaf_ok [OF assms(1), of 0 "length kvs" idx "leafCellBody k v"] leaf_reprD(2) [OF assms(1)] assms(2)
  by (auto simp: map_ins_at not_less ins_at_def take_map drop_map)

definition cell_cost :: "bytes \<times> bytes \<Rightarrow> nat" where
  "cell_cost x = 6 + length (fst x) + length (snd x)"

lemma leaf_cost_cells: "leaf_cost kvs = sum_list (map cell_cost kvs)"
  by (simp add: leaf_cost_def cell_cost_def [abs_def] case_prod_unfold)

lemma leaf_halves_fit:
  assumes "leaf_cost kvs \<le> page_room" "mid = Suc (length kvs) div 2" "idx \<le> length kvs"
    and "\<And>y. y \<in> set kvs \<Longrightarrow> cell_cost x \<le> 2 * cell_cost y"
    and "\<And>y. y \<in> insert x (set kvs) \<Longrightarrow> length (fst y) \<le> maxKeyValue \<and> length (snd y) \<le> maxKeyValue"
  shows "leaf_cost (take mid (ins_at idx x kvs)) \<le> page_room" "leaf_cost (drop mid (ins_at idx x kvs)) \<le> page_room"
proof -
  have "cell_cost y \<le> 2022" if "y \<in> insert x (set kvs)" for y using assms(5) [OF that] by (simp add: cell_cost_def)
  then have "sum_list (take mid (ins_at idx (cell_cost x) (map cell_cost kvs))) \<le> page_room \<and>
      sum_list (drop mid (ins_at idx (cell_cost x) (map cell_cost kvs))) \<le> page_room"
    using assms(1-4) by (intro conjI halves_fit [where M = 2022]) (auto simp: leaf_cost_cells)
  then show "leaf_cost (take mid (ins_at idx x kvs)) \<le> page_room" "leaf_cost (drop mid (ins_at idx x kvs)) \<le> page_room"
    by (simp_all add: leaf_cost_cells map_ins_at take_map drop_map flip: map_ins_at)
qed

lemma splitLeafAndInsert_ok:
  assumes r: "leaf_repr (n_buf n) sib kvs" "idx \<le> length kvs" "kvs \<noteq> []"
    and x: "length k \<le> maxKeyValue" "length v \<le> maxKeyValue"
    and big: "\<And>y. y \<in> set kvs \<Longrightarrow> cell_cost (k, v) \<le> 2 * cell_cost y"
    and p: "pager_owned p {n_id n}" "0 < pager_room p"
  obtains q rid ls rs where "splitLeafAndInsert n idx (leafCellBody k v) p = (Inr (Some (fst (hd rs), rid)), q)"
    "ls @ rs = ins_at idx (k, v) kvs" "ls \<noteq> []" "rs \<noteq> []" "rid \<noteq> n_id n" "moves 1 p {n_id n} q {n_id n, rid}"
    "leaf_repr (page q (n_id n)) rid ls" "leaf_repr (page q rid) sib rs"
proof -
  define cells where "cells = ins_at idx (k, v) kvs"
  define mid where "mid = Suc (length kvs) div 2"
  define ls where "ls = take mid cells"
  define rs where "rs = drop mid cells"
  have len: "length cells = Suc (length kvs)" unfolding cells_def using r(2) by simp
  have caps: "length (fst y) \<le> maxKeyValue \<and> length (snd y) \<le> maxKeyValue" if "y \<in> insert (k, v) (set kvs)" for y
    using that r(1) x by (auto simp: leaf_repr_def)
  have capl: "\<forall>(k, v)\<in>set ls. length k \<le> maxKeyValue \<and> length v \<le> maxKeyValue"
    and capr: "\<forall>(k, v)\<in>set rs. length k \<le> maxKeyValue \<and> length v \<le> maxKeyValue"
    using caps set_ins_at [of idx "(k, v)" kvs] unfolding ls_def rs_def cells_def
    by (fastforce dest: in_set_takeD in_set_dropD)+
  note fit = leaf_halves_fit [OF leaf_repr_cost [OF r(1)] mid_def r(2) big caps]
  obtain g where g: "gather_leaf n idx (leafCellBody k v) 0 (numCells n) = Inr g"
    "g @ (if idx \<ge> numCells n then [leafCellBody k v] else []) = map (\<lambda>(k, v). leafCellBody k v) cells"
    using gather_leaf_all [OF r(1,2)] unfolding cells_def by blast
  obtain rid p1 where a: "AllocatePage p = (Inr rid, p1)" "rid \<notin> {n_id n}" "moves 1 p {n_id n} p1 {rid, n_id n}"
    using AllocatePage_owned [OF p] by metis
  obtain lb where lb: "append_cells (map (\<lambda>(k, v). leafCellBody k v) ls) \<lparr>n_id = n_id n, n_buf = newNodeBuf leafPage\<rparr> =
      Inr \<lparr>n_id = n_id n, n_buf = lb\<rparr>" "leaf_repr lb 0 ls"
    using new_leaf [OF fit(1) [folded cells_def ls_def] capl] by blast
  obtain rb where rb: "append_cells (map (\<lambda>(k, v). leafCellBody k v) rs) \<lparr>n_id = rid, n_buf = newNodeBuf leafPage\<rparr> =
      Inr \<lparr>n_id = rid, n_buf = rb\<rparr>" "leaf_repr rb 0 rs"
    using new_leaf [OF fit(2) [folded cells_def rs_def] capr] by blast
  let ?l = "setSibling rid \<lparr>n_id = n_id n, n_buf = lb\<rparr>" and ?r = "setSibling (sibling n) \<lparr>n_id = rid, n_buf = rb\<rparr>"
  have l: "leaf_repr (n_buf ?l) rid ls" "n_id ?l = n_id n" and r': "leaf_repr (n_buf ?r) sib rs" "n_id ?r = rid"
    using leaf_repr_setSibling [OF lb(2)] leaf_repr_setSibling [OF rb(2)] leaf_reprD(3) [OF r(1)]
    by (simp_all add: setSibling_def)
  have o1: "pager_owned p1 {rid, n_id n}" using moves_owned [OF a(3) p(1)] .
  obtain p2 where w1: "writeNode ?l p1 = (Inr (), p2)" "moves 0 p1 {rid, n_id n} p2 {rid, n_id n}"
    "page p2 (n_id n) = n_buf ?l"
    using writeNode_owned [OF o1, of ?l] l leaf_reprD(4) [OF l(1)] by auto
  obtain p3 where w2: "writeNode ?r p2 = (Inr (), p3)" "moves 0 p2 {rid, n_id n} p3 {rid, n_id n}"
    "page p3 rid = n_buf ?r" "page p3 (n_id n) = page p2 (n_id n)"
    using writeNode_owned [OF moves_owned [OF w1(2) o1], of ?r] r' leaf_reprD(4) [OF r'(1)] a(2)
    by (metis insertCI insertI1)
  have ne: "ls \<noteq> []" "rs \<noteq> []" using len r(3) unfolding ls_def rs_def mid_def
    by (auto simp: Suc_le_eq)
  then have "leafKV ?r 0 = Inr (hd rs)" using leafKV_repr [OF r'(1), of 0] by (simp add: hd_conv_nth)
  then have "splitLeafAndInsert n idx (leafCellBody k v) p = (Inr (Some (fst (hd rs), rid)), p3)"
    unfolding splitLeafAndInsert_def g(1) bind_lift(1) Let_def g(2) length_map len take_map drop_map
      mid_def [symmetric] ls_def [symmetric] rs_def [symmetric]
    by (cases "hd rs") (simp add: bind_def a(1) lb(1) rb(1) w1(1) w2(1))
  moreover have "moves 1 p {n_id n} p3 {n_id n, rid}"
    using moves_trans [OF a(3) moves_trans [OF w1(2) w2(2)]] by (simp add: insert_commute)
  moreover have "ls @ rs = ins_at idx (k, v) kvs" unfolding ls_def rs_def cells_def by simp
  ultimately show thesis
    using that ne a(2) l(1) r'(1) w1(3) w2(3,4) by simp
qed

section \<open>The outcome of an insertion below a page\<close>

text \<open>
  An insertion leaves one tree in place of the old one, or two trees with a separator
  to be linked into the parent: a forest of one or two trees.
\<close>

fun split_of :: "gforest \<Rightarrow> (bytes \<times> page_id) option" where
  "split_of (FLast t) = None"
| "split_of (FCons t s f) = Some (s, root_of (flast f))"

definition outcome :: "page_id \<Rightarrow> gforest \<Rightarrow> bool" where
  "outcome root g \<longleftrightarrow> (case g of FLast t \<Rightarrow> root_of t = root
     | FCons t s f \<Rightarrow> root_of t = root \<and> (\<exists>t'. f = FLast t'))"

definition put_spec ::
    "pager \<Rightarrow> page_id \<Rightarrow> gtree \<Rightarrow> bytes \<Rightarrow> bytes option \<Rightarrow> bytes \<Rightarrow> bytes \<Rightarrow> gforest \<Rightarrow> pager \<Rightarrow> bool" where
  "put_spec p nxt t lo hi key val g q \<longleftrightarrow>
     outcome (root_of t) g \<and> fordered g lo hi \<and> fstored g q nxt \<and> fleftmost g = leftmost t \<and>
     fentries g = al_put key val (entries t) \<and> distinct (fpages g) \<and>
     fheight g = height t \<and> fbalanced g = balanced t \<and>
     set (fseps g) \<subseteq> set (seps t) \<union> insert key (fst ` set (entries t)) \<and>
     moves (Suc (height t)) p (set (pages t)) q (set (fpages g))"

text \<open>
  When a leaf takes a cell: it fits the page as it is, or the page holds another
  entry and the cell is at most twice the size of any of those.
\<close>

definition leaf_accepts :: "bytes \<Rightarrow> bytes \<Rightarrow> bytes \<Rightarrow> (bytes \<times> bytes) list \<Rightarrow> bool" where
  "leaf_accepts key val b kvs \<longleftrightarrow>
     int (cell_cost (key, val)) \<le> freeSpace \<lparr>n_id = 0, n_buf = b\<rparr> \<or>
     ((\<exists>x\<in>set kvs. fst x \<noteq> key) \<and> (\<forall>x\<in>set kvs. fst x \<noteq> key \<longrightarrow> cell_cost (key, val) \<le> 2 * cell_cost x))"

lemma al_put_bounds:
  assumes "keys_sorted kvs" "\<forall>x\<in>set kvs. lo \<le> fst x \<and> below hi (fst x)" "lo \<le> key" "below hi key"
  shows "keys_sorted (al_put key val kvs)" "\<forall>x\<in>set (al_put key val kvs). lo \<le> fst x \<and> below hi (fst x)"
  using assms keys_sorted_al_put by (auto simp: set_al_put)

lemma split_leaf_ordered:
  assumes "keys_sorted (ls @ rs)" "\<forall>x\<in>set (ls @ rs). lo \<le> fst x \<and> below hi (fst x)" "ls \<noteq> []" "rs \<noteq> []"
  shows "fordered (FCons (GLeaf i ls) (fst (hd rs)) (FLast (GLeaf j rs))) lo hi"
proof -
  have lt: "fst x < fst (hd rs)" if "x \<in> set ls" for x
    using assms that by (auto simp: sorted_wrt_append)
  have "lo \<le> fst (hd ls)" "fst (hd ls) < fst (hd rs)" using assms(2,3) lt [of "hd ls"] by simp_all
  then have "lo < fst (hd rs)" by (rule order_le_less_trans)
  moreover have "fst (hd rs) \<le> fst x" if "x \<in> set rs" for x
    using assms(1,4) that by (cases rs) (auto simp: sorted_wrt_append)
  ultimately show ?thesis using assms lt by (auto simp: sorted_wrt_append)
qed

text \<open>The cell of the key is removed first; a cell that then fits goes into the page.\<close>

lemma leaf_removed:
  assumes "leaf_repr (page p pid) nxt kvs" "keys_sorted kvs"
  obtains m where "(if key \<in> fst ` set kvs then removeCellAt (lower_bound (map fst kvs) key) \<lparr>n_id = pid, n_buf = page p pid\<rparr>
      else Inr \<lparr>n_id = pid, n_buf = page p pid\<rparr>) = Inr m" "n_id m = pid"
    "leaf_repr (n_buf m) nxt (without key kvs)" "freeSpace \<lparr>n_id = pid, n_buf = page p pid\<rparr> \<le> freeSpace m"
proof (cases "key \<in> fst ` set kvs")
  case True
  let ?n = "\<lparr>n_id = pid, n_buf = page p pid\<rparr>" and ?idx = "lower_bound (map fst kvs) key"
  have rn: "leaf_repr (n_buf ?n) nxt kvs" using assms(1) by simp
  have "?idx < length kvs" using True lower_bound_less [of "map fst kvs" key] assms(2) by simp
  from leaf_remove [OF rn this] obtain c where "removeCellAt ?idx ?n = Inr (?n\<lparr>n_buf := c\<rparr>)"
    "leaf_repr c nxt (del_at ?idx kvs)" "freeSpace ?n \<le> freeSpace (?n\<lparr>n_buf := c\<rparr>)" .
  with True show thesis by (intro that [of "?n\<lparr>n_buf := c\<rparr>"]) (simp_all add: without_def)
qed (use assms in \<open>auto simp: without_def intro!: that\<close>)

lemma putLeaf_room:
  assumes r: "leaf_repr (page p pid) nxt kvs" "keys_sorted kvs" and p: "pager_owned p {pid}"
    and key: "length key \<le> maxKeyValue" "length val \<le> maxKeyValue"
    and m: "(if key \<in> fst ` set kvs then removeCellAt (lower_bound (map fst kvs) key) \<lparr>n_id = pid, n_buf = page p pid\<rparr>
      else Inr \<lparr>n_id = pid, n_buf = page p pid\<rparr>) = Inr m" "n_id m = pid" "leaf_repr (n_buf m) nxt (without key kvs)"
      "int (length (leafCellBody key val) + 2) \<le> freeSpace m"
  obtains q where "putLeaf \<lparr>n_id = pid, n_buf = page p pid\<rparr> key val p = (Inr None, q)" "moves 0 p {pid} q {pid}"
    "leaf_repr (page q pid) nxt (al_put key val kvs)"
    "freeSpace \<lparr>n_id = 0, n_buf = page q pid\<rparr> = freeSpace m - int (6 + length key + length val)"
proof -
  let ?n = "\<lparr>n_id = pid, n_buf = page p pid\<rparr>" and ?idx = "lower_bound (map fst kvs) key"
  have rn: "leaf_repr (n_buf ?n) nxt kvs" using r(1) by simp
  note f = findIndex_leaf [OF rn r(2), of key]
  obtain c where c: "insertCellAt ?idx (leafCellBody key val) m = Inr (True, m\<lparr>n_buf := c\<rparr>)"
    "leaf_repr c nxt (al_put key val kvs)" "freeSpace (m\<lparr>n_buf := c\<rparr>) = freeSpace m - int (6 + length key + length val)"
    using leaf_insert [OF m(3) lower_bound_without [OF r(2)] key m(4)] unfolding ins_at_without [OF r(2)] by metis
  have "length c = PageSize" using leaf_reprD(4) [of "m\<lparr>n_buf := c\<rparr>"] c(2) by simp
  then obtain q where q: "writeNode (m\<lparr>n_buf := c\<rparr>) p = (Inr (), q)" "moves 0 p {pid} q {pid}" "page q pid = c"
    using writeNode_owned [OF p, of "m\<lparr>n_buf := c\<rparr>"] m(2) by auto
  have "putLeaf ?n key val p = (Inr None, q)"
    using q(1) c(1) by (simp add: putLeaf_def f m(1) bind_lift(1) case_prod_conv Let_def bind_def)
  moreover have "freeSpace \<lparr>n_id = 0, n_buf = page q pid\<rparr> = freeSpace (m\<lparr>n_buf := c\<rparr>)"
    using freeSpace_buf [of "m\<lparr>n_buf := c\<rparr>"] q(3) by simp
  ultimately show thesis using that q(2,3) c(2,3) by simp
qed

lemma putLeaf_spec:
  assumes r: "leaf_repr (page p pid) nxt kvs" "keys_sorted kvs" "\<forall>x\<in>set kvs. lo \<le> fst x \<and> below hi (fst x)"
    and key: "lo \<le> key" "below hi key" "length key \<le> maxKeyValue" "length val \<le> maxKeyValue"
    and acc: "leaf_accepts key val (page p pid) kvs"
    and p: "pager_owned p {pid}" "0 < pager_room p"
  shows "\<exists>g q. putLeaf \<lparr>n_id = pid, n_buf = page p pid\<rparr> key val p = (Inr (split_of g), q) \<and>
    put_spec p nxt (GLeaf pid kvs) lo hi key val g q"
proof -
  let ?n = "\<lparr>n_id = pid, n_buf = page p pid\<rparr>" and ?idx = "lower_bound (map fst kvs) key"
  let ?kvs = "without key kvs"
  have rn: "leaf_repr (n_buf ?n) nxt kvs" using r(1) by simp
  have f: "findIndex ?n key = Inr (?idx, key \<in> fst ` set kvs)" by (rule findIndex_leaf [OF rn r(2)])
  obtain m where m: "(if key \<in> fst ` set kvs then removeCellAt ?idx ?n else Inr ?n) = Inr m" "n_id m = pid"
    "leaf_repr (n_buf m) nxt ?kvs" "freeSpace ?n \<le> freeSpace m" using leaf_removed [OF r(1,2)] by metis
  have idx: "?idx \<le> length ?kvs" by (rule lower_bound_without [OF r(2)])
  have ins: "ins_at ?idx (key, val) ?kvs = al_put key val kvs" by (rule ins_at_without [OF r(2)])
  note put = al_put_bounds [OF r(2,3) key(1,2), of val]
  note run = putLeaf_def f m(1) bind_lift(1) case_prod_conv Let_def
  show ?thesis
  proof (cases "int (length (leafCellBody key val) + 2) \<le> freeSpace m")
    case True
    obtain q where q: "putLeaf ?n key val p = (Inr None, q)" "moves 0 p {pid} q {pid}"
      "leaf_repr (page q pid) nxt (al_put key val kvs)" using putLeaf_room [OF r(1,2) p(1) key(3,4) m(1-3) True] by metis
    let ?g = "FLast (GLeaf pid (al_put key val kvs))"
    have "putLeaf ?n key val p = (Inr (split_of ?g), q)" using q(1) by simp
    moreover have "put_spec p nxt (GLeaf pid kvs) lo hi key val ?g q"
      using put q moves_mono [OF q(2), of 1] by (simp add: put_spec_def outcome_def)
    ultimately show ?thesis by blast
  next
    case False
    then have no: "insertCellAt ?idx (leafCellBody key val) m = Inr (False, m)"
      by (intro insertCellAt_no_room) simp
    have others: "set ?kvs = {x \<in> set kvs. fst x \<noteq> key}" using without_al_del [OF r(2)] by (simp add: set_al_del)
    have "\<not> int (cell_cost (key, val)) \<le> freeSpace ?n" using False m(4) by (simp add: cell_cost_def)
    then have "(\<exists>x\<in>set kvs. fst x \<noteq> key) \<and> (\<forall>x\<in>set kvs. fst x \<noteq> key \<longrightarrow> cell_cost (key, val) \<le> 2 * cell_cost x)"
      using acc freeSpace_buf [of ?n] unfolding leaf_accepts_def by simp
    then have ne: "?kvs \<noteq> []" and big: "\<And>y. y \<in> set ?kvs \<Longrightarrow> cell_cost (key, val) \<le> 2 * cell_cost y"
      using others by auto
    have own: "pager_owned p {n_id m}" using p(1) m(2) by simp
    obtain q rid ls rs where q:
      "splitLeafAndInsert m ?idx (leafCellBody key val) p = (Inr (Some (fst (hd rs), rid)), q)"
      "ls @ rs = al_put key val kvs" "ls \<noteq> []" "rs \<noteq> []" "rid \<noteq> pid" "moves 1 p {pid} q {pid, rid}"
      "leaf_repr (page q pid) rid ls" "leaf_repr (page q rid) nxt rs"
      using splitLeafAndInsert_ok [OF m(3) idx ne key(3,4) big own p(2)] unfolding ins m(2) by metis
    let ?g = "FCons (GLeaf pid ls) (fst (hd rs)) (FLast (GLeaf rid rs))"
    have "putLeaf ?n key val p = (Inr (split_of ?g), q)" using q(1) no by (simp add: run bind_def)
    moreover have "fst (hd rs) \<in> insert key (fst ` set kvs)"
      using q(2,4) set_al_put [OF r(2), of key val] by (metis (no_types, lifting) Un_iff fst_conv hd_in_set imageI
          insert_iff mem_Collect_eq set_append)
    moreover have "fordered ?g lo hi"
      by (rule split_leaf_ordered) (use q put in \<open>simp_all\<close>)
    ultimately show ?thesis
      using q put by (intro exI [of _ ?g] exI [of _ q]) (auto simp: put_spec_def outcome_def)
  qed
qed

end
