(* ===== verification/BTreePut.thy ===== *)
theory BTreePut
  imports BTreeLeafPut
begin

text \<open>
  Insertion into a tree: linking the split of a child into an internal page, splitting
  an internal page, and the recursion of \<^verbatim>\<open>putRec\<close> down the tree and back.
\<close>

section \<open>Splitting an internal page\<close>

text \<open>
  \<^verbatim>\<open>splitInternalAndInsert\<close> gives the right half the last pointer of the page as it was.
  That is the new last pointer only when the split child was not the last one.

  Key sizes are taken to vary by a factor of two at most: the cells of an internal
  page differ only by their keys, and a page is cut by number of cells.
\<close>

definition key_cost :: "bytes \<times> page_id \<Rightarrow> nat" where
  "key_cost x = 8 + length (fst x)"

definition span :: "nat \<Rightarrow> bytes \<Rightarrow> bool" where
  "span b k \<longleftrightarrow> b \<le> 8 + length k \<and> 8 + length k \<le> 2 * b \<and> b \<le> 508"

lemma span_length: "span b k \<Longrightarrow> length k \<le> maxKeyValue"
  by (simp add: span_def)

lemma internal_cost_cells: "internal_cost kcs = sum_list (map key_cost kcs)"
  by (simp add: internal_cost_def key_cost_def [abs_def] case_prod_unfold)

lemma internalCellKeyChild_body: "length k \<le> maxKeyValue \<Longrightarrow> internalCellKeyChild (internalCellBody k c) = Inr (k, c)"
  using get_mid(1) [of 0 "[]" "word_of_nat (length k)" "put_u32 c @ k"]
  by (simp add: internalCellKeyChild_def internalCellBody_def slice_def)

lemma gather_internal_ok:
  assumes "internal_repr (n_buf n) rm kcs" "i + m = length kcs" "length k \<le> maxKeyValue"
  shows "gather_internal n idx (internalCellBody k c) i m = Inr
    (if i \<le> idx \<and> idx < length kcs then ins_at (idx - i) (k, c) (drop i kcs) else drop i kcs)"
  using assms(2)
proof (induction m arbitrary: i)
  case (Suc m)
  then have i: "i < length kcs" by simp
  obtain k' c' where kv: "kcs ! i = (k', c')" by fastforce
  have d: "drop i kcs = (k', c') # drop (Suc i) kcs" using Cons_nth_drop_Suc [OF i] kv by simp
  have "idx - i = Suc (idx - Suc i)" if "i < idx" using that by simp
  then show ?case
    using Suc.IH [of "Suc i"] Suc.prems internalKC_repr [OF assms(1) i] kv d internalCellKeyChild_body [OF assms(3)]
    by (auto simp: not_le)
qed simp

lemma gather_internal_all:
  assumes "internal_repr (n_buf n) rm kcs" "idx \<le> length kcs" "length k \<le> maxKeyValue"
  shows "\<exists>g ins. gather_internal n idx (internalCellBody k c) 0 (numCells n) = Inr g \<and>
    (if idx \<ge> numCells n then rbind (internalCellKeyChild (internalCellBody k c)) (\<lambda>kc. Inr [kc]) else Inr []) = Inr ins \<and>
    g @ ins = ins_at idx (k, c) kcs"
  using gather_internal_ok [OF assms(1) _ assms(3), of 0 "length kcs" idx c] internal_reprD(2) [OF assms(1)] assms(2)
    internalCellKeyChild_body [OF assms(3), of c]
  by (auto simp: not_less ins_at_def)

lemma link_cells_keys:
  assumes "idx \<le> length kcs"
  shows "map fst (link_cells idx s ch nr kcs) = ins_at idx s (map fst kcs)"
proof -
  let ?cs = "ins_at idx (s, ch) kcs"
  have "map fst (?cs[idx + 1 := (fst (?cs ! (idx + 1)), nr)]) = map fst ?cs" if "idx + 1 < length ?cs"
    using that by (metis fst_conv list_update_id map_update nth_map)
  then show ?thesis using assms by (simp add: link_cells_def Let_def map_ins_at)
qed

lemma map_key_cost: "map fst xs = ks \<Longrightarrow> map key_cost xs = map (\<lambda>k. 8 + length k) ks"
  by (auto simp: key_cost_def)

lemma inner_halves_fit:
  assumes "internal_cost kcs \<le> page_room" "idx \<le> length kcs" "mid = Suc (length kcs) div 2"
    and "\<And>k. k \<in> insert s (fst ` set kcs) \<Longrightarrow> span b k"
  shows "internal_cost (take mid (link_cells idx s ch nr kcs)) \<le> page_room"
    "internal_cost (drop (Suc mid) (link_cells idx s ch nr kcs)) \<le> page_room"
proof -
  note sp = assms(4)
  let ?w = "\<lambda>k :: bytes. 8 + length k" and ?cs = "link_cells idx s ch nr kcs"
  have w: "map key_cost ?cs = ins_at idx (?w s) (map ?w (map fst kcs))"
    using map_key_cost [OF link_cells_keys [OF assms(2)]] by (simp only: map_ins_at)
  have total: "sum_list (map ?w (map fst kcs)) \<le> page_room"
    using assms(1) by (simp add: internal_cost_def case_prod_unfold comp_def)
  have m: "mid = length (ins_at idx (?w s) (map ?w (map fst kcs))) div 2" using assms(2,3) by simp
  have each: "?w s \<le> 2 * y" "y \<le> 1016" if y: "y \<in> set (map ?w (map fst kcs))" for y
  proof -
    obtain x where "x \<in> set kcs" "y = 8 + length (fst x)" using y by auto
    then show "?w s \<le> 2 * y" "y \<le> 1016" using sp [of s] sp [of "fst x"] by (simp_all add: span_def)
  qed
  have one: "?w s \<le> 1016" using sp [of s] by (simp add: span_def)
  have "sum_list (take mid (map key_cost ?cs)) \<le> page_room \<and> sum_list (drop mid (map key_cost ?cs)) \<le> page_room"
    unfolding w using halves_fit [OF total m each one] by simp
  moreover have "sum_list (drop (Suc mid) (map key_cost ?cs)) \<le> sum_list (drop mid (map key_cost ?cs))"
    by (cases "drop mid (map key_cost ?cs)") (simp_all add: drop_Suc drop_tl)
  ultimately show "internal_cost (take mid ?cs) \<le> page_room" "internal_cost (drop (Suc mid) ?cs) \<le> page_room"
    by (simp_all add: internal_cost_cells take_map drop_map)
qed

lemma split_has_cells:
  assumes "page_room < internal_cost kcs + (8 + length s)" "\<And>k. k \<in> insert s (fst ` set kcs) \<Longrightarrow> span b k"
  shows "4 \<le> length kcs"
proof -
  have "internal_cost kcs \<le> 1016 * length kcs"
  proof -
    have "y \<le> 1016" if y: "y \<in> set (map key_cost kcs)" for y
    proof -
      obtain x where "x \<in> set kcs" "y = 8 + length (fst x)" using y by (auto simp: key_cost_def)
      then show ?thesis using assms(2) [of "fst x"] by (simp add: span_def)
    qed
    then show ?thesis using sum_list_upper [of "map key_cost kcs" 1016] by (simp add: internal_cost_cells)
  qed
  moreover have "length s \<le> 1008" using assms(2) span_length by blast
  ultimately show ?thesis using assms(1) by linarith
qed

lemma new_inner:
  assumes "internal_cost kcs \<le> page_room" "kcs \<noteq> []" "\<And>x. x \<in> set kcs \<Longrightarrow> length (fst x) \<le> maxKeyValue"
  obtains c where
    "append_cells (map (\<lambda>(k, c). internalCellBody k c) kcs) \<lparr>n_id = i, n_buf = newNodeBuf internalPage\<rparr> =
      Inr \<lparr>n_id = i, n_buf = c\<rparr>"
    "\<And>s. inner_repr (n_buf (setSibling s \<lparr>n_id = i, n_buf = c\<rparr>)) s kcs"
proof -
  have "\<forall>(k, c)\<in>set kcs. length k \<le> maxKeyValue" using assms(3) by fastforce
  from new_internal [OF assms(1) this, of i] obtain c where
    "append_cells (map (\<lambda>(k, c). internalCellBody k c) kcs) \<lparr>n_id = i, n_buf = newNodeBuf internalPage\<rparr> =
      Inr \<lparr>n_id = i, n_buf = c\<rparr>" "internal_repr c 0 kcs"
    "freeSpace \<lparr>n_id = i, n_buf = c\<rparr> = int page_room - int (internal_cost kcs)" by blast
  then show thesis using inner_setSibling [OF _ assms(2)] by (intro that [of c]) (simp_all add: setSibling_def)
qed

lemma inner_reprD:
  assumes "inner_repr (n_buf n) rm kcs"
  shows "internal_repr (n_buf n) rm kcs" "kcs \<noteq> []" "\<not> isLeaf n" "numCells n = length kcs" "sibling n = rm"
    "length (n_buf n) = PageSize" "internal_cost kcs \<le> page_room"
  using assms internal_reprD [of n rm kcs] internal_repr_cost [of "n_buf n" rm kcs]
  by (simp_all add: inner_repr_def)

lemma splitInternalAndInsert_ok:
  assumes r: "inner_repr (n_buf n) rm kcs" "idx \<le> length kcs"
    and sp: "\<And>k. k \<in> insert s (fst ` set kcs) \<Longrightarrow> span b k"
    and full: "freeSpace n < int (8 + length s)"
    and p: "pager_owned p {n_id n}" "0 < pager_room p"
    and cells: "cells = link_cells idx s ch nr kcs" and mid: "mid = Suc (length kcs) div 2"
  obtains q rid where
    "splitInternalAndInsert n idx (internalCellBody s ch) nr (idx \<ge> length kcs) p = (Inr (Some (fst (cells ! mid), rid)), q)"
    "rid \<noteq> n_id n" "moves 1 p {n_id n} q {n_id n, rid}" "Suc mid < length cells"
    "inner_repr (page q (n_id n)) (snd (cells ! mid)) (take mid cells)"
    "inner_repr (page q rid) rm (drop (Suc mid) cells)"
proof -
  note rD = inner_reprD [OF r(1)]
  have len: "length cells = Suc (length kcs)" using cells r(2) by simp
  have "page_room < internal_cost kcs + (8 + length s)" using full inner_freeSpace [OF r(1)] by simp
  then have "4 \<le> length kcs" by (rule split_has_cells [OF _ sp])
  then have m: "0 < mid" "Suc mid < length cells" using mid len by simp_all
  have keys: "fst ` set cells = insert s (fst ` set kcs)"
    using arg_cong [OF link_cells_keys [OF r(2), of s ch nr], of set] cells by (simp add: set_ins_at)
  have caps: "length (fst x) \<le> maxKeyValue" if "x \<in> set cells" for x
    using that keys sp span_length by (metis imageI)
  have fit: "internal_cost (take mid cells) \<le> page_room" "internal_cost (drop (Suc mid) cells) \<le> page_room"
    unfolding cells by (rule inner_halves_fit [OF rD(7) r(2) mid sp]; assumption)+
  have ne: "take mid cells \<noteq> []" "drop (Suc mid) cells \<noteq> []" using m by auto
  have sub: "length (fst x) \<le> maxKeyValue" if "x \<in> set (take mid cells) \<or> x \<in> set (drop (Suc mid) cells)" for x
    by (rule caps) (use that in \<open>blast dest: in_set_takeD in_set_dropD\<close>)
  obtain g ins where g: "gather_internal n idx (internalCellBody s ch) 0 (numCells n) = Inr g"
    "(if idx \<ge> numCells n then rbind (internalCellKeyChild (internalCellBody s ch)) (\<lambda>kc. Inr [kc]) else Inr []) = Inr ins"
    "g @ ins = ins_at idx (s, ch) kcs"
    using gather_internal_all [OF rD(1) r(2) span_length [OF sp]] by blast
  obtain rid p1 where a: "AllocatePage p = (Inr rid, p1)" "rid \<notin> {n_id n}" "moves 1 p {n_id n} p1 {rid, n_id n}"
    using AllocatePage_owned [OF p] by metis
  obtain lb where lb: "append_cells (map (\<lambda>(k, c). internalCellBody k c) (take mid cells))
      \<lparr>n_id = n_id n, n_buf = newNodeBuf internalPage\<rparr> = Inr \<lparr>n_id = n_id n, n_buf = lb\<rparr>"
    "\<And>s. inner_repr (n_buf (setSibling s \<lparr>n_id = n_id n, n_buf = lb\<rparr>)) s (take mid cells)"
    using new_inner [OF fit(1) ne(1), of "n_id n"] sub by blast
  obtain rb where rb: "append_cells (map (\<lambda>(k, c). internalCellBody k c) (drop (Suc mid) cells))
      \<lparr>n_id = rid, n_buf = newNodeBuf internalPage\<rparr> = Inr \<lparr>n_id = rid, n_buf = rb\<rparr>"
    "\<And>s. inner_repr (n_buf (setSibling s \<lparr>n_id = rid, n_buf = rb\<rparr>)) s (drop (Suc mid) cells)"
    using new_inner [OF fit(2) ne(2), of rid] sub by blast
  let ?l = "setSibling (snd (cells ! mid)) \<lparr>n_id = n_id n, n_buf = lb\<rparr>"
    and ?r = "setSibling rm \<lparr>n_id = rid, n_buf = rb\<rparr>"
  have ids: "n_id ?l = n_id n" "n_id ?r = rid" by (simp_all add: setSibling_def)
  have o1: "pager_owned p1 {rid, n_id n}" using moves_owned [OF a(3) p(1)] .
  obtain p2 where w1: "writeNode ?l p1 = (Inr (), p2)" "moves 0 p1 {rid, n_id n} p2 {rid, n_id n}"
    "page p2 (n_id n) = n_buf ?l"
    using writeNode_owned [OF o1, of ?l] ids inner_reprD(6) [OF lb(2)] by auto
  obtain p3 where w2: "writeNode ?r p2 = (Inr (), p3)" "moves 0 p2 {rid, n_id n} p3 {rid, n_id n}"
    "page p3 rid = n_buf ?r" "page p3 (n_id n) = page p2 (n_id n)"
    using writeNode_owned [OF moves_owned [OF w1(2) o1], of ?r] ids inner_reprD(6) [OF rb(2)] a(2)
    by (metis insertCI insertI1)
  have upd: "(if \<not> idx \<ge> length kcs then
        (if idx + 1 < length (g @ ins)
         then ((g @ ins)[idx + 1 := (fst ((g @ ins) ! (idx + 1)), nr)], sibling n) else (g @ ins, nr))
      else (g @ ins, sibling n)) = (cells, rm)"
    using g(3) cells r(2) rD(5) by (simp add: link_cells_def Let_def)
  have mid': "length cells div 2 = mid" using len mid by simp
  have "splitInternalAndInsert n idx (internalCellBody s ch) nr (idx \<ge> length kcs) p =
      (Inr (Some (fst (cells ! mid), rid)), p3)"
    unfolding splitInternalAndInsert_def g(1,2) bind_lift(1) Let_def upd case_prod_conv mid'
    using m by (simp add: bind_def a(1) lb(1) rb(1) w1(1) w2(1))
  moreover have "moves 1 p {n_id n} p3 {n_id n, rid}"
    using moves_trans [OF a(3) moves_trans [OF w1(2) w2(2)]] by (simp add: insert_commute)
  ultimately show thesis
    using that m a(2) lb(2) rb(2) w1(3) w2(3,4) by simp
qed

section \<open>Linking a split into the parent\<close>

lemma linkSplit_fits:
  assumes r: "inner_repr (n_buf n) rm kcs" "idx \<le> length kcs" and s: "length s \<le> maxKeyValue"
    and fits: "int (8 + length s) \<le> freeSpace n" and p: "pager_owned p {n_id n}"
  obtains q where "linkSplit n idx ch (s, nr) p = (Inr None, q)" "moves 0 p {n_id n} q {n_id n}"
    "inner_repr (page q (n_id n)) (link_last idx nr kcs rm) (link_cells idx s ch nr kcs)"
proof -
  note rD = inner_reprD [OF r(1)]
  let ?cs = "ins_at idx (s, ch) kcs"
  obtain c where c: "insertCellAt idx (internalCellBody s ch) n = Inr (True, n\<lparr>n_buf := c\<rparr>)"
    "internal_repr c rm ?cs" "freeSpace (n\<lparr>n_buf := c\<rparr>) = freeSpace n - int (8 + length s)"
    using internal_insert [OF rD(1) r(2) s, of ch] fits by auto
  have "internal_cost ?cs = internal_cost kcs + (8 + length s)"
    by (simp add: ins_at_def) (metis append_take_drop_id internal_cost_simps(3))
  then have fs: "freeSpace (n\<lparr>n_buf := c\<rparr>) = int page_room - int (internal_cost ?cs)"
    using c(3) inner_freeSpace [OF r(1)] by simp
  have ir: "internal_repr (n_buf (n\<lparr>n_buf := c\<rparr>)) rm ?cs" using c(2) by simp
  obtain m where m: "n_id m = n_id n" "inner_repr (n_buf m) (link_last idx nr kcs rm) (link_cells idx s ch nr kcs)"
    "linkSplit n idx ch (s, nr) p = bind (writeNode m) (\<lambda>_. ret None) p"
  proof (cases "idx \<ge> length kcs")
    case True
    have "inner_repr (n_buf (setSibling nr (n\<lparr>n_buf := c\<rparr>))) nr ?cs"
    proof -
      have ne: "?cs \<noteq> []" by (simp add: ins_at_def)
      have "freeSpace \<lparr>n_id = n_id n, n_buf = c\<rparr> = int page_room - int (internal_cost ?cs)"
        using fs freeSpace_buf [of "n\<lparr>n_buf := c\<rparr>"] freeSpace_buf [of "\<lparr>n_id = n_id n, n_buf = c\<rparr>"] by simp
      from inner_setSibling [OF c(2) ne this, of nr] show ?thesis by (simp add: setSibling_def)
    qed
    with True c(1) rD(4) show thesis
      by (intro that [of "setSibling nr (n\<lparr>n_buf := c\<rparr>)"])
        (simp_all add: setSibling_def linkSplit_def link_cells_def link_last_def)
  next
    case False
    then have i: "idx + 1 < length ?cs" by simp
    obtain d where d: "rbind (cellOffset (n\<lparr>n_buf := c\<rparr>) (idx + 1)) (\<lambda>off. splice (n_buf (n\<lparr>n_buf := c\<rparr>)) (off + 2) (put_u32 nr)) = Inr d"
      "inner_repr d rm (?cs[idx + 1 := (fst (?cs ! (idx + 1)), nr)])"
      using inner_rewrite_child [OF ir i fs] by metis
    with False c(1) rD(4) show thesis
      by (intro that [of "n\<lparr>n_buf := d\<rparr>"])
        (simp_all add: linkSplit_def link_cells_def link_last_def Let_def rewriteChildAt_def bind_def)
  qed
  obtain q where "writeNode m p = (Inr (), q)" "moves 0 p {n_id n} q {n_id n}" "page q (n_id n) = n_buf m"
    using writeNode_owned [OF p, of m] m(1) inner_reprD(6) [OF m(2)] by auto
  then show thesis using m that by (simp add: bind_def)
qed

lemma linkSplit_split:
  assumes r: "inner_repr (n_buf n) rm kcs" and full: "freeSpace n < int (8 + length s)"
  shows "linkSplit n idx ch (s, nr) p = splitInternalAndInsert n idx (internalCellBody s ch) nr (idx \<ge> length kcs) p"
proof -
  have "insertCellAt idx (internalCellBody s ch) n = Inr (False, n)"
    using full by (intro insertCellAt_no_room) simp
  then show ?thesis using inner_reprD(4) [OF r] by (simp add: linkSplit_def Let_def)
qed

text \<open>
  The outcome for the parent: its page holds the forest with the child replaced, or
  the forest is cut in two.
\<close>

definition relinked :: "pager \<Rightarrow> page_id \<Rightarrow> gforest \<Rightarrow> gforest \<Rightarrow> pager \<Rightarrow> bool" where
  "relinked p pid h g q \<longleftrightarrow>
     (g = FLast (GNode pid h) \<and> moves 1 p {pid} q {pid} \<and>
        inner_repr (page q pid) (root_of (flast h)) (fcells h)) \<or>
     (\<exists>l k r rid. h = fapp l k r \<and> g = FCons (GNode pid l) k (FLast (GNode rid r)) \<and> rid \<noteq> pid \<and>
        moves 1 p {pid} q {pid, rid} \<and> inner_repr (page q pid) (root_of (flast l)) (fcells l) \<and>
        inner_repr (page q rid) (root_of (flast r)) (fcells r))"

lemma linkSplit_relinked:
  assumes n: "inner_repr (n_buf n) (root_of (flast f)) (fcells f)"
    and t: "root_of t1 = root_of (fchild key f)"
    and sp: "\<And>k. k \<in> insert s (fst ` set (fcells f)) \<Longrightarrow> span b k"
    and room: "fidx key f < length (fcells f) \<or> internal_cost (fcells f) + (8 + length s) \<le> page_room"
    and p: "pager_owned p {n_id n}" "0 < pager_room p"
  shows "\<exists>g q. linkSplit n (fidx key f) (root_of t1) (s, root_of t2) p = (Inr (split_of g), q) \<and>
    relinked p (n_id n) (fput key (FCons t1 s (FLast t2)) f) g q"
proof -
  let ?h = "fput key (FCons t1 s (FLast t2)) f" and ?idx = "fidx key f"
  note cells = fcells_fput_split [OF t, of s t2]
  have s: "length s \<le> maxKeyValue" using sp span_length by blast
  have idx: "?idx \<le> length (fcells f)" by (rule fidx_le)
  show ?thesis
  proof (cases "int (8 + length s) \<le> freeSpace n")
    case True
    obtain q where "linkSplit n ?idx (root_of t1) (s, root_of t2) p = (Inr None, q)" "moves 0 p {n_id n} q {n_id n}"
      "inner_repr (page q (n_id n)) (root_of (flast ?h)) (fcells ?h)"
      using linkSplit_fits [OF n idx s True p(1), of "root_of t1" "root_of t2"] cells by metis
    then show ?thesis
      using moves_mono [of 0 p "{n_id n}" q "{n_id n}" 1]
      by (intro exI [of _ "FLast (GNode (n_id n) ?h)"] exI [of _ q]) (simp add: relinked_def)
  next
    case False
    then have full: "freeSpace n < int (8 + length s)" by simp
    then have i: "?idx < length (fcells f)" using room inner_freeSpace [OF n] by auto
    let ?mid = "Suc (length (fcells f)) div 2"
    obtain q rid where q:
      "splitInternalAndInsert n ?idx (internalCellBody s (root_of t1)) (root_of t2) (?idx \<ge> length (fcells f)) p =
        (Inr (Some (fst (fcells ?h ! ?mid), rid)), q)"
      "rid \<noteq> n_id n" "moves 1 p {n_id n} q {n_id n, rid}" "Suc ?mid < length (fcells ?h)"
      "inner_repr (page q (n_id n)) (snd (fcells ?h ! ?mid)) (take ?mid (fcells ?h))"
      "inner_repr (page q rid) (root_of (flast f)) (drop (Suc ?mid) (fcells ?h))"
      using splitInternalAndInsert_ok [OF n idx sp full p conjunct1 [OF cells] refl] by metis
    obtain l k r where h: "?h = fapp l k r" "fcells l = take ?mid (fcells ?h)"
      "fcells ?h ! ?mid = (k, root_of (flast l))" "fcells r = drop (Suc ?mid) (fcells ?h)"
      using fcut [OF Suc_lessD [OF q(4)]] by blast
    have "root_of (flast r) = root_of (flast f)"
      using conjunct2 [OF cells] i unfolding h(1) fapp_simps(2) by (simp add: link_last_def)
    then have "inner_repr (page q (n_id n)) (root_of (flast l)) (fcells l)"
      "inner_repr (page q rid) (root_of (flast r)) (fcells r)"
      using q(5,6) unfolding h(2,4) h(3) by (simp_all only: snd_conv)
    then have "relinked p (n_id n) ?h (FCons (GNode (n_id n) l) k (FLast (GNode rid r))) q"
      using q(2,3) h(1) unfolding relinked_def by blast
    moreover have "linkSplit n ?idx (root_of t1) (s, root_of t2) p =
        (Inr (split_of (FCons (GNode (n_id n) l) k (FLast (GNode rid r)))), q)"
      unfolding linkSplit_split [OF n full] q(1) h(3) by simp
    ultimately show ?thesis by blast
  qed
qed

section \<open>The recursion\<close>

lemma relinked_cases:
  assumes "relinked p pid h g q"
  obtains B where "moves 1 p {pid} q B" "outcome pid g" "pid \<in> B" "set (fpages g) = B \<union> set (fpages h)"
    "B \<inter> set (fpages h) = {} \<longrightarrow> distinct (fpages h) \<longrightarrow> distinct (fpages g)"
    "\<forall>lo hi. fordered g lo hi = fordered h lo hi" "fentries g = fentries h" "fseps g = fseps h"
    "fleftmost g = fleftmost h" "fheight g = Suc (fheight h)" "fbalanced g = fbalanced h"
    "\<forall>nxt. fstored h q nxt \<longrightarrow> fstored g q nxt"
proof -
  consider (one) "g = FLast (GNode pid h)" "moves 1 p {pid} q {pid}"
      "inner_repr (page q pid) (root_of (flast h)) (fcells h)"
    | (two) l k r rid where "h = fapp l k r" "g = FCons (GNode pid l) k (FLast (GNode rid r))" "rid \<noteq> pid"
        "moves 1 p {pid} q {pid, rid}" "inner_repr (page q pid) (root_of (flast l)) (fcells l)"
        "inner_repr (page q rid) (root_of (flast r)) (fcells r)"
    using assms unfolding relinked_def by blast
  then show thesis
  proof cases
    case one
    then show thesis by (intro that [of "{pid}"]) (auto simp: outcome_def)
  next
    case two
    then show thesis
      by (intro that [of "{pid, rid}"]) (auto simp: outcome_def fordered_fapp fbalanced_fapp fstored_fapp)
  qed
qed

lemma put_spec_node:
  assumes c: "put_spec p (fnext key f nxt) (fchild key f) (flo key f lo) (fhi key f hi) key val g1 q1"
    and f: "fordered f lo hi" "fstored f p nxt" "distinct (pid # fpages f)" "pager_owned p (set (pid # fpages f))"
    and r: "relinked q1 pid (fput key g1 f) g q"
  shows "put_spec p nxt (GNode pid f) lo hi key val g q"
proof -
  let ?c = "fchild key f" and ?h = "fput key g1 f" and ?C = "insert pid (set (frest key f))"
  note c' = c [unfolded put_spec_def]
  have dist: "distinct (frest key f)" "set (pages ?c) \<inter> set (frest key f) = {}"
    "pid \<notin> set (pages ?c)" "pid \<notin> set (frest key f)"
    using f(3) distinct_fpages [of f key] set_fpages [of f key] by auto
  have all: "set (pid # fpages f) = set (pages ?c) \<union> ?C" using set_fpages [of f key] by auto
  have mv: "moves (Suc (height ?c)) p (set (pages ?c)) q1 (set (fpages g1))" using c' by simp
  have disj: "?C \<inter> set (pages ?c) = {}" using dist by auto
  note m1 = movesD [OF mv disj f(4) [unfolded all]]
  have pages_h: "set (fpages ?h) = set (fpages g1) \<union> set (frest key f)" by (rule set_fpages_fput)
  have "fstored ?h q1 nxt" by (rule fstored_fput [OF f(2)]) (use m1(3) c' in auto)
  moreover obtain B where B: "moves 1 q1 {pid} q B" "outcome pid g" "pid \<in> B" "set (fpages g) = B \<union> set (fpages ?h)"
    "B \<inter> set (fpages ?h) = {} \<longrightarrow> distinct (fpages ?h) \<longrightarrow> distinct (fpages g)"
    "\<forall>lo hi. fordered g lo hi = fordered ?h lo hi" "fentries g = fentries ?h" "fseps g = fseps ?h"
    "fleftmost g = fleftmost ?h" "fheight g = Suc (fheight ?h)" "fbalanced g = fbalanced ?h"
    "\<forall>nxt. fstored ?h q nxt \<longrightarrow> fstored g q nxt"
    by (rule relinked_cases [OF r])
  moreover have pd: "set (fpages ?h) \<inter> {pid} = {}" using m1(2) dist pages_h by auto
  moreover have eqD: "{pid} \<union> set (fpages ?h) = set (fpages g1) \<union> ?C" using pages_h by auto
  moreover note m2 = movesD [OF B(1) pd m1(1) [folded eqD]]
  ultimately have st: "fstored g q nxt" using stored_cong(2) [of ?h q q1 nxt] by simp
  have dg: "distinct (fpages g)"
    using B(5) m2(2) m1(2) dist c' by (auto simp: distinct_fpages_fput)
  have "moves (Suc (height ?c) + 1) p (set (pages ?c) \<union> ?C) q (B \<union> set (fpages ?h))"
    using moves_trans [OF moves_frame [OF mv disj] moves_frame [OF B(1) pd, unfolded eqD]] .
  then have mvg: "moves (Suc (Suc (fheight f))) p (set (pid # fpages f)) q (set (fpages g))"
    unfolding all B(4) using moves_mono fheight_fchild [of key f] by fastforce
  have seps: "set (fseps g) \<subseteq> set (fseps f) \<union> insert key (fst ` set (fentries f))"
  proof -
    have "set (fseps g1) \<subseteq> set (seps ?c) \<union> insert key (fst ` set (entries ?c))" using c' by simp
    moreover have "fst ` set (entries ?c) \<subseteq> fst ` set (fentries f)" using entries_fchild by (rule image_mono)
    moreover have "set (fseps g) \<subseteq> set (fseps f) \<union> set (fseps g1)" unfolding B(8) by (rule set_fseps_fput)
    moreover note seps_fchild [of key f]
    ultimately show ?thesis by blast
  qed
  show ?thesis
    unfolding put_spec_def
    using st dg mvg seps c' B fordered_fput [OF f(1)] fentries_fput_al_put [OF f(1)]
    by (auto simp: fleftmost_fput fheight_fput fbalanced_fput)
qed

text \<open>
  Every page on the way to the key takes what may come up to it: the leaf takes the
  cell, and an internal page entered through its last pointer has room for one more
  separator.
\<close>

primrec path_accepts :: "gtree \<Rightarrow> nat \<Rightarrow> bytes \<Rightarrow> bytes \<Rightarrow> pager \<Rightarrow> bool"
  and fpath_accepts :: "gforest \<Rightarrow> nat \<Rightarrow> bytes \<Rightarrow> bytes \<Rightarrow> pager \<Rightarrow> bool" where
  "path_accepts (GLeaf pid kvs) b key val p \<longleftrightarrow> leaf_accepts key val (page p pid) kvs"
| "path_accepts (GNode pid f) b key val p \<longleftrightarrow>
     (fidx key f < length (fcells f) \<or> internal_cost (fcells f) + 2 * b \<le> page_room) \<and> fpath_accepts f b key val p"
| "fpath_accepts (FLast t) b key val p \<longleftrightarrow> path_accepts t b key val p"
| "fpath_accepts (FCons t k f) b key val p \<longleftrightarrow>
     (if key < k then path_accepts t b key val p else fpath_accepts f b key val p)"

lemma fpath_accepts_fchild: "fpath_accepts f b key val p = path_accepts (fchild key f) b key val p"
  by (induction f rule: gforest_induct) auto

lemma fcells_seps: "fst ` set (fcells f) \<subseteq> set (fseps f)"
  by (induction f rule: gforest_induct) auto

lemma pager_owned_mono: "pager_owned p A \<Longrightarrow> B \<subseteq> A \<Longrightarrow> pager_owned p B"
  unfolding pager_owned_def by blast

lemma putRec_leaf:
  assumes "stored (GLeaf pid kvs) p nxt" "ordered (GLeaf pid kvs) lo hi" "pager_owned p {pid}"
    and "lo \<le> key" "below hi key" "length key \<le> maxKeyValue" "length val \<le> maxKeyValue"
    and "leaf_accepts key val (page p pid) kvs" "0 < pager_room p"
  shows "\<exists>g q. putRec fuel pid key val p = (Inr (split_of g), q) \<and> put_spec p nxt (GLeaf pid kvs) lo hi key val g q"
proof -
  have "isLeaf \<lparr>n_id = pid, n_buf = page p pid\<rparr>" using leaf_reprD(1) assms(1) by force
  then have "putRec fuel pid key val p = putLeaf \<lparr>n_id = pid, n_buf = page p pid\<rparr> key val p"
    using readNode_owned [OF assms(3), of pid] by (simp add: putRec.simps bind_def)
  then show ?thesis using putLeaf_spec [of p pid nxt kvs lo hi key val] assms by simp
qed

text \<open>The step at an internal page, from the outcome for its child.\<close>

lemma putRec_node:
  assumes t: "stored (GNode pid f) p nxt" "ordered (GNode pid f) lo hi"
      "pager_owned p (set (pages (GNode pid f)))" "distinct (pages (GNode pid f))"
    and sp: "\<And>k. k \<in> set (fseps f) \<union> insert key (fst ` set (fentries f)) \<Longrightarrow> span b k"
    and room: "fidx key f < length (fcells f) \<or> internal_cost (fcells f) + 2 * b \<le> page_room"
      "Suc (height (fchild key f)) < pager_room p"
    and c: "putRec fuel (root_of (fchild key f)) key val p = (Inr (split_of g1), q1)"
      "put_spec p (fnext key f nxt) (fchild key f) (flo key f lo) (fhi key f hi) key val g1 q1"
  shows "\<exists>g q. putRec (Suc fuel) pid key val p = (Inr (split_of g), q) \<and>
    put_spec p nxt (GNode pid f) lo hi key val g q"
proof -
  let ?n = "\<lparr>n_id = pid, n_buf = page p pid\<rparr>" and ?c = "fchild key f" and ?h = "fput key g1 f"
  have n: "inner_repr (n_buf ?n) (root_of (flast f)) (fcells f)" "fstored f p nxt" "fordered f lo hi"
    using t by simp_all
  note c' = c(2) [unfolded put_spec_def]
  have run: "putRec (Suc fuel) pid key val p =
      (case split_of g1 of None \<Rightarrow> (Inr None, q1) | Some s \<Rightarrow> linkSplit ?n (fidx key f) (root_of ?c) s q1)"
    using readNode_owned [OF t(3), of pid] inner_reprD(3) [OF n(1)] childFor_inner [OF n(1,3), of key] c(1)
    by (simp add: putRec.simps [of "Suc fuel"] bind_def split: option.splits)
  have mv: "moves (Suc (height ?c)) p (set (pages ?c)) q1 (set (fpages g1))" using c' by simp
  have pid: "{pid} \<inter> set (pages ?c) = {}" using t(4) set_fpages [of f key] by auto
  have "pager_owned p (set (pages ?c) \<union> {pid})"
    by (rule pager_owned_mono [OF t(3)]) (use set_fpages [of f key] in auto)
  note m = movesD [OF mv pid this]
  have own: "pager_owned q1 {pid}" using pager_owned_mono [OF m(1)] by simp
  have rm: "0 < pager_room q1" using moves_room [OF mv] room(2) by simp
  have rel: "\<exists>g q. putRec (Suc fuel) pid key val p = (Inr (split_of g), q) \<and> relinked q1 pid ?h g q"
  proof (cases g1)
    case (FLast t')
    then have "root_of t' = root_of ?c" using c' by (simp add: outcome_def)
    then have "relinked q1 pid ?h (FLast (GNode pid ?h)) q1"
      using FLast n(1) m(3) fcells_fput_one [of t' key f] moves_mono [OF moves_refl, of 1 q1 "{pid}"]
      by (simp add: relinked_def)
    then show ?thesis using run FLast by (intro exI [of _ "FLast (GNode pid ?h)"] exI [of _ q1]) simp
  next
    case (FCons t1 s f')
    then obtain t2 where g1: "g1 = FCons t1 s (FLast t2)" and t1: "root_of t1 = root_of ?c"
      using c' by (auto simp: outcome_def)
    have "s \<in> set (seps ?c) \<union> insert key (fst ` set (entries ?c))" using c' g1 by auto
    then have "s \<in> set (fseps f) \<union> insert key (fst ` set (fentries f))"
      using seps_fchild [of key f] image_mono [OF entries_fchild, of fst key f] by blast
    then have sp': "span b k" if "k \<in> insert s (fst ` set (fcells f))" for k
      using that sp fcells_seps [of f] by blast
    have "fidx key f < length (fcells f) \<or> internal_cost (fcells f) + (8 + length s) \<le> page_room"
      using room(1) sp' [of s] by (auto simp: span_def)
    from linkSplit_relinked [OF n(1) t1 sp' this, of q1 t2] own rm show ?thesis
      using run g1 t1 by simp
  qed
  then obtain g q where "putRec (Suc fuel) pid key val p = (Inr (split_of g), q)" "relinked q1 pid ?h g q"
    by blast
  moreover have "distinct (pid # fpages f)" "pager_owned p (set (pid # fpages f))" using t(3,4) by simp_all
  ultimately show ?thesis using put_spec_node [OF c(2) n(3,2)] by blast
qed

lemma putRec_spec:
  assumes "stored t p nxt" "ordered t lo hi" "pager_owned p (set (pages t))" "distinct (pages t)"
    and "lo \<le> key" "below hi key" "length val \<le> maxKeyValue"
    and "\<And>k. k \<in> set (seps t) \<union> insert key (fst ` set (entries t)) \<Longrightarrow> span b k"
    and "path_accepts t b key val p" "height t < pager_room p" "height t \<le> fuel"
  shows "\<exists>g q. putRec fuel (root_of t) key val p = (Inr (split_of g), q) \<and> put_spec p nxt t lo hi key val g q"
  using assms
proof (induction fuel arbitrary: t lo hi nxt)
  case (0 t)
  obtain pid kvs where "t = GLeaf pid kvs" using 0 by (cases t) auto
  moreover have "length key \<le> maxKeyValue" using 0(8) span_length by blast
  ultimately show ?case using putRec_leaf [of pid kvs p nxt lo hi key val 0] 0 by simp
next
  case (Suc fuel t)
  note sp = Suc.prems(8)
  show ?case
  proof (cases t)
    case (GLeaf pid kvs)
    moreover have "length key \<le> maxKeyValue" using sp span_length by blast
    ultimately show ?thesis using putRec_leaf [of pid kvs p nxt lo hi key val "Suc fuel"] Suc.prems by simp
  next
    case (GNode pid f)
    let ?c = "fchild key f"
    have f: "fstored f p nxt" "fordered f lo hi" "distinct (fpages f)" using Suc.prems(1,2,4) GNode by simp_all
    have own: "pager_owned p (set (pages ?c))"
      by (rule pager_owned_mono [OF Suc.prems(3)]) (use GNode set_fpages [of f key] in auto)
    have h: "height ?c \<le> fheight f" by (rule fheight_fchild)
    have spc: "span b k" if "k \<in> set (seps ?c) \<union> insert key (fst ` set (entries ?c))" for k
      by (rule sp) (use that GNode seps_fchild [of key f] image_mono [OF entries_fchild, of fst key f] in auto)
    have "\<exists>g q. putRec fuel (root_of ?c) key val p = (Inr (split_of g), q) \<and>
        put_spec p (fnext key f nxt) ?c (flo key f lo) (fhi key f hi) key val g q"
    proof (rule Suc.IH [OF fstored_fchild [OF f(1)] fordered_fchild [OF f(2)] own _ flo_le [OF Suc.prems(5)]
          below_fhi [OF Suc.prems(6)] Suc.prems(7) spc])
      show "distinct (pages ?c)" using f(3) distinct_fpages [of f key] by simp
      show "path_accepts ?c b key val p" using Suc.prems(9) GNode by (simp add: fpath_accepts_fchild)
      show "height ?c < pager_room p" "height ?c \<le> fuel" using Suc.prems(10,11) GNode h by simp_all
    qed assumption
    then obtain g1 q1 where c: "putRec fuel (root_of ?c) key val p = (Inr (split_of g1), q1)"
      "put_spec p (fnext key f nxt) ?c (flo key f lo) (fhi key f hi) key val g1 q1" by blast
    show ?thesis
      unfolding GNode root_of.simps
    proof (rule putRec_node [OF Suc.prems(1-4) [unfolded GNode] _ _ _ c])
      show "span b k" if "k \<in> set (fseps f) \<union> insert key (fst ` set (fentries f))" for k
        using that sp GNode by simp
    qed (use Suc.prems(9,10) GNode h in simp_all)
  qed
qed

end
