(* ===== verification/BTreeOps.thy ===== *)
theory BTreeOps
  imports BTreePut
begin

text \<open>
  The operations of a B+ tree on its key-value contents: \<^verbatim>\<open>Get\<close>, \<^verbatim>\<open>Has\<close>,
  \<^verbatim>\<open>Put\<close> and \<^verbatim>\<open>Delete\<close> of \<^verbatim>\<open>internal/storage/btree.go\<close> against a sorted
  association list.
\<close>

section \<open>The invariant\<close>

definition btree_at :: "pager \<Rightarrow> gtree \<Rightarrow> bool" where
  "btree_at p t \<longleftrightarrow> stored t p 0 \<and> ordered t [] None \<and> distinct (pages t) \<and> pager_owned p (set (pages t))"

lemma btree_atD:
  assumes "btree_at p t"
  shows "stored t p 0" "ordered t [] None" "distinct (pages t)" "pager_owned p (set (pages t))"
    "keys_sorted (entries t)"
  using assms ordered_sorted(1) by (auto simp: btree_at_def)

text \<open>The loops over pages have steps enough: a tree has fewer levels than the file has pages.\<close>

lemma owned_card: "pager_owned p (set xs) \<Longrightarrow> distinct xs \<Longrightarrow> length xs \<le> unat (pageCount p)"
proof -
  assume o: "pager_owned p (set xs)" and d: "distinct xs"
  have "unat ` set xs \<subseteq> {..<unat (pageCount p)}" using o by (auto simp: pager_owned_def word_less_nat_alt)
  then have "card (unat ` set xs) \<le> unat (pageCount p)" using card_mono [of "{..<unat (pageCount p)}"] by simp
  moreover have "card (unat ` set xs) = length xs"
    using d card_image [of "unat :: page_id \<Rightarrow> nat" "set xs"]
    by (simp add: distinct_card inj_on_def word_eq_iff_unsigned [where 'a = nat])
  ultimately show ?thesis by simp
qed

lemma page_fuel_owned: "pager_owned p A \<Longrightarrow> page_fuel p = unat (pageCount p) + 1"
  by (auto simp: pager_owned_def page_fuel_def dest: pager_invD(3))

lemma height_fuel: "btree_at p t \<Longrightarrow> height t \<le> page_fuel p"
  using owned_card [of p "pages t"] height_less_pages(1) [of t] page_fuel_owned by (fastforce dest: btree_atD)

lemma moves_btree_frame:
  assumes "moves k p A q B" "btree_at p t" "pager_owned p (A \<union> set (pages t))" "A \<inter> set (pages t) = {}"
  shows "btree_at q t"
proof -
  have "set (pages t) \<inter> A = {}" using assms(4) by auto
  note m = movesD [OF assms(1) this assms(3)]
  have "pager_owned q (set (pages t))" by (rule pager_owned_mono [OF m(1)]) simp
  then show ?thesis using assms(2) m(3) stored_cong(1) [of t q p 0] by (simp add: btree_at_def)
qed

section \<open>Lookup\<close>

lemma stored_leaf:
  "stored t p nxt \<Longrightarrow> \<exists>sib. leaf_repr (page p (fst (leaf_of key t))) sib (snd (leaf_of key t))"
  "fstored f p nxt \<Longrightarrow> \<exists>sib. leaf_repr (page p (fst (fleaf_of key f))) sib (snd (fleaf_of key f))"
  by (induction t and f arbitrary: nxt and nxt) auto

lemma ordered_leaf:
  "ordered t lo hi \<Longrightarrow> keys_sorted (snd (leaf_of key t))" "fordered f lo hi \<Longrightarrow> keys_sorted (snd (fleaf_of key f))"
  by (induction t and f arbitrary: lo hi and lo hi) auto

lemma leaf_of_pages:
  "fst (leaf_of key t) \<in> set (pages t)" "fst (fleaf_of key f) \<in> set (fpages f)"
  by (induction t and f) auto

lemma map_of_leaf:
  "ordered t lo hi \<Longrightarrow> map_of (snd (leaf_of key t)) key = map_of (entries t) key"
  "fordered f lo hi \<Longrightarrow> map_of (snd (fleaf_of key f)) key = map_of (fentries f) key"
proof (induction t and f arbitrary: lo hi and lo hi)
  case (FCons t k f)
  have right: "map_of (fentries f) key = None" if "key < k"
    using FCons.prems that ordered_bounds(2) [of f k hi] by (fastforce simp: map_of_eq_None_iff)
  have left: "map_of (entries t) key = None" if "\<not> key < k"
    using FCons.prems that ordered_bounds(1) [of t lo "Some k"] by (fastforce simp: map_of_eq_None_iff)
  show ?case
    using FCons.IH(1) [of lo "Some k"] FCons.IH(2) [of k hi] FCons.prems left right
    by (auto simp: map_add_def split: option.splits)
qed auto

text \<open>What \<^verbatim>\<open>Get\<close> and \<^verbatim>\<open>Delete\<close> share: the descent and the search of the leaf.\<close>

lemma find_in_leaf:
  assumes "btree_at p t"
  obtains sib where
    "readNode (root_of t) p = (Inr \<lparr>n_id = root_of t, n_buf = page p (root_of t)\<rparr>, p)"
    "descend (page_fuel p) key \<lparr>n_id = root_of t, n_buf = page p (root_of t)\<rparr> p =
      (Inr \<lparr>n_id = fst (leaf_of key t), n_buf = page p (fst (leaf_of key t))\<rparr>, p)"
    "leaf_repr (page p (fst (leaf_of key t))) sib (snd (leaf_of key t))" "keys_sorted (snd (leaf_of key t))"
    "findIndex \<lparr>n_id = fst (leaf_of key t), n_buf = page p (fst (leaf_of key t))\<rparr> key =
      Inr (lower_bound (map fst (snd (leaf_of key t))) key, key \<in> fst ` set (snd (leaf_of key t)))"
proof -
  note inv = btree_atD [OF assms]
  obtain sib where sib: "leaf_repr (page p (fst (leaf_of key t))) sib (snd (leaf_of key t))"
    using stored_leaf(1) [OF inv(1)] by blast
  have s: "keys_sorted (snd (leaf_of key t))" by (rule ordered_leaf(1) [OF inv(2)])
  show thesis
  proof (rule that [OF _ _ sib s])
    show "readNode (root_of t) p = (Inr \<lparr>n_id = root_of t, n_buf = page p (root_of t)\<rparr>, p)"
      by (rule readNode_owned [OF inv(4)]) simp
    show "descend (page_fuel p) key \<lparr>n_id = root_of t, n_buf = page p (root_of t)\<rparr> p =
        (Inr \<lparr>n_id = fst (leaf_of key t), n_buf = page p (fst (leaf_of key t))\<rparr>, p)"
      by (rule descend_stored [OF inv(1,2,4) subset_refl height_fuel [OF assms]])
    show "findIndex \<lparr>n_id = fst (leaf_of key t), n_buf = page p (fst (leaf_of key t))\<rparr> key =
        Inr (lower_bound (map fst (snd (leaf_of key t))) key, key \<in> fst ` set (snd (leaf_of key t)))"
      by (rule findIndex_leaf [where sib = sib, OF _ s]) (simp add: sib)
  qed
qed

lemma nth_lower_bound:
  "sorted_wrt (<) ks \<Longrightarrow> key \<in> set ks \<Longrightarrow> ks ! lower_bound ks key = key" for key :: bytes
  by (induction ks) (auto dest: order.asym)

lemma lower_bound_entry:
  assumes "keys_sorted kvs" "map_of kvs key = Some v"
  shows "lower_bound (map fst kvs) key < length kvs" "kvs ! lower_bound (map fst kvs) key = (key, v)"
proof -
  have mem: "key \<in> set (map fst kvs)" using map_of_SomeD [OF assms(2)] by force
  show lt: "lower_bound (map fst kvs) key < length kvs" using lower_bound_less [OF assms(1) mem] by simp
  have "fst (kvs ! lower_bound (map fst kvs) key) = key" using nth_lower_bound [OF assms(1) mem] lt by simp
  moreover have "kvs ! lower_bound (map fst kvs) key \<in> set kvs" using lt by simp
  ultimately show "kvs ! lower_bound (map fst kvs) key = (key, v)"
    using map_of_sorted_iff [OF assms(1), of key] assms(2) by (metis option.inject prod.collapse)
qed

lemma Get_map_of:
  assumes "btree_at p t"
  shows "Get (root_of t) key p =
    (case map_of (entries t) key of None \<Rightarrow> (Inl ErrKeyNotFound, p) | Some v \<Rightarrow> (Inr v, p))"
proof -
  let ?l = "\<lparr>n_id = fst (leaf_of key t), n_buf = page p (fst (leaf_of key t))\<rparr>" and ?kvs = "snd (leaf_of key t)"
  obtain sib where f: "readNode (root_of t) p = (Inr \<lparr>n_id = root_of t, n_buf = page p (root_of t)\<rparr>, p)"
    "descend (page_fuel p) key \<lparr>n_id = root_of t, n_buf = page p (root_of t)\<rparr> p = (Inr ?l, p)"
    "leaf_repr (n_buf ?l) sib ?kvs" "keys_sorted ?kvs"
    "findIndex ?l key = Inr (lower_bound (map fst ?kvs) key, key \<in> fst ` set ?kvs)"
    using find_in_leaf [OF assms, of key] by auto
  have m: "map_of (entries t) key = map_of ?kvs key" using map_of_leaf(1) btree_atD(2) [OF assms] by metis
  show ?thesis
  proof (cases "map_of ?kvs key")
    case None
    then have "key \<notin> fst ` set ?kvs" by (simp add: map_of_eq_None_iff)
    then show ?thesis using f m None by (simp add: Get_def bind_def)
  next
    case (Some v)
    then have "key \<in> fst ` set ?kvs" by (metis map_of_eq_None_iff option.distinct(1))
    moreover have "leafKV ?l (lower_bound (map fst ?kvs) key) = Inr (key, v)"
      using leafKV_repr [OF f(3)] lower_bound_entry [OF f(4) Some] by metis
    ultimately show ?thesis using f(1,2,5) m Some by (simp add: Get_def bind_def)
  qed
qed

section \<open>Deletion\<close>

primrec tdel :: "bytes \<Rightarrow> gtree \<Rightarrow> gtree" and fdel :: "bytes \<Rightarrow> gforest \<Rightarrow> gforest" where
  "tdel key (GLeaf pid kvs) = GLeaf pid (al_del key kvs)"
| "tdel key (GNode pid f) = GNode pid (fdel key f)"
| "fdel key (FLast t) = FLast (tdel key t)"
| "fdel key (FCons t k f) = (if key < k then FCons (tdel key t) k f else FCons t k (fdel key f))"

lemma root_of_tdel [simp]: "root_of (tdel key t) = root_of t"
  by (cases t) simp_all

lemma tdel_simps [simp]:
  "pages (tdel key t) = pages t \<and> leftmost (tdel key t) = leftmost t \<and> height (tdel key t) = height t \<and>
   seps (tdel key t) = seps t \<and> balanced (tdel key t) = balanced t"
  "fpages (fdel key f) = fpages f \<and> fleftmost (fdel key f) = fleftmost f \<and> fheight (fdel key f) = fheight f \<and>
   fseps (fdel key f) = fseps f \<and> fbalanced (fdel key f) = fbalanced f"
  by (induction t and f) auto

lemma fdel_cells [simp]:
  "fcells (fdel key f) = fcells f" "root_of (flast (fdel key f)) = root_of (flast f)"
  by (induction f rule: gforest_induct) auto

lemma ordered_tdel:
  "ordered t lo hi \<Longrightarrow> ordered (tdel key t) lo hi" "fordered f lo hi \<Longrightarrow> fordered (fdel key f) lo hi"
  by (induction t and f arbitrary: lo hi and lo hi) (auto simp: keys_sorted_al_del set_al_del)

lemma entries_tdel:
  "ordered t lo hi \<Longrightarrow> entries (tdel key t) = al_del key (entries t)"
  "fordered f lo hi \<Longrightarrow> fentries (fdel key f) = al_del key (fentries f)"
proof (induction t and f arbitrary: lo hi and lo hi)
  case (FCons t k f)
  have right: "key \<notin> fst ` set (fentries f)" if "key < k"
    using FCons.prems that ordered_bounds(2) [of f k hi] by fastforce
  have left: "key \<notin> fst ` set (entries t)" if "\<not> key < k"
    using FCons.prems that ordered_bounds(1) [of t lo "Some k"] by fastforce
  show ?case
    using FCons.IH(1) [of lo "Some k"] FCons.IH(2) [of k hi] FCons.prems left right
    by (auto simp: al_del_absent)
qed auto

lemma stored_tdel:
  assumes "\<And>sib. leaf_repr (page p lp) sib kvs \<Longrightarrow> leaf_repr (page q lp) sib (al_del key kvs)"
  shows "stored t p nxt \<Longrightarrow> leaf_of key t = (lp, kvs) \<Longrightarrow> distinct (pages t) \<Longrightarrow>
      (\<And>j. j \<in> set (pages t) \<Longrightarrow> j \<noteq> lp \<Longrightarrow> page q j = page p j) \<Longrightarrow> stored (tdel key t) q nxt"
    "fstored f p nxt \<Longrightarrow> fleaf_of key f = (lp, kvs) \<Longrightarrow> distinct (fpages f) \<Longrightarrow>
      (\<And>j. j \<in> set (fpages f) \<Longrightarrow> j \<noteq> lp \<Longrightarrow> page q j = page p j) \<Longrightarrow> fstored (fdel key f) q nxt"
proof (induction t and f arbitrary: nxt and nxt)
  case (GLeaf pid kvs')
  then show ?case using assms by simp
next
  case (GNode pid f)
  have "lp \<in> set (fpages f)" using leaf_of_pages(2) [of key f] GNode.prems(2) by simp
  then have "page q pid = page p pid" using GNode.prems(3,4) by auto
  moreover have "fstored (fdel key f) q nxt" by (rule GNode.IH) (use GNode.prems in auto)
  ultimately show ?case using GNode.prems(1) by simp
next
  case (FLast t)
  then show ?case by simp
next
  case (FCons t k f)
  show ?case
  proof (cases "key < k")
    case True
    have "lp \<in> set (pages t)" using leaf_of_pages(1) [of key t] FCons.prems(2) True by simp
    then have "page q j = page p j" if "j \<in> set (fpages f)" for j using FCons.prems(3,4) that by auto
    then have "fstored f q nxt" using stored_cong(2) [of f q p nxt] FCons.prems(1) by simp
    moreover have "stored (tdel key t) q (fleftmost f)" by (rule FCons.IH(1)) (use True FCons.prems in auto)
    ultimately show ?thesis using True by simp
  next
    case False
    have "lp \<in> set (fpages f)" using leaf_of_pages(2) [of key f] FCons.prems(2) False by simp
    then have "page q j = page p j" if "j \<in> set (pages t)" for j using FCons.prems(3,4) that by auto
    then have "stored t q (fleftmost f)" using stored_cong(1) [of t q p] FCons.prems(1) by simp
    moreover have "fstored (fdel key f) q nxt" by (rule FCons.IH(2)) (use False FCons.prems in auto)
    ultimately show ?thesis using False by simp
  qed
qed

lemma Delete_absent:
  assumes "btree_at p t" "map_of (entries t) key = None"
  shows "Delete (root_of t) key p = (Inl ErrKeyNotFound, p)"
proof -
  have "map_of (snd (leaf_of key t)) key = None" using map_of_leaf(1) btree_atD(2) [OF assms(1)] assms(2) by metis
  then have "key \<notin> fst ` set (snd (leaf_of key t))" by (simp add: map_of_eq_None_iff)
  moreover obtain sib where f: "readNode (root_of t) p = (Inr \<lparr>n_id = root_of t, n_buf = page p (root_of t)\<rparr>, p)"
    "descend (page_fuel p) key \<lparr>n_id = root_of t, n_buf = page p (root_of t)\<rparr> p =
      (Inr \<lparr>n_id = fst (leaf_of key t), n_buf = page p (fst (leaf_of key t))\<rparr>, p)"
    "findIndex \<lparr>n_id = fst (leaf_of key t), n_buf = page p (fst (leaf_of key t))\<rparr> key =
      Inr (lower_bound (map fst (snd (leaf_of key t))) key, key \<in> fst ` set (snd (leaf_of key t)))"
    by (rule find_in_leaf [OF assms(1)])
  ultimately show ?thesis by (simp add: Delete_def bind_def)
qed

lemma Delete_present:
  assumes "btree_at p t" "map_of (entries t) key = Some v"
  obtains q where "Delete (root_of t) key p = (Inr (), q)" "btree_at q (tdel key t)"
    "moves 0 p (set (pages t)) q (set (pages t))"
proof -
  note inv = btree_atD [OF assms(1)]
  obtain lp kvs where l: "leaf_of key t = (lp, kvs)" by fastforce
  let ?l = "\<lparr>n_id = lp, n_buf = page p lp\<rparr>" and ?i = "lower_bound (map fst kvs) key"
  obtain sib where f: "readNode (root_of t) p = (Inr \<lparr>n_id = root_of t, n_buf = page p (root_of t)\<rparr>, p)"
    "descend (page_fuel p) key \<lparr>n_id = root_of t, n_buf = page p (root_of t)\<rparr> p = (Inr ?l, p)"
    "leaf_repr (n_buf ?l) sib kvs" "keys_sorted kvs" "findIndex ?l key = Inr (?i, key \<in> fst ` set kvs)"
    using find_in_leaf [OF assms(1), of key] l by auto
  have m: "map_of kvs key = Some v" using map_of_leaf(1) [OF inv(2), of key] l assms(2) by simp
  then have mem: "key \<in> fst ` set kvs" by (metis map_of_eq_None_iff option.distinct(1))
  obtain c where c: "removeCellAt ?i ?l = Inr (?l\<lparr>n_buf := c\<rparr>)" "leaf_repr c sib (del_at ?i kvs)"
    using leaf_remove [OF f(3) lower_bound_entry(1) [OF f(4) m]] .
  have del: "del_at ?i kvs = al_del key kvs" using without_al_del [OF f(4), of key] mem by (simp add: without_def)
  have lp: "lp \<in> set (pages t)" using leaf_of_pages(1) [of key t] l by simp
  have "length c = PageSize" using leaf_reprD(4) [of "?l\<lparr>n_buf := c\<rparr>"] c(2) by simp
  then obtain q where q: "writeNode (?l\<lparr>n_buf := c\<rparr>) p = (Inr (), q)" "moves 0 p (set (pages t)) q (set (pages t))"
    "page q lp = c" "\<And>j. j \<in> set (pages t) \<Longrightarrow> j \<noteq> lp \<Longrightarrow> page q j = page p j"
    using writeNode_owned [OF inv(4), of "?l\<lparr>n_buf := c\<rparr>"] lp by auto
  have "leaf_repr (page q lp) s (al_del key kvs)" if "leaf_repr (page p lp) s kvs" for s
  proof -
    have "s = sib" using leaf_reprD(3) [of ?l s kvs] leaf_reprD(3) [OF f(3)] that by simp
    then show ?thesis using c(2) q(3) del by simp
  qed
  then have "stored (tdel key t) q 0" using stored_tdel(1) [of p lp kvs q key] inv(1,3) l q(4) by blast
  then have "btree_at q (tdel key t)"
    using inv ordered_tdel(1) moves_owned [OF q(2) inv(4)] by (simp add: btree_at_def)
  moreover have "Delete (root_of t) key p = (Inr (), q)"
    using f(1,2,5) mem c(1) q(1) by (simp add: Delete_def bind_def)
  ultimately show thesis using q(2) that by blast
qed

section \<open>Insertion\<close>

text \<open>
  The condition for an insertion: sizes within the cap, key lengths (of the stored
  keys, of the separators and of the new key) that differ by a factor of two at most,
  pages on the path that take what comes to them, and page numbers left.
\<close>

definition put_ready :: "nat \<Rightarrow> bytes \<Rightarrow> bytes \<Rightarrow> pager \<Rightarrow> gtree \<Rightarrow> bool" where
  "put_ready b key val p t \<longleftrightarrow> length val \<le> maxKeyValue \<and>
     (\<forall>k \<in> set (seps t) \<union> insert key (fst ` set (entries t)). span b k) \<and>
     path_accepts t b key val p \<and> height t + 1 < pager_room p"

lemma new_root:
  assumes own: "pager_owned p A" "0 < pager_room p" and s: "length s \<le> maxKeyValue"
  obtains rid n q where "AllocatePage p = (Inr rid, n)" "rid \<notin> A"
    "bind (lift (insertCellAt 0 (internalCellBody s root) \<lparr>n_id = rid, n_buf = newNodeBuf internalPage\<rparr>)) (\<lambda>(_, m).
       bind (writeNode (setSibling right m)) (\<lambda>_. ret rid)) n = (Inr rid, q)"
    "moves 1 p A q (insert rid A)" "inner_repr (page q rid) right [(s, root)]"
    "\<And>j. j \<in> A \<Longrightarrow> page q j = page p j"
proof -
  obtain rid p1 where a: "AllocatePage p = (Inr rid, p1)" "rid \<notin> A" "moves 1 p A p1 (insert rid A)"
    "\<And>j. j \<in> A \<Longrightarrow> page p1 j = page p j"
    using AllocatePage_owned [OF own] by metis
  let ?m = "\<lparr>n_id = rid, n_buf = newNodeBuf internalPage\<rparr>"
  obtain c where c: "insertCellAt 0 (internalCellBody s root) ?m = Inr (True, ?m\<lparr>n_buf := c\<rparr>)"
    "internal_repr c 0 [(s, root)]" "freeSpace (?m\<lparr>n_buf := c\<rparr>) = freeSpace ?m - int (8 + length s)"
    using internal_insert [of ?m 0 "[]" 0 s root] s by (auto simp: internal_repr_new freeSpace_new)
  let ?r = "setSibling right (?m\<lparr>n_buf := c\<rparr>)"
  have i: "inner_repr (n_buf ?r) right [(s, root)]"
    using inner_setSibling [OF c(2), of rid right] c(3) by (simp add: setSibling_def freeSpace_new)
  obtain q where q: "writeNode ?r p1 = (Inr (), q)" "moves 0 p1 (insert rid A) q (insert rid A)"
    "page q rid = n_buf ?r" "\<And>j. j \<in> insert rid A \<Longrightarrow> j \<noteq> rid \<Longrightarrow> page q j = page p1 j"
    using writeNode_owned [OF moves_owned [OF a(3) own(1)], of ?r] inner_reprD(6) [OF i]
    by (auto simp: setSibling_def)
  have "moves 1 p A q (insert rid A)" using moves_trans [OF a(3) q(2)] by simp
  moreover have "page q j = page p j" if "j \<in> A" for j using q(4) [of j] a(2,4) that by auto
  ultimately show thesis using that [OF a(1,2)] c(1) q(1,3) i by (simp add: bind_def)
qed

lemma Put_ok:
  assumes inv: "btree_at p t" and ready: "put_ready b key val p t"
  obtains t' q where "Put (root_of t) key val p = (Inr (root_of t'), q)" "btree_at q t'"
    "entries t' = al_put key val (entries t)" "balanced t' = balanced t"
    "set (seps t') \<subseteq> set (seps t) \<union> insert key (fst ` set (entries t))"
    "moves (height t + 2) p (set (pages t)) q (set (pages t'))"
proof -
  note I = btree_atD [OF inv]
  note R = ready [unfolded put_ready_def]
  have sp: "span b k" if "k \<in> set (seps t) \<union> insert key (fst ` set (entries t))" for k using R that by blast
  then have key: "length key \<le> maxKeyValue" using span_length by blast
  have "\<exists>g q. putRec (page_fuel p) (root_of t) key val p = (Inr (split_of g), q) \<and>
      put_spec p 0 t [] None key val g q"
    using putRec_spec [OF I(1,2,4,3) _ _ _ sp] R height_fuel [OF inv] by simp
  then obtain g q1 where g: "putRec (page_fuel p) (root_of t) key val p = (Inr (split_of g), q1)"
    "put_spec p 0 t [] None key val g q1" by blast
  note S = g(2) [unfolded put_spec_def]
  have own: "pager_owned q1 (set (fpages g))" using S moves_owned [OF _ I(4)] by blast
  show thesis
  proof (cases g)
    case (FLast t')
    then have "Put (root_of t) key val p = (Inr (root_of t'), q1)"
      using g(1) S key R by (simp add: Put_def bind_def outcome_def)
    moreover have "moves (height t + 2) p (set (pages t)) q1 (set (pages t'))"
      using S FLast moves_mono by fastforce
    moreover have "btree_at q1 t'" using FLast S own by (simp add: btree_at_def)
    ultimately show thesis using that [of t' q1] S FLast by simp
  next
    case (FCons t1 s f)
    then obtain t2 where g': "g = FCons t1 s (FLast t2)" "root_of t1 = root_of t" using S by (auto simp: outcome_def)
    have "s \<in> set (seps t) \<union> insert key (fst ` set (entries t))" using S g' by auto
    then have s: "length s \<le> maxKeyValue" using sp span_length by blast
    have "0 < pager_room q1" using S R by (auto dest: moves_room)
    from new_root [OF own this s] obtain rid p2 q where n: "AllocatePage q1 = (Inr rid, p2)" "rid \<notin> set (fpages g)"
      "bind (lift (insertCellAt 0 (internalCellBody s (root_of t)) \<lparr>n_id = rid, n_buf = newNodeBuf internalPage\<rparr>))
         (\<lambda>(_, m). bind (writeNode (setSibling (root_of t2) m)) (\<lambda>_. ret rid)) p2 = (Inr rid, q)"
      "moves 1 q1 (set (fpages g)) q (insert rid (set (fpages g)))"
      "inner_repr (page q rid) (root_of t2) [(s, root_of t)]" "\<And>j. j \<in> set (fpages g) \<Longrightarrow> page q j = page q1 j"
      by metis
    have "split_of g = Some (s, root_of t2)" using g' by simp
    then have "Put (root_of t) key val p = (Inr rid, q)"
      using g(1) n(1,3) key R by (simp add: Put_def bind_Inr)
    moreover have "fstored g q 0" using stored_cong(2) [of g q q1 0] n(6) S by simp
    then have "btree_at q (GNode rid g)"
      using S n(2,5) g' moves_owned [OF n(4) own] by (simp add: btree_at_def)
    moreover have "moves (Suc (height t) + 1) p (set (pages t)) q (insert rid (set (fpages g)))"
      using moves_trans [OF _ n(4)] S by blast
    ultimately show thesis using that [of "GNode rid g" q] S by simp
  qed
qed

lemma Put_too_large:
  "maxKeyValue < length key \<or> maxKeyValue < length val \<Longrightarrow> Put root key val p = (Inl ErrKeyTooLarge, p)"
  by (auto simp: Put_def)

section \<open>A new tree\<close>

lemma OpenBTree_new:
  assumes "pager_owned p A" "0 < pager_room p"
  obtains pid q where "OpenBTree 0 p = (Inr pid, q)" "pid \<notin> A" "btree_at q (GLeaf pid [])"
    "moves 1 p A q (insert pid A)" "page q pid = newNodeBuf leafPage"
proof -
  obtain pid p1 where a: "AllocatePage p = (Inr pid, p1)" "pid \<notin> A" "moves 1 p A p1 (insert pid A)"
    using AllocatePage_owned [OF assms] by metis
  let ?n = "\<lparr>n_id = pid, n_buf = newNodeBuf leafPage\<rparr>"
  have l: "length (newNodeBuf leafPage) = PageSize" using leaf_reprD(4) [of ?n 0 "[]"] leaf_repr_new by simp
  obtain q where q: "writeNode ?n p1 = (Inr (), q)" "moves 0 p1 (insert pid A) q (insert pid A)"
    "page q pid = newNodeBuf leafPage"
    using writeNode_owned [OF moves_owned [OF a(3) assms(1)], of ?n] l by auto
  have mv: "moves 1 p A q (insert pid A)" using moves_trans [OF a(3) q(2)] by simp
  have "pager_owned q {pid}" by (rule pager_owned_mono [OF moves_owned [OF mv assms(1)]]) simp
  then have "btree_at q (GLeaf pid [])" using q(3) leaf_repr_new by (simp add: btree_at_def)
  moreover have "OpenBTree 0 p = (Inr pid, q)" using a(1) q(1) by (simp add: OpenBTree_def bind_def writeNode_def)
  ultimately show thesis using that a(2) mv q(3) by blast
qed

section \<open>The store\<close>

definition btree_holds :: "pager \<Rightarrow> page_id \<Rightarrow> (bytes \<times> bytes) list \<Rightarrow> bool" where
  "btree_holds p root kvs \<longleftrightarrow> (\<exists>t. btree_at p t \<and> root_of t = root \<and> entries t = kvs)"

definition btree_can_put :: "pager \<Rightarrow> page_id \<Rightarrow> bytes \<Rightarrow> bytes \<Rightarrow> bool" where
  "btree_can_put p root key val \<longleftrightarrow> (\<exists>t b. btree_at p t \<and> root_of t = root \<and> put_ready b key val p t)"

text \<open>The pages determine the contents, so the trees of the two definitions agree.\<close>

lemma btree_entries_unique:
  assumes "btree_at p t" "btree_at p u" "root_of t = root_of u"
  shows "entries t = entries u"
proof (rule sorted_map_of_eq [OF btree_atD(5) [OF assms(1)] btree_atD(5) [OF assms(2)]], rule ext)
  fix k show "map_of (entries t) k = map_of (entries u) k"
    using Get_map_of [OF assms(1), of k] Get_map_of [OF assms(2), of k] assms(3) by (auto split: option.splits)
qed

interpretation bt: kv_store Get Put Delete btree_holds btree_can_put
proof unfold_locales
  show "keys_sorted kvs" if "btree_holds p r kvs" for p r kvs
    using that btree_atD(5) by (auto simp: btree_holds_def)
  show "Get r k p = (case map_of kvs k of None \<Rightarrow> (Inl ErrKeyNotFound, p) | Some v \<Rightarrow> (Inr v, p))"
    if "btree_holds p r kvs" for p r kvs k
    using that Get_map_of by (auto simp: btree_holds_def)
  show "\<exists>r' q. Put r k v p = (Inr r', q) \<and> btree_holds q r' (al_put k v kvs)"
    if h: "btree_holds p r kvs" and c: "btree_can_put p r k v" for p r kvs k v
  proof -
    obtain t b where t: "btree_at p t" "root_of t = r" "put_ready b k v p t" using c by (auto simp: btree_can_put_def)
    obtain u where u: "btree_at p u" "root_of u = r" "entries u = kvs" using h by (auto simp: btree_holds_def)
    have "entries t = kvs" using btree_entries_unique [OF t(1) u(1)] t(2) u(2,3) by simp
    moreover obtain t' q where "Put (root_of t) k v p = (Inr (root_of t'), q)" "btree_at q t'"
      "entries t' = al_put k v (entries t)"
      using Put_ok [OF t(1,3)] by blast
    ultimately show ?thesis using t(2) by (auto simp: btree_holds_def)
  qed
  show "Delete r k p = (Inl ErrKeyNotFound, p)" if "btree_holds p r kvs" "map_of kvs k = None" for p r kvs k
    using that Delete_absent by (auto simp: btree_holds_def)
  show "\<exists>q. Delete r k p = (Inr (), q) \<and> btree_holds q r (al_del k kvs)"
    if h: "btree_holds p r kvs" and m: "map_of kvs k = Some v" for p r kvs k v
  proof -
    obtain t where t: "btree_at p t" "root_of t = r" "entries t = kvs" using h by (auto simp: btree_holds_def)
    obtain q where "Delete (root_of t) k p = (Inr (), q)" "btree_at q (tdel k t)"
      using Delete_present [OF t(1), of k v] t(3) m by auto
    moreover have "entries (tdel k t) = al_del k kvs" using entries_tdel(1) btree_atD(2) [OF t(1)] t(3) by blast
    ultimately show ?thesis using t(2) unfolding btree_holds_def by (metis root_of_tdel)
  qed
qed

end
