(* ===== verification/BTreeDebug.thy ===== *)
theory BTreeDebug
  imports BTreeOps
begin

text \<open>
  The dump of a tree (\<^verbatim>\<open>btree.go\<close>, \<^verbatim>\<open>DebugString\<close>): a line for each page, children after their parent.
\<close>

definition debug_line :: "string \<Rightarrow> page_id \<Rightarrow> nat \<Rightarrow> nat \<Rightarrow> string" where
  "debug_line what pid cells depth =
     concat (replicate depth ''  '') @ what @ decimal_text (unat pid) @ '' ('' @ decimal_text cells @ '' cells)'' @ [CHR 0x0A]"

text \<open>The loop over the cells of an internal page, with the call it makes for a child.\<close>

fun debug_cells :: "(page_id \<Rightarrow> (pager, string) sm) \<Rightarrow> node \<Rightarrow> nat list \<Rightarrow> (pager, string) sm" where
  "debug_cells dump n [] = ret []"
| "debug_cells dump n (i # is) =
     bind (lift (internalKC n i)) (\<lambda>(_, child). bind (dump child) (\<lambda>sub. bind (debug_cells dump n is) (\<lambda>s. ret (sub @ s))))"

fun debugNode :: "nat \<Rightarrow> page_id \<Rightarrow> nat \<Rightarrow> (pager, string) sm" where
  "debugNode fuel pid depth =
     bind (readNode pid) (\<lambda>n.
       if isLeaf n then ret (debug_line ''leaf#'' pid (numCells n) depth)
       else case fuel of
         0 \<Rightarrow> fail Diverges
       | Suc f \<Rightarrow>
           bind (debug_cells (\<lambda>child. debugNode f child (depth + 1)) n [0..<numCells n]) (\<lambda>s.
           bind (debugNode f (sibling n) (depth + 1)) (\<lambda>sub.
             ret (debug_line ''internal#'' pid (numCells n) depth @ s @ sub))))"

declare debugNode.simps [simp del]

definition DebugString :: "page_id \<Rightarrow> (pager, string) sm" where
  "DebugString root p = debugNode (page_fuel p) root 0 p"

section \<open>What is printed\<close>

primrec dump :: "gtree \<Rightarrow> nat \<Rightarrow> string" and fdump :: "gforest \<Rightarrow> nat \<Rightarrow> string" where
  "dump (GLeaf pid kvs) d = debug_line ''leaf#'' pid (length kvs) d"
| "dump (GNode pid f) d = debug_line ''internal#'' pid (length (fcells f)) d @ fdump f (Suc d)"
| "fdump (FLast t) d = dump t d"
| "fdump (FCons t k f) d = dump t d @ fdump f d"

fun debug_all :: "(page_id \<Rightarrow> (pager, string) sm) \<Rightarrow> page_id list \<Rightarrow> (pager, string) sm" where
  "debug_all dmp [] = ret []"
| "debug_all dmp (child # children) = bind (dmp child) (\<lambda>sub. bind (debug_all dmp children) (\<lambda>s. ret (sub @ s)))"

lemma debug_cells_all:
  assumes "\<And>i. i < length kcs \<Longrightarrow> internalKC n i = Inr (kcs ! i)"
  shows "k \<le> length kcs \<Longrightarrow> debug_cells dmp n [k..<length kcs] = debug_all dmp (map snd (drop k kcs))"
proof (induction k rule: inc_induct)
  case (step k)
  have "lift (internalKC n k) = (ret (kcs ! k) :: (pager, _) sm)" using assms [of k] step.hyps by (simp add: fun_eq_iff lift_def ret_def)
  moreover have "[k..<length kcs] = k # [Suc k..<length kcs]" using step.hyps by (simp add: upt_rec)
  moreover have "drop k kcs = kcs ! k # drop (Suc k) kcs" using step.hyps by (simp add: Cons_nth_drop_Suc)
  moreover have "bind (ret (kcs ! k)) m = m (kcs ! k)" for m :: "_ \<Rightarrow> (pager, string) sm" by (simp add: fun_eq_iff bind_def ret_def)
  ultimately show ?case using step.IH by (simp split: prod.split)
qed simp

lemma debugNode_stored:
  "stored t p nxt \<Longrightarrow> set (pages t) \<subseteq> A \<Longrightarrow> pager_owned p A \<Longrightarrow> height t \<le> fuel \<Longrightarrow>
     debugNode fuel (root_of t) d p = (Inr (dump t d), p)"
  "fstored f p nxt \<Longrightarrow> set (fpages f) \<subseteq> A \<Longrightarrow> pager_owned p A \<Longrightarrow> fheight f \<le> fuel \<Longrightarrow>
     (\<exists>s sub. debug_all (\<lambda>child. debugNode fuel child d) (map snd (fcells f)) p = (Inr s, p) \<and>
       debugNode fuel (root_of (flast f)) d p = (Inr sub, p) \<and> fdump f d = s @ sub)"
proof (induction t and f arbitrary: nxt fuel d and nxt fuel d)
  case (GLeaf pid kvs)
  let ?n = "\<lparr>n_id = pid, n_buf = page p pid\<rparr>"
  have "leaf_repr (n_buf ?n) nxt kvs" using GLeaf.prems(1) by simp
  note L = leaf_reprD [OF this]
  have "readNode pid p = (Inr ?n, p)" using readNode_owned [OF GLeaf.prems(3)] GLeaf.prems(2) by simp
  then show ?case using L by (simp add: debugNode.simps [of fuel] bind_def)
next
  case (GNode pid f)
  let ?n = "\<lparr>n_id = pid, n_buf = page p pid\<rparr>"
  have i: "internal_repr (n_buf ?n) (root_of (flast f)) (fcells f)" "fstored f p nxt" using GNode.prems by (simp_all add: inner_repr_def)
  note I = internal_reprD [OF i(1)]
  obtain fl where fl: "fuel = Suc fl" "fheight f \<le> fl" using GNode.prems(4) by (cases fuel) auto
  have c: "debug_cells dmp ?n [0..<numCells ?n] = debug_all dmp (map snd (fcells f))" for dmp
    using debug_cells_all [of "fcells f" ?n 0 dmp] internalKC_repr [OF i(1)] I by simp
  have r: "readNode pid p = (Inr ?n, p)" using readNode_owned [OF GNode.prems(3)] GNode.prems(2) by simp
  obtain s sub where "debug_all (\<lambda>child. debugNode fl child (Suc d)) (map snd (fcells f)) p = (Inr s, p)"
    "debugNode fl (root_of (flast f)) (Suc d) p = (Inr sub, p)" "fdump f (Suc d) = s @ sub"
    using GNode.IH [OF i(2) _ GNode.prems(3) fl(2), of "Suc d"] GNode.prems(2) by auto
  then show ?case using r I c by (simp add: debugNode.simps [of "Suc fl"] fl(1) bind_def)
next
  case (FLast t)
  then show ?case by simp
next
  case (FCons t k f)
  have "debugNode fuel (root_of t) d p = (Inr (dump t d), p)"
    using FCons.IH(1) [of "fleftmost f" fuel d] FCons.prems by simp
  moreover obtain s sub where "debug_all (\<lambda>child. debugNode fuel child d) (map snd (fcells f)) p = (Inr s, p)"
    "debugNode fuel (root_of (flast f)) d p = (Inr sub, p)" "fdump f d = s @ sub"
    using FCons.IH(2) [of nxt fuel d] FCons.prems by auto
  ultimately show ?case by (simp add: bind_def)
qed

text \<open>On a well-formed tree the dump has a line for every page, with its depth, its number and the number of its cells.\<close>

lemma DebugString_prints:
  assumes "btree_at p t"
  shows "DebugString (root_of t) p = (Inr (dump t 0), p)"
  using debugNode_stored(1) [of t p 0 "set (pages t)" "page_fuel p" 0] btree_atD [OF assms] height_fuel [OF assms] by (simp add: DebugString_def)

end
