(* ===== verification/Float64.thy ===== *)
theory Float64
  imports Prelude
begin

text \<open>
  Go's \<^verbatim>\<open>float64\<close> as its IEEE-754 bit pattern (\<^verbatim>\<open>math.Float64bits\<close> and
  \<^verbatim>\<open>math.Float64frombits\<close> are the identity): the ordering predicates of the
  language, with NaN unordered and the two zeros equal, negation, and the
  correctly rounded conversion from \<^verbatim>\<open>int64\<close>.
\<close>

type_synonym float64 = "64 word"

definition sign_bit :: "64 word" where
  "sign_bit = push_bit 63 1"

definition f_neg :: "float64 \<Rightarrow> bool" where
  "f_neg x \<longleftrightarrow> bit x 63"

definition f_mag :: "float64 \<Rightarrow> 64 word" where
  "f_mag x = take_bit 63 x"

definition f_inf_mag :: "64 word" where
  "f_inf_mag = 0x7FF0000000000000"

definition f_nan :: "float64 \<Rightarrow> bool" where
  "f_nan x \<longleftrightarrow> f_inf_mag < f_mag x"

text \<open>The position of a number on the real line; the two zeros share one.\<close>

definition f_rank :: "float64 \<Rightarrow> int" where
  "f_rank x = (if f_neg x then - uint (f_mag x) else uint (f_mag x))"

definition f_less :: "float64 \<Rightarrow> float64 \<Rightarrow> bool" where
  "f_less x y \<longleftrightarrow> \<not> f_nan x \<and> \<not> f_nan y \<and> f_rank x < f_rank y"

definition f_eq :: "float64 \<Rightarrow> float64 \<Rightarrow> bool" where
  "f_eq x y \<longleftrightarrow> \<not> f_nan x \<and> \<not> f_nan y \<and> f_rank x = f_rank y"

definition f_le :: "float64 \<Rightarrow> float64 \<Rightarrow> bool" where
  "f_le x y \<longleftrightarrow> f_less x y \<or> f_eq x y"

definition f_negate :: "float64 \<Rightarrow> float64" where
  "f_negate x = x XOR sign_bit"

definition f_negzero :: float64 where
  "f_negzero = sign_bit"

text \<open>
  Rounding of a positive ratio \<open>n / d\<close> to the nearest magnitude, ties to even:
  \<open>k\<close> is the binary exponent of the ratio and \<open>e\<close> the exponent of the last
  place kept.
\<close>

fun ilog2 :: "int \<Rightarrow> int" where
  "ilog2 n = (if n < 2 then 0 else 1 + ilog2 (n div 2))"

declare ilog2.simps [simp del]

definition ratio_exponent :: "int \<Rightarrow> int \<Rightarrow> int" where
  "ratio_exponent n d =
     (let l = ilog2 n - ilog2 d
      in if (if 0 \<le> l then d * 2 ^ nat l \<le> n else d \<le> n * 2 ^ nat (- l)) then l else l - 1)"

definition round_half_even :: "int \<Rightarrow> int \<Rightarrow> int" where
  "round_half_even a b =
     (let q = a div b; r = a mod b
      in if 2 * r < b then q else if b < 2 * r then q + 1 else if even q then q else q + 1)"

definition round_mag :: "int \<Rightarrow> int \<Rightarrow> 64 word" where
  "round_mag n d =
     (let e = max (ratio_exponent n d - 52) (-1074);
          q = (if 0 \<le> e then round_half_even n (d * 2 ^ nat e)
               else round_half_even (n * 2 ^ nat (- e)) d)
      in word_of_int (min (q + (e + 1074) * 2 ^ 52) 0x7FF0000000000000))"

definition f_of_int64 :: "int64 \<Rightarrow> float64" where
  "f_of_int64 v =
     (let i = sint v
      in if i = 0 then 0 else if i < 0 then round_mag (- i) 1 OR sign_bit else round_mag i 1)"

section \<open>Bit patterns as numbers\<close>

lemma bit_sign_bit [simp]: "bit sign_bit n \<longleftrightarrow> n = 63"
  unfolding sign_bit_def by (subst bit_push_bit_iff) (auto simp: bit_1_iff)

lemma uint_sign_bit [simp]: "uint sign_bit = 2 ^ 63"
  by (simp add: sign_bit_def)

lemma div_once: "0 < b \<Longrightarrow> b \<le> a \<Longrightarrow> a < 2 * b \<Longrightarrow> a div b = (1 :: int)"
  using div_pos_geq [of b a] by (simp add: div_pos_pos_trivial)

lemma mod_once: "0 < b \<Longrightarrow> b \<le> a \<Longrightarrow> a < 2 * b \<Longrightarrow> a mod b = a - (b :: int)"
  using div_once [of b a] by (simp add: minus_div_mult_eq_mod [symmetric])

lemma bit63_iff: "bit (x :: 64 word) 63 \<longleftrightarrow> 2 ^ 63 \<le> uint x"
proof -
  have "bit x 63 \<longleftrightarrow> odd (uint x div 2 ^ 63)"
    by (metis bit_iff_odd bit_uint_iff bit_imp_le_length len_num1 not_le)
  moreover have "uint x < 2 * 2 ^ 63" using uint_lt2p [of x] by simp
  ultimately show ?thesis
    by (cases "2 ^ 63 \<le> uint x") (auto simp: div_once div_pos_pos_trivial)
qed

lemma xor_sign_bit: "x XOR sign_bit = x + sign_bit"
proof (cases "bit x 63")
  case False
  then have "x AND sign_bit = 0" by (auto intro!: bit_word_eqI simp: bit_and_iff)
  then show ?thesis by (simp add: disjunctive_add_eq_xor)
next
  case True
  define y where "y = x XOR sign_bit"
  have "\<not> bit y 63" using True by (simp add: y_def bit_xor_iff)
  then have "y AND sign_bit = 0" by (auto intro!: bit_word_eqI simp: bit_and_iff)
  then have "y + sign_bit = x" by (simp add: disjunctive_add_eq_xor y_def xor.assoc)
  moreover have "sign_bit + sign_bit = 0" by (simp add: sign_bit_def)
  ultimately show ?thesis by (metis add.assoc add.right_neutral y_def)
qed

lemma uint_xor_sign_bit:
  "uint (x XOR sign_bit) = (if bit x 63 then uint x - 2 ^ 63 else uint x + 2 ^ 63)"
  using uint_lt2p [of x]
  by (auto simp: xor_sign_bit uint_word_ariths bit63_iff mod_once)

lemma uint_minus1_64: "uint (-1 :: 64 word) = 2 ^ 64 - 1"
  by (simp add: unsigned_minus_1_eq_mask mask_eq_exp_minus_1)

lemma uint_not64: "uint (NOT (x :: 64 word)) = 2 ^ 64 - 1 - uint x"
proof -
  have "NOT x = - x - 1" by (rule not_eq_complement)
  then have "x + NOT x = -1" by simp
  then have "uint (x + NOT x) = 2 ^ 64 - 1" by (simp only: uint_minus1_64)
  then have "(uint x + uint (NOT x)) mod 2 ^ 64 = 2 ^ 64 - 1" by (simp only: uint_word_ariths) simp
  then show ?thesis using uint_lt2p [of x] uint_lt2p [of "NOT x"]
    by (cases "uint x + uint (NOT x) < 2 ^ 64") (auto simp: mod_once)
qed

lemma uint_f_mag: "uint (f_mag x) = (if f_neg x then uint x - 2 ^ 63 else uint x)"
  using uint_lt2p [of x]
  by (auto simp: f_mag_def f_neg_def bit63_iff unsigned_take_bit_eq take_bit_int_def mod_once)

end
