(* ===== verification/Encoding.thy ===== *)
theory Encoding
  imports Float64
begin

text \<open>
  \<^verbatim>\<open>internal/util/encoding.go\<close>: the codec whose byte order is the order of
  the values, for signed integers, floating-point numbers and row ids.
\<close>

section \<open>The codec\<close>

definition EncodeInt64 :: "int64 \<Rightarrow> bytes" where
  "EncodeInt64 v = put_u64 (v XOR sign_bit)"

definition DecodeInt64 :: "bytes \<Rightarrow> int64 result" where
  "DecodeInt64 b = rbind (get_u64 b 0) (\<lambda>u. Inr (u XOR sign_bit))"

definition EncodeFloat64 :: "float64 \<Rightarrow> bytes" where
  "EncodeFloat64 v = (let bits = v in put_u64 (if f_le 0 v then bits XOR sign_bit else NOT bits))"

definition DecodeFloat64 :: "bytes \<Rightarrow> float64 result" where
  "DecodeFloat64 b = rbind (get_u64 b 0) (\<lambda>bits.
     Inr (if bits AND sign_bit \<noteq> 0 then bits XOR sign_bit else NOT bits))"

definition EncodeUint64 :: "uint64 \<Rightarrow> bytes" where
  "EncodeUint64 v = put_u64 v"

definition DecodeUint64 :: "bytes \<Rightarrow> uint64 result" where
  "DecodeUint64 b = get_u64 b 0"

section \<open>Lengths, order and round trips\<close>

lemma length_Encode [simp]:
  "length (EncodeInt64 v) = 8" "length (EncodeFloat64 w) = 8" "length (EncodeUint64 u) = 8"
  by (simp_all add: EncodeInt64_def EncodeFloat64_def EncodeUint64_def Let_def)

lemma get_u64_put_u64 [simp]: "get_u64 (put_u64 v @ rest) 0 = Inr v"
  by (simp add: get_u64_def window_append_left get_put_u64 window_def)

lemma get_u64_put_u64_nil [simp]: "get_u64 (put_u64 v) 0 = Inr v"
  using get_u64_put_u64 [of v "[]"] by simp

lemma put_u64_less [simp]: "put_u64 u < put_u64 v \<longleftrightarrow> u < v"
proof -
  have "unat u < 256 ^ 8" "unat v < 256 ^ 8"
    using unsigned_less [of u, where 'a = nat] unsigned_less [of v, where 'a = nat] by simp_all
  then show ?thesis by (simp add: put_u64_def be_put_less word_less_nat_alt)
qed

lemma put_u64_inj [simp]: "put_u64 u = put_u64 v \<longleftrightarrow> u = v"
  using get_put_u64 by metis

lemma uint_flip_sint: "uint (v XOR sign_bit) = sint v + 2 ^ 63"
  by (simp add: xor_sign_bit uint_word_ariths sint_uint signed_take_bit_eq_take_bit_shift
      take_bit_int_def)

lemma f_rank_negative:
  assumes "f_neg v" "v \<noteq> f_negzero"
  shows "f_rank v < 0"
proof -
  have "uint v \<noteq> 2 ^ 63" using assms(2) by (metis f_negzero_def uint_sign_bit word_uint_eq_iff)
  moreover have "2 ^ 63 \<le> uint v" using assms(1) by (simp add: f_neg_def bit63_iff)
  ultimately show ?thesis using assms(1) by (simp add: f_rank_def uint_f_mag)
qed

lemma f_rank_nonnegative: "\<not> f_neg v \<Longrightarrow> 0 \<le> f_rank v"
  by (simp add: f_rank_def)

lemma f_rank_zero [simp]: "f_rank 0 = 0" "\<not> f_nan 0"
  by (simp_all add: f_rank_def f_mag_def f_nan_def f_neg_def)

lemma f_le_0_iff: "\<not> f_nan v \<Longrightarrow> v \<noteq> f_negzero \<Longrightarrow> f_le 0 v \<longleftrightarrow> \<not> f_neg v"
  using f_rank_negative [of v] f_rank_nonnegative [of v]
  by (auto simp: f_le_def f_less_def f_eq_def)

text \<open>
  The bit pattern a float is stored under, as a number: negative numbers below
  \<open>2 ^ 63\<close> in reverse order of magnitude, the others above it.
\<close>

lemma EncodeFloat64_pattern:
  assumes "\<not> f_nan v" "v \<noteq> f_negzero"
  shows "\<exists>w. EncodeFloat64 v = put_u64 w \<and> uint w = (if f_neg v then 2 ^ 63 - 1 + f_rank v else 2 ^ 63 + f_rank v)"
  using f_le_0_iff [OF assms]
  by (cases "f_neg v")
    (auto simp: EncodeFloat64_def f_rank_def uint_not64 uint_xor_sign_bit uint_f_mag f_neg_def)

lemma EncodeInt64_less: "EncodeInt64 a < EncodeInt64 b \<longleftrightarrow> sint a < sint b"
  by (simp add: EncodeInt64_def word_less_def uint_flip_sint)

lemma EncodeFloat64_less:
  assumes "\<not> f_nan a" "a \<noteq> f_negzero" "\<not> f_nan b" "b \<noteq> f_negzero"
  shows "EncodeFloat64 a < EncodeFloat64 b \<longleftrightarrow> f_less a b"
proof -
  obtain u where u: "EncodeFloat64 a = put_u64 u"
    "uint u = (if f_neg a then 2 ^ 63 - 1 + f_rank a else 2 ^ 63 + f_rank a)"
    using EncodeFloat64_pattern assms by blast
  obtain w where w: "EncodeFloat64 b = put_u64 w"
    "uint w = (if f_neg b then 2 ^ 63 - 1 + f_rank b else 2 ^ 63 + f_rank b)"
    using EncodeFloat64_pattern assms by blast
  show ?thesis
    using u w assms f_rank_negative [of a] f_rank_negative [of b]
      f_rank_nonnegative [of a] f_rank_nonnegative [of b]
    by (auto simp: word_less_def f_less_def)
qed

text \<open>
  \<^verbatim>\<open>EncodeInt64\<close> is order-preserving: byte-wise comparison of two
  encodings agrees with signed comparison of the integers.
\<close>

theorem EncodeInt64_order:
  "bytes_compare (EncodeInt64 a) (EncodeInt64 b) < 0 \<longleftrightarrow> sint a < sint b"
  by (simp add: bytes_compare_order EncodeInt64_less)

text \<open>\<^verbatim>\<open>DecodeInt64\<close> reverses \<^verbatim>\<open>EncodeInt64\<close> on every integer.\<close>

theorem DecodeInt64_EncodeInt64: "DecodeInt64 (EncodeInt64 v) = Inr v"
  by (simp add: DecodeInt64_def EncodeInt64_def xor.assoc)

text \<open>
  On numbers other than NaN and negative zero, \<^verbatim>\<open>EncodeFloat64\<close> orders as
  \<^verbatim>\<open><\<close> on \<^verbatim>\<open>float64\<close> does.
\<close>

theorem EncodeFloat64_order:
  assumes "\<not> f_nan a" "a \<noteq> f_negzero" "\<not> f_nan b" "b \<noteq> f_negzero"
  shows "bytes_compare (EncodeFloat64 a) (EncodeFloat64 b) < 0 \<longleftrightarrow> f_less a b"
  using EncodeFloat64_less [OF assms] by (simp add: bytes_compare_order)

theorem EncodeFloat64_order_witness:
  "bytes_compare (EncodeFloat64 0xC000000000000000) (EncodeFloat64 0x3FF0000000000000) < 0"
  using EncodeFloat64_order [of "0xC000000000000000" "0x3FF0000000000000"]
  by (simp add: f_nan_def f_mag_def f_inf_mag_def f_negzero_def sign_bit_def f_less_def f_rank_def f_neg_def)

text \<open>
  \<^verbatim>\<open>DecodeFloat64\<close> reverses \<^verbatim>\<open>EncodeFloat64\<close> on every number other
  than NaN and negative zero.
\<close>

theorem DecodeFloat64_EncodeFloat64:
  assumes "\<not> f_nan v" "v \<noteq> f_negzero"
  shows "DecodeFloat64 (EncodeFloat64 v) = Inr v"
proof -
  have and_sign: "x AND sign_bit = 0 \<longleftrightarrow> \<not> bit x 63" for x :: "64 word"
  proof
    assume z: "x AND sign_bit = 0"
    have "bit (x AND sign_bit) 63 \<longleftrightarrow> bit x 63" by (simp add: bit_and_iff)
    with z show "\<not> bit x 63" by simp
  qed (auto intro!: bit_word_eqI simp: bit_and_iff)
  show ?thesis
    using f_le_0_iff [OF assms]
    by (auto simp: EncodeFloat64_def DecodeFloat64_def and_sign bit_xor_iff bit_not_iff xor.assoc f_neg_def)
qed

theorem DecodeFloat64_EncodeFloat64_witness:
  "DecodeFloat64 (EncodeFloat64 0xC000000000000000) = Inr 0xC000000000000000"
  by (rule DecodeFloat64_EncodeFloat64)
    (simp_all add: f_nan_def f_mag_def f_inf_mag_def f_negzero_def sign_bit_def)

text \<open>
  Negative zero equals zero and yet is stored apart from it, below negative
  infinity, and decodes to NaN: \<^verbatim>\<open>v >= 0\<close> holds of it, so its sign bit is
  flipped instead of all of its bits.
\<close>

theorem EncodeFloat64_negzero:
  "f_eq f_negzero 0 \<and> EncodeFloat64 f_negzero \<noteq> EncodeFloat64 0 \<and>
   bytes_compare (EncodeFloat64 f_negzero) (EncodeFloat64 (f_inf_mag OR sign_bit)) < 0 \<and>
   rbind (DecodeFloat64 (EncodeFloat64 f_negzero)) (\<lambda>w. Inr (f_nan w)) = Inr True"
proof -
  have ge: "f_le 0 f_negzero" "f_eq f_negzero 0"
    by (simp_all add: f_le_def f_eq_def f_nan_def f_mag_def f_rank_def f_negzero_def sign_bit_def f_inf_mag_def)
  then have e: "EncodeFloat64 f_negzero = put_u64 0"
    by (simp add: EncodeFloat64_def f_negzero_def)
  have z: "EncodeFloat64 0 = put_u64 sign_bit"
    by (simp add: EncodeFloat64_def f_le_def f_eq_def)
  have i: "EncodeFloat64 (f_inf_mag OR sign_bit) = put_u64 0x000FFFFFFFFFFFFF"
    by (simp add: EncodeFloat64_def f_le_def f_less_def f_eq_def f_nan_def f_mag_def f_rank_def
        f_inf_mag_def sign_bit_def f_neg_def)
  show ?thesis
    using ge unfolding i
    by (simp add: e z bytes_compare_order DecodeFloat64_def sign_bit_def f_nan_def f_mag_def f_inf_mag_def
        mask_eq_exp_minus_1)
qed

end
