(* ===== verification/Value.thy ===== *)
theory Value
  imports Encoding
begin

text \<open>
  \<^verbatim>\<open>internal/catalog/value.go\<close>: column types, runtime values, their comparison
  and order-preserving sort keys, and the row codec.
\<close>

section \<open>Types and values\<close>

text \<open>\<^verbatim>\<open>Type\<close> is a byte; the four declared types are 1 to 4.\<close>

type_synonym Type = byte

definition TypeInteger :: Type where "TypeInteger = 1"
definition TypeFloat :: Type where "TypeFloat = 2"
definition TypeText :: Type where "TypeText = 3"
definition TypeBoolean :: Type where "TypeBoolean = 4"

lemmas type_defs = TypeInteger_def TypeFloat_def TypeText_def TypeBoolean_def

definition Type_String :: "Type \<Rightarrow> string" where
  "Type_String t =
     (if t = TypeInteger then ''INTEGER'' else if t = TypeFloat then ''FLOAT''
      else if t = TypeText then ''TEXT'' else if t = TypeBoolean then ''BOOLEAN''
      else ''UNKNOWN'')"

text \<open>
  \<^verbatim>\<open>strings.ToUpper\<close>, as far as its result can be an ASCII word: besides the
  ASCII letters, the two-byte characters U+0131 and U+017F are the only ones whose
  upper case is ASCII (\<open>I\<close> and \<open>S\<close>).
\<close>

definition upper_char :: "char \<Rightarrow> char" where
  "upper_char c = (let n = of_char c :: nat in if 97 \<le> n \<and> n \<le> 122 then char_of (n - 32) else c)"

fun ToUpper :: "string \<Rightarrow> string" where
  "ToUpper [] = []"
| "ToUpper [c] = [upper_char c]"
| "ToUpper (c # d # cs) =
     (if c = CHR 0xC4 \<and> d = CHR 0xB1 then CHR ''I'' # ToUpper cs
      else if c = CHR 0xC5 \<and> d = CHR 0xBF then CHR ''S'' # ToUpper cs
      else upper_char c # ToUpper (d # cs))"

definition ParseType :: "string \<Rightarrow> Type result" where
  "ParseType s =
     (let u = ToUpper s
      in if u \<in> {''INT'', ''INTEGER'', ''BIGINT'', ''SMALLINT''} then Inr TypeInteger
         else if u \<in> {''FLOAT'', ''DOUBLE'', ''REAL'', ''DECIMAL'', ''NUMERIC''} then Inr TypeFloat
         else if u \<in> {''TEXT'', ''VARCHAR'', ''CHAR'', ''STRING''} then Inr TypeText
         else if u \<in> {''BOOL'', ''BOOLEAN''} then Inr TypeBoolean
         else Inl (ErrUnknownType s))"

record Value =
  vType :: Type
  vNull :: bool
  vI :: int64
  vF :: float64
  vS :: string
  vB :: bool

definition ZeroValue :: Value where
  "ZeroValue = \<lparr>vType = 0, vNull = False, vI = 0, vF = 0, vS = [], vB = False\<rparr>"

definition NullValue :: "Type \<Rightarrow> Value" where "NullValue t = ZeroValue\<lparr>vType := t, vNull := True\<rparr>"
definition IntValue :: "int64 \<Rightarrow> Value" where "IntValue v = ZeroValue\<lparr>vType := TypeInteger, vI := v\<rparr>"
definition FloatValue :: "float64 \<Rightarrow> Value" where "FloatValue v = ZeroValue\<lparr>vType := TypeFloat, vF := v\<rparr>"
definition TextValue :: "string \<Rightarrow> Value" where "TextValue v = ZeroValue\<lparr>vType := TypeText, vS := v\<rparr>"
definition BoolValue :: "bool \<Rightarrow> Value" where "BoolValue v = ZeroValue\<lparr>vType := TypeBoolean, vB := v\<rparr>"

lemmas value_defs = ZeroValue_def NullValue_def IntValue_def FloatValue_def TextValue_def BoolValue_def

section \<open>Sort keys and comparison\<close>

definition SortKey :: "Value \<Rightarrow> bytes" where
  "SortKey v =
     (if vNull v then [0]
      else 1 # (if vType v = TypeInteger then EncodeInt64 (vI v)
                else if vType v = TypeFloat then EncodeFloat64 (vF v)
                else if vType v = TypeText then str_bytes (vS v)
                else if vType v = TypeBoolean then (if vB v then [1] else [0])
                else []))"

definition compareFloat :: "float64 \<Rightarrow> float64 \<Rightarrow> int" where
  "compareFloat a b = (if f_less a b then -1 else if f_less b a then 1 else 0)"

definition strings_Compare :: "string \<Rightarrow> string \<Rightarrow> int" where
  "strings_Compare a b = bytes_compare (str_bytes a) (str_bytes b)"

definition Compare :: "Value \<Rightarrow> Value \<Rightarrow> int" where
  "Compare a b =
     (if vNull a \<and> vNull b then 0
      else if vNull a then -1
      else if vNull b then 1
      else if vType a = TypeInteger then
        (if vType b = TypeFloat then compareFloat (f_of_int64 (vI a)) (vF b)
         else if sint (vI a) < sint (vI b) then -1
         else if sint (vI a) > sint (vI b) then 1 else 0)
      else if vType a = TypeFloat then
        compareFloat (vF a) (if vType b = TypeInteger then f_of_int64 (vI b) else vF b)
      else if vType a = TypeText then strings_Compare (vS a) (vS b)
      else if vType a = TypeBoolean then
        (if vB a = vB b then 0 else if \<not> vB a then -1 else 1)
      else 0)"

definition Truthy :: "Value \<Rightarrow> bool" where
  "Truthy v =
     (if vNull v then False
      else if vType v = TypeBoolean then vB v
      else if vType v = TypeInteger then vI v \<noteq> 0
      else if vType v = TypeFloat then \<not> f_eq (vF v) 0
      else if vType v = TypeText then vS v \<noteq> []
      else False)"

section \<open>The row codec\<close>

definition encode_value :: "Value \<Rightarrow> bytes" where
  "encode_value v =
     (if vNull v then []
      else if vType v = TypeInteger then put_u64 (vI v)
      else if vType v = TypeFloat then put_u64 (vF v)
      else if vType v = TypeText then put_u32 (word_of_nat (length (vS v))) @ str_bytes (vS v)
      else if vType v = TypeBoolean then (if vB v then [1] else [0])
      else [])"

definition EncodeRow :: "Value list \<Rightarrow> bytes" where
  "EncodeRow values =
     map (\<lambda>v. if vNull v then 1 else 0) values @ concat (map encode_value values)"

text \<open>
  One iteration of the column loop of \<^verbatim>\<open>DecodeRow\<close> at offset \<open>off\<close>: the value
  and the next offset.
\<close>

definition decode_column :: "bytes \<Rightarrow> nat \<Rightarrow> nat \<Rightarrow> Type \<Rightarrow> (Value \<times> nat) result" where
  "decode_column data off i t =
     (if t = TypeInteger then
        (if off + 8 > length data then Inl (ErrTruncatedColumn i)
         else rbind (get_u64 data off) (\<lambda>w. Inr (IntValue w, off + 8)))
      else if t = TypeFloat then
        (if off + 8 > length data then Inl (ErrTruncatedColumn i)
         else rbind (get_u64 data off) (\<lambda>w. Inr (FloatValue w, off + 8)))
      else if t = TypeText then
        (if off + 4 > length data then Inl (ErrTruncatedColumn i)
         else rbind (get_u32 data off) (\<lambda>w.
           let l = unat w; off = off + 4
           in if off + l > length data then Inl (ErrTruncatedColumn i)
              else rbind (slice data off (off + l)) (\<lambda>s. Inr (TextValue (bytes_str s), off + l))))
      else if t = TypeBoolean then
        (if off + 1 > length data then Inl (ErrTruncatedColumn i)
         else rbind (elem_at data off) (\<lambda>x. Inr (BoolValue (x = 1), off + 1)))
      else Inr (ZeroValue, off))"

fun decode_columns :: "bytes \<Rightarrow> bytes \<Rightarrow> nat \<Rightarrow> nat \<Rightarrow> Type list \<Rightarrow> Value list result" where
  "decode_columns data nulls off i [] = Inr []"
| "decode_columns data nulls off i (t # ts) =
     rbind (elem_at nulls i) (\<lambda>isNull.
       if isNull = 1
       then rbind (decode_columns data nulls off (i + 1) ts) (\<lambda>vs. Inr (NullValue t # vs))
       else rbind (decode_column data off i t) (\<lambda>(v, off').
              rbind (decode_columns data nulls off' (i + 1) ts) (\<lambda>vs. Inr (v # vs))))"

definition DecodeRow :: "bytes \<Rightarrow> Type list \<Rightarrow> Value list result" where
  "DecodeRow data types =
     (let n = length types
      in if length data < n then Inl ErrRowTooShort
         else rbind (slice data 0 n) (\<lambda>nulls. decode_columns data nulls n 0 types))"

section \<open>Well-formed values\<close>

text \<open>
  The values the constructors build: of a declared type, with every field the type
  does not use at its zero value.
\<close>

definition wf_value :: "Type \<Rightarrow> Value \<Rightarrow> bool" where
  "wf_value t v \<longleftrightarrow> t \<in> {TypeInteger, TypeFloat, TypeText, TypeBoolean} \<and>
     (v = NullValue t \<or> v = IntValue (vI v) \<and> t = TypeInteger \<or> v = FloatValue (vF v) \<and> t = TypeFloat
      \<or> v = TextValue (vS v) \<and> t = TypeText \<and> length (vS v) < 2 ^ 32
      \<or> v = BoolValue (vB v) \<and> t = TypeBoolean)"

text \<open>Floats that the sort key orders: not NaN and not negative zero.\<close>

definition ordinary_float :: "Value \<Rightarrow> bool" where
  "ordinary_float v \<longleftrightarrow> \<not> f_nan (vF v) \<and> vF v \<noteq> f_negzero"

lemma type_distinct [simp]:
  "TypeInteger \<noteq> TypeFloat" "TypeInteger \<noteq> TypeText" "TypeInteger \<noteq> TypeBoolean"
  "TypeFloat \<noteq> TypeInteger" "TypeFloat \<noteq> TypeText" "TypeFloat \<noteq> TypeBoolean"
  "TypeText \<noteq> TypeInteger" "TypeText \<noteq> TypeFloat" "TypeText \<noteq> TypeBoolean"
  "TypeBoolean \<noteq> TypeInteger" "TypeBoolean \<noteq> TypeFloat" "TypeBoolean \<noteq> TypeText"
  by (simp_all add: type_defs)

lemma value_fields [simp]:
  "vNull (NullValue t)" "\<not> vNull (IntValue i)" "\<not> vNull (FloatValue f)" "\<not> vNull (TextValue s)"
  "\<not> vNull (BoolValue b)"
  "vType (NullValue t) = t" "vType (IntValue i) = TypeInteger" "vType (FloatValue f) = TypeFloat"
  "vType (TextValue s) = TypeText" "vType (BoolValue b) = TypeBoolean"
  "vI (IntValue i) = i" "vF (FloatValue f) = f" "vS (TextValue s) = s" "vB (BoolValue b) = b"
  by (simp_all add: value_defs)

lemma wf_value_cases [consumes 1, case_names Null Int Float Text Bool]:
  assumes "wf_value t v"
  obtains "v = NullValue t"
    | i where "v = IntValue i" "t = TypeInteger"
    | f where "v = FloatValue f" "t = TypeFloat"
    | s where "v = TextValue s" "t = TypeText" "length s < 2 ^ 32"
    | b where "v = BoolValue b" "t = TypeBoolean"
  using assms unfolding wf_value_def by metis

lemma wf_value_vType: "wf_value t v \<Longrightarrow> vType v = t"
  by (auto elim: wf_value_cases)

section \<open>Properties\<close>

lemma compareFloat_less: "compareFloat a b < 0 \<longleftrightarrow> f_less a b"
  by (simp add: compareFloat_def)

lemma strings_Compare_less: "strings_Compare a b < 0 \<longleftrightarrow> str_bytes a < str_bytes b"
  by (simp add: strings_Compare_def bytes_compare_order)

text \<open>
  C32: \<^verbatim>\<open>SortKey\<close> is order-preserving: on two values of one column type,
  byte-wise comparison of the sort keys agrees with \<^verbatim>\<open>Compare\<close>, NULL first;
  for floats, away from NaN and negative zero.
\<close>

theorem SortKey_order:
  assumes "wf_value t a" "wf_value t b"
    and "t = TypeFloat \<Longrightarrow> ordinary_float a \<and> ordinary_float b"
  shows "bytes_compare (SortKey a) (SortKey b) < 0 \<longleftrightarrow> Compare a b < 0"
  using assms(1)
proof (cases rule: wf_value_cases)
  case Null
  show ?thesis using assms(2) Null
    by (cases rule: wf_value_cases) (simp_all add: SortKey_def Compare_def bytes_compare_order)
next
  case (Int i)
  show ?thesis using assms(2) Int EncodeInt64_less
    by (cases rule: wf_value_cases) (simp_all add: SortKey_def Compare_def bytes_compare_order)
next
  case (Float f)
  show ?thesis using assms(2) Float assms(3) EncodeFloat64_less
    by (cases rule: wf_value_cases)
      (simp_all add: SortKey_def Compare_def bytes_compare_order compareFloat_less ordinary_float_def)
next
  case (Text s)
  show ?thesis using assms(2) Text
    by (cases rule: wf_value_cases)
      (simp_all add: SortKey_def Compare_def bytes_compare_order strings_Compare_less)
next
  case (Bool b)
  show ?thesis using assms(2) Bool
    by (cases rule: wf_value_cases) (simp_all add: SortKey_def Compare_def bytes_compare_order)
qed

theorem SortKey_order_witness:
  "bytes_compare (SortKey (IntValue (-5))) (SortKey (IntValue 3)) < 0 \<longleftrightarrow>
   Compare (IntValue (-5)) (IntValue 3) < 0"
  by (rule SortKey_order [of TypeInteger]) (simp_all add: wf_value_def)

text \<open>Decoding one column at the offset where its encoding stands.\<close>

lemma decode_column_encode:
  assumes "wf_value t v" "\<not> vNull v" "off = length pre"
  shows "decode_column (pre @ encode_value v @ post) off i t = Inr (v, off + length (encode_value v))"
  using assms(1)
proof (cases rule: wf_value_cases)
  case (Text s)
  let ?l = "put_u32 (word_of_nat (length s))"
  have l: "unat (word_of_nat (length s) :: 32 word) = length s"
    using Text(3) by (simp add: unat_of_nat take_bit_nat_eq_self)
  have "slice (pre @ ?l @ str_bytes s @ post) (off + 4) (off + 4 + length s) = Inr (str_bytes s)"
    using assms(3) by (simp add: slice_def)
  then show ?thesis
    using Text assms(3) l by (simp add: decode_column_def encode_value_def Let_def add.assoc)
qed (use assms in \<open>simp_all add: decode_column_def encode_value_def nth_append\<close>)

lemma decode_columns_encode:
  assumes "list_all2 wf_value ts vs"
  shows "decode_columns (pre @ concat (map encode_value vs) @ post)
           (npre @ map (\<lambda>v. if vNull v then 1 else 0) vs @ npost) (length pre) (length npre) ts = Inr vs"
  using assms
proof (induction arbitrary: pre npre rule: list_all2_induct)
  case Nil
  then show ?case by simp
next
  case (Cons t ts v vs)
  show ?case
  proof (cases "vNull v")
    case True
    with Cons.hyps(1) have "v = NullValue t" by (auto elim: wf_value_cases)
    then show ?thesis
      using Cons.IH [of pre "npre @ [1]"] by (simp add: encode_value_def nth_append)
  next
    case False
    then show ?thesis
      using Cons.IH [of "pre @ encode_value v" "npre @ [0]"]
        decode_column_encode [OF Cons.hyps(1) False refl, of pre "concat (map encode_value vs) @ post"]
      by (simp add: nth_append)
  qed
qed

lemma DecodeRow_EncodeRow_append:
  assumes "list_all2 wf_value ts vs"
  shows "DecodeRow (EncodeRow vs @ post) ts = Inr vs"
proof -
  have n: "length ts = length vs" using assms by (rule list_all2_lengthD)
  have "slice (EncodeRow vs @ post) 0 (length ts) = Inr (map (\<lambda>v. if vNull v then 1 else 0) vs)"
    by (simp add: slice_def EncodeRow_def n)
  then show ?thesis
    using decode_columns_encode [OF assms, of "map (\<lambda>v. if vNull v then 1 else 0) vs" post "[]" "[]"]
    by (simp add: DecodeRow_def EncodeRow_def n Let_def)
qed

text \<open>
  C24: the row codec round-trips: decoding an encoded row with the schema's types
  gives back the row, NULLs included.
\<close>

theorem DecodeRow_EncodeRow:
  assumes "list_all2 wf_value ts vs"
  shows "DecodeRow (EncodeRow vs) ts = Inr vs"
  using DecodeRow_EncodeRow_append [OF assms, of "[]"] by simp

theorem DecodeRow_EncodeRow_witness:
  "DecodeRow (EncodeRow [IntValue 7, NullValue TypeBoolean, TextValue ''Al'', FloatValue 0])
     [TypeInteger, TypeBoolean, TypeText, TypeFloat]
   = Inr [IntValue 7, NullValue TypeBoolean, TextValue ''Al'', FloatValue 0]"
  by (rule DecodeRow_EncodeRow) (simp add: wf_value_def)

lemma decode_column_no_panic: "decode_column data off i t \<noteq> Inl Panic"
  using get_Inr [of off data]
  by (auto simp: decode_column_def Let_def slice_def rbind_def split: sum.splits if_splits)

lemma decode_columns_no_panic: "i + length ts \<le> length nulls \<Longrightarrow> decode_columns data nulls off i ts \<noteq> Inl Panic"
proof (induction ts arbitrary: off i)
  case (Cons t ts)
  then show ?case
    by (auto simp: rbind_def decode_column_no_panic split: sum.splits prod.splits dest: sym)
qed simp

text \<open>
  C40: \<^verbatim>\<open>DecodeRow\<close> never reads out of range: on any bytes and any schema it
  returns a row or one of its own errors.  Every read of the code panics in the model when its index or its bounds
  are out of range, so each length check of the loop is needed.
\<close>

theorem DecodeRow_no_panic: "DecodeRow data types \<noteq> Inl Panic"
  using decode_columns_no_panic [of 0 types "take (length types) data" data "length types"]
  by (auto simp: DecodeRow_def slice_def Let_def)

lemma decode_columns_length: "decode_columns data nulls off i ts = Inr vs \<Longrightarrow> length vs = length ts"
  by (induction ts arbitrary: off i vs) (auto simp: rbind_Inr_iff split: if_splits prod.splits)

text \<open>A decoded row has a value for each column.\<close>

lemma DecodeRow_length: "DecodeRow data types = Inr vs \<Longrightarrow> length vs = length types"
  by (auto simp: DecodeRow_def Let_def rbind_Inr_iff split: if_splits dest: decode_columns_length)

end
