(* ===== verification/Catalog.thy ===== *)
theory Catalog
  imports Value BTree
begin

text \<open>
  The catalog of \<^verbatim>\<open>internal/catalog/catalog.go\<close>: schemas, their byte format, and the
  store of schemas in the system B+ tree whose root the file header names.  The tables
  are kept in memory by name; a \<^verbatim>\<open>*TableDef\<close> in the source is the entry of its name.
  Locks are left out: every method runs under the catalog's lock.
\<close>

section \<open>Schemas\<close>

record ColumnDef =
  cName :: string
  cType :: Type
  cPrimaryKey :: bool
  cUnique :: bool
  cNotNull :: bool

record IndexDef =
  iName :: string
  iColumn :: string
  iUnique :: bool
  iRoot :: page_id

record TableDef =
  tName :: string
  tColumns :: "ColumnDef list"
  tRoot :: page_id
  tNextRow :: uint64
  tIndexes :: "IndexDef list"

text \<open>The index of the first element that satisfies a test, or -1, as the loops compute it.\<close>

fun first_index :: "('a \<Rightarrow> bool) \<Rightarrow> 'a list \<Rightarrow> int \<Rightarrow> int" where
  "first_index P [] i = -1"
| "first_index P (x # xs) i = (if P x then i else first_index P xs (i + 1))"

definition ColumnIndex :: "TableDef \<Rightarrow> string \<Rightarrow> int" where
  "ColumnIndex t name = first_index (\<lambda>c. cName c = name) (tColumns t) 0"

definition ColumnTypes :: "TableDef \<Rightarrow> Type list" where
  "ColumnTypes t = map cType (tColumns t)"

definition PrimaryKeyColumn :: "TableDef \<Rightarrow> int" where
  "PrimaryKeyColumn t = first_index cPrimaryKey (tColumns t) 0"

section \<open>Serialization\<close>

definition writeString :: "string \<Rightarrow> bytes" where
  "writeString s = put_u16 (word_of_nat (length s)) @ str_bytes s"

definition column_bytes :: "ColumnDef \<Rightarrow> bytes" where
  "column_bytes col =
     (let flags = 0;
          flags = (if cPrimaryKey col then flags OR 1 else flags);
          flags = (if cUnique col then flags OR 2 else flags);
          flags = (if cNotNull col then flags OR 4 else flags)
      in writeString (cName col) @ [cType col] @ [flags])"

definition index_bytes :: "IndexDef \<Rightarrow> bytes" where
  "index_bytes idx =
     (let flags = (if iUnique idx then 0 OR 1 else 0)
      in writeString (iName idx) @ writeString (iColumn idx) @ [flags] @ put_u32 (iRoot idx))"

definition encodeTableDef :: "TableDef \<Rightarrow> bytes" where
  "encodeTableDef td =
     writeString (tName td) @ put_u32 (tRoot td) @ put_u64 (tNextRow td) @
     put_u16 (word_of_nat (length (tColumns td))) @ concat (map column_bytes (tColumns td)) @
     put_u16 (word_of_nat (length (tIndexes td))) @ concat (map index_bytes (tIndexes td))"

text \<open>
  Readers: \<^verbatim>\<open>binary.Read\<close> needs all its bytes; \<^verbatim>\<open>Read\<close> of a \<^verbatim>\<open>bytes.Reader\<close> fails only
  when nothing is left, even for an empty buffer, and otherwise returns what there is,
  which leaves zero bytes at the end of the buffer.
\<close>

type_synonym 'a reader = "bytes \<Rightarrow> ('a \<times> bytes) result"

definition read_fixed :: "nat \<Rightarrow> bytes reader" where
  "read_fixed n r =
     (if r = [] then Inl ErrEOF else if length r < n then Inl ErrUnexpectedEOF else Inr (take n r, drop n r))"

definition read_u16 :: "16 word reader" where
  "read_u16 r = rbind (read_fixed 2 r) (\<lambda>(b, r). Inr (word_of_nat (be_get b), r))"

definition read_u32 :: "32 word reader" where
  "read_u32 r = rbind (read_fixed 4 r) (\<lambda>(b, r). Inr (word_of_nat (be_get b), r))"

definition read_u64 :: "64 word reader" where
  "read_u64 r = rbind (read_fixed 8 r) (\<lambda>(b, r). Inr (word_of_nat (be_get b), r))"

definition ReadByte :: "byte reader" where
  "ReadByte r = (case r of [] \<Rightarrow> Inl ErrEOF | b # r \<Rightarrow> Inr (b, r))"

definition readString :: "string reader" where
  "readString r =
     rbind (read_u16 r) (\<lambda>(l, r).
       if r = [] then Inl ErrEOF
       else (let b = take (unat l) r
             in Inr (bytes_str (b @ replicate (unat l - length b) 0), drop (unat l) r)))"

definition readColumn :: "ColumnDef reader" where
  "readColumn r =
     rbind (readString r) (\<lambda>(n, r).
     rbind (ReadByte r) (\<lambda>(tb, r).
     rbind (ReadByte r) (\<lambda>(flags, r).
     Inr (\<lparr>cName = n, cType = tb, cPrimaryKey = flags AND 1 \<noteq> 0, cUnique = flags AND 2 \<noteq> 0,
            cNotNull = flags AND 4 \<noteq> 0\<rparr>, r))))"

definition readIndex :: "IndexDef reader" where
  "readIndex r =
     rbind (readString r) (\<lambda>(n, r).
     rbind (readString r) (\<lambda>(col, r).
     rbind (ReadByte r) (\<lambda>(flags, r).
     rbind (read_u32 r) (\<lambda>(iroot, r).
     Inr (\<lparr>iName = n, iColumn = col, iUnique = flags AND 1 \<noteq> 0, iRoot = iroot\<rparr>, r)))))"

fun read_times :: "'a reader \<Rightarrow> nat \<Rightarrow> 'a list reader" where
  "read_times f 0 r = Inr ([], r)"
| "read_times f (Suc n) r = rbind (f r) (\<lambda>(x, r). rbind (read_times f n r) (\<lambda>(xs, r). Inr (x # xs, r)))"

definition decodeTableDef :: "bytes \<Rightarrow> TableDef result" where
  "decodeTableDef data =
     rbind (readString data) (\<lambda>(name, r).
     rbind (read_u32 r) (\<lambda>(root, r).
     rbind (read_u64 r) (\<lambda>(nextRow, r).
     rbind (read_u16 r) (\<lambda>(ncols, r).
     rbind (read_times readColumn (unat ncols) r) (\<lambda>(cols, r).
     rbind (read_u16 r) (\<lambda>(nidx, r).
     rbind (read_times readIndex (unat nidx) r) (\<lambda>(idxs, r).
     Inr \<lparr>tName = name, tColumns = cols, tRoot = root, tNextRow = nextRow, tIndexes = idxs\<rparr>)))))))"

section \<open>The catalog\<close>

record Catalog =
  c_pager :: pager
  c_sysRoot :: page_id
  c_tables :: "(string \<times> TableDef) list"

definition on_pager :: "(pager, 'a) sm \<Rightarrow> (Catalog, 'a) sm" where
  "on_pager m c = (case m (c_pager c) of (r, p) \<Rightarrow> (r, c\<lparr>c_pager := p\<rparr>))"

definition Table :: "Catalog \<Rightarrow> string \<Rightarrow> TableDef option" where
  "Table c name = map_of (c_tables c) name"

definition table_set :: "string \<Rightarrow> TableDef \<Rightarrow> (string \<times> TableDef) list \<Rightarrow> (string \<times> TableDef) list" where
  "table_set name td ts = (name, td) # filter (\<lambda>x. fst x \<noteq> name) ts"

definition table_delete :: "string \<Rightarrow> (string \<times> TableDef) list \<Rightarrow> (string \<times> TableDef) list" where
  "table_delete name ts = filter (\<lambda>x. fst x \<noteq> name) ts"

text \<open>
  \<^verbatim>\<open>TableNames\<close> ranges over a map, in an order Go leaves open: \<open>order\<close> is that order.
\<close>

definition TableNames :: "(string list \<Rightarrow> string list) \<Rightarrow> Catalog \<Rightarrow> string list" where
  "TableNames order c = order (map fst (c_tables c))"

text \<open>
  The loading loop runs \<^verbatim>\<open>Next\<close> once per stored entry; a file without a cycle in its
  leaf chain has no more than 65535 entries per page.
\<close>

fun load_loop :: "nat \<Rightarrow> cursor \<Rightarrow> (string \<times> TableDef) list \<Rightarrow> (pager, (string \<times> TableDef) list) sm" where
  "load_loop 0 cur ts = fail Diverges"
| "load_loop (Suc n) cur ts =
     bind (Next cur) (\<lambda>(kv, cur).
       case kv of
         None \<Rightarrow> ret ts
       | Some (_, v) \<Rightarrow> bind (lift (decodeTableDef v)) (\<lambda>td. load_loop n cur (table_set (tName td) td ts)))"

definition load_fuel :: "pager \<Rightarrow> nat" where
  "load_fuel p = page_fuel p * 65536"

definition loadAll :: "(Catalog, unit) sm" where
  "loadAll c =
     bind (on_pager (NewCursor (c_sysRoot c) None)) (\<lambda>cur.
     bind (on_pager (load_loop (load_fuel (c_pager c)) cur (c_tables c))) (\<lambda>ts c.
       (Inr (), c\<lparr>c_tables := ts\<rparr>))) c"

text \<open>An error leaves the tables read before it in a catalog that is then discarded.\<close>

definition catalog_Open :: "(pager, Catalog) sm" where
  "catalog_Open p =
     bind (OpenBTree (CatalogRoot p)) (\<lambda>root.
     bind (\<lambda>p. if CatalogRoot p = 0 then SetCatalogRoot root p else (Inr (), p)) (\<lambda>_ p.
       case loadAll \<lparr>c_pager = p, c_sysRoot = root, c_tables = []\<rparr> of
         (Inl e, c) \<Rightarrow> (Inl e, c_pager c)
       | (Inr _, c) \<Rightarrow> (Inr c, c_pager c))) p"

definition persist :: "TableDef \<Rightarrow> (Catalog, unit) sm" where
  "persist td c =
     bind (on_pager (Put (c_sysRoot c) (str_bytes (tName td)) (encodeTableDef td))) (\<lambda>root.
     bind (\<lambda>c. (Inr (), c\<lparr>c_sysRoot := root\<rparr>)) (\<lambda>_.
     on_pager (SetCatalogRoot root))) c"

definition CreateTable :: "string \<Rightarrow> ColumnDef list \<Rightarrow> (Catalog, TableDef) sm" where
  "CreateTable name cols c =
     (if Table c name \<noteq> None then (Inl (ErrTableExists name), c)
      else bind (on_pager (OpenBTree 0)) (\<lambda>root.
        let td = \<lparr>tName = name, tColumns = cols, tRoot = root, tNextRow = 1, tIndexes = []\<rparr>
        in bind (persist td) (\<lambda>_ c. (Inr td, c\<lparr>c_tables := table_set name td (c_tables c)\<rparr>))) c)"

definition DropTable :: "string \<Rightarrow> (Catalog, unit) sm" where
  "DropTable name c =
     (if Table c name = None then (Inl (ErrTableMissing name), c)
      else bind (on_pager (Delete (c_sysRoot c) (str_bytes name))) (\<lambda>_ c.
        (Inr (), c\<lparr>c_tables := table_delete name (c_tables c)\<rparr>)) c)"

definition SaveTable :: "TableDef \<Rightarrow> (Catalog, unit) sm" where
  "SaveTable td = persist td"

end
