(* ===== verification/BTreeCursor.thy ===== *)
theory BTreeCursor
  imports BTreeOps
begin

text \<open>
  Cursors over a B+ tree: where \<^verbatim>\<open>NewCursor\<close> lands, and what repeated calls of
  \<^verbatim>\<open>Next\<close> return while nothing else changes the tree.
\<close>

section \<open>The chain of leaves\<close>

primrec leaves :: "gtree \<Rightarrow> (page_id \<times> (bytes \<times> bytes) list) list"
  and fleaves :: "gforest \<Rightarrow> (page_id \<times> (bytes \<times> bytes) list) list" where
  "leaves (GLeaf pid kvs) = [(pid, kvs)]"
| "leaves (GNode pid f) = fleaves f"
| "fleaves (FLast t) = leaves t"
| "fleaves (FCons t k f) = leaves t @ fleaves f"

fun chain :: "pager \<Rightarrow> page_id \<Rightarrow> (page_id \<times> (bytes \<times> bytes) list) list \<Rightarrow> bool" where
  "chain p nxt [] \<longleftrightarrow> True"
| "chain p nxt [(pid, kvs)] \<longleftrightarrow> leaf_repr (page p pid) nxt kvs"
| "chain p nxt ((pid, kvs) # (pid', kvs') # ls) \<longleftrightarrow>
     leaf_repr (page p pid) pid' kvs \<and> chain p nxt ((pid', kvs') # ls)"

lemma leaves_ne [simp]: "leaves t \<noteq> []" "fleaves f \<noteq> []"
  by (induction t and f) auto

lemma leaves_hd: "fst (hd (leaves t)) = leftmost t" "fst (hd (fleaves f)) = fleftmost f"
  by (induction t and f) (auto simp: hd_append)

lemma leaves_entries: "concat (map snd (leaves t)) = entries t" "concat (map snd (fleaves f)) = fentries f"
  by (induction t and f) auto

lemma leaves_pages: "fst ` set (leaves t) \<subseteq> set (pages t)" "fst ` set (fleaves f) \<subseteq> set (fpages f)"
  by (induction t and f) auto

lemma length_leaves: "length (leaves t) \<le> length (pages t)" "length (fleaves f) \<le> length (fpages f)"
  by (induction t and f) auto

lemma distinct_leaves:
  "distinct (pages t) \<Longrightarrow> distinct (map fst (leaves t))" "distinct (fpages f) \<Longrightarrow> distinct (map fst (fleaves f))"
proof (induction t and f)
  case (FCons t k f)
  then show ?case using leaves_pages(1) [of t] leaves_pages(2) [of f] by auto
qed auto

lemma chain_append:
  "chain p (fst (hd ys)) xs \<Longrightarrow> chain p nxt ys \<Longrightarrow> ys \<noteq> [] \<Longrightarrow> chain p nxt (xs @ ys)"
proof (induction p nxt xs rule: chain.induct)
  case (2 p nxt pid kvs)
  then show ?case by (cases ys) auto
qed auto

lemma chain_suffix: "chain p nxt (xs @ ys) \<Longrightarrow> chain p nxt ys"
proof (induction xs)
  case (Cons x xs)
  then show ?case by (cases "xs @ ys"; cases x) auto
qed simp

lemma stored_chain:
  "stored t p nxt \<Longrightarrow> chain p nxt (leaves t)" "fstored f p nxt \<Longrightarrow> chain p nxt (fleaves f)"
  by (induction t and f arbitrary: nxt and nxt) (auto intro!: chain_append simp: leaves_hd)

text \<open>The leaf for a key splits the entries.\<close>

lemma leaves_split:
  "ordered t lo hi \<Longrightarrow> \<exists>pre post. leaves t = pre @ leaf_of key t # post \<and>
     (\<forall>x\<in>set (concat (map snd pre)). fst x < key) \<and> (\<forall>x\<in>set (concat (map snd post)). key < fst x)"
  "fordered f lo hi \<Longrightarrow> \<exists>pre post. fleaves f = pre @ fleaf_of key f # post \<and>
     (\<forall>x\<in>set (concat (map snd pre)). fst x < key) \<and> (\<forall>x\<in>set (concat (map snd post)). key < fst x)"
proof (induction t and f arbitrary: lo hi and lo hi)
  case (FCons t k f)
  show ?case
  proof (cases "key < k")
    case True
    then obtain pre post where "leaves t = pre @ leaf_of key t # post"
      "\<forall>x\<in>set (concat (map snd pre)). fst x < key" "\<forall>x\<in>set (concat (map snd post)). key < fst x"
      using FCons.IH(1) [of lo "Some k"] FCons.prems by auto
    moreover have "\<forall>x\<in>set (concat (map snd (fleaves f))). key < fst x"
      unfolding leaves_entries using FCons.prems True ordered_bounds(2) [of f k hi]
      by (auto intro: order.strict_trans2)
    ultimately show ?thesis using True by (intro exI [of _ pre] exI [of _ "post @ fleaves f"]) auto
  next
    case False
    then obtain pre post where "fleaves f = pre @ fleaf_of key f # post"
      "\<forall>x\<in>set (concat (map snd pre)). fst x < key" "\<forall>x\<in>set (concat (map snd post)). key < fst x"
      using FCons.IH(2) [of k hi] FCons.prems by auto
    moreover have "\<forall>x\<in>set (concat (map snd (leaves t))). fst x < key"
      unfolding leaves_entries using FCons.prems False ordered_bounds(1) [of t lo "Some k"]
      by (force simp: not_less)
    ultimately show ?thesis using False by (intro exI [of _ "leaves t @ pre"] exI [of _ post]) auto
  qed
next
  case (GLeaf pid kvs)
  show ?case by (intro exI [of _ "[]"]) simp
qed auto

section \<open>Positions\<close>

text \<open>\<open>cursor_rest p A c rest\<close>: the cursor stands before the entries \<open>rest\<close>.\<close>

definition cursor_rest :: "pager \<Rightarrow> page_id set \<Rightarrow> cursor \<Rightarrow> (bytes \<times> bytes) list \<Rightarrow> bool" where
  "cursor_rest p A c rest \<longleftrightarrow> (\<exists>pid kvs ls. c_node c = \<lparr>n_id = pid, n_buf = page p pid\<rparr> \<and> c_i c \<le> length kvs \<and>
     chain p 0 ((pid, kvs) # ls) \<and> insert pid (fst ` set ls) \<subseteq> A \<and> distinct (map fst ls) \<and> length ls \<le> page_fuel p \<and>
     rest = drop (c_i c) kvs @ concat (map snd ls))"

lemma next_loop_ok:
  assumes "pager_owned p A" "c_node c = \<lparr>n_id = pid, n_buf = page p pid\<rparr>" "c_i c \<le> length kvs"
    and "chain p 0 ((pid, kvs) # ls)" "insert pid (fst ` set ls) \<subseteq> A" "length ls \<le> fuel" "length ls \<le> page_fuel p" "distinct (map fst ls)"
  shows "case drop (c_i c) kvs @ concat (map snd ls) of
      [] \<Rightarrow> \<exists>c'. next_loop fuel c p = (Inr (None, c'), p)
    | x # rest \<Rightarrow> \<exists>c'. next_loop fuel c p = (Inr (Some x, c'), p) \<and> cursor_rest p A c' rest"
  using assms(2-)
proof (induction ls arbitrary: c pid kvs fuel)
  case Nil
  have r: "leaf_repr (n_buf (c_node c)) 0 kvs" using Nil.prems by simp
  note rD = leaf_reprD [OF r]
  show ?case
  proof (cases "c_i c < length kvs")
    case True
    have "drop (c_i c) kvs = kvs ! c_i c # drop (Suc (c_i c)) kvs" using Cons_nth_drop_Suc [OF True] by simp
    moreover have "cursor_rest p A (c\<lparr>c_i := Suc (c_i c)\<rparr>) (drop (Suc (c_i c)) kvs)"
      unfolding cursor_rest_def using Nil.prems True by (intro exI [of _ pid] exI [of _ kvs] exI [of _ "[]"]) auto
    ultimately show ?thesis
      using True rD(2) leafKV_repr [OF r True] by (simp add: next_loop.simps bind_def)
  next
    case False
    then show ?thesis using rD(2,3) by (simp add: next_loop.simps Let_def)
  qed
next
  case (Cons l ls)
  obtain pid' kvs' where l: "l = (pid', kvs')" by fastforce
  have r: "leaf_repr (n_buf (c_node c)) pid' kvs" and ch: "chain p 0 ((pid', kvs') # ls)"
    using Cons.prems l by auto
  note rD = leaf_reprD [OF r]
  show ?case
  proof (cases "c_i c < length kvs")
    case True
    have d: "drop (c_i c) kvs = kvs ! c_i c # drop (Suc (c_i c)) kvs" using Cons_nth_drop_Suc [OF True] by simp
    moreover have "cursor_rest p A (c\<lparr>c_i := Suc (c_i c)\<rparr>) (drop (Suc (c_i c)) kvs @ concat (map snd (l # ls)))"
      unfolding cursor_rest_def using Cons.prems True
      by (intro exI [of _ pid] exI [of _ kvs] exI [of _ "l # ls"]) auto
    ultimately show ?thesis
      using True rD(2) leafKV_repr [OF r True] by (simp add: next_loop.simps bind_def)
  next
    case False
    have "pid' \<in> A" using Cons.prems(4) l by auto
    then have nz: "pid' \<noteq> 0" using assms(1) by (auto simp: pager_owned_def)
    obtain f where f: "fuel = Suc f" using Cons.prems(5) by (cases fuel) auto
    let ?c = "c\<lparr>c_node := \<lparr>n_id = pid', n_buf = page p pid'\<rparr>, c_i := 0\<rparr>"
    have "next_loop fuel c p = next_loop f ?c p"
      using False rD(2,3) nz readNode_owned [OF assms(1) \<open>pid' \<in> A\<close>] f
      by (simp add: next_loop.simps [of "Suc f" c] Let_def bind_def)
    moreover have "drop (c_i c) kvs @ concat (map snd (l # ls)) = drop (c_i ?c) kvs' @ concat (map snd ls)"
      using False l by simp
    moreover have "case drop (c_i ?c) kvs' @ concat (map snd ls) of
        [] \<Rightarrow> \<exists>c'. next_loop f ?c p = (Inr (None, c'), p)
      | x # rest \<Rightarrow> \<exists>c'. next_loop f ?c p = (Inr (Some x, c'), p) \<and> cursor_rest p A c' rest"
      by (rule Cons.IH) (use Cons.prems l f ch in auto)
    ultimately show ?thesis by (simp only:)
  qed
qed

lemma Next_rest:
  assumes "pager_owned p A" "cursor_rest p A c rest"
  shows "case rest of [] \<Rightarrow> \<exists>c'. Next c p = (Inr (None, c'), p)
    | x # rest' \<Rightarrow> \<exists>c'. Next c p = (Inr (Some x, c'), p) \<and> cursor_rest p A c' rest'"
proof -
  obtain pid kvs ls where c: "c_node c = \<lparr>n_id = pid, n_buf = page p pid\<rparr>" "c_i c \<le> length kvs"
    "chain p 0 ((pid, kvs) # ls)" "insert pid (fst ` set ls) \<subseteq> A" "length ls \<le> page_fuel p" "distinct (map fst ls)"
    "rest = drop (c_i c) kvs @ concat (map snd ls)"
    using assms(2) by (auto simp: cursor_rest_def)
  then show ?thesis using next_loop_ok [OF assms(1) c(1-5,5,6)] unfolding Next_def by (simp only:)
qed

lemma chain_cong: "(\<And>j. j \<in> fst ` set ls \<Longrightarrow> page q j = page p j) \<Longrightarrow> chain q nxt ls = chain p nxt ls"
  by (induction p nxt ls rule: chain.induct) auto

text \<open>A cursor stands where it stood when other pages have changed.\<close>

lemma cursor_rest_cong:
  assumes "cursor_rest p A c rest" "pager_owned q A" "\<And>j. j \<in> A \<Longrightarrow> page q j = page p j"
  shows "cursor_rest q A c rest"
proof -
  obtain pid kvs ls where c: "c_node c = \<lparr>n_id = pid, n_buf = page p pid\<rparr>" "c_i c \<le> length kvs" "chain p 0 ((pid, kvs) # ls)"
    "insert pid (fst ` set ls) \<subseteq> A" "distinct (map fst ls)" "rest = drop (c_i c) kvs @ concat (map snd ls)"
    using assms(1) by (auto simp: cursor_rest_def)
  have "chain q 0 ((pid, kvs) # ls)" using c(3,4) assms(3) by (subst chain_cong [of _ q p]) auto
  moreover have "pager_owned q (set (map fst ls))" using assms(2) c(4) by (auto simp: pager_owned_def)
  then have "length ls \<le> page_fuel q" using owned_card [OF _ c(5)] page_fuel_owned [OF assms(2)] by fastforce
  ultimately show ?thesis
    unfolding cursor_rest_def using c assms(3) by (intro exI [of _ pid] exI [of _ kvs] exI [of _ ls]) auto
qed

section \<open>Placing a cursor\<close>

lemma firstChild_inner:
  assumes "inner_repr (n_buf n) (root_of (flast f)) (fcells f)"
  shows "firstChild n = Inr (root_of (case f of FLast t \<Rightarrow> t | FCons t k g \<Rightarrow> t))"
proof -
  note D = inner_reprD [OF assms]
  obtain t k g where f: "f = FCons t k g" using D(2) by (cases f) auto
  show ?thesis using internalKC_repr [OF D(1), of 0] D(4) f by (simp add: firstChild_def)
qed

primrec first_leaf :: "gtree \<Rightarrow> page_id \<times> (bytes \<times> bytes) list"
  and ffirst_leaf :: "gforest \<Rightarrow> page_id \<times> (bytes \<times> bytes) list" where
  "first_leaf (GLeaf pid kvs) = (pid, kvs)"
| "first_leaf (GNode pid f) = ffirst_leaf f"
| "ffirst_leaf (FLast t) = first_leaf t"
| "ffirst_leaf (FCons t k f) = first_leaf t"

lemma first_leaf_hd: "first_leaf t = hd (leaves t)" "ffirst_leaf f = hd (fleaves f)"
  by (induction t and f) auto

lemma descend_from_key: "descend_from fuel (Some key) n p = descend fuel key n p"
proof (induction fuel arbitrary: n p)
  case (Suc fuel)
  show ?case
    by (cases "childFor n key")
      (auto simp: descend_from.simps [of "Suc fuel"] descend.simps [of "Suc fuel"] bind_def Suc split: sum.splits prod.splits)
qed (simp add: descend_from.simps descend.simps)

lemma descend_from_first:
  assumes "stored t p nxt" "pager_owned p A" "set (pages t) \<subseteq> A" "height t \<le> fuel"
  shows "descend_from fuel None \<lparr>n_id = root_of t, n_buf = page p (root_of t)\<rparr> p =
    (Inr \<lparr>n_id = fst (first_leaf t), n_buf = page p (fst (first_leaf t))\<rparr>, p)"
  using assms
proof (induction fuel arbitrary: t nxt)
  case 0
  then show ?case using leaf_reprD(1) by (cases t) (auto simp: descend_from.simps)
next
  case (Suc fuel)
  show ?case
  proof (cases t)
    case (GLeaf pid kvs)
    with Suc show ?thesis using leaf_reprD(1) by (auto simp: descend_from.simps)
  next
    case (GNode pid f)
    let ?n = "\<lparr>n_id = pid, n_buf = page p pid\<rparr>"
    have i: "inner_repr (n_buf ?n) (root_of (flast f)) (fcells f)" "fstored f p nxt" using Suc.prems GNode by simp_all
    obtain t' k g where f: "f = FCons t' k g" using inner_reprD(2) [OF i(1)] by (cases f) auto
    have "readNode (root_of t') p = (Inr \<lparr>n_id = root_of t', n_buf = page p (root_of t')\<rparr>, p)"
      by (rule readNode_owned [OF Suc.prems(2)]) (use Suc.prems(3) GNode f in auto)
    moreover have "descend_from fuel None \<lparr>n_id = root_of t', n_buf = page p (root_of t')\<rparr> p =
        (Inr \<lparr>n_id = fst (first_leaf t'), n_buf = page p (fst (first_leaf t'))\<rparr>, p)"
      by (rule Suc.IH) (use Suc.prems i(2) GNode f in auto)
    ultimately show ?thesis
      using inner_reprD(3) [OF i(1)] firstChild_inner [OF i(1)] GNode f
      by (simp add: descend_from.simps [of "Suc fuel"] bind_def)
  qed
qed

lemma drop_lower_bound:
  "keys_sorted kvs \<Longrightarrow> drop (lower_bound (map fst kvs) key) kvs = filter (\<lambda>x. key \<le> fst x) kvs"
proof (induction kvs)
  case (Cons x kvs)
  show ?case
  proof (cases "fst x < key")
    case False
    then have "\<forall>y\<in>set kvs. key \<le> fst y" using Cons.prems by (auto simp: not_less dest: order.strict_implies_order order_trans)
    with False show ?thesis by (auto simp: filter_id_conv)
  qed (use Cons in \<open>auto simp: not_le [symmetric]\<close>)
qed simp

lemma filter_split:
  fixes key :: bytes
  assumes "\<forall>x\<in>set pre. fst x < key" "\<forall>x\<in>set post. key < fst x"
  shows "filter (\<lambda>x. key \<le> fst x) (pre @ kvs @ post) = filter (\<lambda>x. key \<le> fst x) kvs @ post"
  using assms by (auto simp: filter_empty_conv filter_id_conv not_le)

definition entries_from :: "bytes option \<Rightarrow> (bytes \<times> bytes) list \<Rightarrow> (bytes \<times> bytes) list" where
  "entries_from start kvs = (case start of None \<Rightarrow> kvs | Some key \<Rightarrow> filter (\<lambda>x. key \<le> fst x) kvs)"

lemma NewCursor_rest:
  assumes "btree_at p t"
  obtains c where "NewCursor (root_of t) start p = (Inr c, p)"
    "cursor_rest p (set (pages t)) c (entries_from start (entries t))"
proof -
  note I = btree_atD [OF assms]
  let ?r = "\<lparr>n_id = root_of t, n_buf = page p (root_of t)\<rparr>"
  have root: "readNode (root_of t) p = (Inr ?r, p)" by (rule readNode_owned [OF I(4)]) simp
  have fuel: "length (leaves t) \<le> page_fuel p"
    using length_leaves(1) [of t] owned_card [OF I(4,3)] page_fuel_owned [OF I(4)] by simp
  have ch: "chain p 0 (leaves t)" by (rule stored_chain(1) [OF I(1)])
  have ds: "distinct (map fst (leaves t))" by (rule distinct_leaves(1) [OF I(3)])
  show thesis
  proof (cases start)
    case None
    obtain pid kvs ls where l: "leaves t = (pid, kvs) # ls" by (cases "leaves t") auto
    let ?c = "\<lparr>c_node = \<lparr>n_id = pid, n_buf = page p pid\<rparr>, c_i = 0\<rparr>"
    have "descend_from (page_fuel p) None ?r p = (Inr \<lparr>n_id = pid, n_buf = page p pid\<rparr>, p)"
      using descend_from_first [OF I(1,4) subset_refl height_fuel [OF assms]] l by (simp add: first_leaf_hd)
    then have "NewCursor (root_of t) start p = (Inr ?c, p)" using root None by (simp add: NewCursor_def bind_def)
    moreover have "cursor_rest p (set (pages t)) ?c (entries t)"
      unfolding cursor_rest_def leaves_entries(1) [symmetric] l
      using ch l ds fuel leaves_pages(1) [of t] by (intro exI [of _ pid] exI [of _ kvs] exI [of _ ls]) auto
    ultimately show thesis using that None by (simp add: entries_from_def)
  next
    case (Some key)
    obtain lp kvs where lp: "leaf_of key t = (lp, kvs)" by fastforce
    obtain pre post where l: "leaves t = pre @ (lp, kvs) # post"
      "\<forall>x\<in>set (concat (map snd pre)). fst x < key" "\<forall>x\<in>set (concat (map snd post)). key < fst x"
      using leaves_split(1) [OF I(2), of key] lp by auto
    obtain sib where f:
      "descend (page_fuel p) key ?r p = (Inr \<lparr>n_id = lp, n_buf = page p lp\<rparr>, p)" "keys_sorted kvs"
      "findIndex \<lparr>n_id = lp, n_buf = page p lp\<rparr> key = Inr (lower_bound (map fst kvs) key, key \<in> fst ` set kvs)"
      using find_in_leaf [OF assms, of key] lp by auto
    let ?c = "\<lparr>c_node = \<lparr>n_id = lp, n_buf = page p lp\<rparr>, c_i = lower_bound (map fst kvs) key\<rparr>"
    have "NewCursor (root_of t) start p = (Inr ?c, p)"
      using root Some f(1,3) by (simp add: NewCursor_def bind_def descend_from_key)
    moreover have "entries t = concat (map snd pre) @ kvs @ concat (map snd post)"
      using leaves_entries(1) [of t] l(1) by simp
    then have "entries_from start (entries t) = drop (lower_bound (map fst kvs) key) kvs @ concat (map snd post)"
      using Some filter_split [OF l(2,3)] drop_lower_bound [OF f(2)] by (simp add: entries_from_def)
    moreover have "chain p 0 ((lp, kvs) # post)" using chain_suffix ch l(1) by metis
    then have "cursor_rest p (set (pages t)) ?c (drop (lower_bound (map fst kvs) key) kvs @ concat (map snd post))"
      unfolding cursor_rest_def using l(1) ds fuel leaves_pages(1) [of t] lower_bound_le [of "map fst kvs" key]
      by (intro exI [of _ lp] exI [of _ kvs] exI [of _ post]) auto
    ultimately show thesis using that by simp
  qed
qed

section \<open>Reading to the end\<close>

text \<open>The loop every user of a cursor runs: \<^verbatim>\<open>Next\<close> until it reports the end, at most \<open>n\<close> times.\<close>

fun read_all :: "nat \<Rightarrow> cursor \<Rightarrow> (pager, (bytes \<times> bytes) list) sm" where
  "read_all 0 c = fail Diverges"
| "read_all (Suc n) c = bind (Next c) (\<lambda>(kv, c').
     case kv of None \<Rightarrow> ret [] | Some x \<Rightarrow> bind (read_all n c') (\<lambda>xs. ret (x # xs)))"

lemma read_all_rest:
  "pager_owned p A \<Longrightarrow> cursor_rest p A c rest \<Longrightarrow> length rest < n \<Longrightarrow> read_all n c p = (Inr rest, p)"
proof (induction n arbitrary: c rest)
  case (Suc n)
  show ?case
  proof (cases rest)
    case Nil
    then show ?thesis using Next_rest [OF Suc.prems(1,2)] by (auto simp: bind_def)
  next
    case (Cons x xs)
    then obtain c' where "Next c p = (Inr (Some x, c'), p)" "cursor_rest p A c' xs"
      using Next_rest [OF Suc.prems(1,2)] by auto
    then show ?thesis using Suc.IH [OF Suc.prems(1), of c' xs] Suc.prems(3) Cons by (simp add: bind_def)
  qed
qed simp

end
