(* ===== verification/BTreeProps.thy ===== *)
theory BTreeProps
  imports BTreeCursor
begin

text \<open>
  The properties of the B+ tree of \<^verbatim>\<open>internal/storage/btree.go\<close>: pages, lookup, insertion,
  deletion, cursors, and the runs of a tree from its creation on.
\<close>

section \<open>Pages\<close>

text \<open>
  The binary search of \<^verbatim>\<open>findIndex\<close> on a leaf or an internal page whose keys are in
  order returns the number of keys below the one looked for, and whether it is there.
\<close>

theorem findIndex_lower_bound:
  assumes "sorted_wrt (<) keys"
    and "(\<exists>kvs. leaf_repr (n_buf n) sib kvs \<and> keys = map fst kvs) \<or>
         (\<exists>kcs. internal_repr (n_buf n) sib kcs \<and> keys = map fst kcs)"
  shows "findIndex n key = Inr (length (filter (\<lambda>k. k < key) keys), key \<in> set keys)"
proof -
  have "filter (\<lambda>k. k < key) keys = takeWhile (\<lambda>k. k < key) keys"
    using assms(1)
  proof (induction keys)
    case (Cons k ks)
    then have "\<not> j < key" if "\<not> k < key" "j \<in> set ks" for j
      using that by (auto simp: not_less dest: order.strict_implies_order order_trans)
    then have "filter (\<lambda>j. j < key) ks = []" if "\<not> k < key" using that by (simp add: filter_empty_conv)
    with Cons show ?case by (cases "k < key") simp_all
  qed simp
  then show ?thesis
    using assms findIndex_leaf [of n sib] findIndex_internal [of n sib]
    by (auto simp: lower_bound_def)
qed

lemma leaf_three:
  "\<exists>c. leaf_repr c 0 [([1], [10]), ([2], [20]), ([5], [50])]"
  using new_leaf [of "[([1], [10]), ([2], [20]), ([5], [50])]" 0] by auto

theorem findIndex_lower_bound_witness:
  "\<exists>c. leaf_repr c 0 [([1], [10]), ([2], [20]), ([5], [50])] \<and>
     findIndex \<lparr>n_id = 1, n_buf = c\<rparr> [4] = Inr (2, False) \<and> findIndex \<lparr>n_id = 1, n_buf = c\<rparr> [5] = Inr (2, True)"
proof -
  obtain c where c: "leaf_repr c 0 [([1], [10]), ([2], [20]), ([5], [50])]" using leaf_three by blast
  then have "findIndex \<lparr>n_id = 1, n_buf = c\<rparr> key =
      Inr (length (filter (\<lambda>k. k < key) [[1], [2], [5]]), key \<in> set [[1], [2], [5]])" for key
    by (intro findIndex_lower_bound [where sib = 0]) force+
  with c show ?thesis by (intro exI [of _ c]) simp
qed

text \<open>
  Inserting a cell into a leaf page puts the entry at its index and keeps the others and
  the sibling, whatever dead bytes earlier removals left, when the free space suffices; when
  it does not, the page is unchanged and the result says so.  Removing a cell deletes the
  entry at its index.
\<close>

theorem leaf_cells_refine:
  assumes "leaf_repr (n_buf n) sib kvs" "length k \<le> maxKeyValue" "length v \<le> maxKeyValue"
  shows "(i \<le> length kvs \<and> int (6 + length k + length v) \<le> freeSpace n \<longrightarrow>
      (\<exists>c. insertCellAt i (leafCellBody k v) n = Inr (True, n\<lparr>n_buf := c\<rparr>) \<and>
        leaf_repr c sib (take i kvs @ (k, v) # drop i kvs))) \<and>
    (freeSpace n < int (6 + length k + length v) \<longrightarrow> insertCellAt i (leafCellBody k v) n = Inr (False, n)) \<and>
    (i < length kvs \<longrightarrow>
      (\<exists>c. removeCellAt i n = Inr (n\<lparr>n_buf := c\<rparr>) \<and> leaf_repr c sib (take i kvs @ drop (Suc i) kvs)))"
proof (intro conjI impI; (elim conjE)?)
  show "\<exists>c. insertCellAt i (leafCellBody k v) n = Inr (True, n\<lparr>n_buf := c\<rparr>) \<and>
      leaf_repr c sib (take i kvs @ (k, v) # drop i kvs)"
    if "i \<le> length kvs" "int (6 + length k + length v) \<le> freeSpace n"
    using leaf_insert [OF assms(1) that(1) assms(2,3)] that(2) by (simp add: ins_at_def) metis
  show "freeSpace n < int (6 + length k + length v) \<Longrightarrow> insertCellAt i (leafCellBody k v) n = Inr (False, n)"
    by (rule insertCellAt_no_room) simp
  show "\<exists>c. removeCellAt i n = Inr (n\<lparr>n_buf := c\<rparr>) \<and> leaf_repr c sib (take i kvs @ drop (Suc i) kvs)"
    if "i < length kvs"
    using leaf_remove [OF assms(1) that] by (metis del_at_def)
qed

theorem leaf_cells_refine_witness:
  "\<exists>c d. leaf_repr c 0 [([1], [10]), ([2], [20]), ([5], [50])] \<and>
     removeCellAt 1 \<lparr>n_id = 7, n_buf = c\<rparr> = Inr \<lparr>n_id = 7, n_buf = d\<rparr> \<and> leaf_repr d 0 [([1], [10]), ([5], [50])]"
proof -
  obtain c where c: "leaf_repr c 0 [([1], [10]), ([2], [20]), ([5], [50])]" using leaf_three by blast
  then have "\<exists>d. removeCellAt 1 \<lparr>n_id = 7, n_buf = c\<rparr> = Inr \<lparr>n_id = 7, n_buf = d\<rparr> \<and>
      leaf_repr d 0 [([1], [10]), ([5], [50])]"
    using leaf_cells_refine [of "\<lparr>n_id = 7, n_buf = c\<rparr>" 0 "[([1], [10]), ([2], [20]), ([5], [50])]" "[]" "[]" 1]
    by simp
  with c show ?thesis by blast
qed

section \<open>Runs of a tree\<close>

text \<open>
  A tree in use, with the contents its operations are meant to give it.  Puts are those
  that \<open>btree_can_put\<close> admits, and those refused for their size.
\<close>

inductive btree_run :: "pager \<Rightarrow> page_id \<Rightarrow> (bytes \<times> bytes) list \<Rightarrow> bool" where
  run_open: "pager_owned p A \<Longrightarrow> 0 < pager_room p \<Longrightarrow> OpenBTree 0 p = (Inr r, q) \<Longrightarrow> btree_run q r []"
| run_put: "btree_run p r kvs \<Longrightarrow> btree_can_put p r k v \<Longrightarrow> Put r k v p = (Inr r', q) \<Longrightarrow>
    btree_run q r' (al_put k v kvs)"
| run_put_large: "btree_run p r kvs \<Longrightarrow> Put r k v p = (Inl ErrKeyTooLarge, q) \<Longrightarrow>
    maxKeyValue < length k \<or> maxKeyValue < length v \<Longrightarrow> btree_run q r kvs"
| run_delete: "btree_run p r kvs \<Longrightarrow> Delete r k p = (Inr (), q) \<Longrightarrow> btree_run q r (al_del k kvs)"

lemma btree_run_holds: "btree_run p r kvs \<Longrightarrow> btree_holds p r kvs"
proof (induction rule: btree_run.induct)
  case (run_open p A r q)
  then show ?case using OpenBTree_new [OF run_open(1,2)] unfolding btree_holds_def
    by (metis entries.simps(1) prod.inject root_of.simps(1) sum.inject(2))
next
  case (run_put p r kvs k v r' q)
  then show ?case using bt.put_law [of p r kvs k v] by auto
next
  case (run_put_large p r kvs k v q)
  then show ?case by (auto simp: Put_too_large)
next
  case (run_delete p r kvs k q)
  then obtain v where "map_of kvs k = Some v" using bt.del_absent_law [of p r kvs k] by (cases "map_of kvs k") auto
  from bt.del_law [OF run_delete.IH this] show ?case using run_delete(2) by auto
qed

text \<open>
  C2: in a run of a tree from its creation, by deletions, by puts refused for their size and by puts that \<open>btree_can_put\<close>
  admits, \<^verbatim>\<open>Get\<close> and \<^verbatim>\<open>Has\<close> answer what a map would: the value put last under the
  key, or \<^verbatim>\<open>ErrKeyNotFound\<close> when there is none or it was deleted since.  Not admitted are
  the puts whose splits lose entries, such as ascending inserts that fill an internal page.
\<close>

theorem btree_run_lookup:
  assumes "btree_run p r kvs"
  shows "keys_sorted kvs \<and>
    Get r k p = (case map_of kvs k of None \<Rightarrow> (Inl ErrKeyNotFound, p) | Some v \<Rightarrow> (Inr v, p)) \<and>
    Has r k p = (Inr (k \<in> fst ` set kvs), p)"
proof -
  have h: "btree_holds p r kvs" by (rule btree_run_holds [OF assms])
  have "k \<in> fst ` set kvs \<longleftrightarrow> map_of kvs k \<noteq> None" by (simp add: map_of_eq_None_iff)
  then show ?thesis
    using bt.sorted_law [OF h] bt.get_law [OF h, of k] by (simp add: Has_def split: option.splits)
qed

text \<open>A run: a new file, a new tree, one insertion.\<close>

lemma owned_new_pager: "pager_owned new_pager {}" "0 < pager_room new_pager" "5 < pager_room new_pager"
  using pager_inv_new by (auto simp: pager_owned_def pager_room_def new_pager_def)

lemma put_ready_empty:
  assumes "page p pid = newNodeBuf leafPage" "length key \<le> 500" "length val \<le> 500" "5 < pager_room p"
  shows "put_ready (8 + length key) key val p (GLeaf pid [])"
  using assms by (simp add: put_ready_def span_def leaf_accepts_def cell_cost_def freeSpace_new)

lemma new_tree_ready:
  "\<exists>p. OpenBTree 0 new_pager = (Inr 1, p) \<and> btree_at p (GLeaf 1 []) \<and> put_ready 9 [7] [42] p (GLeaf 1 [])"
proof -
  obtain pid q where q: "OpenBTree 0 new_pager = (Inr pid, q)" "btree_at q (GLeaf pid [])"
    "moves 1 new_pager {} q (insert pid {})" "page q pid = newNodeBuf leafPage"
    using OpenBTree_new [OF owned_new_pager(1,2)] by metis
  obtain q' where "AllocatePage new_pager = (Inr 1, q')" using one_page_reachable by blast
  then have pid: "pid = 1" using q(1) by (auto simp: OpenBTree_def bind_def split: prod.splits sum.splits)
  have "5 < pager_room q" using moves_room [OF q(3)] by (simp add: pager_room_def new_pager_def)
  then show ?thesis using q pid put_ready_empty [of q 1 "[7]" "[42]"] by auto
qed

lemma one_entry_run:
  "\<exists>p r q. OpenBTree 0 new_pager = (Inr 1, p) \<and> Put 1 [7] [42] p = (Inr r, q) \<and> btree_run q r [([7], [42])]"
proof -
  obtain p where p: "OpenBTree 0 new_pager = (Inr 1, p)" "btree_at p (GLeaf 1 [])" "put_ready 9 [7] [42] p (GLeaf 1 [])"
    using new_tree_ready by blast
  have run: "btree_run p 1 []" by (rule run_open [OF owned_new_pager(1,2) p(1)])
  have can: "btree_can_put p 1 [7] [42]" using p by (auto simp: btree_can_put_def)
  obtain r q where q: "Put 1 [7] [42] p = (Inr r, q)" using bt.put_law [OF btree_run_holds [OF run] can] by blast
  from run_put [OF run can q] show ?thesis using p(1) q by auto
qed

theorem btree_run_lookup_witness:
  "\<exists>p r q. OpenBTree 0 new_pager = (Inr 1, p) \<and> Put 1 [7] [42] p = (Inr r, q) \<and>
     Get r [7] q = (Inr [42], q) \<and> Get r [8] q = (Inl ErrKeyNotFound, q)"
proof -
  obtain p r q where "OpenBTree 0 new_pager = (Inr 1, p)" "Put 1 [7] [42] p = (Inr r, q)" "btree_run q r [([7], [42])]"
    using one_entry_run by blast
  then show ?thesis using btree_run_lookup [of q r "[([7], [42])]"] by auto
qed

section \<open>Insertion and deletion\<close>

text \<open>
  C1: an insertion that \<open>put_ready\<close> admits succeeds, through any number of page splits
  and up to a new root: the tree stays well-formed, holds the old entries with the key bound to the value, keeps
  all leaves at one depth, and every other tree of the file stays as it was.  \<open>put_ready\<close> asks for a value of at most 1008
  bytes, keys and separators of lengths within a factor of two, a leaf that has room for the cell or only other entries at least half its
  size, room for one more separator in every internal page entered through its last pointer, and pages left; puts
  it excludes can lose entries.
\<close>

theorem Put_refines:
  assumes "btree_at p t" "put_ready b key val p t"
  shows "\<exists>t' q. Put (root_of t) key val p = (Inr (root_of t'), q) \<and> btree_at q t' \<and>
    entries t' = al_put key val (entries t) \<and> balanced t' = balanced t \<and> catalog_root q = catalog_root p \<and>
    (\<forall>u. btree_at p u \<and> set (pages u) \<inter> set (pages t) = {} \<and> pager_owned p (set (pages t) \<union> set (pages u)) \<longrightarrow>
       btree_at q u \<and> set (pages u) \<inter> set (pages t') = {})"
proof -
  obtain t' q where q: "Put (root_of t) key val p = (Inr (root_of t'), q)" "btree_at q t'"
    "entries t' = al_put key val (entries t)" "balanced t' = balanced t"
    "moves (height t + 2) p (set (pages t)) q (set (pages t'))"
    using Put_ok [OF assms] by metis
  have "btree_at q u \<and> set (pages u) \<inter> set (pages t') = {}"
    if "btree_at p u" "set (pages u) \<inter> set (pages t) = {}" "pager_owned p (set (pages t) \<union> set (pages u))" for u
    using moves_btree_frame [OF q(5) that(1,3)] movesD(2) [OF q(5) that(2,3)] that(2) by auto
  moreover have "catalog_root q = catalog_root p" using q(5) by (simp add: moves_def)
  ultimately show ?thesis using q by blast
qed

theorem Put_refines_witness:
  "\<exists>p t' q. OpenBTree 0 new_pager = (Inr 1, p) \<and> Put 1 [7] [42] p = (Inr (root_of t'), q) \<and> btree_at q t' \<and>
     entries t' = [([7], [42])] \<and> balanced t'"
proof -
  obtain p where p: "OpenBTree 0 new_pager = (Inr 1, p)" "btree_at p (GLeaf 1 [])" "put_ready 9 [7] [42] p (GLeaf 1 [])"
    using new_tree_ready by blast
  then show ?thesis using Put_refines [OF p(2,3)] by auto
qed

text \<open>
  C23: \<^verbatim>\<open>Delete\<close> of a stored key succeeds, removes exactly that key, keeps the shape of the
  tree (no page is freed or moved) and every tree on other pages; for a key that is
  not stored it returns \<^verbatim>\<open>ErrKeyNotFound\<close> and changes nothing.
\<close>

theorem Delete_refines:
  assumes "btree_at p t"
  shows "(key \<notin> fst ` set (entries t) \<longrightarrow> Delete (root_of t) key p = (Inl ErrKeyNotFound, p)) \<and>
    (key \<in> fst ` set (entries t) \<longrightarrow> (\<exists>t' q. Delete (root_of t) key p = (Inr (), q) \<and> btree_at q t' \<and>
      entries t' = al_del key (entries t) \<and> root_of t' = root_of t \<and> pages t' = pages t \<and> balanced t' = balanced t \<and>
      (\<forall>u. btree_at p u \<and> set (pages u) \<inter> set (pages t) = {} \<and> pager_owned p (set (pages t) \<union> set (pages u)) \<longrightarrow>
         btree_at q u)))"
proof (intro conjI impI)
  assume "key \<notin> fst ` set (entries t)"
  then show "Delete (root_of t) key p = (Inl ErrKeyNotFound, p)"
    by (intro Delete_absent [OF assms]) (simp add: map_of_eq_None_iff)
next
  assume "key \<in> fst ` set (entries t)"
  then obtain v where "map_of (entries t) key = Some v" by (metis map_of_eq_None_iff not_None_eq)
  then obtain q where q: "Delete (root_of t) key p = (Inr (), q)" "btree_at q (tdel key t)"
    "moves 0 p (set (pages t)) q (set (pages t))"
    using Delete_present [OF assms] by metis
  have "btree_at q u"
    if "btree_at p u" "set (pages u) \<inter> set (pages t) = {}" "pager_owned p (set (pages t) \<union> set (pages u))" for u
    using moves_btree_frame [OF q(3) that(1,3)] that(2) by auto
  moreover have "entries (tdel key t) = al_del key (entries t)" using entries_tdel(1) btree_atD(2) [OF assms] .
  ultimately show "\<exists>t' q. Delete (root_of t) key p = (Inr (), q) \<and> btree_at q t' \<and>
      entries t' = al_del key (entries t) \<and> root_of t' = root_of t \<and> pages t' = pages t \<and> balanced t' = balanced t \<and>
      (\<forall>u. btree_at p u \<and> set (pages u) \<inter> set (pages t) = {} \<and> pager_owned p (set (pages t) \<union> set (pages u)) \<longrightarrow>
         btree_at q u)"
    using q(1,2) by (intro exI [of _ "tdel key t"] exI [of _ q]) simp
qed

theorem Delete_refines_witness:
  "\<exists>p t q. btree_at p t \<and> entries t = [([7], [42])] \<and> Delete (root_of t) [7] p = (Inr (), q) \<and>
     Delete (root_of t) [8] p = (Inl ErrKeyNotFound, p)"
proof -
  obtain p r q where "btree_run q r [([7], [42])]" using one_entry_run by blast
  from btree_run_holds [OF this] obtain t where t: "btree_at q t" "entries t = [([7], [42])]"
    by (auto simp: btree_holds_def)
  then show ?thesis using Delete_refines [OF t(1), of "[7]"] Delete_refines [OF t(1), of "[8]"] by auto
qed

text \<open>
  C4: a cursor reads the entries from its start key on (all of them when there is none),
  each once and in ascending key order, then reports the end, across leaf pages and
  over leaves emptied by deletions.
\<close>

theorem cursor_reads_in_order:
  assumes "btree_at p t"
  shows "\<exists>c. NewCursor (root_of t) start p = (Inr c, p) \<and>
    read_all (Suc (length (entries t))) c p =
      (Inr (case start of None \<Rightarrow> entries t | Some k \<Rightarrow> filter (\<lambda>x. k \<le> fst x) (entries t)), p) \<and>
    keys_sorted (entries t)"
proof -
  obtain c where c: "NewCursor (root_of t) start p = (Inr c, p)"
    "cursor_rest p (set (pages t)) c (entries_from start (entries t))"
    by (rule NewCursor_rest [OF assms])
  have "length (entries_from start (entries t)) < Suc (length (entries t))"
    by (cases start) (simp_all add: entries_from_def less_Suc_eq_le)
  from read_all_rest [OF btree_atD(4) [OF assms] c(2) this] c(1) btree_atD(5) [OF assms]
  show ?thesis by (simp add: entries_from_def)
qed

theorem cursor_reads_in_order_witness:
  "\<exists>p t c. btree_at p t \<and> NewCursor (root_of t) (Some [3]) p = (Inr c, p) \<and> read_all 2 c p = (Inr [([7], [42])], p)"
proof -
  obtain p r q where "btree_run q r [([7], [42])]" using one_entry_run by blast
  from btree_run_holds [OF this] obtain t where t: "btree_at q t" "entries t = [([7], [42])]"
    by (auto simp: btree_holds_def)
  obtain c where c: "NewCursor (root_of t) (Some [3]) q = (Inr c, q)"
    "read_all (Suc (length (entries t))) c q = (Inr (filter (\<lambda>x. [3] \<le> fst x) (entries t)), q)"
    using cursor_reads_in_order [OF t(1), of "Some [3]"] unfolding option.case by blast
  have "Suc (length (entries t)) = 2" "filter (\<lambda>x. [3] \<le> fst x) (entries t) = [([7], [42])]"
    unfolding t(2) by simp_all
  then have "read_all 2 c q = (Inr [([7], [42])], q)" using c(2) by (simp only:)
  with t c(1) show ?thesis by blast
qed

text \<open>
  Undoing a change restores the contents: deleting a key that was inserted, putting
  back the value that was overwritten, and putting back the entry that was deleted.
\<close>

theorem btree_undo:
  assumes "btree_run p r kvs"
  shows "(k \<notin> fst ` set kvs \<and> btree_can_put p r k v \<and> Put r k v p = (Inr r', q) \<longrightarrow>
      (\<exists>s. Delete r' k q = (Inr (), s) \<and> btree_run s r' kvs)) \<and>
    (map_of kvs k = Some old \<and> btree_can_put p r k v \<and> Put r k v p = (Inr r', q) \<and> btree_can_put q r' k old \<longrightarrow>
      (\<exists>r'' s. Put r' k old q = (Inr r'', s) \<and> btree_run s r'' kvs)) \<and>
    (map_of kvs k = Some old \<and> Delete r k p = (Inr (), q) \<and> btree_can_put q r k old \<longrightarrow>
      (\<exists>r'' s. Put r k old q = (Inr r'', s) \<and> btree_run s r'' kvs))"
proof (intro conjI impI; elim conjE)
  have h: "btree_holds p r kvs" and s: "keys_sorted kvs"
    using btree_run_holds [OF assms] bt.sorted_law by blast+
  show "\<exists>s. Delete r' k q = (Inr (), s) \<and> btree_run s r' kvs"
    if "k \<notin> fst ` set kvs" "btree_can_put p r k v" "Put r k v p = (Inr r', q)"
  proof -
    have n: "map_of kvs k = None" using that(1) by (simp add: map_of_eq_None_iff)
    from bt.undo_insert [OF h n that(2,3)] show ?thesis
      using run_delete [OF run_put [OF assms that(2,3)], of k] al_del_put [OF s n, of v] by auto
  qed
  show "\<exists>r'' s. Put r' k old q = (Inr r'', s) \<and> btree_run s r'' kvs"
    if "map_of kvs k = Some old" "btree_can_put p r k v" "Put r k v p = (Inr r', q)" "btree_can_put q r' k old"
    using bt.undo_update [OF h that] run_put [OF run_put [OF assms that(2,3)] that(4)]
      al_put_put [OF s, of k old v] al_put_same [OF s that(1)] by auto
  show "\<exists>r'' s. Put r k old q = (Inr r'', s) \<and> btree_run s r'' kvs"
    if "map_of kvs k = Some old" "Delete r k p = (Inr (), q)" "btree_can_put q r k old"
    using bt.undo_delete [OF h that] run_put [OF run_delete [OF assms that(2)] that(3)] al_put_del [OF s that(1)]
    by auto
qed

theorem btree_undo_witness:
  "\<exists>p r q s. OpenBTree 0 new_pager = (Inr 1, p) \<and> Put 1 [7] [42] p = (Inr r, q) \<and>
     Delete r [7] q = (Inr (), s) \<and> btree_run s r []"
proof -
  obtain p where p: "OpenBTree 0 new_pager = (Inr 1, p)" "btree_at p (GLeaf 1 [])" "put_ready 9 [7] [42] p (GLeaf 1 [])"
    using new_tree_ready by blast
  have run: "btree_run p 1 []" by (rule run_open [OF owned_new_pager(1,2) p(1)])
  have can: "btree_can_put p 1 [7] [42]" using p by (auto simp: btree_can_put_def)
  obtain r q where q: "Put 1 [7] [42] p = (Inr r, q)" using bt.put_law [OF btree_run_holds [OF run] can] by blast
  show ?thesis using btree_undo [OF run, of "[7]" "[42]" r q "[]"] can q p(1) by auto
qed

section \<open>The last child of a full internal page\<close>

text \<open>
  C36: when the last child of an internal page splits and the page is full,
  \<^verbatim>\<open>splitInternalAndInsert\<close> gives the right half the old last pointer, the left half of
  the child: the new right page of the child is then no child of either half, so
  lookups no longer reach the entries on it.
\<close>

theorem last_child_split_lost:
  assumes "inner_repr (n_buf n) child kcs" "freeSpace n < int (8 + length s)"
    and "\<And>k. k \<in> insert s (fst ` set kcs) \<Longrightarrow> span b k"
    and "pager_owned p {n_id n}" "0 < pager_room p" "newRight \<notin> insert child (snd ` set kcs)"
  shows "\<exists>q sep rid lrm ls rs. linkSplit n (numCells n) child (s, newRight) p = (Inr (Some (sep, rid)), q) \<and>
    inner_repr (page q (n_id n)) lrm ls \<and> inner_repr (page q rid) child rs \<and>
    newRight \<notin> {lrm, child} \<union> snd ` set ls \<union> snd ` set rs"
proof -
  let ?cells = "link_cells (length kcs) s child newRight kcs" and ?mid = "Suc (length kcs) div 2"
  obtain q rid where q:
    "splitInternalAndInsert n (length kcs) (internalCellBody s child) newRight (length kcs \<ge> length kcs) p =
      (Inr (Some (fst (?cells ! ?mid), rid)), q)" "Suc ?mid < length ?cells"
    "inner_repr (page q (n_id n)) (snd (?cells ! ?mid)) (take ?mid ?cells)"
    "inner_repr (page q rid) child (drop (Suc ?mid) ?cells)"
    using splitInternalAndInsert_ok [OF assms(1) le_refl assms(3,2,4,5) refl refl] by metis
  have cells: "?cells = kcs @ [(s, child)]" by (simp add: link_cells_def)
  have "snd ` set ?cells = insert child (snd ` set kcs)" unfolding cells by auto
  moreover have "?cells ! ?mid \<in> set ?cells" using q(2) by simp
  ultimately have "newRight \<notin> {snd (?cells ! ?mid), child} \<union> snd ` set (take ?mid ?cells) \<union> snd ` set (drop (Suc ?mid) ?cells)"
    using assms(6) by (auto dest!: in_set_takeD in_set_dropD)
  then show ?thesis
    using q(1,3,4) linkSplit_split [OF assms(1,2)] inner_reprD(4) [OF assms(1)] by auto
qed

text \<open>A full internal page: 255 cells with keys of eight bytes.\<close>

definition full_cells :: "(bytes \<times> page_id) list" where
  "full_cells = map (\<lambda>i. (replicate 7 0 @ [word_of_nat i], 2)) [0..<255]"

lemma full_page: "\<exists>c. inner_repr c 3 full_cells \<and> freeSpace \<lparr>n_id = 1, n_buf = c\<rparr> = 7"
proof -
  have cost: "internal_cost full_cells = 4080"
    by (simp add: full_cells_def internal_cost_def comp_def sum_list_triv)
  obtain c where "\<And>s. inner_repr (n_buf (setSibling s \<lparr>n_id = 1, n_buf = c\<rparr>)) s full_cells"
  proof -
    have "internal_cost full_cells \<le> page_room" "full_cells \<noteq> []"
      "\<And>x. x \<in> set full_cells \<Longrightarrow> length (fst x) \<le> maxKeyValue"
      using cost by (auto simp: full_cells_def)
    from new_inner [OF this, of 1] show thesis using that by blast
  qed
  then have i: "inner_repr (n_buf (setSibling 3 \<lparr>n_id = 1, n_buf = c\<rparr>)) 3 full_cells" .
  let ?b = "n_buf (setSibling 3 \<lparr>n_id = 1, n_buf = c\<rparr>)"
  have "freeSpace \<lparr>n_id = 1, n_buf = ?b\<rparr> = 7" using inner_freeSpace [of "\<lparr>n_id = 1, n_buf = ?b\<rparr>"] i cost by simp
  with i show ?thesis by blast
qed

theorem last_child_split_lost_witness:
  "\<exists>p c q sep rid lrm ls rs. inner_repr c 3 full_cells \<and>
     linkSplit \<lparr>n_id = 1, n_buf = c\<rparr> 255 3 ([1, 0, 0, 0, 0, 0, 0, 0], 4) p = (Inr (Some (sep, rid)), q) \<and>
     inner_repr (page q 1) lrm ls \<and> inner_repr (page q rid) 3 rs \<and>
     4 \<notin> {lrm, 3} \<union> snd ` set ls \<union> snd ` set rs"
proof -
  obtain c where c: "inner_repr c 3 full_cells" "freeSpace \<lparr>n_id = 1, n_buf = c\<rparr> = 7" using full_page by blast
  let ?n = "\<lparr>n_id = 1, n_buf = c\<rparr>"
  obtain p where p: "OpenBTree 0 new_pager = (Inr 1, p)" "btree_at p (GLeaf 1 [])" "put_ready 9 [7] [42] p (GLeaf 1 [])"
    using new_tree_ready by blast
  have own: "pager_owned p {n_id ?n}" using btree_atD(4) [OF p(2)] by simp
  have room: "0 < pager_room p" using p(3) by (simp add: put_ready_def)
  have nc: "numCells ?n = 255" using inner_reprD(4) [of ?n 3 full_cells] c(1) by (simp add: full_cells_def)
  have "\<exists>q sep rid lrm ls rs. linkSplit ?n (numCells ?n) 3 ([1, 0, 0, 0, 0, 0, 0, 0], 4) p = (Inr (Some (sep, rid)), q) \<and>
     inner_repr (page q (n_id ?n)) lrm ls \<and> inner_repr (page q rid) 3 rs \<and>
     4 \<notin> {lrm, 3} \<union> snd ` set ls \<union> snd ` set rs"
  proof (rule last_child_split_lost [where b = 16, OF _ _ _ own room])
    show "inner_repr (n_buf ?n) 3 full_cells" using c(1) by simp
    show "freeSpace ?n < int (8 + length [1 :: byte, 0, 0, 0, 0, 0, 0, 0])" using c(2) by simp
    show "span 16 k" if "k \<in> insert [1, 0, 0, 0, 0, 0, 0, 0] (fst ` set full_cells)" for k
      using that by (auto simp: full_cells_def span_def)
    show "4 \<notin> insert 3 (snd ` set full_cells)" by (auto simp: full_cells_def)
  qed
  then show ?thesis using c(1) unfolding nc node.simps by blast
qed

end
