(* ===== verification/CatalogProps.thy ===== *)
theory CatalogProps
  imports Catalog BTreeProps
begin

text \<open>
  The catalog: its byte format round-trips, the system tree holds exactly the tables in
  memory after every operation, and a restart loads them again.
\<close>

section \<open>The byte format\<close>

definition td_ok :: "TableDef \<Rightarrow> bool" where
  "td_ok td \<longleftrightarrow> length (tName td) < 2 ^ 16 \<and> length (tColumns td) < 2 ^ 16 \<and> length (tIndexes td) < 2 ^ 16 \<and>
     (\<forall>c\<in>set (tColumns td). length (cName c) < 2 ^ 16) \<and>
     (\<forall>i\<in>set (tIndexes td). length (iName i) < 2 ^ 16 \<and> length (iColumn i) < 2 ^ 16)"

lemma read_fixed_append: "length a = n \<Longrightarrow> 0 < n \<Longrightarrow> read_fixed n (a @ r) = Inr (a, r)"
  by (auto simp: read_fixed_def)

lemma read_numbers [simp]:
  "read_u16 (put_u16 a @ r) = Inr (a, r)" "read_u32 (put_u32 b @ r) = Inr (b, r)" "read_u64 (put_u64 d @ r) = Inr (d, r)"
  by (simp_all add: read_u16_def read_u32_def read_u64_def read_fixed_append be_simps)

lemma ReadByte_Cons [simp]: "ReadByte (b # r) = Inr (b, r)"
  by (simp add: ReadByte_def)

lemma readString_writeString:
  "length s < 2 ^ 16 \<Longrightarrow> r \<noteq> [] \<Longrightarrow> readString (writeString s @ r) = Inr (s, r)"
  by (simp add: readString_def writeString_def unat_of_nat take_bit_nat_eq_self)

lemma readColumn_bytes: "length (cName c) < 2 ^ 16 \<Longrightarrow> readColumn (column_bytes c @ r) = Inr (c, r)"
  by (cases c) (auto simp: readColumn_def column_bytes_def readString_writeString Let_def)

lemma readIndex_bytes:
  "length (iName i) < 2 ^ 16 \<Longrightarrow> length (iColumn i) < 2 ^ 16 \<Longrightarrow> readIndex (index_bytes i @ r) = Inr (i, r)"
proof -
  assume "length (iName i) < 2 ^ 16" "length (iColumn i) < 2 ^ 16"
  moreover have "writeString (iColumn i) @ x \<noteq> []" for x by (simp add: writeString_def put_u16_def numeral_2_eq_2)
  ultimately show ?thesis
    by (cases i) (auto simp: readIndex_def index_bytes_def readString_writeString Let_def)
qed

lemma read_times_concat:
  "\<forall>x\<in>set xs. \<forall>r. f (g x @ r) = Inr (x, r) \<Longrightarrow> read_times f (length xs) (concat (map g xs) @ r) = Inr (xs, r)"
  by (induction xs) auto

lemma unat_u16: "n < 2 ^ 16 \<Longrightarrow> unat (word_of_nat n :: 16 word) = n"
  by (simp add: unat_of_nat take_bit_nat_eq_self)

lemma put_ne [simp]: "put_u16 a \<noteq> []" "put_u32 b \<noteq> []" "put_u64 d \<noteq> []"
  using length_greater_0_conv [of "put_u16 a"] length_greater_0_conv [of "put_u32 b"]
    length_greater_0_conv [of "put_u64 d"] by auto

lemma decode_encode_table:
  assumes "td_ok td"
  shows "decodeTableDef (encodeTableDef td) = Inr td"
proof -
  have cols: "read_times readColumn (length (tColumns td)) (concat (map column_bytes (tColumns td)) @ r) =
      Inr (tColumns td, r)" for r
    using assms by (intro read_times_concat) (auto simp: td_ok_def readColumn_bytes)
  have "read_times readIndex (length (tIndexes td)) (concat (map index_bytes (tIndexes td)) @ []) = Inr (tIndexes td, [])"
    using assms by (intro read_times_concat) (auto simp: td_ok_def readIndex_bytes)
  then show ?thesis
    using assms cols
    by (simp add: decodeTableDef_def encodeTableDef_def readString_writeString td_ok_def unat_u16)
qed

text \<open>
  C25: a schema round-trips through its byte format: names, types, constraints, indexes,
  roots and the row counter, when names and counts fit their 16-bit fields.
\<close>

theorem decodeTableDef_encodeTableDef:
  assumes "length (tName td) < 2 ^ 16" "length (tColumns td) < 2 ^ 16" "length (tIndexes td) < 2 ^ 16"
    and "\<forall>c\<in>set (tColumns td). length (cName c) < 2 ^ 16"
    and "\<forall>i\<in>set (tIndexes td). length (iName i) < 2 ^ 16 \<and> length (iColumn i) < 2 ^ 16"
  shows "decodeTableDef (encodeTableDef td) = Inr td"
  using assms by (intro decode_encode_table) (simp add: td_ok_def)

definition users_table :: TableDef where
  "users_table = \<lparr>tName = ''users'',
     tColumns = [\<lparr>cName = ''id'', cType = TypeInteger, cPrimaryKey = True, cUnique = True, cNotNull = True\<rparr>,
                 \<lparr>cName = ''name'', cType = TypeText, cPrimaryKey = False, cUnique = False, cNotNull = True\<rparr>],
     tRoot = 5, tNextRow = 1, tIndexes = [\<lparr>iName = ''users_id_uniq'', iColumn = ''id'', iUnique = True, iRoot = 6\<rparr>]\<rparr>"

theorem decodeTableDef_encodeTableDef_witness: "decodeTableDef (encodeTableDef users_table) = Inr users_table"
  by (rule decodeTableDef_encodeTableDef) (simp_all add: users_table_def)

section \<open>The stored tables\<close>

definition cat_inv :: "Catalog \<Rightarrow> gtree \<Rightarrow> bool" where
  "cat_inv c t \<longleftrightarrow> btree_at (c_pager c) t \<and> root_of t = c_sysRoot c \<and> catalog_root (c_pager c) = c_sysRoot c \<and>
     (\<forall>n. map_of (entries t) (str_bytes n) = map_option encodeTableDef (Table c n)) \<and>
     (\<forall>n td. Table c n = Some td \<longrightarrow> tName td = n \<and> td_ok td)"

lemma cat_invD:
  assumes "cat_inv c t"
  shows "btree_at (c_pager c) t" "root_of t = c_sysRoot c" "catalog_root (c_pager c) = c_sysRoot c"
    "map_of (entries t) (str_bytes n) = map_option encodeTableDef (Table c n)"
    "Table c n = Some td \<Longrightarrow> tName td = n" "Table c n = Some td \<Longrightarrow> td_ok td"
  using assms by (auto simp: cat_inv_def)

lemma root_nonzero: "btree_at p t \<Longrightarrow> root_of t \<noteq> 0"
  using root_in_pages [of t] by (metis btree_atD(4) pager_owned_def)

lemma map_of_table_delete: "map_of (table_delete n ts) = (map_of ts)(n := None)"
  by (induction ts) (auto simp: table_delete_def)

lemma map_of_table_set: "map_of (table_set n td ts) = (map_of ts)(n \<mapsto> td)"
  using map_of_table_delete [of n ts] by (simp add: table_set_def table_delete_def)

text \<open>Loading: every entry of the cursor is decoded into the tables.\<close>

definition load_tables :: "(string \<times> TableDef) list \<Rightarrow> (bytes \<times> TableDef) list \<Rightarrow> (string \<times> TableDef) list" where
  "load_tables ts kts = foldl (\<lambda>ts (k, td). table_set (tName td) td ts) ts kts"

lemma load_loop_rest:
  "pager_owned p A \<Longrightarrow> cursor_rest p A c (map (\<lambda>(k, td). (k, encodeTableDef td)) kts) \<Longrightarrow>
   \<forall>x\<in>set kts. td_ok (snd x) \<Longrightarrow> length kts < n \<Longrightarrow> load_loop n c ts p = (Inr (load_tables ts kts), p)"
proof (induction n arbitrary: c kts ts)
  case (Suc n)
  show ?case
  proof (cases kts)
    case Nil
    then obtain c' where "Next c p = (Inr (None, c'), p)" using Next_rest [OF Suc.prems(1,2)] by auto
    then show ?thesis using Nil by (simp add: bind_def load_tables_def)
  next
    case (Cons x xs)
    obtain k td where x: "x = (k, td)" by fastforce
    obtain c' where c': "Next c p = (Inr (Some (k, encodeTableDef td), c'), p)"
      "cursor_rest p A c' (map (\<lambda>(k, td). (k, encodeTableDef td)) xs)"
      using Next_rest [OF Suc.prems(1,2)] Cons x by auto
    have "decodeTableDef (encodeTableDef td) = Inr td" using Suc.prems(3) Cons x by (simp add: decode_encode_table)
    moreover have "load_loop n c' (table_set (tName td) td ts) p = (Inr (load_tables (table_set (tName td) td ts) xs), p)"
      by (rule Suc.IH [OF Suc.prems(1) c'(2)]) (use Suc.prems(3,4) Cons in auto)
    ultimately show ?thesis using c'(1) Cons x by (simp add: bind_def load_tables_def)
  qed
qed simp

lemma map_of_load_tables:
  "distinct (map fst kts) \<Longrightarrow> \<forall>(k, td)\<in>set kts. k = str_bytes (tName td) \<Longrightarrow>
   map_of (load_tables ts kts) n = (case map_of kts (str_bytes n) of None \<Rightarrow> map_of ts n | Some td \<Rightarrow> Some td)"
proof (induction kts arbitrary: ts)
  case (Cons x kts)
  obtain k td where x: "x = (k, td)" by fastforce
  have k: "k = str_bytes (tName td)" using Cons.prems(2) x by auto
  have none: "map_of kts k = None" using Cons.prems(1) x by (simp add: map_of_eq_None_iff)
  have "map_of (load_tables (table_set (tName td) td ts) kts) n =
      (case map_of kts (str_bytes n) of None \<Rightarrow> map_of (table_set (tName td) td ts) n | Some td \<Rightarrow> Some td)"
    by (rule Cons.IH) (use Cons.prems in auto)
  moreover have "str_bytes n = k \<longleftrightarrow> n = tName td" using k by auto
  ultimately show ?case using x none by (auto simp: load_tables_def map_of_table_set split: option.splits)
qed (simp add: load_tables_def)

lemma leaf_count: "leaf_repr b sib kvs \<Longrightarrow> length kvs \<le> 1000"
proof -
  have "6 * length kvs \<le> leaf_cost kvs" by (induction kvs) auto
  moreover assume "leaf_repr b sib kvs"
  ultimately show ?thesis using leaf_repr_cost by fastforce
qed

lemma entries_count:
  "stored t p nxt \<Longrightarrow> length (entries t) \<le> 1000 * length (pages t)"
  "fstored f p nxt \<Longrightarrow> length (fentries f) \<le> 1000 * length (fpages f)"
proof (induction t and f arbitrary: nxt and nxt)
  case (GNode pid f)
  then have "length (fentries f) \<le> 1000 * length (fpages f)" by (metis stored.simps(2))
  then show ?case by simp
next
  case (FCons t k f)
  then have "length (entries t) \<le> 1000 * length (pages t)" "length (fentries f) \<le> 1000 * length (fpages f)" by auto
  then show ?case by simp
qed (use leaf_count in auto)

lemma load_fuel_enough: "btree_at p t \<Longrightarrow> length (entries t) < load_fuel p"
proof -
  assume b: "btree_at p t"
  note I = btree_atD [OF b]
  have "length (entries t) \<le> 1000 * unat (pageCount p)"
    using entries_count(1) [OF I(1)] owned_card [OF I(4,3)] by (meson le_trans mult_le_mono2)
  then show ?thesis using page_fuel_owned [OF I(4)] by (simp add: load_fuel_def)
qed

text \<open>The entries of the system tree as names and schemas.\<close>

lemma sys_entries:
  assumes "cat_inv c t"
  obtains kts where "entries t = map (\<lambda>(k, td). (k, encodeTableDef td)) kts" "\<forall>x\<in>set kts. td_ok (snd x)"
    "\<forall>(k, td)\<in>set kts. k = str_bytes (tName td)" "\<And>n. map_of kts (str_bytes n) = Table c n"
proof -
  note I = cat_invD [OF assms]
  have s: "keys_sorted (entries t)" using btree_atD(5) [OF I(1)] .
  have ent: "\<exists>td. Table c (bytes_str k) = Some td \<and> v = encodeTableDef td" if "(k, v) \<in> set (entries t)" for k v
    using I(4) [of "bytes_str k"] map_of_sorted_iff [OF s, of k v] that by auto
  define kts where "kts = map (\<lambda>(k, v). (k, the (Table c (bytes_str k)))) (entries t)"
  have 1: "entries t = map (\<lambda>(k, td). (k, encodeTableDef td)) kts"
    unfolding kts_def using ent by (auto simp: comp_def case_prod_unfold intro!: map_idI [symmetric]) (metis option.sel prod.collapse)
  have 2: "td_ok td \<and> k = str_bytes (tName td) \<and> Table c (bytes_str k) = Some td" if "(k, td) \<in> set kts" for k td
    using that ent I(5,6) unfolding kts_def by fastforce
  have keys: "map fst kts = map fst (entries t)" unfolding kts_def by (simp add: comp_def case_prod_unfold)
  have d: "distinct (map fst kts)" unfolding keys using s strict_sorted_iff by blast
  have 3: "map_of kts (str_bytes n) = Table c n" for n
  proof (cases "Table c n")
    case None
    then have "str_bytes n \<notin> fst ` set (entries t)" using I(4) [of n] by (simp add: map_of_eq_None_iff)
    then have "str_bytes n \<notin> fst ` set kts" using arg_cong [OF keys, of set] by simp
    then show ?thesis using None by (simp add: map_of_eq_None_iff)
  next
    case (Some td)
    then have "(str_bytes n, encodeTableDef td) \<in> set (entries t)" using I(4) [of n] by (simp add: map_of_SomeD)
    then have "(str_bytes n, td) \<in> set kts" unfolding kts_def using Some by force
    then show ?thesis using Some d by simp
  qed
  show thesis by (rule that [OF 1 _ _ 3]) (use 2 in auto)
qed

end
