(* ===== verification/CatalogStore.thy ===== *)
theory CatalogStore
  imports CatalogProps
begin

text \<open>
  The operations of the catalog on its stored form: what \<^verbatim>\<open>CreateTable\<close>,
  \<^verbatim>\<open>SaveTable\<close> and \<^verbatim>\<open>DropTable\<close> of \<^verbatim>\<open>internal/catalog/catalog.go\<close> do to the system
  tree, to the tables in memory and to the other trees of the file, and that
  \<^verbatim>\<open>Open\<close> loads the tables again.
\<close>

section \<open>Room for an insertion\<close>

text \<open>Whether an insertion is ready depends on the pages of its tree and on the length of the value.\<close>

lemma path_accepts_cong:
  "(\<And>j. j \<in> set (pages t) \<Longrightarrow> page q j = page p j) \<Longrightarrow> length v = length w \<Longrightarrow>
   path_accepts t b key v q = path_accepts t b key w p"
  "(\<And>j. j \<in> set (fpages f) \<Longrightarrow> page q j = page p j) \<Longrightarrow> length v = length w \<Longrightarrow>
   fpath_accepts f b key v q = fpath_accepts f b key w p"
  by (induction t and f) (auto simp: leaf_accepts_def cell_cost_def)

lemma put_ready_cong:
  assumes "put_ready b key w p t" "\<And>j. j \<in> set (pages t) \<Longrightarrow> page q j = page p j" "length v = length w"
    "height t + 1 < pager_room q"
  shows "put_ready b key v q t"
  using assms path_accepts_cong(1) [OF assms(2,3), of t b key] by (auto simp: put_ready_def)

lemma shifts_btree_frame:
  assumes "shifts k p A q B" "btree_at p t" "pager_owned p (A \<union> set (pages t))" "A \<inter> set (pages t) = {}"
  shows "btree_at q t"
proof -
  have "set (pages t) \<inter> A = {}" using assms(4) by auto
  note m = shiftsD [OF assms(1) this assms(3)]
  have "pager_owned q (set (pages t))" by (rule pager_owned_mono [OF m(1)]) simp
  then show ?thesis using assms(2) m(3) stored_cong(1) [of t q p 0] by (simp add: btree_at_def)
qed

lemma SetCatalogRoot_shifts:
  assumes "pager_owned p A"
  obtains q where "SetCatalogRoot r p = (Inr (), q)" "shifts 0 p A q A" "catalog_root q = r"
    "\<And>j. j \<in> A \<Longrightarrow> page q j = page p j"
proof -
  obtain fl where fl: "pager_inv p fl" using assms by (auto simp: pager_owned_def)
  obtain q where q: "SetCatalogRoot r p = (Inr (), q)" "catalog_root q = r" "pageCount q = pageCount p"
    "\<And>j. j \<noteq> 0 \<Longrightarrow> j < pageCount p \<Longrightarrow> page q j = page p j"
    using SetCatalogRoot_ok [OF fl, of r] by metis
  have pg: "page q j = page p j" if "pager_owned p C" "j \<in> C" for j C
  proof -
    have "j \<noteq> 0" "j < pageCount p" using that by (auto simp: pager_owned_def)
    then show ?thesis by (rule q(4))
  qed
  have "shifts 0 p A q A"
  proof (rule shiftsI)
    show "pager_room p \<le> pager_room q + 0" using q(3) by (simp add: pager_room_def)
    fix C assume "C \<inter> A = {}" "pager_owned p (A \<union> C)"
    then show "pager_owned q (A \<union> C) \<and> A \<inter> C = {} \<and> (\<forall>j\<in>C. page q j = page p j)"
      using pager_owned_root q(1) pg [of "A \<union> C"] by blast
  qed
  then show thesis using that q pg assms by blast
qed

section \<open>Writing a schema\<close>

lemma persist_ok:
  assumes "btree_at (c_pager c) t" "root_of t = c_sysRoot c"
    and "put_ready b (str_bytes (tName td)) (encodeTableDef td) (c_pager c) t"
  obtains c' t' where "persist td c = (Inr (), c')" "btree_at (c_pager c') t'" "root_of t' = c_sysRoot c'"
    "catalog_root (c_pager c') = c_sysRoot c'" "c_tables c' = c_tables c"
    "entries t' = al_put (str_bytes (tName td)) (encodeTableDef td) (entries t)"
    "shifts (height t + 2) (c_pager c) (set (pages t)) (c_pager c') (set (pages t'))"
proof -
  let ?p = "c_pager c"
  obtain t' q where P: "Put (root_of t) (str_bytes (tName td)) (encodeTableDef td) ?p = (Inr (root_of t'), q)"
    "btree_at q t'" "entries t' = al_put (str_bytes (tName td)) (encodeTableDef td) (entries t)"
    "moves (height t + 2) ?p (set (pages t)) q (set (pages t'))"
    using Put_ok [OF assms(1,3)] by metis
  obtain r where r: "SetCatalogRoot (root_of t') q = (Inr (), r)" "shifts 0 q (set (pages t')) r (set (pages t'))"
    "catalog_root r = root_of t'" "\<And>j. j \<in> set (pages t') \<Longrightarrow> page r j = page q j"
    using SetCatalogRoot_shifts [OF btree_atD(4) [OF P(2)]] by blast
  have "btree_at r t'"
    using P(2) shifts_owned [OF r(2)] stored_cong(1) [of t' r q 0] r(4) by (simp add: btree_at_def)
  moreover have "shifts (height t + 2) ?p (set (pages t)) r (set (pages t'))"
    using shifts_trans [OF moves_shifts [OF P(4)] r(2)] by simp
  moreover have "persist td c = (Inr (), c\<lparr>c_pager := r, c_sysRoot := root_of t'\<rparr>)"
    using P(1) r(1) assms(2) by (simp add: persist_def on_pager_def bind_def)
  ultimately show thesis using that [of "c\<lparr>c_pager := r, c_sysRoot := root_of t'\<rparr>" t'] P(3) r(3) by simp
qed

text \<open>The schema that is written becomes the one in memory: \<open>c\<close> may hold another one for the name.\<close>

definition with_table :: "TableDef \<Rightarrow> Catalog \<Rightarrow> Catalog" where
  "with_table td c = c\<lparr>c_tables := table_set (tName td) td (c_tables c)\<rparr>"

lemma Table_with_table [simp]: "Table (with_table td c) n = (if n = tName td then Some td else Table c n)"
  by (simp add: Table_def with_table_def map_of_table_set)

lemma persist_inv:
  assumes "cat_inv c t" "td_ok td" "put_ready b (str_bytes (tName td)) (encodeTableDef td) (c_pager c) t"
  obtains c' t' where "persist td c = (Inr (), c')" "cat_inv (with_table td c') t'" "c_tables c' = c_tables c"
    "shifts (height t + 2) (c_pager c) (set (pages t)) (c_pager c') (set (pages t'))"
proof -
  note I = cat_invD [OF assms(1)]
  obtain c' t' where c': "persist td c = (Inr (), c')" "btree_at (c_pager c') t'" "root_of t' = c_sysRoot c'"
    "catalog_root (c_pager c') = c_sysRoot c'" "c_tables c' = c_tables c"
    "entries t' = al_put (str_bytes (tName td)) (encodeTableDef td) (entries t)"
    "shifts (height t + 2) (c_pager c) (set (pages t)) (c_pager c') (set (pages t'))"
    using persist_ok [OF I(1,2) assms(3)] by blast
  have T: "Table c' n = Table c n" for n using c'(5) by (simp add: Table_def)
  have "cat_inv (with_table td c') t'"
    unfolding cat_inv_def
  proof (intro conjI allI impI)
    show "map_of (entries t') (str_bytes n) = map_option encodeTableDef (Table (with_table td c') n)" for n
      using I(4) [of n] map_of_al_put [OF btree_atD(5) [OF I(1)]] by (simp add: c'(6) T)
    fix n d assume "Table (with_table td c') n = Some d"
    then show "tName d = n" "td_ok d" using I(5,6) [of n d] assms(2) T by (auto split: if_splits)
  qed (use c' in \<open>simp_all add: with_table_def\<close>)
  with c' that show thesis by blast
qed

section \<open>Loading\<close>

lemma catalog_Open_loads:
  assumes "cat_inv c t"
  obtains ts where "catalog_Open (c_pager c) =
      (Inr \<lparr>c_pager = c_pager c, c_sysRoot = c_sysRoot c, c_tables = ts\<rparr>, c_pager c)" "map_of ts = Table c"
proof -
  note I = cat_invD [OF assms]
  let ?p = "c_pager c"
  obtain kts where k: "entries t = map (\<lambda>(k, td). (k, encodeTableDef td)) kts" "\<forall>x\<in>set kts. td_ok (snd x)"
    "\<forall>(k, td)\<in>set kts. k = str_bytes (tName td)" "\<And>n. map_of kts (str_bytes n) = Table c n"
    by (rule sys_entries [OF assms]) metis
  obtain cur where cur: "NewCursor (root_of t) None ?p = (Inr cur, ?p)" "cursor_rest ?p (set (pages t)) cur (entries t)"
    using NewCursor_rest [OF I(1), of None] unfolding entries_from_def option.case by blast
  have "length kts < load_fuel ?p" using load_fuel_enough [OF I(1)] k(1) by simp
  then have load: "load_loop (load_fuel ?p) cur [] ?p = (Inr (load_tables [] kts), ?p)"
    using load_loop_rest [OF btree_atD(4) [OF I(1)] _ k(2)] cur(2) k(1) by simp
  have "map fst kts = map fst (entries t)" unfolding k(1) by (simp add: comp_def case_prod_unfold)
  then have d: "distinct (map fst kts)" using btree_atD(5) [OF I(1)] strict_sorted_iff by metis
  have m: "map_of (load_tables [] kts) n = Table c n" for n
    unfolding map_of_load_tables [OF d k(3)] k(4) by (simp split: option.splits)
  show thesis
  proof (rule that)
    show "map_of (load_tables [] kts) = Table c" by (rule ext) (rule m)
    show "catalog_Open ?p =
        (Inr \<lparr>c_pager = ?p, c_sysRoot = c_sysRoot c, c_tables = load_tables [] kts\<rparr>, ?p)"
      using root_nonzero [OF I(1)] I(2,3) cur(1) load
      by (simp add: catalog_Open_def CatalogRoot_def OpenBTree_def loadAll_def on_pager_def bind_def)
  qed
qed

section \<open>Creating and dropping tables\<close>

lemma length_encodeTableDef_root: "length (encodeTableDef (td\<lparr>tRoot := r\<rparr>)) = length (encodeTableDef td)"
  by (simp add: encodeTableDef_def)

definition new_table :: "string \<Rightarrow> ColumnDef list \<Rightarrow> page_id \<Rightarrow> TableDef" where
  "new_table name cols root = \<lparr>tName = name, tColumns = cols, tRoot = root, tNextRow = 1, tIndexes = []\<rparr>"

lemma CreateTable_inv:
  assumes "cat_inv c t" "Table c name = None" "td_ok (new_table name cols 0)"
    and "put_ready b (str_bytes name) (encodeTableDef (new_table name cols 0)) (c_pager c) t"
    and "height t + 2 < pager_room (c_pager c)"
  obtains c' t' root where "CreateTable name cols c = (Inr (new_table name cols root), c')" "cat_inv c' t'"
    "Table c' = (Table c)(name \<mapsto> new_table name cols root)" "btree_at (c_pager c') (GLeaf root [])"
    "root \<notin> set (pages t')"
    "shifts (height t + 3) (c_pager c) (set (pages t)) (c_pager c') (insert root (set (pages t')))"
    "page (c_pager c') root = newNodeBuf leafPage"
proof -
  note I = cat_invD [OF assms(1)]
  let ?p = "c_pager c"
  have own: "pager_owned ?p (set (pages t))" using btree_atD(4) [OF I(1)] .
  have "pager_owned ?p {}" "0 < pager_room ?p" using pager_owned_mono [OF own] assms(5) by auto
  then obtain root q where q: "OpenBTree 0 ?p = (Inr root, q)" "btree_at q (GLeaf root [])" "moves 1 ?p {} q {root}"
    "page q root = newNodeBuf leafPage"
    using OpenBTree_new [of ?p "{}"] by metis
  have own': "pager_owned ?p ({} \<union> set (pages t))" using own by simp
  note fr = movesD [OF q(3) Int_empty_right own']
  let ?td = "new_table name cols root" and ?c = "c\<lparr>c_pager := q\<rparr>"
  have eq: "?td = new_table name cols 0\<lparr>tRoot := root\<rparr>" by (simp add: new_table_def)
  have len: "length (encodeTableDef ?td) = length (encodeTableDef (new_table name cols 0))"
    unfolding eq by (rule length_encodeTableDef_root)
  have inv: "cat_inv ?c t"
    using assms(1) moves_btree_frame [OF q(3) I(1) own'] q(3) by (simp add: cat_inv_def Table_def moves_def)
  have ok: "td_ok ?td" using assms(3) by (simp add: td_ok_def new_table_def)
  have ready: "put_ready b (str_bytes (tName ?td)) (encodeTableDef ?td) (c_pager ?c) t"
    using put_ready_cong [OF assms(4) _ len, of q] fr(3) assms(5) moves_room [OF q(3)] by (simp add: new_table_def)
  obtain c' t' where c': "persist ?td ?c = (Inr (), c')" "cat_inv (with_table ?td c') t'" "c_tables c' = c_tables ?c"
    "shifts (height t + 2) q (set (pages t)) (c_pager c') (set (pages t'))"
    using persist_inv [OF inv ok ready] by auto
  have ownq: "pager_owned q (set (pages t) \<union> {root})" using fr(1) by (simp add: Un_commute)
  have rt: "{root} \<inter> set (pages t) = {}" using fr(2) by simp
  note fr' = shiftsD [OF c'(4) rt ownq]
  show thesis
  proof (rule that)
    show "CreateTable name cols c = (Inr ?td, with_table ?td c')"
      using assms(2) q(1) c'(1) by (simp add: CreateTable_def on_pager_def bind_def Let_def new_table_def with_table_def)
    show "cat_inv (with_table ?td c') t'" by (rule c'(2))
    show "Table (with_table ?td c') = (Table c)(name \<mapsto> ?td)"
      using c'(3) by (auto simp: fun_eq_iff new_table_def Table_def [of c'] Table_def [of c])
    show "root \<notin> set (pages t')" using fr'(2) by simp
    show "page (c_pager (with_table ?td c')) root = newNodeBuf leafPage"
      using fr'(3) [of root] q(4) by (simp add: with_table_def)
    show "btree_at (c_pager (with_table ?td c')) (GLeaf root [])"
      using shifts_btree_frame [OF c'(4) q(2)] ownq rt by (simp add: with_table_def)
    have "shifts (1 + (height t + 2)) ?p ({} \<union> set (pages t)) (c_pager c') (set (pages t') \<union> {root})"
      using shifts_trans [OF shifts_frame [OF moves_shifts [OF q(3)], of "set (pages t)"]] shifts_frame [OF c'(4) rt]
      by (simp add: Un_commute)
    then show "shifts (height t + 3) ?p (set (pages t)) (c_pager (with_table ?td c')) (insert root (set (pages t')))"
      by (simp add: with_table_def eval_nat_numeral)
  qed
qed

lemma DropTable_inv:
  assumes "cat_inv c t" "Table c name = Some td"
  obtains c' where "DropTable name c = (Inr (), c')" "cat_inv c' (tdel (str_bytes name) t)"
    "Table c' = (Table c)(name := None)"
    "shifts 0 (c_pager c) (set (pages t)) (c_pager c') (set (pages t))"
proof -
  note I = cat_invD [OF assms(1)]
  have "map_of (entries t) (str_bytes name) = Some (encodeTableDef td)" using I(4) [of name] assms(2) by simp
  then obtain q where q: "Delete (root_of t) (str_bytes name) (c_pager c) = (Inr (), q)"
    "btree_at q (tdel (str_bytes name) t)" "moves 0 (c_pager c) (set (pages t)) q (set (pages t))"
    using Delete_present [OF I(1)] by blast
  let ?c = "c\<lparr>c_pager := q, c_tables := table_delete name (c_tables c)\<rparr>"
  have T: "Table ?c n = (if n = name then None else Table c n)" for n
    by (simp add: Table_def map_of_table_delete)
  have "cat_inv ?c (tdel (str_bytes name) t)"
    unfolding cat_inv_def
  proof (intro conjI allI impI)
    show "map_of (entries (tdel (str_bytes name) t)) (str_bytes n) = map_option encodeTableDef (Table ?c n)" for n
      using I(4) [of n] entries_tdel(1) [OF btree_atD(2) [OF I(1)]] by (simp add: map_of_al_del T)
    fix n d assume "Table ?c n = Some d"
    then show "tName d = n" "td_ok d" using I(5,6) [of n d] by (auto simp: T split: if_splits)
  qed (use q I(2,3) in \<open>simp_all add: moves_def\<close>)
  moreover have "DropTable name c = (Inr (), ?c)"
    using assms(2) q(1) I(2) by (simp add: DropTable_def on_pager_def bind_def)
  moreover have "Table ?c = (Table c)(name := None)" using T by auto
  ultimately show thesis using that q(3) moves_shifts by auto
qed

section \<open>Runs of the catalog\<close>

lemma catalog_Open_new:
  assumes "pager_owned p {}" "0 < pager_room p" "catalog_root p = 0"
  obtains c pid where "catalog_Open p = (Inr c, c_pager c)" "cat_inv c (GLeaf pid [])" "Table c = Map.empty"
    "page (c_pager c) pid = newNodeBuf leafPage" "shifts 1 p {} (c_pager c) {pid}"
proof -
  obtain pid q where q: "OpenBTree 0 p = (Inr pid, q)" "btree_at q (GLeaf pid [])" "moves 1 p {} q {pid}"
    "page q pid = newNodeBuf leafPage"
    using OpenBTree_new [OF assms(1,2)] by metis
  have own: "pager_owned q {pid}" using btree_atD(4) [OF q(2)] by simp
  obtain r where r: "SetCatalogRoot pid q = (Inr (), r)" "shifts 0 q {pid} r {pid}" "catalog_root r = pid"
    "page r pid = page q pid"
    using SetCatalogRoot_shifts [OF own, of pid] by (metis insertI1)
  have "btree_at r (GLeaf pid [])"
    using q(2) shifts_owned [OF r(2) own] r(4) by (simp add: btree_at_def)
  then have inv: "cat_inv \<lparr>c_pager = r, c_sysRoot = pid, c_tables = []\<rparr> (GLeaf pid [])"
    using r(3) by (simp add: cat_inv_def Table_def)
  obtain ts where "catalog_Open r = (Inr \<lparr>c_pager = r, c_sysRoot = pid, c_tables = ts\<rparr>, r)"
    "map_of ts = Table \<lparr>c_pager = r, c_sysRoot = pid, c_tables = []\<rparr>"
    by (rule catalog_Open_loads [OF inv, unfolded Catalog.select_convs])
  then have ts: "catalog_Open r = (Inr \<lparr>c_pager = r, c_sysRoot = pid, c_tables = ts\<rparr>, r)" "map_of ts = Map.empty"
    by (simp_all add: Table_def fun_eq_iff)
  have nz: "pid \<noteq> 0" using root_nonzero [OF q(2)] by simp
  have "catalog_root q = 0" using q(3) assms(3) by (simp add: moves_def)
  then have "catalog_Open p = (Inr \<lparr>c_pager = r, c_sysRoot = pid, c_tables = ts\<rparr>, r)"
    using ts(1) q(1) r(1,3) nz assms(3)
    by (simp add: catalog_Open_def CatalogRoot_def OpenBTree_def [of pid] bind_def)
  moreover have "cat_inv \<lparr>c_pager = r, c_sysRoot = pid, c_tables = ts\<rparr> (GLeaf pid [])"
    using inv ts(2) by (simp add: cat_inv_def Table_def)
  moreover have "shifts 1 p {} r {pid}" using shifts_trans [OF moves_shifts [OF q(3)] r(2)] by simp
  moreover have "Table \<lparr>c_pager = r, c_sysRoot = pid, c_tables = ts\<rparr> = Map.empty"
    using ts(2) by (simp add: Table_def fun_eq_iff)
  ultimately show thesis using that [of "\<lparr>c_pager = r, c_sysRoot = pid, c_tables = ts\<rparr>" pid] r(4) q(4) by simp
qed

lemma cat_inv_durable: "cat_inv c t \<Longrightarrow> cat_inv (c\<lparr>c_pager := c_pager c\<lparr>durable := d\<rparr>\<rparr>) t"
proof -
  assume c: "cat_inv c t"
  let ?q = "c_pager c\<lparr>durable := d\<rparr>"
  note I = btree_atD [OF cat_invD(1) [OF c]]
  have "pager_owned ?q (set (pages t))" by (rule pager_owned_cong [OF I(4)]) simp_all
  moreover have "page ?q j = page (c_pager c) j" for j by (simp add: page_def)
  ultimately have "btree_at ?q t" using I stored_cong(1) [of t ?q "c_pager c" 0] by (simp add: btree_at_def)
  then show ?thesis using c by (simp add: cat_inv_def Table_def)
qed

text \<open>
  A catalog in use, with its system tree.  Schemas fit the fields of the byte format;
  writes are those that \<open>put_ready\<close> admits; between them, the rows of the tables are
  written on other pages of the file (\<open>run_rows\<close>).
\<close>

inductive cat_run :: "Catalog \<Rightarrow> gtree \<Rightarrow> bool" where
  run_new: "catalog_Open new_pager = (Inr c, p) \<Longrightarrow> cat_run c (GLeaf (c_sysRoot c) [])"
| run_create: "cat_run c t \<Longrightarrow> td_ok (new_table name cols 0) \<Longrightarrow>
    put_ready b (str_bytes name) (encodeTableDef (new_table name cols 0)) (c_pager c) t \<Longrightarrow>
    height t + 2 < pager_room (c_pager c) \<Longrightarrow> CreateTable name cols c = (Inr td, c') \<Longrightarrow>
    btree_at (c_pager c') t' \<Longrightarrow> root_of t' = c_sysRoot c' \<Longrightarrow> cat_run c' t'"
| run_save: "cat_run c t \<Longrightarrow> td_ok td \<Longrightarrow> put_ready b (str_bytes (tName td)) (encodeTableDef td) (c_pager c) t \<Longrightarrow>
    SaveTable td (with_table td c) = (Inr (), c') \<Longrightarrow>
    btree_at (c_pager c') t' \<Longrightarrow> root_of t' = c_sysRoot c' \<Longrightarrow> cat_run c' t'"
| run_drop: "cat_run c t \<Longrightarrow> DropTable name c = (Inr (), c') \<Longrightarrow> cat_run c' (tdel (str_bytes name) t)"
| run_rows: "cat_run c t \<Longrightarrow> moves k (c_pager c) A q B \<Longrightarrow> A \<inter> set (pages t) = {} \<Longrightarrow>
    pager_owned (c_pager c) (A \<union> set (pages t)) \<Longrightarrow> cat_run (c\<lparr>c_pager := q\<rparr>) t"
| run_restart: "cat_run c t \<Longrightarrow> Open (fdata (c_pager c)) = Inr p \<Longrightarrow> catalog_Open p = (Inr c', p') \<Longrightarrow> cat_run c' t"

lemma cat_inv_tree:
  assumes "cat_inv c t" "btree_at (c_pager c) u" "root_of u = c_sysRoot c"
  shows "cat_inv c u"
  using assms btree_entries_unique [of "c_pager c" t u] cat_invD(1,2) [OF assms(1)] by (simp add: cat_inv_def)

lemma persist_tables: "persist td (c\<lparr>c_tables := ts\<rparr>) = apsnd (\<lambda>d. d\<lparr>c_tables := ts\<rparr>) (persist td c)"
  by (auto simp: persist_def on_pager_def bind_def split: prod.splits sum.splits)

lemma reopen:
  assumes "cat_inv c t"
  obtains p c' where "Open (fdata (c_pager c)) = Inr p" "p = c_pager c\<lparr>durable := fdata (c_pager c)\<rparr>"
    "catalog_Open p = (Inr c', p)" "c_pager c' = p" "Table c' = Table c" "cat_inv c' t"
proof -
  let ?p = "c_pager c\<lparr>durable := fdata (c_pager c)\<rparr>"
  obtain fl where "pager_inv (c_pager c) fl"
    using btree_atD(4) [OF cat_invD(1) [OF assms]] by (auto simp: pager_owned_def)
  then have o: "Open (fdata (c_pager c)) = Inr ?p" by (rule Open_reopen)
  have inv: "cat_inv (c\<lparr>c_pager := ?p\<rparr>) t" by (rule cat_inv_durable [OF assms])
  obtain ts where ts: "catalog_Open ?p = (Inr \<lparr>c_pager = ?p, c_sysRoot = c_sysRoot c, c_tables = ts\<rparr>, ?p)"
    "map_of ts = Table (c\<lparr>c_pager := ?p\<rparr>)"
    using catalog_Open_loads [OF inv] by auto
  have "cat_inv \<lparr>c_pager = ?p, c_sysRoot = c_sysRoot c, c_tables = ts\<rparr> t"
    using inv ts(2) by (simp add: cat_inv_def Table_def)
  then show thesis
    using that [OF o refl ts(1)] ts(2) unfolding Table_def fun_eq_iff by simp
qed

lemma cat_run_inv: "cat_run c t \<Longrightarrow> cat_inv c t"
proof (induction rule: cat_run.induct)
  case (run_new c p)
  have "catalog_root new_pager = 0" by (simp add: new_pager_def)
  from catalog_Open_new [OF owned_new_pager(1,2) this] obtain c' pid where
    "catalog_Open new_pager = (Inr c', c_pager c')" "cat_inv c' (GLeaf pid [])" by metis
  then show ?case using run_new cat_invD(2) [of c' "GLeaf pid []"] by simp
next
  case (run_create c t name cols b td c' t')
  then have "Table c name = None" by (auto simp: CreateTable_def split: if_splits)
  from CreateTable_inv [OF run_create.IH this run_create(2-4)] obtain d u r where
    "CreateTable name cols c = (Inr (new_table name cols r), d)" "cat_inv d u" by metis
  then have "cat_inv c' u" using run_create(5) by simp
  from cat_inv_tree [OF this run_create(6,7)] show ?case .
next
  case (run_save c t td b c' t')
  obtain d u where d: "persist td c = (Inr (), d)" "cat_inv (with_table td d) u" "c_tables d = c_tables c"
    using persist_inv [OF run_save.IH run_save(2,3)] by metis
  have "c' = with_table td d"
    using run_save(4) d(1,3) by (simp add: SaveTable_def with_table_def persist_tables)
  then have "cat_inv c' u" using d(2) by simp
  from cat_inv_tree [OF this run_save(5,6)] show ?case .
next
  case (run_drop c t name c')
  then obtain td where "Table c name = Some td" by (cases "Table c name") (auto simp: DropTable_def)
  from DropTable_inv [OF run_drop.IH this] show ?case using run_drop(2) by (metis prod.inject)
next
  case (run_rows c t k A q B)
  have "btree_at q t" by (rule moves_btree_frame [OF run_rows(2) cat_invD(1) [OF run_rows.IH] run_rows(4,3)])
  then show ?case using run_rows.IH run_rows(2) by (simp add: cat_inv_def Table_def moves_def)
next
  case (run_restart c t p c' p')
  from reopen [OF run_restart.IH] show ?case using run_restart(2,3) by (metis prod.inject sum.inject(2))
qed

text \<open>
  C26: the schemas survive a restart.  In a run of tables created and saved, where both succeed and find a system tree that takes them
  without losing entries (\<open>put_ready\<close>, with fields that hold the schema), tables dropped,
  rows written in between and earlier restarts, opening the file again succeeds
  and finds under every name the schema that was there.
\<close>

theorem Catalog_restart:
  assumes "cat_run c t"
  shows "\<exists>p c'. Open (fdata (c_pager c)) = Inr p \<and> catalog_Open p = (Inr c', p) \<and> Table c' = Table c"
  using reopen [OF cat_run_inv [OF assms]] by metis

text \<open>
  C27: in such a run the catalog is a map from names to schemas.  \<^verbatim>\<open>CreateTable\<close> refuses a name in
  use and changes nothing; otherwise, when the schema fits its fields, \<open>put_ready\<close> admits it and the file has pages left, it adds the schema, with
  an empty tree for the rows.  \<^verbatim>\<open>DropTable\<close> refuses an unknown name and changes nothing, and removes a known one.
\<close>

theorem Catalog_refines_map:
  assumes "cat_run c t"
  shows "(Table c name \<noteq> None \<longrightarrow> CreateTable name cols c = (Inl (ErrTableExists name), c)) \<and>
    (Table c name = None \<and> td_ok (new_table name cols 0) \<and> height t + 2 < pager_room (c_pager c) \<and>
       put_ready b (str_bytes name) (encodeTableDef (new_table name cols 0)) (c_pager c) t \<longrightarrow>
       (\<exists>c' root. CreateTable name cols c = (Inr (new_table name cols root), c') \<and>
          Table c' = (Table c)(name \<mapsto> new_table name cols root) \<and> btree_holds (c_pager c') root [])) \<and>
    (Table c name = None \<longrightarrow> DropTable name c = (Inl (ErrTableMissing name), c)) \<and>
    (Table c name \<noteq> None \<longrightarrow> (\<exists>c'. DropTable name c = (Inr (), c') \<and> Table c' = (Table c)(name := None)))"
proof (intro conjI impI)
  note inv = cat_run_inv [OF assms]
  show "CreateTable name cols c = (Inl (ErrTableExists name), c)" if "Table c name \<noteq> None"
    using that by (simp add: CreateTable_def)
  show "\<exists>c' root. CreateTable name cols c = (Inr (new_table name cols root), c') \<and>
      Table c' = (Table c)(name \<mapsto> new_table name cols root) \<and> btree_holds (c_pager c') root []"
    if "Table c name = None \<and> td_ok (new_table name cols 0) \<and> height t + 2 < pager_room (c_pager c) \<and>
      put_ready b (str_bytes name) (encodeTableDef (new_table name cols 0)) (c_pager c) t"
  proof -
    from that obtain c' root where "CreateTable name cols c = (Inr (new_table name cols root), c')"
      "Table c' = (Table c)(name \<mapsto> new_table name cols root)" "btree_at (c_pager c') (GLeaf root [])"
      using CreateTable_inv [OF inv, of name cols b] by metis
    moreover from this(3) have "btree_holds (c_pager c') root []"
      unfolding btree_holds_def by (metis entries.simps(1) root_of.simps(1))
    ultimately show ?thesis by blast
  qed
  show "DropTable name c = (Inl (ErrTableMissing name), c)" if "Table c name = None"
    using that by (simp add: DropTable_def)
  show "\<exists>c'. DropTable name c = (Inr (), c') \<and> Table c' = (Table c)(name := None)" if "Table c name \<noteq> None"
    using that DropTable_inv [OF inv, of name] by (metis not_None_eq)
qed

text \<open>A new database, and one with a table.\<close>

lemma new_catalog:
  "\<exists>c. catalog_Open new_pager = (Inr c, c_pager c) \<and> cat_run c (GLeaf (c_sysRoot c) []) \<and> Table c = Map.empty \<and>
     page (c_pager c) (c_sysRoot c) = newNodeBuf leafPage \<and> 5 < pager_room (c_pager c)"
proof -
  have "catalog_root new_pager = 0" by (simp add: new_pager_def)
  from catalog_Open_new [OF owned_new_pager(1,2) this] obtain c pid where
    c: "catalog_Open new_pager = (Inr c, c_pager c)" "cat_inv c (GLeaf pid [])" "Table c = Map.empty"
      "page (c_pager c) pid = newNodeBuf leafPage" "shifts 1 new_pager {} (c_pager c) {pid}" by metis
  have "pid = c_sysRoot c" using cat_invD(2) [OF c(2)] by simp
  moreover have "5 < pager_room (c_pager c)"
    using shifts_room [OF c(5)] by (simp add: pager_room_def new_pager_def)
  ultimately show ?thesis using c run_new [OF c(1)] by auto
qed

lemma users_created:
  "\<exists>c root c' t. catalog_Open new_pager = (Inr c, c_pager c) \<and>
     CreateTable ''users'' (tColumns users_table) c = (Inr (new_table ''users'' (tColumns users_table) root), c') \<and>
     Table c' ''users'' = Some (new_table ''users'' (tColumns users_table) root) \<and> cat_run c' t"
proof -
  let ?cols = "tColumns users_table" and ?n = "''users''"
  obtain c where c: "catalog_Open new_pager = (Inr c, c_pager c)" "cat_run c (GLeaf (c_sysRoot c) [])"
    "Table c = Map.empty" "page (c_pager c) (c_sysRoot c) = newNodeBuf leafPage" "5 < pager_room (c_pager c)"
    using new_catalog by blast
  have ok: "td_ok (new_table ?n ?cols 0)" by (simp add: td_ok_def new_table_def users_table_def)
  have len: "length (encodeTableDef (new_table ?n ?cols 0)) \<le> 500"
    by (simp add: encodeTableDef_def new_table_def users_table_def writeString_def column_bytes_def)
  have ready: "put_ready (8 + length (str_bytes ?n)) (str_bytes ?n) (encodeTableDef (new_table ?n ?cols 0)) (c_pager c)
      (GLeaf (c_sysRoot c) [])"
    using put_ready_empty [OF c(4) _ len c(5), of "str_bytes ?n"] by simp
  have room: "height (GLeaf (c_sysRoot c) []) + 2 < pager_room (c_pager c)" using c(5) by simp
  have none: "Table c ?n = None" using c(3) by simp
  from CreateTable_inv [OF cat_run_inv [OF c(2)] none ok ready room] obtain c' t' root where
    c': "CreateTable ?n ?cols c = (Inr (new_table ?n ?cols root), c')" "cat_inv c' t'"
      "Table c' = (Table c)(?n \<mapsto> new_table ?n ?cols root)" by metis
  have "cat_run c' t'"
    by (rule run_create [OF c(2) ok ready room c'(1) cat_invD(1,2) [OF c'(2)]])
  then show ?thesis using c(1) c'(1,3) by auto
qed

theorem Catalog_restart_witness:
  "\<exists>c root c' p d. catalog_Open new_pager = (Inr c, c_pager c) \<and>
     CreateTable ''users'' (tColumns users_table) c = (Inr (new_table ''users'' (tColumns users_table) root), c') \<and>
     Open (fdata (c_pager c')) = Inr p \<and> catalog_Open p = (Inr d, p) \<and>
     Table d ''users'' = Some (new_table ''users'' (tColumns users_table) root)"
  using users_created Catalog_restart by metis

theorem Catalog_refines_map_witness:
  "\<exists>c root c' d. CreateTable ''users'' (tColumns users_table) c = (Inr (new_table ''users'' (tColumns users_table) root), c') \<and>
     CreateTable ''users'' [] c' = (Inl (ErrTableExists ''users''), c') \<and>
     DropTable ''users'' c' = (Inr (), d) \<and> Table d ''users'' = None"
proof -
  obtain c root c' t where
    "CreateTable ''users'' (tColumns users_table) c = (Inr (new_table ''users'' (tColumns users_table) root), c')"
    "Table c' ''users'' = Some (new_table ''users'' (tColumns users_table) root)" "cat_run c' t"
    using users_created by blast
  moreover from this(2,3) obtain d where "CreateTable ''users'' [] c' = (Inl (ErrTableExists ''users''), c')"
    "DropTable ''users'' c' = (Inr (), d)" "Table d = (Table c')(''users'' := None)"
    using Catalog_refines_map [of c' t "''users''" "[]"] by auto
  ultimately show ?thesis by (metis fun_upd_same)
qed

end
