(* ===== verification/Wal.thy ===== *)
theory Wal
  imports Prelude
begin

text \<open>
  The write-ahead log of \<^verbatim>\<open>internal/wal/wal.go\<close>: its records with their checksum, the
  calls that append to it, and the recovery scan that redoes committed and undoes
  abandoned transactions.

  The log file is a byte string with the part of it known to be on disk.  The buffered
  writer is flushed after every record, so nothing stays in it between calls.
  \<^verbatim>\<open>hash/crc32\<close> is CRC-32 in its bit-by-bit form.  The scan hands its operations to a
  callback; the order in which Go ranges over the map of unfinished
  transactions is unspecified and is an argument of the model.
\<close>

section \<open>Records\<close>

type_synonym RecordType = byte

definition RecBegin :: RecordType where "RecBegin = 1"
definition RecPut :: RecordType where "RecPut = 2"
definition RecDelete :: RecordType where "RecDelete = 3"
definition RecCommit :: RecordType where "RecCommit = 4"
definition RecRollback :: RecordType where "RecRollback = 5"

record Op =
  oType :: RecordType
  oTable :: string
  oKey :: bytes
  oVal :: bytes
  oHadPrev :: bool
  oPrevVal :: bytes

definition crc_bit :: "32 word \<Rightarrow> 32 word" where
  "crc_bit r = (if bit r 0 then drop_bit 1 r XOR 0xEDB88320 else drop_bit 1 r)"

definition crc_byte :: "32 word \<Rightarrow> byte \<Rightarrow> 32 word" where
  "crc_byte r b = (crc_bit ^^ 8) (r XOR ucast b)"

definition crc32 :: "bytes \<Rightarrow> 32 word" where
  "crc32 bs = NOT (foldl crc_byte (NOT 0) bs)"

definition chunk16 :: "bytes \<Rightarrow> bytes" where
  "chunk16 b = put_u16 (word_of_nat (length b)) @ b"

definition chunk32 :: "bytes \<Rightarrow> bytes" where
  "chunk32 b = put_u32 (word_of_nat (length b)) @ b"

definition encodeOp :: "string \<Rightarrow> bytes \<Rightarrow> bytes \<Rightarrow> bool \<Rightarrow> bytes \<Rightarrow> bytes" where
  "encodeOp table key newVal hadPrev prevVal =
     chunk16 (str_bytes table) @ chunk32 key @ chunk32 newVal @ [if hadPrev then 1 else 0] @ chunk32 prevVal"

definition readChunk16 :: "bytes \<Rightarrow> (bytes \<times> bytes) result" where
  "readChunk16 b =
     (if length b < 2 then Inl ErrUnexpectedEOF
      else rbind (get_u16 b 0) (\<lambda>w.
        let l = unat w; b = drop 2 b
        in if length b < l then Inl ErrUnexpectedEOF else Inr (take l b, drop l b)))"

definition readChunk32 :: "bytes \<Rightarrow> (bytes \<times> bytes) result" where
  "readChunk32 b =
     (if length b < 4 then Inl ErrUnexpectedEOF
      else rbind (get_u32 b 0) (\<lambda>w.
        let l = unat w; b = drop 4 b
        in if length b < l then Inl ErrUnexpectedEOF else Inr (take l b, drop l b)))"

definition decodeOp :: "bytes \<Rightarrow> (string \<times> bytes \<times> bytes \<times> bool \<times> bytes) result" where
  "decodeOp b =
     rbind (readChunk16 b) (\<lambda>(tb, b).
     rbind (readChunk32 b) (\<lambda>(key, b).
     rbind (readChunk32 b) (\<lambda>(newVal, b).
     if length b < 1 then Inl ErrUnexpectedEOF
     else rbind (elem_at b 0) (\<lambda>flag.
       let hadPrev = (flag = 1); b = drop 1 b
       in rbind (readChunk32 b) (\<lambda>(prevVal, b).
          Inr (bytes_str tb, key, newVal, hadPrev, prevVal))))))"

section \<open>The log file\<close>

record wal =
  wfile :: bytes
  wsynced :: bytes
  wclosed :: bool

definition wal_Open :: "bytes \<Rightarrow> wal" where
  "wal_Open contents = \<lparr>wfile = contents, wsynced = contents, wclosed = False\<rparr>"

definition record_body :: "RecordType \<Rightarrow> uint64 \<Rightarrow> bytes \<Rightarrow> bytes" where
  "record_body typ txnID payload = typ # put_u64 txnID @ payload"

definition record_bytes :: "RecordType \<Rightarrow> uint64 \<Rightarrow> bytes \<Rightarrow> bytes" where
  "record_bytes typ txnID payload =
     (let body = record_body typ txnID payload
      in put_u32 (word_of_nat (length body)) @ body @ put_u32 (crc32 body))"

definition writeRecord :: "RecordType \<Rightarrow> uint64 \<Rightarrow> bytes \<Rightarrow> (wal, unit) sm" where
  "writeRecord typ txnID payload w =
     (if wclosed w then (Inl ErrFileClosed, w)
      else (Inr (), w\<lparr>wfile := wfile w @ record_bytes typ txnID payload\<rparr>))"

definition wal_Sync :: "(wal, unit) sm" where
  "wal_Sync w = (if wclosed w then (Inl ErrFileClosed, w) else (Inr (), w\<lparr>wsynced := wfile w\<rparr>))"

definition wal_Begin :: "uint64 \<Rightarrow> (wal, unit) sm" where
  "wal_Begin txnID = writeRecord RecBegin txnID []"

definition wal_Put :: "uint64 \<Rightarrow> string \<Rightarrow> bytes \<Rightarrow> bytes \<Rightarrow> bool \<Rightarrow> bytes \<Rightarrow> (wal, unit) sm" where
  "wal_Put txnID table key newVal hadPrev prevVal =
     writeRecord RecPut txnID (encodeOp table key newVal hadPrev prevVal)"

definition wal_Delete :: "uint64 \<Rightarrow> string \<Rightarrow> bytes \<Rightarrow> bytes \<Rightarrow> (wal, unit) sm" where
  "wal_Delete txnID table key prevVal = writeRecord RecDelete txnID (encodeOp table key [] True prevVal)"

definition wal_Rollback :: "uint64 \<Rightarrow> (wal, unit) sm" where
  "wal_Rollback txnID = writeRecord RecRollback txnID []"

definition wal_Commit :: "uint64 \<Rightarrow> (wal, unit) sm" where
  "wal_Commit txnID = bind (writeRecord RecCommit txnID []) (\<lambda>_. wal_Sync)"

definition wal_Checkpoint :: "(wal, unit) sm" where
  "wal_Checkpoint w =
     (if wclosed w then (Inl ErrFileClosed, w) else (Inr (), w\<lparr>wfile := [], wsynced := []\<rparr>))"

definition wal_Close :: "(wal, unit) sm" where
  "wal_Close w = (if wclosed w then (Inl ErrFileClosed, w) else (Inr (), w\<lparr>wclosed := True\<rparr>))"

section \<open>Recovery\<close>

text \<open>One record of the scan and the bytes after it; \<open>None\<close> is every way the scan stops.\<close>

definition next_record :: "bytes \<Rightarrow> (RecordType \<times> uint64 \<times> bytes \<times> bytes) option" where
  "next_record b =
     (if length b < 4 then None
      else let bodyLen = be_get (take 4 b); b1 = drop 4 b
      in if length b1 < bodyLen then None
      else let body = take bodyLen b1; b2 = drop bodyLen b1
      in if length b2 < 4 then None
      else let wantCRC = word_of_nat (be_get (take 4 b2)); rest = drop 4 b2
      in if crc32 body \<noteq> wantCRC then None
      else if length body < 9 then None
      else Some (body ! 0, word_of_nat (be_get (take 8 (drop 1 body))), drop 9 body, rest))"

lemma next_record_shorter: "next_record b = Some (typ, txnID, payload, rest) \<Longrightarrow> length rest < length b"
  by (auto simp: next_record_def Let_def split: if_splits)

type_synonym pending = "(uint64 \<times> Op list) list"

definition pending_of :: "uint64 \<Rightarrow> pending \<Rightarrow> Op list" where
  "pending_of txnID pend = (case map_of pend txnID of None \<Rightarrow> [] | Some ops \<Rightarrow> ops)"

definition pending_delete :: "uint64 \<Rightarrow> pending \<Rightarrow> pending" where
  "pending_delete txnID pend = filter (\<lambda>x. fst x \<noteq> txnID) pend"

definition pending_append :: "uint64 \<Rightarrow> Op \<Rightarrow> pending \<Rightarrow> pending" where
  "pending_append txnID op pend = (txnID, pending_of txnID pend @ [op]) # pending_delete txnID pend"

definition applyRedo :: "(Op \<Rightarrow> ('s, unit) sm) \<Rightarrow> Op \<Rightarrow> ('s, unit) sm" where
  "applyRedo apply op =
     (if oType op = RecPut then
        apply \<lparr>oType = RecPut, oTable = oTable op, oKey = oKey op, oVal = oVal op, oHadPrev = False, oPrevVal = []\<rparr>
      else if oType op = RecDelete then
        apply \<lparr>oType = RecDelete, oTable = oTable op, oKey = oKey op, oVal = [], oHadPrev = False, oPrevVal = []\<rparr>
      else ret ())"

definition applyUndo :: "(Op \<Rightarrow> ('s, unit) sm) \<Rightarrow> Op \<Rightarrow> ('s, unit) sm" where
  "applyUndo apply op =
     (if oHadPrev op then
        apply \<lparr>oType = RecPut, oTable = oTable op, oKey = oKey op, oVal = oPrevVal op, oHadPrev = False, oPrevVal = []\<rparr>
      else
        apply \<lparr>oType = RecDelete, oTable = oTable op, oKey = oKey op, oVal = [], oHadPrev = False, oPrevVal = []\<rparr>)"

fun each :: "('a \<Rightarrow> ('s, unit) sm) \<Rightarrow> 'a list \<Rightarrow> ('s, unit) sm" where
  "each f [] = ret ()"
| "each f (x # xs) = bind (f x) (\<lambda>_. each f xs)"

definition replay_step ::
    "(Op \<Rightarrow> ('s, unit) sm) \<Rightarrow> RecordType \<Rightarrow> uint64 \<Rightarrow> bytes \<Rightarrow> pending \<Rightarrow> ('s, pending) sm" where
  "replay_step apply typ txnID payload pend =
     (if typ = RecBegin then ret pend
      else if typ = RecPut \<or> typ = RecDelete then
        (case decodeOp payload of
           Inl _ \<Rightarrow> ret pend
         | Inr (table, key, newVal, hadPrev, prevVal) \<Rightarrow>
             ret (pending_append txnID \<lparr>oType = typ, oTable = table, oKey = key, oVal = newVal,
               oHadPrev = hadPrev, oPrevVal = prevVal\<rparr> pend))
      else if typ = RecRollback then ret (pending_delete txnID pend)
      else if typ = RecCommit then
        bind (each (applyRedo apply) (pending_of txnID pend)) (\<lambda>_. ret (pending_delete txnID pend))
      else ret pend)"

function replay_loop :: "(Op \<Rightarrow> ('s, unit) sm) \<Rightarrow> bytes \<Rightarrow> pending \<Rightarrow> ('s, pending) sm" where
  "replay_loop apply b pend =
     (case next_record b of
        None \<Rightarrow> ret pend
      | Some (typ, txnID, payload, rest) \<Rightarrow>
          bind (replay_step apply typ txnID payload pend) (replay_loop apply rest))"
  by pat_completeness auto
termination by (relation "measure (\<lambda>(_, b, _). length b)") (auto dest: next_record_shorter)

declare replay_loop.simps [simp del]

definition Replay ::
    "(pending \<Rightarrow> pending) \<Rightarrow> bytes option \<Rightarrow> (Op \<Rightarrow> ('s, unit) sm) \<Rightarrow> ('s, unit) sm" where
  "Replay order log apply =
     (case log of
        None \<Rightarrow> ret ()
      | Some b \<Rightarrow> bind (replay_loop apply b []) (\<lambda>pend.
          each (\<lambda>(_, ops). each (applyUndo apply) (rev ops)) (order pend)))"

end
