(* ===== verification/WalScan.thy ===== *)
theory WalScan
  imports Wal
begin

text \<open>
  The scan of the log: records survive encoding and decoding, a record cut short by a
  crash ends the scan without disturbing those before it, and a record in which one
  byte changed is rejected by its checksum.
\<close>

section \<open>Operations\<close>

lemma readChunk16_chunk: "length x < 2 ^ 16 \<Longrightarrow> readChunk16 (chunk16 x @ rest) = Inr (x, rest)"
  using get_mid(1) [of 0 "[]" "word_of_nat (length x)" "x @ rest"]
  by (simp add: readChunk16_def chunk16_def unat_of_nat take_bit_nat_eq_self Let_def)

lemma readChunk32_chunk: "length x < 2 ^ 32 \<Longrightarrow> readChunk32 (chunk32 x @ rest) = Inr (x, rest)"
  using get_mid(2) [of 0 "[]" "word_of_nat (length x)" "x @ rest"]
  by (simp add: readChunk32_def chunk32_def unat_of_nat take_bit_nat_eq_self Let_def)

lemma decode_encode:
  assumes "length table < 2 ^ 16" "length key < 2 ^ 32" "length newVal < 2 ^ 32" "length prevVal < 2 ^ 32"
  shows "decodeOp (encodeOp table key newVal hadPrev prevVal) = Inr (table, key, newVal, hadPrev, prevVal)"
proof -
  have "readChunk32 (chunk32 prevVal) = Inr (prevVal, [])" using readChunk32_chunk [of prevVal "[]"] assms by simp
  then show ?thesis
    using assms by (simp add: decodeOp_def encodeOp_def readChunk16_chunk readChunk32_chunk Let_def)
qed

text \<open>No payload makes \<^verbatim>\<open>decodeOp\<close> read out of range, so the scan passes over errors only.\<close>

lemma readChunk_no_panic: "readChunk16 b \<noteq> Inl Panic" "readChunk32 b \<noteq> Inl Panic"
  using get_Inr [of 0 b] by (auto simp: readChunk16_def readChunk32_def Let_def rbind_def split: sum.splits)

lemma decodeOp_no_panic: "decodeOp b \<noteq> Inl Panic"
  using readChunk_no_panic by (auto simp: decodeOp_def Let_def rbind_def split: sum.splits dest: sym)

lemma length_encodeOp:
  "length (encodeOp table key newVal hadPrev prevVal) = 15 + length table + length key + length newVal + length prevVal"
  by (simp add: encodeOp_def chunk16_def chunk32_def)

section \<open>Records\<close>

lemma length_record_body [simp]: "length (record_body typ txnID payload) = 9 + length payload"
  by (simp add: record_body_def)

lemma length_record_bytes [simp]: "length (record_bytes typ txnID payload) = 17 + length payload"
  by (simp add: record_bytes_def Let_def)

lemma record_body_parts:
  "record_body typ txnID payload ! 0 = typ" "drop 9 (record_body typ txnID payload) = payload"
  "word_of_nat (be_get (take 8 (drop (Suc 0) (record_body typ txnID payload)))) = txnID"
  by (simp_all add: record_body_def be_simps)

lemma be_get_u32: "n < 2 ^ 32 \<Longrightarrow> be_get (put_u32 (word_of_nat n)) = n"
  by (simp add: put_u32_def unat_of_nat take_bit_nat_eq_self be_get_put)

lemma next_record_bytes:
  assumes "length payload + 9 < 2 ^ 32"
  shows "next_record (record_bytes typ txnID payload @ rest) = Some (typ, txnID, payload, rest)"
  using assms be_get_u32 [of "9 + length payload"]
  by (simp add: next_record_def record_bytes_def Let_def record_body_parts be_simps)

text \<open>A strict prefix of a record ends the scan: the file is shorter than the record says.\<close>

lemma next_record_torn:
  assumes "length payload + 9 < 2 ^ 32" "n < length (record_bytes typ txnID payload)"
  shows "next_record (take n (record_bytes typ txnID payload)) = None"
proof (cases "n < 4")
  case True
  then show ?thesis by (simp add: next_record_def)
next
  case False
  let ?body = "record_body typ txnID payload"
  let ?r = "take n (record_bytes typ txnID payload)"
  have l: "length ?r = n" using assms(2) by simp
  have "take 4 ?r = put_u32 (word_of_nat (length ?body))" using False by (simp add: record_bytes_def Let_def)
  then have b: "be_get (take 4 ?r) = length ?body" using be_get_u32 [of "length ?body"] assms(1) by simp
  have "n < 17 + length payload" using assms(2) by simp
  then show ?thesis using False l b by (simp add: next_record_def Let_def)
qed

lemma next_record_end: "next_record [] = None"
  by (simp add: next_record_def)

section \<open>The checksum\<close>

text \<open>
  Every step of the register can be run backwards, so two byte strings of one length that
  differ in one byte leave different registers.
\<close>

lemma crc_bit_top: "bit (crc_bit r) 31 \<longleftrightarrow> bit r 0"
  using bit_imp_le_length [of r 32] by (auto simp: crc_bit_def bit_simps)

lemma drop_bit_1_inj:
  fixes r s :: "32 word"
  assumes "drop_bit 1 r = drop_bit 1 s" "bit r 0 = bit s 0"
  shows "r = s"
proof (rule bit_word_eqI)
  fix n assume "n < LENGTH(32)"
  show "bit r n = bit s n"
  proof (cases n)
    case 0
    then show ?thesis using assms(2) by simp
  next
    case (Suc m)
    have "bit (drop_bit 1 r) m = bit (drop_bit 1 s) m" using assms(1) by simp
    then show ?thesis using Suc by (simp add: bit_simps)
  qed
qed

lemma xor_cancel: "r XOR x = r XOR y \<longleftrightarrow> x = y" "x XOR r = y XOR r \<longleftrightarrow> x = y" for r x y :: "32 word"
  by (metis xor.assoc xor_self_eq xor.left_neutral) (metis xor.assoc xor_self_eq xor.right_neutral)

lemma crc_bit_inj: "crc_bit r = crc_bit s \<Longrightarrow> r = s"
proof -
  assume e: "crc_bit r = crc_bit s"
  then have b: "bit r 0 = bit s 0" using crc_bit_top by metis
  then have "drop_bit 1 r = drop_bit 1 s"
    using e by (cases "bit r 0") (simp_all add: crc_bit_def xor_cancel)
  then show ?thesis using b by (rule drop_bit_1_inj)
qed

lemma crc_bits_inj: "(crc_bit ^^ n) r = (crc_bit ^^ n) s \<Longrightarrow> r = s"
  by (induction n) (auto dest: crc_bit_inj)

lemma crc_byte_inj_reg: "crc_byte r b = crc_byte s b \<Longrightarrow> r = s"
  unfolding crc_byte_def by (drule crc_bits_inj) (simp add: xor_cancel)

lemma ucast_8_32_inj: "(ucast b :: 32 word) = ucast c \<longleftrightarrow> b = c" for b c :: byte
proof
  assume e: "(ucast b :: 32 word) = ucast c"
  show "b = c"
  proof (rule bit_word_eqI)
    fix n assume "n < LENGTH(8)"
    then show "bit b n = bit c n" using arg_cong [OF e, of "\<lambda>w. bit w n"] by (simp add: bit_simps)
  qed
qed simp

lemma crc_byte_inj_byte: "crc_byte r b = crc_byte r c \<Longrightarrow> b = c"
  unfolding crc_byte_def by (drule crc_bits_inj) (simp add: xor_cancel ucast_8_32_inj)

lemma crc_fold_inj: "foldl crc_byte r bs = foldl crc_byte s bs \<Longrightarrow> r = s"
  by (induction bs arbitrary: r s) (auto dest: crc_byte_inj_reg)

lemma crc32_one_byte:
  assumes "a \<noteq> b"
  shows "crc32 (xs @ a # ys) \<noteq> crc32 (xs @ b # ys)"
proof
  assume "crc32 (xs @ a # ys) = crc32 (xs @ b # ys)"
  then have "foldl crc_byte (crc_byte (foldl crc_byte (NOT 0) xs) a) ys =
      foldl crc_byte (crc_byte (foldl crc_byte (NOT 0) xs) b) ys"
    by (simp add: crc32_def)
  from crc_byte_inj_byte [OF crc_fold_inj [OF this]] assms show False by simp
qed

lemma next_record_corrupt:
  assumes "length payload + 9 < 2 ^ 32" "record_body typ txnID payload = xs @ a # ys" "b \<noteq> a"
  shows "next_record (put_u32 (word_of_nat (length (xs @ a # ys))) @ (xs @ b # ys) @
    put_u32 (crc32 (xs @ a # ys)) @ rest) = None"
proof -
  have l: "length (xs @ b # ys) < 2 ^ 32" using arg_cong [OF assms(2), of length] assms(1) by simp
  have "crc32 (xs @ b # ys) \<noteq> crc32 (xs @ a # ys)" by (rule crc32_one_byte [OF assms(3)])
  then show ?thesis using be_get_u32 [OF l] by (simp add: next_record_def Let_def be_simps)
qed

end
