(* ===== verification/WalRecovery.thy ===== *)
theory WalRecovery
  imports WalScan "HOL-Library.Multiset"
begin

text \<open>
  Recovery from the log.  A log is a list of records, written by the calls of
  \<^verbatim>\<open>wal.go\<close>; transactions hold the store's lock from begin to end, so the records of
  one transaction are together.  The store that recovery works on is a map from
  target and key to value.
\<close>

section \<open>Logs\<close>

datatype logrec =
    LBegin uint64
  | LPut uint64 string bytes bytes bool bytes
  | LDelete uint64 string bytes bytes
  | LCommit uint64
  | LRollback uint64

primrec append_rec :: "logrec \<Rightarrow> (wal, unit) sm" where
  "append_rec (LBegin i) = wal_Begin i"
| "append_rec (LPut i t k v hp pv) = wal_Put i t k v hp pv"
| "append_rec (LDelete i t k pv) = wal_Delete i t k pv"
| "append_rec (LCommit i) = wal_Commit i"
| "append_rec (LRollback i) = wal_Rollback i"

primrec rec_bytes :: "logrec \<Rightarrow> bytes" where
  "rec_bytes (LBegin i) = record_bytes RecBegin i []"
| "rec_bytes (LPut i t k v hp pv) = record_bytes RecPut i (encodeOp t k v hp pv)"
| "rec_bytes (LDelete i t k pv) = record_bytes RecDelete i (encodeOp t k [] True pv)"
| "rec_bytes (LCommit i) = record_bytes RecCommit i []"
| "rec_bytes (LRollback i) = record_bytes RecRollback i []"

primrec rec_ok :: "logrec \<Rightarrow> bool" where
  "rec_ok (LBegin i) = True"
| "rec_ok (LPut i t k v hp pv) = (length t < 2 ^ 16 \<and> length k + length v + length pv < 2 ^ 31)"
| "rec_ok (LDelete i t k pv) = (length t < 2 ^ 16 \<and> length k + length pv < 2 ^ 31)"
| "rec_ok (LCommit i) = True"
| "rec_ok (LRollback i) = True"

definition log_bytes :: "logrec list \<Rightarrow> bytes" where
  "log_bytes rs = concat (map rec_bytes rs)"

lemma append_rec_file:
  "\<not> wclosed w \<Longrightarrow> \<exists>w'. append_rec r w = (Inr (), w') \<and> wfile w' = wfile w @ rec_bytes r \<and> \<not> wclosed w' \<and>
     ((\<exists>i. r = LCommit i) \<longrightarrow> wsynced w' = wfile w')"
  by (cases r) (auto simp: wal_Begin_def wal_Put_def wal_Delete_def wal_Commit_def wal_Rollback_def writeRecord_def
      wal_Sync_def bind_def)

text \<open>The scan on records.\<close>

primrec rec_step :: "(Op \<Rightarrow> ('s, unit) sm) \<Rightarrow> logrec \<Rightarrow> pending \<Rightarrow> ('s, pending) sm" where
  "rec_step apply (LBegin i) pend = ret pend"
| "rec_step apply (LPut i t k v hp pv) pend = ret (pending_append i
     \<lparr>oType = RecPut, oTable = t, oKey = k, oVal = v, oHadPrev = hp, oPrevVal = pv\<rparr> pend)"
| "rec_step apply (LDelete i t k pv) pend = ret (pending_append i
     \<lparr>oType = RecDelete, oTable = t, oKey = k, oVal = [], oHadPrev = True, oPrevVal = pv\<rparr> pend)"
| "rec_step apply (LCommit i) pend =
     bind (each (applyRedo apply) (pending_of i pend)) (\<lambda>_. ret (pending_delete i pend))"
| "rec_step apply (LRollback i) pend = ret (pending_delete i pend)"

primrec replay_recs :: "(Op \<Rightarrow> ('s, unit) sm) \<Rightarrow> logrec list \<Rightarrow> pending \<Rightarrow> ('s, pending) sm" where
  "replay_recs apply [] pend = ret pend"
| "replay_recs apply (r # rs) pend = bind (rec_step apply r pend) (replay_recs apply rs)"

lemma rec_types [simp]:
  "RecBegin \<noteq> RecPut" "RecBegin \<noteq> RecDelete" "RecBegin \<noteq> RecCommit" "RecBegin \<noteq> RecRollback"
  "RecPut \<noteq> RecBegin" "RecPut \<noteq> RecDelete" "RecPut \<noteq> RecCommit" "RecPut \<noteq> RecRollback"
  "RecDelete \<noteq> RecBegin" "RecDelete \<noteq> RecPut" "RecDelete \<noteq> RecCommit" "RecDelete \<noteq> RecRollback"
  "RecCommit \<noteq> RecBegin" "RecCommit \<noteq> RecPut" "RecCommit \<noteq> RecDelete" "RecCommit \<noteq> RecRollback"
  "RecRollback \<noteq> RecBegin" "RecRollback \<noteq> RecPut" "RecRollback \<noteq> RecDelete" "RecRollback \<noteq> RecCommit"
  by (simp_all add: RecBegin_def RecPut_def RecDelete_def RecCommit_def RecRollback_def)

lemma rec_as_record:
  assumes "rec_ok r"
  obtains ty i payload where "rec_bytes r = record_bytes ty i payload" "length payload + 9 < 2 ^ 32"
    "\<And>apply :: Op \<Rightarrow> ('s, unit) sm. replay_step apply ty i payload = rec_step apply r"
proof (cases r)
  case (LPut i t k v hp pv)
  with assms show thesis
    by (intro that [of RecPut i "encodeOp t k v hp pv"])
      (auto simp: length_encodeOp replay_step_def decode_encode fun_eq_iff)
next
  case (LDelete i t k pv)
  with assms show thesis
    by (intro that [of RecDelete i "encodeOp t k [] True pv"])
      (auto simp: length_encodeOp replay_step_def decode_encode fun_eq_iff)
next
  case (LBegin i)
  then show thesis by (intro that [of RecBegin i "[]"]) (auto simp: replay_step_def fun_eq_iff)
next
  case (LCommit i)
  then show thesis by (intro that [of RecCommit i "[]"]) (auto simp: replay_step_def fun_eq_iff)
next
  case (LRollback i)
  then show thesis by (intro that [of RecRollback i "[]"]) (auto simp: replay_step_def fun_eq_iff)
qed

lemma replay_loop_log:
  fixes f :: "Op \<Rightarrow> ('s, unit) sm"
  assumes "next_record tail = None"
  shows "\<forall>r\<in>set rs. rec_ok r \<Longrightarrow> replay_loop f (log_bytes rs @ tail) pend = replay_recs f rs pend"
proof (induction rs arbitrary: pend)
  case Nil
  then show ?case using assms by (simp add: log_bytes_def replay_loop.simps)
next
  case (Cons r rs)
  obtain ty i payload where r: "rec_bytes r = record_bytes ty i payload" "length payload + 9 < 2 ^ 32"
    "\<And>apply :: Op \<Rightarrow> ('s, unit) sm. replay_step apply ty i payload = rec_step apply r"
    using rec_as_record [of r] Cons.prems by auto
  have "replay_loop f (log_bytes rs @ tail) = replay_recs f rs"
    using Cons by (auto simp: fun_eq_iff)
  moreover have "log_bytes (r # rs) @ tail = record_bytes ty i payload @ (log_bytes rs @ tail)"
    by (simp add: log_bytes_def r(1))
  ultimately show ?case
    using next_record_bytes [OF r(2)]
    by (simp add: replay_loop.simps [of f "record_bytes ty i payload @ (log_bytes rs @ tail)"] r(3))
qed

lemma Replay_log:
  assumes "\<forall>r\<in>set rs. rec_ok r" "next_record tail = None"
  shows "Replay order (Some (log_bytes rs @ tail)) apply =
    bind (replay_recs apply rs []) (\<lambda>pend. each (\<lambda>(_, ops). each (applyUndo apply) (rev ops)) (order pend))"
  by (simp add: Replay_def replay_loop_log [OF assms(2,1)])

section \<open>Transactions\<close>

type_synonym db = "string \<times> bytes \<Rightarrow> bytes option"
type_synonym change = "(string \<times> bytes) \<times> bytes option"

definition db_apply :: "Op \<Rightarrow> (db, unit) sm" where
  "db_apply op \<sigma> = (Inr (), \<sigma>((oTable op, oKey op) := (if oType op = RecPut then Some (oVal op) else None)))"

fun perform :: "db \<Rightarrow> change list \<Rightarrow> db" where
  "perform \<sigma> [] = \<sigma>"
| "perform \<sigma> ((x, v) # cs) = perform (\<sigma>(x := v)) cs"

text \<open>
  What a transaction logs: a put with the value it replaces, a deletion of a key that is
  there with the value it removes.
\<close>

fun logged :: "uint64 \<Rightarrow> db \<Rightarrow> change \<Rightarrow> logrec" where
  "logged i \<sigma> ((t, k), Some v) = LPut i t k v (\<sigma> (t, k) \<noteq> None) (case \<sigma> (t, k) of None \<Rightarrow> [] | Some pv \<Rightarrow> pv)"
| "logged i \<sigma> ((t, k), None) = LDelete i t k (case \<sigma> (t, k) of None \<Rightarrow> [] | Some pv \<Rightarrow> pv)"

fun log_changes :: "uint64 \<Rightarrow> db \<Rightarrow> change list \<Rightarrow> logrec list" where
  "log_changes i \<sigma> [] = []"
| "log_changes i \<sigma> ((x, v) # cs) = logged i \<sigma> (x, v) # log_changes i (\<sigma>(x := v)) cs"

fun changes_ok :: "db \<Rightarrow> change list \<Rightarrow> bool" where
  "changes_ok \<sigma> [] = True"
| "changes_ok \<sigma> ((x, v) # cs) = ((v = None \<longrightarrow> \<sigma> x \<noteq> None) \<and> changes_ok (\<sigma>(x := v)) cs)"

record xact =
  x_id :: uint64
  x_changes :: "change list"
  x_commit :: bool

definition after :: "db \<Rightarrow> xact \<Rightarrow> db" where
  "after \<sigma> x = (if x_commit x then perform \<sigma> (x_changes x) else \<sigma>)"

definition log_xact :: "db \<Rightarrow> xact \<Rightarrow> logrec list" where
  "log_xact \<sigma> x = LBegin (x_id x) # log_changes (x_id x) \<sigma> (x_changes x) @
     [if x_commit x then LCommit (x_id x) else LRollback (x_id x)]"

fun log_hist :: "db \<Rightarrow> xact list \<Rightarrow> logrec list" where
  "log_hist \<sigma> [] = []"
| "log_hist \<sigma> (x # xs) = log_xact \<sigma> x @ log_hist (after \<sigma> x) xs"

fun hist_ok :: "db \<Rightarrow> xact list \<Rightarrow> bool" where
  "hist_ok \<sigma> [] = True"
| "hist_ok \<sigma> (x # xs) = (changes_ok \<sigma> (x_changes x) \<and> hist_ok (after \<sigma> x) xs)"

definition committed :: "db \<Rightarrow> xact list \<Rightarrow> db" where
  "committed \<sigma> xs = foldl after \<sigma> xs"

definition touched :: "change list \<Rightarrow> (string \<times> bytes) set" where
  "touched cs = fst ` set cs"

section \<open>Redo and undo\<close>

lemma each_append: "each f (xs @ ys) s = bind (each f xs) (\<lambda>_. each f ys) s"
  by (induction xs arbitrary: s) (auto simp: bind_def split: sum.splits prod.splits)

lemma replay_recs_append:
  "replay_recs apply (rs @ ss) pend s = bind (replay_recs apply rs pend) (replay_recs apply ss) s"
  by (induction rs arbitrary: pend s) (auto simp: bind_def split: sum.splits prod.splits)

fun op_of :: "db \<Rightarrow> change \<Rightarrow> Op" where
  "op_of \<sigma> ((t, k), v) = \<lparr>oType = (if v = None then RecDelete else RecPut), oTable = t, oKey = k,
     oVal = (case v of None \<Rightarrow> [] | Some w \<Rightarrow> w), oHadPrev = (v = None \<or> \<sigma> (t, k) \<noteq> None),
     oPrevVal = (case \<sigma> (t, k) of None \<Rightarrow> [] | Some pv \<Rightarrow> pv)\<rparr>"

fun ops_of :: "db \<Rightarrow> change list \<Rightarrow> Op list" where
  "ops_of \<sigma> [] = []"
| "ops_of \<sigma> ((x, v) # cs) = op_of \<sigma> (x, v) # ops_of (\<sigma>(x := v)) cs"

definition pend1 :: "uint64 \<Rightarrow> Op list \<Rightarrow> pending" where
  "pend1 i ops = (if ops = [] then [] else [(i, ops)])"

lemma pend1_simps [simp]:
  "pending_append i op (pend1 i ops) = pend1 i (ops @ [op])" "pending_of i (pend1 i ops) = ops"
  "pending_delete i (pend1 i ops) = []" "pend1 i [] = []"
  by (simp_all add: pend1_def pending_append_def pending_of_def pending_delete_def)

lemma rec_step_logged: "rec_step apply (logged i \<sigma> c) pend s = (Inr (pending_append i (op_of \<sigma> c) pend), s)"
  by (cases c; cases "fst c"; cases "snd c") auto

lemma replay_changes:
  "replay_recs apply (log_changes i \<sigma> cs) (pend1 i ops) s = (Inr (pend1 i (ops @ ops_of \<sigma> cs)), s)"
proof (induction cs arbitrary: \<sigma> ops)
  case (Cons c cs)
  obtain x v where c: "c = (x, v)" by fastforce
  have "replay_recs apply (log_changes i (\<sigma>(x := v)) cs) (pend1 i (ops @ [op_of \<sigma> (x, v)])) s =
      (Inr (pend1 i ((ops @ [op_of \<sigma> (x, v)]) @ ops_of (\<sigma>(x := v)) cs)), s)" by (rule Cons.IH)
  then show ?case using c by (simp add: bind_def rec_step_logged)
qed simp

lemma redo_changes: "each (applyRedo db_apply) (ops_of \<sigma> cs) \<tau> = (Inr (), perform \<tau> cs)"
proof (induction cs arbitrary: \<sigma> \<tau>)
  case (Cons c cs)
  obtain t k v where c: "c = ((t, k), v)" by (metis prod.exhaust)
  have "each (applyRedo db_apply) (ops_of (\<sigma>((t, k) := v)) cs) (\<tau>((t, k) := v)) = (Inr (), perform (\<tau>((t, k) := v)) cs)"
    by (rule Cons.IH)
  moreover have "applyRedo db_apply (op_of \<sigma> ((t, k), v)) \<tau> = (Inr (), \<tau>((t, k) := v))"
    by (cases v) (auto simp: applyRedo_def db_apply_def)
  ultimately show ?case using c by (simp add: bind_def)
qed simp

lemma undo_changes:
  "changes_ok \<sigma> cs \<Longrightarrow> each (applyUndo db_apply) (rev (ops_of \<sigma> cs)) \<tau> =
     (Inr (), \<lambda>x. if x \<in> touched cs then \<sigma> x else \<tau> x)"
proof (induction cs arbitrary: \<sigma> \<tau>)
  case (Cons c cs)
  obtain t k v where c: "c = ((t, k), v)" by (metis prod.exhaust)
  let ?\<sigma> = "\<sigma>((t, k) := v)" and ?\<tau> = "\<lambda>x. if x \<in> touched cs then (\<sigma>((t, k) := v)) x else \<tau> x"
  have "each (applyUndo db_apply) (rev (ops_of ?\<sigma> cs)) \<tau> = (Inr (), ?\<tau>)"
  proof (rule Cons.IH)
    show "changes_ok ?\<sigma> cs" using Cons.prems unfolding c changes_ok.simps by (rule conjunct2)
  qed
  moreover have "applyUndo db_apply (op_of \<sigma> ((t, k), v)) ?\<tau> = (Inr (), ?\<tau>((t, k) := \<sigma> (t, k)))"
    using Cons.prems c by (cases "\<sigma> (t, k)") (auto simp: applyUndo_def db_apply_def)
  moreover have "?\<tau>((t, k) := \<sigma> (t, k)) = (\<lambda>x. if x \<in> touched (c # cs) then \<sigma> x else \<tau> x)"
    using c by (auto simp: touched_def fun_eq_iff)
  ultimately show ?case using c by (simp add: each_append bind_def)
qed (simp add: touched_def)

lemma replay_xact: "replay_recs db_apply (log_xact \<sigma> x) [] \<tau> = (Inr [], after \<tau> x)"
  using replay_changes [of db_apply "x_id x" \<sigma> "x_changes x" "[]" \<tau>]
  by (simp add: log_xact_def replay_recs_append bind_def redo_changes after_def)

lemma replay_hist: "replay_recs db_apply (log_hist \<sigma> xs) [] \<tau> = (Inr [], committed \<tau> xs)"
proof (induction xs arbitrary: \<sigma> \<tau>)
  case (Cons x xs)
  then show ?case by (simp add: replay_recs_append bind_def replay_xact committed_def)
qed (simp add: committed_def)

text \<open>The keys the committed transactions wrote come out the same from any state.\<close>

definition committed_keys :: "xact list \<Rightarrow> (string \<times> bytes) set" where
  "committed_keys xs = (\<Union>x\<in>set xs. if x_commit x then touched (x_changes x) else {})"

lemma perform_value: "perform \<tau> cs x = (if x \<in> touched cs then perform \<sigma> cs x else \<tau> x)"
proof (induction cs arbitrary: \<sigma> \<tau>)
  case (Cons c cs)
  obtain y v where c: "c = (y, v)" by fastforce
  have 1: "perform (\<tau>(y := v)) cs x = (if x \<in> touched cs then perform (\<sigma>(y := v)) cs x else (\<tau>(y := v)) x)"
    and 2: "perform (\<sigma>(y := v)) cs x = (if x \<in> touched cs then perform (\<sigma>(y := v)) cs x else (\<sigma>(y := v)) x)"
    by (rule Cons.IH)+
  show ?case
  proof (cases "x \<in> touched cs")
    case True
    then show ?thesis using 1 c by (simp add: touched_def)
  next
    case False
    then show ?thesis using 1 2 c by (auto simp: touched_def)
  qed
qed (simp add: touched_def)

lemma after_value:
  "after \<tau> x y = (if y \<in> committed_keys [x] then after \<sigma> x y else \<tau> y)"
  using perform_value [of \<tau> "x_changes x" y \<sigma>] by (simp add: after_def committed_keys_def)

lemma committed_value:
  "committed \<tau> xs y = (if y \<in> committed_keys xs then committed \<sigma> xs y else \<tau> y)"
proof (induction xs arbitrary: \<sigma> \<tau>)
  case (Cons x xs)
  have k: "y \<in> committed_keys (x # xs) \<longleftrightarrow> y \<in> committed_keys [x] \<or> y \<in> committed_keys xs"
    by (auto simp: committed_keys_def)
  have 1: "committed (after \<tau> x) xs y = (if y \<in> committed_keys xs then committed (after \<sigma> x) xs y else after \<tau> x y)"
    and 2: "committed (after \<sigma> x) xs y = (if y \<in> committed_keys xs then committed (after \<sigma> x) xs y else after \<sigma> x y)"
    by (rule Cons.IH)+
  show ?case
  proof (cases "y \<in> committed_keys xs")
    case True
    then show ?thesis using 1 k by (simp add: committed_def)
  next
    case False
    then show ?thesis using 1 2 k after_value [of \<tau> x y \<sigma>] by (simp add: committed_def)
  qed
qed (simp add: committed_def committed_keys_def)

text \<open>
  The log at a crash: finished transactions and the records of one that did not finish.
\<close>

definition crash_log :: "db \<Rightarrow> xact list \<Rightarrow> (uint64 \<times> change list) option \<Rightarrow> logrec list" where
  "crash_log \<sigma> xs open_txn = log_hist \<sigma> xs @
     (case open_txn of None \<Rightarrow> [] | Some (i, cs) \<Rightarrow> LBegin i # log_changes i (committed \<sigma> xs) cs)"

definition open_changes :: "(uint64 \<times> change list) option \<Rightarrow> change list" where
  "open_changes open_txn = (case open_txn of None \<Rightarrow> [] | Some (i, cs) \<Rightarrow> cs)"

lemma replay_crash_log:
  "\<exists>i. replay_recs db_apply (crash_log \<sigma> xs open_txn) [] \<tau> =
     (Inr (pend1 i (ops_of (committed \<sigma> xs) (open_changes open_txn))), committed \<tau> xs)"
proof (cases open_txn)
  case (Some ics)
  then obtain i cs where "open_txn = Some (i, cs)" by (cases ics) auto
  then show ?thesis
    using replay_changes [of db_apply i "committed \<sigma> xs" cs "[]"]
    by (auto simp: crash_log_def open_changes_def replay_recs_append replay_hist bind_def)
qed (auto simp: crash_log_def open_changes_def replay_hist)

text \<open>
  Recovery from any state of the trees: the keys that committed and unfinished transactions of the log wrote get their
  committed values, every other key stays as it was found.
\<close>

lemma replay_any:
  assumes "\<forall>r\<in>set (crash_log \<sigma> xs open_txn). rec_ok r" "next_record tail = None"
    and "\<And>p. mset (order p) = mset p" "changes_ok (committed \<sigma> xs) (open_changes open_txn)"
  shows "Replay order (Some (log_bytes (crash_log \<sigma> xs open_txn) @ tail)) db_apply \<tau> =
    (Inr (), \<lambda>x. if x \<in> committed_keys xs \<union> touched (open_changes open_txn) then committed \<sigma> xs x else \<tau> x)"
proof -
  let ?cs = "open_changes open_txn" and ?\<sigma> = "committed \<sigma> xs"
  obtain i where i: "replay_recs db_apply (crash_log \<sigma> xs open_txn) [] \<tau> =
      (Inr (pend1 i (ops_of ?\<sigma> ?cs)), committed \<tau> xs)" using replay_crash_log by blast
  have "order [] = []" "order [(i, ops_of ?\<sigma> ?cs)] = [(i, ops_of ?\<sigma> ?cs)]"
    using assms(3) [of "[]"] assms(3) [of "[(i, ops_of ?\<sigma> ?cs)]"] by simp_all
  moreover have "each (applyUndo db_apply) (rev (ops_of ?\<sigma> ?cs)) (committed \<tau> xs) =
      (Inr (), \<lambda>x. if x \<in> touched ?cs then ?\<sigma> x else committed \<tau> xs x)"
    by (rule undo_changes [OF assms(4)])
  ultimately have "Replay order (Some (log_bytes (crash_log \<sigma> xs open_txn) @ tail)) db_apply \<tau> =
      (Inr (), \<lambda>x. if x \<in> touched ?cs then ?\<sigma> x else committed \<tau> xs x)"
    using i by (cases "ops_of ?\<sigma> ?cs = []") (simp_all add: Replay_log [OF assms(1,2)] bind_def pend1_def)
  also have "(\<lambda>x. if x \<in> touched ?cs then ?\<sigma> x else committed \<tau> xs x) =
      (\<lambda>x. if x \<in> committed_keys xs \<union> touched ?cs then ?\<sigma> x else \<tau> x)"
    using committed_value [of \<tau> xs _ \<sigma>] by (auto simp: fun_eq_iff)
  finally show ?thesis .
qed

lemma recover:
  assumes "\<forall>r\<in>set (crash_log \<sigma> xs open_txn). rec_ok r" "next_record tail = None"
    and "\<And>p. mset (order p) = mset p" "changes_ok (committed \<sigma> xs) (open_changes open_txn)"
    and agree: "\<And>x. x \<notin> committed_keys xs \<union> touched (open_changes open_txn) \<Longrightarrow> \<tau> x = committed \<sigma> xs x"
  shows "Replay order (Some (log_bytes (crash_log \<sigma> xs open_txn) @ tail)) db_apply \<tau> = (Inr (), committed \<sigma> xs)"
  unfolding replay_any [OF assms(1-4)] using agree by (auto simp: fun_eq_iff)

end
