(* ===== verification/WalProps.thy ===== *)
theory WalProps
  imports WalRecovery
begin

text \<open>
  The properties of the write-ahead log: the codec, the end of the scan at a torn or a
  corrupt record, and what recovery restores.
\<close>

text \<open>
  \<^verbatim>\<open>decodeOp\<close> reverses \<^verbatim>\<open>encodeOp\<close> while the lengths fit the fields that hold them.
\<close>

theorem decodeOp_encodeOp:
  assumes "length table < 2 ^ 16" "length key < 2 ^ 32" "length newVal < 2 ^ 32" "length prevVal < 2 ^ 32"
  shows "decodeOp (encodeOp table key newVal hadPrev prevVal) = Inr (table, key, newVal, hadPrev, prevVal)"
  by (rule decode_encode [OF assms])

theorem decodeOp_encodeOp_witness:
  "decodeOp (encodeOp ''T:t'' [1, 2] [3] True [4]) = Inr (''T:t'', [1, 2], [3], True, [4])"
  by (rule decodeOp_encodeOp) simp_all

lemma Replay_log_tail:
  assumes "\<forall>r\<in>set rs. rec_ok r" "next_record tail = None"
  shows "Replay order (Some (log_bytes rs @ tail)) f = Replay order (Some (log_bytes rs)) f"
  using Replay_log [OF assms, of order f] Replay_log [OF assms(1) next_record_end, of order f] by simp

text \<open>
  A record cut short at any byte, as a crash in the middle of a write leaves it, ends
  the scan silently: recovery does what the records before it say.
\<close>

theorem Replay_torn_tail:
  assumes "\<forall>r\<in>set rs. rec_ok r" "rec_ok r" "n < length (rec_bytes r)"
  shows "Replay order (Some (log_bytes rs @ take n (rec_bytes r))) apply = Replay order (Some (log_bytes rs)) apply"
proof -
  obtain ty i payload where "rec_bytes r = record_bytes ty i payload" "length payload + 9 < 2 ^ 32"
    using rec_as_record [OF assms(2)] by metis
  then have "next_record (take n (rec_bytes r)) = None" using next_record_torn assms(3) by simp
  then show ?thesis by (rule Replay_log_tail [OF assms(1)])
qed

theorem Replay_torn_tail_witness:
  "Replay (\<lambda>p. p) (Some (log_bytes [LBegin 1] @ take 9 (rec_bytes (LPut 1 ''T:t'' [1] [2] False [])))) db_apply =
   Replay (\<lambda>p. p) (Some (log_bytes [LBegin 1])) db_apply"
  by (rule Replay_torn_tail) simp_all

text \<open>
  C38: the checksum catches every change of one byte of a record body: the scan stops at the
  damaged record, whatever follows it.
\<close>

theorem Replay_corrupt_record:
  assumes "\<forall>r\<in>set rs. rec_ok r" "length payload + 9 < 2 ^ 32"
    and "i < length (record_body ty txn payload)" "b \<noteq> record_body ty txn payload ! i"
  shows "Replay order (Some (log_bytes rs @ put_u32 (word_of_nat (length (record_body ty txn payload))) @
      (record_body ty txn payload)[i := b] @ put_u32 (crc32 (record_body ty txn payload)) @ rest)) apply =
    Replay order (Some (log_bytes rs)) apply"
proof -
  let ?body = "record_body ty txn payload"
  let ?xs = "take i ?body" and ?ys = "drop (Suc i) ?body"
  have body: "?body = ?xs @ ?body ! i # ?ys" using id_take_nth_drop [OF assms(3)] .
  have "?body[i := b] = ?xs @ b # ?ys" using upd_conv_take_nth_drop [OF assms(3)] .
  with next_record_corrupt [OF assms(2) body assms(4), of rest]
  have "next_record (put_u32 (word_of_nat (length ?body)) @ ?body[i := b] @ put_u32 (crc32 ?body) @ rest) = None"
    using body by simp
  then show ?thesis by (rule Replay_log_tail [OF assms(1)])
qed

theorem Replay_corrupt_record_witness:
  "Replay (\<lambda>p. p) (Some (log_bytes [LBegin 1] @ put_u32 (word_of_nat (length (record_body RecCommit 1 []))) @
      (record_body RecCommit 1 [])[0 := RecRollback] @ put_u32 (crc32 (record_body RecCommit 1 [])) @ [])) db_apply =
   Replay (\<lambda>p. p) (Some (log_bytes [LBegin 1])) db_apply"
  by (rule Replay_corrupt_record) (simp_all add: record_body_parts)

section \<open>Recovery\<close>

lemma append_recs:
  "\<not> wclosed w \<Longrightarrow> \<exists>w'. each append_rec rs w = (Inr (), w') \<and> wfile w' = wfile w @ log_bytes rs \<and> \<not> wclosed w'"
proof (induction rs arbitrary: w)
  case Nil
  then show ?case by (simp add: log_bytes_def)
next
  case (Cons r rs)
  obtain w1 where w1: "append_rec r w = (Inr (), w1)" "wfile w1 = wfile w @ rec_bytes r" "\<not> wclosed w1"
    using append_rec_file [OF Cons.prems] by blast
  with Cons.IH [OF w1(3)] show ?case by (auto simp: bind_def log_bytes_def)
qed

lemma touched_take: "x \<notin> touched cs \<Longrightarrow> perform \<sigma> (take m cs) x = \<sigma> x"
proof -
  assume "x \<notin> touched cs"
  then have "x \<notin> touched (take m cs)" by (auto simp: touched_def dest: in_set_takeD)
  then show ?thesis using perform_value [of \<sigma> "take m cs" x \<sigma>] by simp
qed

text \<open>
  C3: the process is killed at any point of an unfinished transaction, with any number of
  its logged changes made in the trees and its last record possibly cut short.
  Replaying the log it wrote restores the state of the committed transactions,
  whatever came before: commits, rollbacks, and changes of the same keys.
\<close>

theorem Replay_after_kill:
  assumes "each append_rec (crash_log \<sigma> xs open_txn) (wal_Open []) = (Inr (), w)"
    and "\<forall>r\<in>insert torn (set (crash_log \<sigma> xs open_txn)). rec_ok r" "n < length (rec_bytes torn)"
    and "\<And>p. mset (order p) = mset p" "changes_ok (committed \<sigma> xs) (open_changes open_txn)"
    and "\<tau> = perform (committed \<sigma> xs) (take m (open_changes open_txn))"
  shows "Replay order (Some (wfile w @ take n (rec_bytes torn))) db_apply \<tau> = (Inr (), committed \<sigma> xs)"
proof -
  have w: "wfile w = log_bytes (crash_log \<sigma> xs open_txn)"
    using append_recs [of "wal_Open []" "crash_log \<sigma> xs open_txn"] assms(1) by (auto simp: wal_Open_def)
  obtain ty i payload where "rec_bytes torn = record_bytes ty i payload" "length payload + 9 < 2 ^ 32"
    using rec_as_record [of torn] assms(2) by (metis insertI1)
  then have tail: "next_record (take n (rec_bytes torn)) = None" using next_record_torn assms(3) by simp
  have ok: "\<forall>r\<in>set (crash_log \<sigma> xs open_txn). rec_ok r" using assms(2) by blast
  show ?thesis
    unfolding w by (rule recover [OF ok tail assms(4,5)]) (simp_all add: assms(6) touched_take)
qed

theorem Replay_after_kill_witness:
  "\<exists>w. each append_rec (crash_log (\<lambda>_. None) [\<lparr>x_id = 1, x_changes = [((''T:t'', [1]), Some [10])], x_commit = True\<rparr>]
       (Some (2, [((''T:t'', [1]), Some [20]), ((''T:t'', [5]), Some [50])]))) (wal_Open []) = (Inr (), w) \<and>
     Replay (\<lambda>p. p) (Some (wfile w @ take 3 (rec_bytes (LCommit 2)))) db_apply
       ((\<lambda>_. None)((''T:t'', [1]) := Some [20])) = (Inr (), (\<lambda>_. None)((''T:t'', [1]) := Some [10]))"
proof -
  let ?xs = "[\<lparr>x_id = 1, x_changes = [((''T:t'', [1]), Some [10])], x_commit = True\<rparr>]"
  let ?cs = "[((''T:t'', [1]), Some [20]), ((''T:t'', [5]), Some [50])]"
  have c: "committed (\<lambda>_. None) ?xs = (\<lambda>_. None)((''T:t'', [1]) := Some [10 :: byte])"
    by (simp add: committed_def after_def)
  obtain w where w: "each append_rec (crash_log (\<lambda>_. None) ?xs (Some (2, ?cs))) (wal_Open []) = (Inr (), w)"
    using append_recs [of "wal_Open []"] by (auto simp: wal_Open_def)
  have "Replay (\<lambda>p. p) (Some (wfile w @ take 3 (rec_bytes (LCommit 2)))) db_apply
      ((\<lambda>_. None)((''T:t'', [1]) := Some [20])) = (Inr (), committed (\<lambda>_. None) ?xs)"
    by (rule Replay_after_kill [OF w, where m = 1])
      (simp_all add: crash_log_def open_changes_def log_xact_def committed_def after_def fun_eq_iff)
  with w c show ?thesis by auto
qed

text \<open>
  After a crash that loses page writes, recovery restores the committed state from any
  state of the trees that is right on the keys which no committed and no unfinished
  transaction of the log wrote: how far the writes of the others had come does
  not matter.
\<close>

theorem Replay_restores_committed:
  assumes "\<forall>r\<in>set (crash_log \<sigma> xs open_txn). rec_ok r" "\<And>p. mset (order p) = mset p"
    and "changes_ok (committed \<sigma> xs) (open_changes open_txn)"
    and "\<And>x. x \<notin> committed_keys xs \<Longrightarrow> x \<notin> touched (open_changes open_txn) \<Longrightarrow> \<tau> x = committed \<sigma> xs x"
  shows "Replay order (Some (log_bytes (crash_log \<sigma> xs open_txn))) db_apply \<tau> = (Inr (), committed \<sigma> xs)"
  using recover [OF assms(1) next_record_end assms(2,3), of \<tau>] assms(4) by simp

theorem Replay_restores_committed_witness:
  "Replay (\<lambda>p. p) (Some (log_bytes (crash_log (\<lambda>_. None)
       [\<lparr>x_id = 1, x_changes = [((''T:t'', [1]), Some [10])], x_commit = True\<rparr>] None))) db_apply (\<lambda>_. None) =
     (Inr (), committed (\<lambda>_. None) [\<lparr>x_id = 1, x_changes = [((''T:t'', [1]), Some [10])], x_commit = True\<rparr>])"
  by (rule Replay_restores_committed)
    (simp_all add: crash_log_def open_changes_def log_xact_def committed_def after_def committed_keys_def touched_def)



end
