(* ===== verification/Ast.thy ===== *)
theory Ast
  imports Float64
begin

text \<open>The syntax trees of \<^verbatim>\<open>internal/sqlparser/ast.go\<close>.  A nil expression is \<open>None\<close>.\<close>

section \<open>Expressions\<close>

record Literal =
  lKind :: string
  lI :: int64
  lF :: float64
  lS :: string
  lB :: bool

datatype Expr =
    LiteralExpr Literal
  | ColumnRef string string
  | BinaryExpr string Expr Expr
  | UnaryExpr string Expr
  | CountStarExpr

definition zero_literal :: Literal where
  "zero_literal = \<lparr>lKind = [], lI = 0, lF = 0, lS = [], lB = False\<rparr>"

section \<open>Statements\<close>

record ColumnSpec =
  spName :: string
  spType :: string
  spPrimaryKey :: bool
  spUnique :: bool
  spNotNull :: bool

record CreateTableStmt =
  ctTable :: string
  ctColumns :: "ColumnSpec list"

record DropTableStmt =
  dtTable :: string

record CreateIndexStmt =
  ciName :: string
  ciTable :: string
  ciColumn :: string
  ciUnique :: bool

record InsertStmt =
  inTable :: string
  inColumns :: "string list"
  inRows :: "Expr list list"

record OrderTerm =
  otExpr :: Expr
  otDesc :: bool

record JoinClause =
  jTable :: string
  jAlias :: string
  jOn :: Expr

record SelectItem =
  siExpr :: Expr
  siAlias :: string

record SelectStmt =
  seItems :: "SelectItem list"
  seStar :: bool
  seTable :: string
  seAlias :: string
  seJoins :: "JoinClause list"
  seWhere :: "Expr option"
  seOrderBy :: "OrderTerm list"
  seLimit :: int64
  seHasLim :: bool

record Assignment =
  asColumn :: string
  asValue :: Expr

record UpdateStmt =
  upTable :: string
  upSet :: "Assignment list"
  upWhere :: "Expr option"

record DeleteStmt =
  deTable :: string
  deWhere :: "Expr option"

datatype Statement =
    CreateTable_stmt CreateTableStmt
  | DropTable_stmt DropTableStmt
  | CreateIndex_stmt CreateIndexStmt
  | Insert_stmt InsertStmt
  | Select_stmt SelectStmt
  | Update_stmt UpdateStmt
  | Delete_stmt DeleteStmt
  | BeginStmt
  | CommitStmt
  | RollbackStmt
  | ShowTablesStmt

end
