(* ===== verification/Lexer.thy ===== *)
theory Lexer
  imports Value
begin

text \<open>
  The lexer of \<^verbatim>\<open>internal/sqlparser/lexer.go\<close>: the source as a sequence of runes, tokens
  with the rune position they start at, and the loop that reads them.  The tables of
  package \<^verbatim>\<open>unicode\<close> for characters beyond ASCII are a parameter.
\<close>

section \<open>Runes\<close>

type_synonym rune = nat

definition RuneError :: rune where "RuneError = 0xFFFD"

definition surrogate :: "rune \<Rightarrow> bool" where
  "surrogate r \<longleftrightarrow> 0xD800 \<le> r \<and> r \<le> 0xDFFF"

text \<open>
  The conversion \<^verbatim>\<open>[]rune(s)\<close>: a byte that starts no well-formed sequence becomes the
  replacement character.
\<close>

definition cont :: "nat \<Rightarrow> bool" where
  "cont b \<longleftrightarrow> 0x80 \<le> b \<and> b \<le> 0xBF"

definition decode_rune :: "nat list \<Rightarrow> rune \<times> nat" where
  "decode_rune s =
     (case s of
        [] \<Rightarrow> (RuneError, 1)
      | a # s' \<Rightarrow>
          if a < 0x80 then (a, 1)
          else if 0xC0 \<le> a \<and> a < 0xE0 then
            (case s' of
               b # _ \<Rightarrow>
                 (let r = (a mod 0x20) * 64 + b mod 64
                  in if cont b \<and> 0x7F < r then (r, 2) else (RuneError, 1))
             | _ \<Rightarrow> (RuneError, 1))
          else if 0xE0 \<le> a \<and> a < 0xF0 then
            (case s' of
               b # c # _ \<Rightarrow>
                 (let r = (a mod 0x10) * 4096 + (b mod 64) * 64 + c mod 64
                  in if cont b \<and> cont c \<and> 0x7FF < r \<and> \<not> surrogate r then (r, 3) else (RuneError, 1))
             | _ \<Rightarrow> (RuneError, 1))
          else if 0xF0 \<le> a \<and> a < 0xF8 then
            (case s' of
               b # c # d # _ \<Rightarrow>
                 (let r = (a mod 8) * 262144 + (b mod 64) * 4096 + (c mod 64) * 64 + d mod 64
                  in if cont b \<and> cont c \<and> cont d \<and> 0xFFFF < r \<and> r \<le> 0x10FFFF then (r, 4) else (RuneError, 1))
             | _ \<Rightarrow> (RuneError, 1))
          else (RuneError, 1))"

lemma decode_rune_pos: "0 < snd (decode_rune s)"
  by (auto simp: decode_rune_def Let_def split: list.splits)

function decode_runes :: "nat list \<Rightarrow> rune list" where
  "decode_runes s =
     (if s = [] then [] else (case decode_rune s of (r, n) \<Rightarrow> r # decode_runes (drop n s)))"
  by pat_completeness auto
termination
proof (relation "measure length")
  show "(drop n s, s) \<in> measure length" if "s \<noteq> []" "(r, n) = decode_rune s" for s r n
    using that decode_rune_pos [of s] by (cases s) (auto simp: prod_eq_iff)
qed simp

declare decode_runes.simps [simp del]

definition runes :: "string \<Rightarrow> rune list" where
  "runes s = decode_runes (map of_char s)"

text \<open>The conversion \<^verbatim>\<open>string(rs)\<close> and \<^verbatim>\<open>WriteRune\<close>.\<close>

definition encode_rune :: "rune \<Rightarrow> nat list" where
  "encode_rune r =
     (let r = (if 0x10FFFF < r \<or> surrogate r then RuneError else r)
      in if r \<le> 0x7F then [r]
         else if r \<le> 0x7FF then [0xC0 + r div 64, 0x80 + r mod 64]
         else if r \<le> 0xFFFF then [0xE0 + r div 4096, 0x80 + r div 64 mod 64, 0x80 + r mod 64]
         else [0xF0 + r div 262144, 0x80 + r div 4096 mod 64, 0x80 + r div 64 mod 64, 0x80 + r mod 64])"

definition string_of :: "rune list \<Rightarrow> string" where
  "string_of rs = map char_of (concat (map encode_rune rs))"

section \<open>Character classes\<close>

record unicode =
  uSpace :: "rune \<Rightarrow> bool"
  uDigit :: "rune \<Rightarrow> bool"
  uLetter :: "rune \<Rightarrow> bool"

definition IsSpace :: "unicode \<Rightarrow> rune \<Rightarrow> bool" where
  "IsSpace u c = (if c < 128 then c \<in> {9, 10, 11, 12, 13, 32} else uSpace u c)"

definition IsDigit :: "unicode \<Rightarrow> rune \<Rightarrow> bool" where
  "IsDigit u c = (if c < 128 then 48 \<le> c \<and> c \<le> 57 else uDigit u c)"

definition IsLetter :: "unicode \<Rightarrow> rune \<Rightarrow> bool" where
  "IsLetter u c = (if c < 128 then 65 \<le> c \<and> c \<le> 90 \<or> 97 \<le> c \<and> c \<le> 122 else uLetter u c)"

section \<open>Tokens\<close>

datatype TokenType = TokEOF | TokIdent | TokNumber | TokString | TokKeyword | TokPunct

record Token =
  kType :: TokenType
  kText :: string
  kPos :: nat

definition keyword_list :: "string list" where
  "keyword_list =
     [''SELECT'', ''FROM'', ''WHERE'', ''INSERT'', ''INTO'', ''VALUES'', ''UPDATE'', ''SET'', ''DELETE'', ''CREATE'',
      ''TABLE'', ''DROP'', ''INDEX'', ''ON'', ''UNIQUE'', ''PRIMARY'', ''KEY'', ''NOT'', ''NULL'', ''AND'',
      ''OR'', ''ORDER'', ''BY'', ''ASC'', ''DESC'', ''LIMIT'', ''JOIN'', ''INNER'', ''LEFT'', ''BEGIN'',
      ''COMMIT'', ''ROLLBACK'', ''TRANSACTION'', ''TRUE'', ''FALSE'', ''AS'', ''SHOW'', ''TABLES'', ''COUNT'',
      ''DISTINCT'']"

text \<open>
  \<^verbatim>\<open>for l.pos < len(l.src) && P(l.src[l.pos]) { l.pos++ }\<close>.  Every read of the source panics out of range
  here and below.
\<close>

function skip_while :: "(rune \<Rightarrow> bool) \<Rightarrow> rune list \<Rightarrow> nat \<Rightarrow> nat result" where
  "skip_while P src pos =
     (if pos < length src then
        rbind (elem_at src pos) (\<lambda>r. if P r then skip_while P src (pos + 1) else Inr pos)
      else Inr pos)"
  by pat_completeness auto
termination by (relation "measure (\<lambda>(_, src, pos). length src - pos)") auto

declare skip_while.simps [simp del]

definition peekRune :: "rune list \<Rightarrow> nat \<Rightarrow> rune result" where
  "peekRune src pos = (if pos \<ge> length src then Inr 0 else elem_at src pos)"

text \<open>\<^verbatim>\<open>string(l.src[lo:hi])\<close>.\<close>

definition src_text :: "rune list \<Rightarrow> nat \<Rightarrow> nat \<Rightarrow> string result" where
  "src_text src lo hi = rbind (slice src lo hi) (\<lambda>rs. Inr (string_of rs))"

text \<open>The loop of a string literal: its text and the position behind the closing quote.\<close>

function string_loop :: "rune list \<Rightarrow> nat \<Rightarrow> nat \<Rightarrow> string \<Rightarrow> (string \<times> nat) result" where
  "string_loop src start pos sb =
     (if pos < length src then
        rbind (elem_at src pos) (\<lambda>c.
          if c = 39 then
            rbind (holds_at (\<lambda>r. r = 39) src (pos + 1)) (\<lambda>doubled.
              if doubled then string_loop src start (pos + 2) (sb @ string_of [39])
              else Inr (sb, pos + 1))
          else string_loop src start (pos + 1) (sb @ string_of [c]))
      else Inl (ErrUnterminatedString start))"
  by pat_completeness auto
termination by (relation "measure (\<lambda>(src, _, pos, _). length src - pos)") auto

declare string_loop.simps [simp del]

text \<open>The \<^verbatim>\<open>switch\<close> of \<^verbatim>\<open>next\<close>: the token that starts at \<open>start\<close> with the rune \<open>c\<close>, and the position behind it.\<close>

definition lex_token :: "unicode \<Rightarrow> rune list \<Rightarrow> nat \<Rightarrow> rune \<Rightarrow> (Token \<times> nat) result" where
  "lex_token u src start c =
     (let pos = start
      in if c = 39 then
           rbind (string_loop src start (pos + 1) []) (\<lambda>(text, pos').
             Inr (\<lparr>kType = TokString, kText = text, kPos = start\<rparr>, pos'))
         else if IsDigit u c then
           rbind (skip_while (\<lambda>r. IsDigit u r \<or> r = 46) src pos) (\<lambda>pos'.
           rbind (src_text src start pos') (\<lambda>text.
             Inr (\<lparr>kType = TokNumber, kText = text, kPos = start\<rparr>, pos')))
         else if IsLetter u c \<or> c = 95 then
           rbind (skip_while (\<lambda>r. IsLetter u r \<or> IsDigit u r \<or> r = 95) src pos) (\<lambda>pos'.
           rbind (src_text src start pos') (\<lambda>text.
             if ToUpper text \<in> set keyword_list
             then Inr (\<lparr>kType = TokKeyword, kText = ToUpper text, kPos = start\<rparr>, pos')
             else Inr (\<lparr>kType = TokIdent, kText = text, kPos = start\<rparr>, pos')))
         else if c = 34 then
           rbind (skip_while (\<lambda>r. r \<noteq> 34) src (pos + 1)) (\<lambda>pos'.
           rbind (src_text src (start + 1) pos') (\<lambda>text.
             Inr (\<lparr>kType = TokIdent, kText = text, kPos = start\<rparr>, pos' + 1)))
         else if c \<in> {60, 62, 33, 61} then
           (let pos = pos + 1
            in rbind (holds_at (\<lambda>r. r = 61 \<or> c = 60 \<and> r = 62) src pos) (\<lambda>two.
               let pos' = (if two then pos + 1 else pos)
               in rbind (src_text src start pos') (\<lambda>text.
                    Inr (\<lparr>kType = TokPunct, kText = text, kPos = start\<rparr>, pos'))))
         else if c \<in> set (runes '',()=.;+-*/%'') then
           Inr (\<lparr>kType = TokPunct, kText = string_of [c], kPos = start\<rparr>, pos + 1)
         else Inl (ErrUnexpectedChar c start))"

text \<open>Where \<^verbatim>\<open>skip_while\<close> stops: it never panics.\<close>

definition skip_end :: "(rune \<Rightarrow> bool) \<Rightarrow> rune list \<Rightarrow> nat \<Rightarrow> nat" where
  "skip_end P src pos = pos + length (takeWhile P (drop pos src))"

lemma skip_while_eq: "skip_while P src pos = Inr (skip_end P src pos)"
proof (induction P src pos rule: skip_while.induct)
  case (1 P src pos)
  show ?case
  proof (cases "pos < length src")
    case True
    then have "drop pos src = src ! pos # drop (pos + 1) src" by (simp add: Cons_nth_drop_Suc)
    then show ?thesis using 1 True by (subst skip_while.simps) (simp add: skip_end_def)
  qed (simp add: skip_while.simps skip_end_def)
qed

lemma skip_end_ge: "pos \<le> skip_end P src pos"
  by (simp add: skip_end_def)

lemma skip_end_le: "pos \<le> length src \<Longrightarrow> skip_end P src pos \<le> length src"
  using length_takeWhile_le [of P "drop pos src"] by (simp add: skip_end_def)

lemma skip_end_gt: "pos < length src \<Longrightarrow> P (src ! pos) \<Longrightarrow> pos < skip_end P src pos"
  by (simp add: skip_end_def Cons_nth_drop_Suc [symmetric])

lemma src_text_eq: "lo \<le> hi \<Longrightarrow> hi \<le> length src \<Longrightarrow> src_text src lo hi = Inr (string_of (take (hi - lo) (drop lo src)))"
  by (simp add: src_text_def slice_def)

text \<open>
  \<^verbatim>\<open>next\<close>: white space is skipped; a line comment is skipped and the function called
  again.
\<close>

function lex_next :: "unicode \<Rightarrow> rune list \<Rightarrow> nat \<Rightarrow> (Token \<times> nat) result" where
  "lex_next u src pos0 =
     rbind (skip_while (IsSpace u) src pos0) (\<lambda>pos.
       if pos \<ge> length src then Inr (\<lparr>kType = TokEOF, kText = [], kPos = pos\<rparr>, pos)
       else
         rbind (elem_at src pos) (\<lambda>c.
         rbind (if c = 45 then holds_at (\<lambda>r. r = 45) src (pos + 1) else Inr False) (\<lambda>comment.
           if comment then rbind (skip_while (\<lambda>r. r \<noteq> 10) src pos) (\<lambda>pos'. lex_next u src pos')
           else lex_token u src pos c)))"
  by pat_completeness auto
termination
proof (relation "measure (\<lambda>(_, src, pos). length src - pos)", goal_cases)
  case (2 u src pos0 x c comment pos')
  then have x: "x = skip_end (IsSpace u) src pos0" "pos' = skip_end (\<lambda>r. r \<noteq> 10) src x" "x < length src" "src ! x = 45"
    by (auto simp: skip_while_eq split: if_splits)
  then have "x < pos'" using skip_end_gt [of x src] by simp
  with x skip_end_ge [of pos0 "IsSpace u" src] show ?case by simp
qed simp

declare lex_next.simps [simp del]

text \<open>The same with the reads in range.\<close>

lemma lex_next_unfold: "lex_next u src pos0 =
    (let pos = skip_end (IsSpace u) src pos0
     in if pos \<ge> length src then Inr (\<lparr>kType = TokEOF, kText = [], kPos = pos\<rparr>, pos)
        else if src ! pos = 45 \<and> pos + 1 < length src \<and> src ! (pos + 1) = 45
        then lex_next u src (skip_end (\<lambda>r. r \<noteq> 10) src pos)
        else lex_token u src pos (src ! pos))"
  by (subst lex_next.simps) (auto simp: skip_while_eq holds_at_eq Let_def)

lemma lex_next_induct [case_names call]:
  assumes "\<And>u src pos0. (\<And>pos. pos = skip_end (IsSpace u) src pos0 \<Longrightarrow> \<not> length src \<le> pos \<Longrightarrow>
      src ! pos = 45 \<and> pos + 1 < length src \<and> src ! (pos + 1) = 45 \<Longrightarrow> Q u src (skip_end (\<lambda>r. r \<noteq> 10) src pos)) \<Longrightarrow> Q u src pos0"
  shows "Q u src pos"
proof (induction u src pos rule: lex_next.induct)
  case (1 u src pos0)
  show ?case by (rule assms) (rule 1, auto simp: skip_while_eq holds_at_eq)
qed

lemma string_loop_unfold: "string_loop src start pos sb =
    (if pos < length src then
       (if src ! pos = 39 then
          (if pos + 1 < length src \<and> src ! (pos + 1) = 39 then string_loop src start (pos + 2) (sb @ string_of [39])
           else Inr (sb, pos + 1))
        else string_loop src start (pos + 1) (sb @ string_of [src ! pos]))
     else Inl (ErrUnterminatedString start))"
  by (subst string_loop.simps) (simp add: holds_at_eq)

lemma string_loop_gt: "string_loop src start pos sb = Inr (text, pos') \<Longrightarrow> pos < pos' \<and> pos' \<le> length src"
proof (induction src start pos sb rule: string_loop.induct)
  case (1 src start pos sb)
  show ?case
  proof (cases "pos < length src")
    case True
    show ?thesis
      using "1.prems" True "1.IH"(1) [OF True elem_at_in [OF True] _ holds_at_eq] "1.IH"(2) [OF True elem_at_in [OF True]]
      by (subst (asm) string_loop_unfold) (fastforce split: if_splits)
  qed (use "1.prems" in \<open>simp add: string_loop.simps\<close>)
qed

lemma lex_token_gt:
  assumes "lex_token u src start (src ! start) = Inr (tok, pos')" "start < length src"
  shows "kType tok \<noteq> TokEOF \<and> kPos tok = start \<and> start < pos'"
proof -
  have "start < pos'" if "string_loop src start (start + 1) [] = Inr (x, pos')" for x
    using string_loop_gt [OF that] by simp
  moreover have "start < skip_end P src start" if "P (src ! start)" for P
    using skip_end_gt that assms(2) by blast
  moreover have "start < skip_end P src (Suc start) + 1" for P
    using skip_end_ge [of "Suc start" P src] by simp
  ultimately show ?thesis
    using assms(1) unfolding lex_token_def Let_def skip_while_eq holds_at_eq
    by (fastforce simp: rbind_Inr_iff split: if_splits)
qed

lemma lex_next_gt:
  "lex_next u src pos = Inr (tok, pos') \<Longrightarrow> kType tok \<noteq> TokEOF \<Longrightarrow>
   pos \<le> kPos tok \<and> kPos tok < pos' \<and> kPos tok < length src"
proof (induction u src pos rule: lex_next_induct)
  case (call u src pos0)
  let ?pos = "skip_end (IsSpace u) src pos0"
  have ge: "pos0 \<le> ?pos" by (rule skip_end_ge)
  have in_src: "?pos < length src"
    using call.prems by (subst (asm) lex_next_unfold) (auto simp: Let_def split: if_splits)
  show ?case
  proof (cases "src ! ?pos = 45 \<and> ?pos + 1 < length src \<and> src ! (?pos + 1) = 45")
    case True
    then have "lex_next u src (skip_end (\<lambda>r. r \<noteq> 10) src ?pos) = Inr (tok, pos')"
      using call.prems(1) in_src by (subst (asm) lex_next_unfold) (simp add: Let_def)
    then have "skip_end (\<lambda>r. r \<noteq> 10) src ?pos \<le> kPos tok \<and> kPos tok < pos' \<and> kPos tok < length src"
      using call.IH [OF refl _ True] in_src call.prems(2) by simp
    then show ?thesis using ge skip_end_ge [of ?pos "\<lambda>r. r \<noteq> 10" src] by linarith
  next
    case False
    then have "lex_token u src ?pos (src ! ?pos) = Inr (tok, pos')"
      using call.prems(1) in_src by (subst (asm) lex_next_unfold) (auto simp: Let_def split: if_splits)
    then show ?thesis using lex_token_gt in_src ge by simp
  qed
qed

text \<open>\<^verbatim>\<open>Tokenize\<close> and its loop.\<close>

function tokenize_loop :: "unicode \<Rightarrow> rune list \<Rightarrow> nat \<Rightarrow> Token list \<Rightarrow> Token list result" where
  "tokenize_loop u src pos toks =
     (case lex_next u src pos of
        Inl e \<Rightarrow> Inl e
      | Inr (tok, pos') \<Rightarrow>
          (let toks = toks @ [tok]
           in if kType tok = TokEOF then Inr toks else tokenize_loop u src pos' toks))"
  by pat_completeness auto
termination
proof (relation "measure (\<lambda>(_, src, pos, _). length src - pos)", goal_cases)
  case (2 u src pos toks r tok pos' toks')
  then show ?case using lex_next_gt [of u src pos tok pos'] by auto
qed simp

declare tokenize_loop.simps [simp del]

definition Tokenize :: "unicode \<Rightarrow> string \<Rightarrow> Token list result" where
  "Tokenize u src = tokenize_loop u (runes src) 0 []"

end
