(* ===== verification/Parser.thy ===== *)
theory Parser
  imports Ast Lexer
begin

text \<open>
  The recursive-descent parser of \<^verbatim>\<open>internal/sqlparser/parser.go\<close>.  Its state is the
  tokens from the current one on (\<^verbatim>\<open>p.toks[p.pos:]\<close>), which is never empty: \<^verbatim>\<open>advance\<close>
  stays on the last token.

  A function that calls itself or loops takes a number of steps; the expression grammar
  is written with the parser of parenthesised expressions, \<open>pe\<close>, as an argument, which
  \<open>parseExpr\<close> ties to itself.  \<^verbatim>\<open>Parse\<close> runs with as many steps as there are
  tokens.
\<close>

type_synonym 'a parser = "(Token list, 'a) sm"

section \<open>Tokens\<close>

definition cur :: "Token parser" where
  "cur ts = (case ts of [] \<Rightarrow> (Inl Panic, ts) | t # _ \<Rightarrow> (Inr t, ts))"

definition advance :: "Token parser" where
  "advance ts = (case ts of [] \<Rightarrow> (Inl Panic, ts) | [t] \<Rightarrow> (Inr t, ts) | t # t' # ts' \<Rightarrow> (Inr t, t' # ts'))"

definition isKeyword :: "string \<Rightarrow> bool parser" where
  "isKeyword kw = bind cur (\<lambda>t. ret (kType t = TokKeyword \<and> kText t = kw))"

definition isPunct :: "string \<Rightarrow> bool parser" where
  "isPunct s = bind cur (\<lambda>t. ret (kType t = TokPunct \<and> kText t = s))"

definition isIdent :: "bool parser" where
  "isIdent = bind cur (\<lambda>t. ret (kType t = TokIdent))"

definition expectKeyword :: "string \<Rightarrow> unit parser" where
  "expectKeyword kw =
     bind (isKeyword kw) (\<lambda>b.
       if b then bind advance (\<lambda>_. ret ())
       else bind cur (\<lambda>t. fail (ErrExpectedKeyword kw (kText t))))"

definition expectPunct :: "string \<Rightarrow> unit parser" where
  "expectPunct s =
     bind (isPunct s) (\<lambda>b.
       if b then bind advance (\<lambda>_. ret ())
       else bind cur (\<lambda>t. fail (ErrExpectedPunct s (kText t))))"

definition skipPunct :: "string \<Rightarrow> unit parser" where
  "skipPunct s = bind (isPunct s) (\<lambda>b. if b then bind advance (\<lambda>_. ret ()) else ret ())"

definition expectIdent :: "string parser" where
  "expectIdent =
     bind cur (\<lambda>t.
       if kType t \<noteq> TokIdent then fail (ErrExpectedIdent (kText t))
       else bind advance (\<lambda>_. ret (kText t)))"

text \<open>\<^verbatim>\<open>for { x := p(); xs = append(xs, x); if p.isPunct(",") { p.advance(); continue }; break }\<close>\<close>

fun commaList :: "nat \<Rightarrow> 'a parser \<Rightarrow> 'a list parser" where
  "commaList 0 p = fail Diverges"
| "commaList (Suc n) p =
     bind p (\<lambda>x.
     bind (isPunct '','') (\<lambda>b.
       if b then bind advance (\<lambda>_. bind (commaList n p) (\<lambda>xs. ret (x # xs)))
       else ret [x]))"

section \<open>Numbers\<close>

definition digit_char :: "char \<Rightarrow> bool" where
  "digit_char c \<longleftrightarrow> 48 \<le> (of_char c :: nat) \<and> (of_char c :: nat) \<le> 57"

definition decimal :: "string \<Rightarrow> nat" where
  "decimal s = foldl (\<lambda>n c. 10 * n + (of_char c - 48)) 0 s"

text \<open>
  \<^verbatim>\<open>strconv.ParseInt(s, 10, 64)\<close> and \<^verbatim>\<open>strconv.Atoi\<close> on the text of a number token, which has
  no sign.  The digits are read from the left into an unsigned 64-bit number: the first character that is no digit is a
  syntax error and the first digit that does not fit a range error, whichever comes first.
\<close>

fun uint_loop :: "string \<Rightarrow> nat \<Rightarrow> string \<Rightarrow> nat result" where
  "uint_loop s n [] = Inr n"
| "uint_loop s n (c # cs) =
     (if \<not> digit_char c then Inl (ErrNumberSyntax s)
      else let n = 10 * n + (of_char c - 48)
           in if n \<ge> 2 ^ 64 then Inl (ErrNumberRange s) else uint_loop s n cs)"

definition ParseInt :: "string \<Rightarrow> int64 result" where
  "ParseInt s =
     (if s = [] then Inl (ErrNumberSyntax s)
      else rbind (uint_loop s 0 s) (\<lambda>n. if n \<ge> 2 ^ 63 then Inl (ErrNumberRange s) else Inr (word_of_nat n)))"

text \<open>
  \<^verbatim>\<open>strconv.ParseFloat(s, 64)\<close> on digits and points: the nearest \<^verbatim>\<open>float64\<close>, an error when
  that is infinite.  A number token has no sign and no exponent.
\<close>

definition ParseFloat :: "string \<Rightarrow> float64 result" where
  "ParseFloat s =
     (let ip = takeWhile (\<lambda>c. c \<noteq> CHR ''.'') s; fp = drop (length ip + 1) s
      in if \<not> list_all digit_char (ip @ fp) \<or> ip @ fp = [] then Inl (ErrNumberSyntax s)
         else (let n = decimal (ip @ fp);
                   m = (if n = 0 then 0 else round_mag (int n) (10 ^ length fp))
               in if m = f_inf_mag then Inl (ErrNumberRange s) else Inr m))"

section \<open>Expressions\<close>

definition intLiteral :: "int64 \<Rightarrow> Expr" where "intLiteral i = LiteralExpr (zero_literal\<lparr>lKind := ''int'', lI := i\<rparr>)"
definition floatLiteral :: "float64 \<Rightarrow> Expr" where "floatLiteral f = LiteralExpr (zero_literal\<lparr>lKind := ''float'', lF := f\<rparr>)"
definition stringLiteral :: "string \<Rightarrow> Expr" where "stringLiteral s = LiteralExpr (zero_literal\<lparr>lKind := ''string'', lS := s\<rparr>)"
definition boolLiteral :: "bool \<Rightarrow> Expr" where "boolLiteral b = LiteralExpr (zero_literal\<lparr>lKind := ''bool'', lB := b\<rparr>)"
definition nullLiteral :: Expr where "nullLiteral = LiteralExpr (zero_literal\<lparr>lKind := ''null''\<rparr>)"

definition parsePrimary :: "Expr parser \<Rightarrow> Expr parser" where
  "parsePrimary pe =
     bind cur (\<lambda>t.
       if kType t = TokNumber then
         bind advance (\<lambda>_.
           if CHR ''.'' \<in> set (kText t) then bind (lift (ParseFloat (kText t))) (\<lambda>f. ret (floatLiteral f))
           else bind (lift (ParseInt (kText t))) (\<lambda>i. ret (intLiteral i)))
       else if kType t = TokString then bind advance (\<lambda>_. ret (stringLiteral (kText t)))
       else if kType t = TokKeyword \<and> kText t = ''NULL'' then bind advance (\<lambda>_. ret nullLiteral)
       else if kType t = TokKeyword \<and> kText t = ''TRUE'' then bind advance (\<lambda>_. ret (boolLiteral True))
       else if kType t = TokKeyword \<and> kText t = ''FALSE'' then bind advance (\<lambda>_. ret (boolLiteral False))
       else if kType t = TokPunct \<and> kText t = ''('' then
         bind advance (\<lambda>_. bind pe (\<lambda>e. bind (expectPunct '')'') (\<lambda>_. ret e)))
       else if kType t = TokIdent then
         bind advance (\<lambda>_.
         bind (isPunct ''.'') (\<lambda>b.
           if b then bind advance (\<lambda>_. bind expectIdent (\<lambda>col. ret (ColumnRef (kText t) col)))
           else ret (ColumnRef [] (kText t))))
       else fail (ErrUnexpectedInExpr (kText t)))"

fun parseUnary :: "nat \<Rightarrow> Expr parser \<Rightarrow> Expr parser" where
  "parseUnary 0 pe = fail Diverges"
| "parseUnary (Suc n) pe =
     bind cur (\<lambda>t.
       if kType t = TokPunct \<and> kText t = ''-''
       then bind advance (\<lambda>_. bind (parseUnary n pe) (\<lambda>e. ret (UnaryExpr ''-'' e)))
       else parsePrimary pe)"

text \<open>
  The loop of a left-associative level: \<open>isOp\<close> recognises its operators, \<open>operand\<close> parses
  the next level.
\<close>

fun binaryLoop :: "nat \<Rightarrow> (Token \<Rightarrow> bool) \<Rightarrow> Expr parser \<Rightarrow> Expr \<Rightarrow> Expr parser" where
  "binaryLoop 0 isOp operand left = fail Diverges"
| "binaryLoop (Suc n) isOp operand left =
     bind cur (\<lambda>t.
       if isOp t
       then bind advance (\<lambda>op. bind operand (\<lambda>right. binaryLoop n isOp operand (BinaryExpr (kText op) left right)))
       else ret left)"

definition mulOp :: "Token \<Rightarrow> bool" where
  "mulOp t \<longleftrightarrow> kType t = TokPunct \<and> (kText t = ''*'' \<or> kText t = ''/'')"

definition addOp :: "Token \<Rightarrow> bool" where
  "addOp t \<longleftrightarrow> kType t = TokPunct \<and> (kText t = ''+'' \<or> kText t = ''-'')"

definition andOp :: "Token \<Rightarrow> bool" where
  "andOp t \<longleftrightarrow> kType t = TokKeyword \<and> kText t = ''AND''"

definition orOp :: "Token \<Rightarrow> bool" where
  "orOp t \<longleftrightarrow> kType t = TokKeyword \<and> kText t = ''OR''"

definition parseMultiplicative :: "nat \<Rightarrow> Expr parser \<Rightarrow> Expr parser" where
  "parseMultiplicative n pe = bind (parseUnary n pe) (binaryLoop n mulOp (parseUnary n pe))"

definition parseAdditive :: "nat \<Rightarrow> Expr parser \<Rightarrow> Expr parser" where
  "parseAdditive n pe = bind (parseMultiplicative n pe) (binaryLoop n addOp (parseMultiplicative n pe))"

definition cmpOps :: "string list" where
  "cmpOps = [''='', ''<>'', ''!='', ''<'', ''<='', ''>'', ''>='']"

definition parseComparison :: "nat \<Rightarrow> Expr parser \<Rightarrow> Expr parser" where
  "parseComparison n pe =
     bind (parseAdditive n pe) (\<lambda>left.
     bind cur (\<lambda>t.
       if kType t = TokPunct \<and> kText t \<in> set cmpOps
       then bind advance (\<lambda>t'.
            let op = (if kText t' = ''!='' then ''<>'' else kText t')
            in bind (parseAdditive n pe) (\<lambda>right. ret (BinaryExpr op left right)))
       else ret left))"

fun parseNot :: "nat \<Rightarrow> nat \<Rightarrow> Expr parser \<Rightarrow> Expr parser" where
  "parseNot 0 m pe = fail Diverges"
| "parseNot (Suc n) m pe =
     bind (isKeyword ''NOT'') (\<lambda>b.
       if b then bind advance (\<lambda>_. bind (parseNot n m pe) (\<lambda>e. ret (UnaryExpr ''NOT'' e)))
       else parseComparison m pe)"

definition parseAnd :: "nat \<Rightarrow> Expr parser \<Rightarrow> Expr parser" where
  "parseAnd n pe = bind (parseNot n n pe) (binaryLoop n andOp (parseNot n n pe))"

definition parseOr :: "nat \<Rightarrow> Expr parser \<Rightarrow> Expr parser" where
  "parseOr n pe = bind (parseAnd n pe) (binaryLoop n orOp (parseAnd n pe))"

fun parseExpr :: "nat \<Rightarrow> Expr parser" where
  "parseExpr 0 = fail Diverges"
| "parseExpr (Suc n) = parseOr (Suc n) (parseExpr n)"

section \<open>Statements\<close>

fun columnConstraints :: "nat \<Rightarrow> ColumnSpec \<Rightarrow> ColumnSpec parser" where
  "columnConstraints 0 spec = fail Diverges"
| "columnConstraints (Suc n) spec =
     bind (isKeyword ''PRIMARY'') (\<lambda>b.
       if b then
         bind advance (\<lambda>_. bind (expectKeyword ''KEY'') (\<lambda>_.
           columnConstraints n (spec\<lparr>spPrimaryKey := True, spNotNull := True\<rparr>)))
       else bind (isKeyword ''UNIQUE'') (\<lambda>b.
       if b then bind advance (\<lambda>_. columnConstraints n (spec\<lparr>spUnique := True\<rparr>))
       else bind (isKeyword ''NOT'') (\<lambda>b.
       if b then
         bind advance (\<lambda>_. bind (expectKeyword ''NULL'') (\<lambda>_. columnConstraints n (spec\<lparr>spNotNull := True\<rparr>)))
       else ret spec)))"

definition parseColumnSpec :: "nat \<Rightarrow> ColumnSpec parser" where
  "parseColumnSpec n =
     bind expectIdent (\<lambda>name.
     bind cur (\<lambda>typTok.
       if kType typTok \<noteq> TokIdent \<and> kType typTok \<noteq> TokKeyword
       then fail (ErrExpectedColumnType name (kText typTok))
       else bind advance (\<lambda>_.
         columnConstraints n \<lparr>spName = name, spType = kText typTok, spPrimaryKey = False, spUnique = False, spNotNull = False\<rparr>)))"

definition parseCreate :: "nat \<Rightarrow> Statement parser" where
  "parseCreate n =
     bind advance (\<lambda>_.
     bind (bind (isKeyword ''UNIQUE'') (\<lambda>b. if b then bind advance (\<lambda>_. ret True) else ret False)) (\<lambda>unique.
     bind (isKeyword ''TABLE'') (\<lambda>b.
       if b then
         bind advance (\<lambda>_.
         bind expectIdent (\<lambda>name.
         bind (expectPunct ''('') (\<lambda>_.
         bind (commaList n (parseColumnSpec n)) (\<lambda>cols.
         bind (expectPunct '')'') (\<lambda>_.
         ret (CreateTable_stmt \<lparr>ctTable = name, ctColumns = cols\<rparr>))))))
       else bind (isKeyword ''INDEX'') (\<lambda>b.
       if b then
         bind advance (\<lambda>_.
         bind expectIdent (\<lambda>idxName.
         bind (expectKeyword ''ON'') (\<lambda>_.
         bind expectIdent (\<lambda>table.
         bind (expectPunct ''('') (\<lambda>_.
         bind expectIdent (\<lambda>col.
         bind (expectPunct '')'') (\<lambda>_.
         ret (CreateIndex_stmt \<lparr>ciName = idxName, ciTable = table, ciColumn = col, ciUnique = unique\<rparr>))))))))
       else bind cur (\<lambda>t. fail (ErrExpectedTableOrIndex (kText t)))))))"

definition parseDrop :: "Statement parser" where
  "parseDrop =
     bind advance (\<lambda>_.
     bind (expectKeyword ''TABLE'') (\<lambda>_.
     bind expectIdent (\<lambda>name.
     ret (DropTable_stmt \<lparr>dtTable = name\<rparr>))))"

definition parseInsert :: "nat \<Rightarrow> Statement parser" where
  "parseInsert n =
     bind advance (\<lambda>_.
     bind (expectKeyword ''INTO'') (\<lambda>_.
     bind expectIdent (\<lambda>table.
     bind (bind (isPunct ''('') (\<lambda>b.
             if b then bind advance (\<lambda>_. bind (commaList n expectIdent) (\<lambda>cols. bind (expectPunct '')'') (\<lambda>_. ret cols)))
             else ret [])) (\<lambda>cols.
     bind (expectKeyword ''VALUES'') (\<lambda>_.
     bind (commaList n (bind (expectPunct ''('') (\<lambda>_.
             bind (commaList n (parseExpr n)) (\<lambda>vals.
             bind (expectPunct '')'') (\<lambda>_. ret vals))))) (\<lambda>rows.
     ret (Insert_stmt \<lparr>inTable = table, inColumns = cols, inRows = rows\<rparr>)))))))"

text \<open>\<^verbatim>\<open>AS name\<close>, or just a name, or the default.\<close>

definition parseAlias :: "string \<Rightarrow> string parser" where
  "parseAlias dflt =
     bind isIdent (\<lambda>b.
       if b then expectIdent
       else bind (isKeyword ''AS'') (\<lambda>b.
       if b then bind advance (\<lambda>_. expectIdent)
       else ret dflt))"

definition parseSelectItem :: "nat \<Rightarrow> SelectItem parser" where
  "parseSelectItem n =
     bind (isKeyword ''COUNT'') (\<lambda>b.
       if b then
         bind advance (\<lambda>_.
         bind (expectPunct ''('') (\<lambda>_.
         bind (bind (isPunct ''*'') (\<lambda>b. if b then bind advance (\<lambda>_. ret ()) else bind (parseExpr n) (\<lambda>_. ret ()))) (\<lambda>_.
         bind (expectPunct '')'') (\<lambda>_.
         bind (isKeyword ''AS'') (\<lambda>b.
           if b then bind advance (\<lambda>_. bind expectIdent (\<lambda>a. ret \<lparr>siExpr = CountStarExpr, siAlias = a\<rparr>))
           else ret \<lparr>siExpr = CountStarExpr, siAlias = ''count''\<rparr>)))))
       else
         bind (parseExpr n) (\<lambda>e.
         let alias = (case e of ColumnRef _ name \<Rightarrow> name | _ \<Rightarrow> [])
         in bind (isKeyword ''AS'') (\<lambda>b.
            if b then bind advance (\<lambda>_. bind expectIdent (\<lambda>a. ret \<lparr>siExpr = e, siAlias = a\<rparr>))
            else bind isIdent (\<lambda>b.
            if b then bind expectIdent (\<lambda>a. ret \<lparr>siExpr = e, siAlias = a\<rparr>)
            else ret \<lparr>siExpr = e, siAlias = alias\<rparr>))))"

fun parseJoins :: "nat \<Rightarrow> nat \<Rightarrow> JoinClause list parser" where
  "parseJoins 0 m = fail Diverges"
| "parseJoins (Suc n) m =
     bind (isKeyword ''JOIN'') (\<lambda>j.
     bind (isKeyword ''INNER'') (\<lambda>i.
     bind (isKeyword ''LEFT'') (\<lambda>l.
       if j \<or> i \<or> l then
         bind (if i \<or> l then bind advance (\<lambda>_. ret ()) else ret ()) (\<lambda>_.
         bind (expectKeyword ''JOIN'') (\<lambda>_.
         bind expectIdent (\<lambda>jt.
         bind (parseAlias jt) (\<lambda>alias.
         bind (expectKeyword ''ON'') (\<lambda>_.
         bind (parseExpr m) (\<lambda>on.
         bind (parseJoins n m) (\<lambda>js.
         ret (\<lparr>jTable = jt, jAlias = alias, jOn = on\<rparr> # js))))))))
       else ret [])))"

definition parseWhere :: "nat \<Rightarrow> Expr option parser" where
  "parseWhere n =
     bind (isKeyword ''WHERE'') (\<lambda>b.
       if b then bind advance (\<lambda>_. bind (parseExpr n) (\<lambda>w. ret (Some w))) else ret None)"

definition parseOrderTerm :: "nat \<Rightarrow> OrderTerm parser" where
  "parseOrderTerm n =
     bind (parseExpr n) (\<lambda>e.
     bind (isKeyword ''ASC'') (\<lambda>b.
       if b then bind advance (\<lambda>_. ret \<lparr>otExpr = e, otDesc = False\<rparr>)
       else bind (isKeyword ''DESC'') (\<lambda>b.
       if b then bind advance (\<lambda>_. ret \<lparr>otExpr = e, otDesc = True\<rparr>)
       else ret \<lparr>otExpr = e, otDesc = False\<rparr>)))"

definition parseOrderBy :: "nat \<Rightarrow> OrderTerm list parser" where
  "parseOrderBy n =
     bind (isKeyword ''ORDER'') (\<lambda>b.
       if b then bind advance (\<lambda>_. bind (expectKeyword ''BY'') (\<lambda>_. commaList n (parseOrderTerm n)))
       else ret [])"

definition parseLimit :: "(int64 \<times> bool) parser" where
  "parseLimit =
     bind (isKeyword ''LIMIT'') (\<lambda>b.
       if b then
         bind advance (\<lambda>_.
         bind cur (\<lambda>t.
           if kType t \<noteq> TokNumber then fail (ErrExpectedNumber (kText t))
           else bind advance (\<lambda>_. bind (lift (ParseInt (kText t))) (\<lambda>n. ret (n, True)))))
       else ret (0, False))"

definition parseSelect :: "nat \<Rightarrow> Statement parser" where
  "parseSelect n =
     bind advance (\<lambda>_.
     bind (bind (isPunct ''*'') (\<lambda>b.
             if b then bind advance (\<lambda>_. ret ([], True))
             else bind (commaList n (parseSelectItem n)) (\<lambda>items. ret (items, False)))) (\<lambda>(items, star).
     bind (expectKeyword ''FROM'') (\<lambda>_.
     bind expectIdent (\<lambda>table.
     bind (parseAlias table) (\<lambda>alias.
     bind (parseJoins n n) (\<lambda>joins.
     bind (parseWhere n) (\<lambda>where.
     bind (parseOrderBy n) (\<lambda>orderBy.
     bind parseLimit (\<lambda>(limit, hasLim).
     ret (Select_stmt \<lparr>seItems = items, seStar = star, seTable = table, seAlias = alias, seJoins = joins,
       seWhere = where, seOrderBy = orderBy, seLimit = limit, seHasLim = hasLim\<rparr>))))))))))"

definition parseAssignment :: "nat \<Rightarrow> Assignment parser" where
  "parseAssignment n =
     bind expectIdent (\<lambda>col.
     bind (expectPunct ''='') (\<lambda>_.
     bind (parseExpr n) (\<lambda>val.
     ret \<lparr>asColumn = col, asValue = val\<rparr>)))"

definition parseUpdate :: "nat \<Rightarrow> Statement parser" where
  "parseUpdate n =
     bind advance (\<lambda>_.
     bind expectIdent (\<lambda>table.
     bind (expectKeyword ''SET'') (\<lambda>_.
     bind (commaList n (parseAssignment n)) (\<lambda>assigns.
     bind (parseWhere n) (\<lambda>where.
     ret (Update_stmt \<lparr>upTable = table, upSet = assigns, upWhere = where\<rparr>))))))"

definition parseDelete :: "nat \<Rightarrow> Statement parser" where
  "parseDelete n =
     bind advance (\<lambda>_.
     bind (expectKeyword ''FROM'') (\<lambda>_.
     bind expectIdent (\<lambda>table.
     bind (parseWhere n) (\<lambda>where.
     ret (Delete_stmt \<lparr>deTable = table, deWhere = where\<rparr>)))))"

definition parseBegin :: "Statement parser" where
  "parseBegin =
     bind advance (\<lambda>_.
     bind (skipPunct '';'') (\<lambda>_.
     bind (isKeyword ''TRANSACTION'') (\<lambda>b.
     if b then bind advance (\<lambda>_. ret BeginStmt) else ret BeginStmt)))"

definition parseStatement :: "nat \<Rightarrow> Statement parser" where
  "parseStatement n =
     bind cur (\<lambda>t.
       let kw = (\<lambda>s. kType t = TokKeyword \<and> kText t = s)
       in if kw ''CREATE'' then parseCreate n
          else if kw ''DROP'' then parseDrop
          else if kw ''INSERT'' then parseInsert n
          else if kw ''SELECT'' then parseSelect n
          else if kw ''UPDATE'' then parseUpdate n
          else if kw ''DELETE'' then parseDelete n
          else if kw ''BEGIN'' then parseBegin
          else if kw ''COMMIT'' then bind advance (\<lambda>_. ret CommitStmt)
          else if kw ''ROLLBACK'' then bind advance (\<lambda>_. ret RollbackStmt)
          else if kw ''SHOW'' then bind advance (\<lambda>_. bind (expectKeyword ''TABLES'') (\<lambda>_. ret ShowTablesStmt))
          else fail (ErrUnexpectedToken (kText t)))"

definition Parse :: "unicode \<Rightarrow> string \<Rightarrow> Statement result" where
  "Parse u src =
     rbind (Tokenize u src) (\<lambda>toks.
       fst (bind (parseStatement (length toks)) (\<lambda>stmt.
            bind (skipPunct '';'') (\<lambda>_.
            bind cur (\<lambda>t.
              if kType t \<noteq> TokEOF then fail (ErrTrailingInput (kText t)) else ret stmt))) toks))"

end
