(* ===== verification/ParserTotal.thy ===== *)
theory ParserTotal
  imports Parser
begin

text \<open>
  The parser always ends with a statement or an error message: it never runs out of
  tokens, and the number of steps it is given suffices.
\<close>

section \<open>Token sequences\<close>

definition wf_toks :: "Token list \<Rightarrow> bool" where
  "wf_toks ts \<longleftrightarrow> ts \<noteq> [] \<and> kType (last ts) = TokEOF \<and> (\<forall>t\<in>set (butlast ts). kType t \<noteq> TokEOF)"

lemma wf_toks_hd:
  "wf_toks ts \<Longrightarrow> kType (hd ts) \<noteq> TokEOF \<Longrightarrow> \<exists>t u us. ts = t # u # us \<and> wf_toks (u # us)"
  by (cases ts rule: remdups_adj.cases) (auto simp: wf_toks_def)

text \<open>
  \<open>runs_on N k ne f\<close>: on every sequence of at most \<open>N\<close> tokens (whose first is not the end,
  if \<open>ne\<close>), \<open>f\<close> ends with a genuine error or a value, and takes at least \<open>k\<close> tokens for a value.
\<close>

definition runs_on :: "nat \<Rightarrow> nat \<Rightarrow> bool \<Rightarrow> 'a parser \<Rightarrow> bool" where
  "runs_on N k ne f \<longleftrightarrow>
     (\<forall>ts. wf_toks ts \<and> length ts \<le> N \<and> (ne \<longrightarrow> kType (hd ts) \<noteq> TokEOF) \<longrightarrow>
        (case f ts of (r, ts') \<Rightarrow> wf_toks ts' \<and> length ts' \<le> length ts \<and>
           (case r of Inl e \<Rightarrow> e \<noteq> Panic \<and> e \<noteq> Diverges | Inr _ \<Rightarrow> length ts' + k \<le> length ts)))"

lemma runs_onD:
  assumes "runs_on N k ne f" "wf_toks ts" "length ts \<le> N" "ne \<Longrightarrow> kType (hd ts) \<noteq> TokEOF"
  obtains e ts' where "f ts = (Inl e, ts')" "e \<noteq> Panic" "e \<noteq> Diverges" "wf_toks ts'" "length ts' \<le> length ts"
  | x ts' where "f ts = (Inr x, ts')" "wf_toks ts'" "length ts' + k \<le> length ts"
proof -
  obtain r ts' where f: "f ts = (r, ts')" by fastforce
  have "wf_toks ts' \<and> length ts' \<le> length ts \<and>
      (case r of Inl e \<Rightarrow> e \<noteq> Panic \<and> e \<noteq> Diverges | Inr _ \<Rightarrow> length ts' + k \<le> length ts)"
    using assms f unfolding runs_on_def by fastforce
  then show thesis using f that by (cases r) auto
qed

lemma runs_on_bind:
  assumes "runs_on N k ne f" "\<And>x. runs_on (N - k) (m - k) False (g x)"
  shows "runs_on N m ne (bind f g)"
  unfolding runs_on_def
proof (intro allI impI, elim conjE)
  fix ts assume ts: "wf_toks ts" "length ts \<le> N" "ne \<longrightarrow> kType (hd ts) \<noteq> TokEOF"
  from ts(3) have ne: "ne \<Longrightarrow> kType (hd ts) \<noteq> TokEOF" by simp
  show "case bind f g ts of (r, ts') \<Rightarrow> wf_toks ts' \<and> length ts' \<le> length ts \<and>
      (case r of Inl e \<Rightarrow> e \<noteq> Panic \<and> e \<noteq> Diverges | Inr _ \<Rightarrow> length ts' + m \<le> length ts)"
  proof (rule runs_onD [OF assms(1) ts(1,2) ne])
    fix x ts' assume f: "f ts = (Inr x, ts')" and t': "wf_toks ts'" "length ts' + k \<le> length ts"
    have l: "length ts' \<le> N - k" using t'(2) ts(2) by simp
    show ?thesis
      by (rule runs_onD [OF assms(2) t'(1) l, of x]) (use f t' in \<open>auto simp: bind_def\<close>)
  qed (auto simp: bind_def)
qed

lemma runs_on_weaken: "runs_on N k False f \<Longrightarrow> m \<le> k \<Longrightarrow> runs_on N m ne f"
  unfolding runs_on_def by (fastforce split: sum.splits)

lemma runs_on_le: "runs_on N k ne f \<Longrightarrow> M \<le> N \<Longrightarrow> runs_on M k ne f"
  unfolding runs_on_def by fastforce

lemma runs_on_0 [simp]: "runs_on 0 k ne f"
  by (simp add: runs_on_def wf_toks_def)

lemma runs_on_ret: "m = 0 \<Longrightarrow> runs_on N m ne (ret x)"
  by (simp add: runs_on_def)

lemma runs_on_fail: "e \<noteq> Panic \<Longrightarrow> e \<noteq> Diverges \<Longrightarrow> runs_on N m ne (fail e)"
  by (simp add: runs_on_def)

lemma runs_on_lift: "r \<noteq> Inl Panic \<Longrightarrow> r \<noteq> Inl Diverges \<Longrightarrow> runs_on N 0 ne (lift r)"
  by (auto simp: runs_on_def split: sum.splits)

lemma runs_on_cur:
  assumes "\<And>t. kType t = TokEOF \<Longrightarrow> runs_on N m ne (f t)" "\<And>t. kType t \<noteq> TokEOF \<Longrightarrow> runs_on N m True (f t)"
  shows "runs_on N m ne (bind cur f)"
  unfolding runs_on_def
proof (intro allI impI)
  fix ts assume ts: "wf_toks ts \<and> length ts \<le> N \<and> (ne \<longrightarrow> kType (hd ts) \<noteq> TokEOF)"
  then have "bind cur f ts = f (hd ts) ts" by (cases ts) (auto simp: wf_toks_def bind_def cur_def)
  then show "case bind cur f ts of (r, ts') \<Rightarrow> wf_toks ts' \<and> length ts' \<le> length ts \<and>
      (case r of Inl e \<Rightarrow> e \<noteq> Panic \<and> e \<noteq> Diverges | Inr _ \<Rightarrow> length ts' + m \<le> length ts)"
    using assms(1,2) [of "hd ts"] ts unfolding runs_on_def by (cases "kType (hd ts) = TokEOF") auto
qed

lemma bind_ret_left: "bind (ret x) f = f x"
  by (rule ext) simp

lemma runs_on_test:
  assumes "\<And>t. P t \<Longrightarrow> kType t \<noteq> TokEOF" "runs_on N m True (f True)" "runs_on N m ne (f False)"
  shows "runs_on N m ne (bind (bind cur (\<lambda>t. ret (P t))) f)"
  unfolding bind_assoc bind_ret_left
proof (rule runs_on_cur)
  show "runs_on N m ne (f (P t))" if "kType t = TokEOF" for t using assms(1) [of t] assms(3) that by (cases "P t") auto
  have "runs_on N m True (f False)" using assms(3) unfolding runs_on_def by fastforce
  then show "runs_on N m True (f (P t))" for t using assms(2) by (cases "P t") auto
qed

lemma runs_on_kw: "runs_on N m True (f True) \<Longrightarrow> runs_on N m ne (f False) \<Longrightarrow> runs_on N m ne (bind (isKeyword kw) f)"
  unfolding isKeyword_def by (rule runs_on_test) auto

lemma runs_on_punct: "runs_on N m True (f True) \<Longrightarrow> runs_on N m ne (f False) \<Longrightarrow> runs_on N m ne (bind (isPunct kw) f)"
  unfolding isPunct_def by (rule runs_on_test) auto

lemma runs_on_ident: "runs_on N m True (f True) \<Longrightarrow> runs_on N m ne (f False) \<Longrightarrow> runs_on N m ne (bind isIdent f)"
  unfolding isIdent_def by (rule runs_on_test) auto

lemma runs_on_advance:
  assumes "\<And>t. runs_on (N - 1) (m - 1) False (f t)"
  shows "runs_on N m True (bind advance f)"
proof (rule runs_on_bind)
  show "runs_on N 1 True advance"
    unfolding runs_on_def advance_def by (auto dest!: wf_toks_hd split: list.splits)
qed (use assms in simp)

lemma runs_on_if: "(b \<Longrightarrow> runs_on N m ne f) \<Longrightarrow> (\<not> b \<Longrightarrow> runs_on N m ne g) \<Longrightarrow> runs_on N m ne (if b then f else g)"
  by simp

lemma runs_expectKeyword: "runs_on N 1 ne (expectKeyword kw)"
  unfolding expectKeyword_def by (rule runs_on_kw) (auto intro!: runs_on_advance runs_on_ret runs_on_cur runs_on_fail)

lemma runs_expectPunct: "runs_on N 1 ne (expectPunct s)"
  unfolding expectPunct_def by (rule runs_on_punct) (auto intro!: runs_on_advance runs_on_ret runs_on_cur runs_on_fail)

lemma runs_expectIdent: "runs_on N 1 ne expectIdent"
  unfolding expectIdent_def by (rule runs_on_cur) (auto intro!: runs_on_advance runs_on_ret runs_on_fail)

lemma runs_skipPunct: "runs_on N 0 ne (skipPunct s)"
  unfolding skipPunct_def by (rule runs_on_punct) (auto intro!: runs_on_advance runs_on_ret)

lemma runs_commaList: "runs_on N 1 False p \<Longrightarrow> N \<le> n \<Longrightarrow> runs_on N 1 ne (commaList n p)"
proof (induction n arbitrary: N ne)
  case (Suc n)
  have "runs_on (N - 1 - 1) 1 False (commaList n p)"
    by (rule Suc.IH [OF runs_on_le [OF Suc.prems(1)]]) (use Suc.prems(2) in auto)
  then have "runs_on (N - 1 - 1) 0 False (bind (commaList n p) (\<lambda>xs. ret (x # xs)))" for x
    by (rule runs_on_bind) (auto intro: runs_on_ret)
  then have "runs_on (N - 1) (1 - 1) True (bind advance (\<lambda>_. bind (commaList n p) (\<lambda>xs. ret (x # xs))))" for x
    by (intro runs_on_advance) simp
  moreover have "runs_on N 1 ne p" using runs_on_weaken [OF Suc.prems(1)] by simp
  ultimately show ?case
    unfolding commaList.simps by (intro runs_on_bind [of N 1] runs_on_punct) (auto intro: runs_on_ret)
qed simp

section \<open>Expressions\<close>

lemma uint_loop_errors: "uint_loop s n cs \<noteq> Inl Panic" "uint_loop s n cs \<noteq> Inl Diverges"
  by (induction s n cs rule: uint_loop.induct) (simp_all add: Let_def)

lemma ParseInt_errors: "ParseInt s \<noteq> Inl Panic" "ParseInt s \<noteq> Inl Diverges"
  using uint_loop_errors [of s 0 s] by (auto simp: ParseInt_def rbind_def split: sum.splits)

lemma ParseFloat_errors: "ParseFloat s \<noteq> Inl Panic" "ParseFloat s \<noteq> Inl Diverges"
  by (simp_all add: ParseFloat_def Let_def)

lemma runs_parsePrimary:
  assumes "runs_on (N - 1) 1 False pe"
  shows "runs_on N 1 ne (parsePrimary pe)"
proof -
  have num: "runs_on N 1 True (bind advance (\<lambda>_.
       if CHR ''.'' \<in> set s then bind (lift (ParseFloat s)) (\<lambda>f. ret (floatLiteral f))
       else bind (lift (ParseInt s)) (\<lambda>i. ret (intLiteral i))))" for s
    by (intro runs_on_advance runs_on_if)
      (auto intro!: runs_on_bind [OF runs_on_lift] runs_on_ret simp: ParseInt_errors ParseFloat_errors)
  have par: "runs_on N 1 True (bind advance (\<lambda>_. bind pe (\<lambda>e. bind (expectPunct '')'') (\<lambda>_. ret e))))"
    by (intro runs_on_advance runs_on_bind [OF assms] runs_on_bind [OF runs_expectPunct] runs_on_ret) simp
  have col: "runs_on N 1 True (bind advance (\<lambda>_. bind (isPunct ''.'') (\<lambda>b.
       if b then bind advance (\<lambda>_. bind expectIdent (\<lambda>col. ret (ColumnRef s col))) else ret (ColumnRef [] s))))" for s
    by (intro runs_on_advance runs_on_punct)
      (auto intro!: runs_on_advance runs_on_bind [OF runs_expectIdent] runs_on_ret)
  have lit: "runs_on N 1 True (bind advance (\<lambda>_. ret e))" for e :: Expr
    by (intro runs_on_advance runs_on_ret) simp
  show ?thesis
    unfolding parsePrimary_def
    by (rule runs_on_cur) (intro runs_on_if num par col lit runs_on_fail; simp)+
qed

lemma runs_parseUnary: "runs_on (N - 1) 1 False pe \<Longrightarrow> N \<le> n \<Longrightarrow> runs_on N 1 ne (parseUnary n pe)"
proof (induction n arbitrary: N ne)
  case (Suc n)
  have "runs_on (N - 1) 1 False (parseUnary n pe)"
    by (rule Suc.IH [OF runs_on_le [OF Suc.prems(1)]]) (use Suc.prems(2) in auto)
  then have "runs_on N 1 True (bind advance (\<lambda>_. bind (parseUnary n pe) (\<lambda>e. ret (UnaryExpr ''-'' e))))"
    by (intro runs_on_advance runs_on_bind [of _ 1] runs_on_ret) auto
  then show ?case
    unfolding parseUnary.simps using runs_parsePrimary [OF Suc.prems(1)] by (intro runs_on_cur) auto
qed simp

lemma runs_binaryLoop:
  "runs_on N 1 False f \<Longrightarrow> N \<le> n \<Longrightarrow> (\<And>t. isOp t \<Longrightarrow> kType t \<noteq> TokEOF) \<Longrightarrow> runs_on N 0 ne (binaryLoop n isOp f left)"
proof (induction n arbitrary: N ne left)
  case (Suc n)
  have f: "runs_on (N - 1) 1 False f" by (rule runs_on_le [OF Suc.prems(1)]) simp
  have "runs_on (N - 1 - 1) 0 False (binaryLoop n isOp f e)" for e
    by (rule Suc.IH [OF runs_on_le [OF f]]) (use Suc.prems(2,3) in auto)
  then have "runs_on N 0 True (bind advance (\<lambda>op. bind f (\<lambda>right. binaryLoop n isOp f (BinaryExpr (kText op) left right))))"
    by (intro runs_on_advance runs_on_bind [OF f]) auto
  then show ?case
    unfolding binaryLoop.simps by (intro runs_on_cur runs_on_if) (use Suc.prems(3) in \<open>auto intro: runs_on_ret\<close>)
qed simp

lemma runs_level:
  assumes "\<And>M ne. M \<le> N \<Longrightarrow> runs_on M 1 ne f" "N \<le> n" "\<And>t. isOp t \<Longrightarrow> kType t \<noteq> TokEOF"
  shows "M \<le> N \<Longrightarrow> runs_on M 1 ne (bind f (binaryLoop n isOp f))"
proof (rule runs_on_bind)
  assume M: "M \<le> N"
  show "runs_on M 1 ne f" by (rule assms(1) [OF M])
  have "runs_on (M - 1) 1 False f" by (rule assms(1)) (use M in simp)
  then show "runs_on (M - 1) (1 - 1) False (binaryLoop n isOp f x)" for x
    using runs_binaryLoop [of "M - 1" f n isOp] assms(2,3) M by simp
qed

lemma runs_parseNot:
  assumes "\<And>M ne. M \<le> N \<Longrightarrow> runs_on M 1 ne (parseComparison m pe)"
  shows "M \<le> n \<Longrightarrow> M \<le> N \<Longrightarrow> runs_on M 1 ne (parseNot n m pe)"
proof (induction n arbitrary: M ne)
  case (Suc n)
  have "runs_on (M - 1) 1 False (parseNot n m pe)" by (rule Suc.IH) (use Suc.prems in auto)
  then have "runs_on M 1 True (bind advance (\<lambda>_. bind (parseNot n m pe) (\<lambda>e. ret (UnaryExpr ''NOT'' e))))"
    by (intro runs_on_advance runs_on_bind [of _ 1] runs_on_ret) auto
  then show ?case unfolding parseNot.simps using assms [OF Suc.prems(2)] by (intro runs_on_kw) auto
qed simp

lemma runs_parseOr:
  assumes pe: "runs_on (N - 1) 1 False pe" and n: "N \<le> n"
  shows "runs_on N 1 ne (parseOr n pe)"
proof -
  have un: "runs_on M 1 ne (parseUnary n pe)" if "M \<le> N" for M ne
    by (rule runs_parseUnary [OF runs_on_le [OF pe]]) (use that n in auto)
  have mul: "runs_on M 1 ne (parseMultiplicative n pe)" if "M \<le> N" for M ne
    unfolding parseMultiplicative_def by (rule runs_level [OF un n _ that]) (auto simp: mulOp_def)
  have add: "runs_on M 1 ne (parseAdditive n pe)" if "M \<le> N" for M ne
    unfolding parseAdditive_def by (rule runs_level [OF mul n _ that]) (auto simp: addOp_def)
  have cmp: "runs_on M 1 ne (parseComparison n pe)" if M: "M \<le> N" for M ne
  proof -
    have "runs_on (M - 1 - 1) 1 False (parseAdditive n pe)" by (rule add) (use M in simp)
    then have "runs_on (M - 1) 0 True (bind advance (\<lambda>t'. let op = (if kText t' = ''!='' then ''<>'' else kText t')
        in bind (parseAdditive n pe) (\<lambda>right. ret (BinaryExpr op left right))))" for left
      unfolding Let_def by (intro runs_on_advance runs_on_bind [of _ 1] runs_on_ret) auto
    then show ?thesis
      unfolding parseComparison_def
      by (intro runs_on_bind [OF add [OF M]] runs_on_cur runs_on_if) (auto intro: runs_on_ret)
  qed
  have nt: "runs_on M 1 ne (parseNot n n pe)" if "M \<le> N" for M ne
    by (rule runs_parseNot [OF cmp]) (use that n in auto)
  have an: "runs_on M 1 ne (parseAnd n pe)" if "M \<le> N" for M ne
    unfolding parseAnd_def by (rule runs_level [OF nt n _ that]) (auto simp: andOp_def)
  show ?thesis
    unfolding parseOr_def by (rule runs_level [OF an n _ le_refl]) (auto simp: orOp_def)
qed

lemma runs_parseExpr: "N \<le> n \<Longrightarrow> runs_on N 1 ne (parseExpr n)"
proof (induction n arbitrary: N ne)
  case (Suc n)
  have "runs_on (N - 1) 1 False (parseExpr n)" by (rule Suc.IH) (use Suc.prems in simp)
  then show ?case using runs_parseOr [OF _ Suc.prems] by simp
qed simp


section \<open>Statements\<close>

lemma runs_tail: "runs_on N 1 ne f \<Longrightarrow> m \<le> 1 \<Longrightarrow> runs_on N m ne f"
  unfolding runs_on_def by (fastforce split: sum.splits)

lemma bind_if: "bind (if b then f else g) h = (if b then bind f h else bind g h)"
  by simp

lemmas bind_norm = bind_assoc bind_ret_left bind_if

lemmas runs_step = runs_on_kw runs_on_punct runs_on_ident runs_on_advance runs_on_cur runs_on_if
  runs_on_bind [OF runs_expectKeyword] runs_on_bind [OF runs_expectPunct] runs_on_bind [OF runs_expectIdent]
  runs_on_bind [OF runs_skipPunct]

lemmas runs_leaf = runs_on_ret runs_on_fail runs_tail [OF runs_expectIdent] runs_tail [OF runs_parseExpr]

lemma runs_columnConstraints: "N \<le> n \<Longrightarrow> runs_on N 0 ne (columnConstraints n spec)"
proof (induction n arbitrary: N ne spec)
  case (Suc n)
  have "runs_on (N - 1) 0 False (columnConstraints n sp)" "runs_on (N - 1 - 1) 0 False (columnConstraints n sp)" for sp
    by (rule Suc.IH, use Suc.prems in simp)+
  then show ?case unfolding columnConstraints.simps by (intro runs_step) (auto intro: runs_leaf)
qed simp

lemma runs_parseColumnSpec: "N \<le> n \<Longrightarrow> runs_on N 1 ne (parseColumnSpec n)"
  unfolding parseColumnSpec_def by (intro runs_step) (auto intro!: runs_leaf runs_columnConstraints)

lemma runs_parseCreate: "N \<le> n \<Longrightarrow> runs_on N 0 True (parseCreate n)"
  unfolding parseCreate_def bind_norm
  by (intro runs_step runs_on_bind [OF runs_commaList [OF runs_parseColumnSpec]]) (auto intro: runs_leaf)

lemma runs_parseDrop: "runs_on N 0 True parseDrop"
  unfolding parseDrop_def by (intro runs_step) (auto intro: runs_leaf)

lemma runs_parseInsert:
  assumes "N \<le> n"
  shows "runs_on N 0 True (parseInsert n)"
proof -
  have row: "runs_on M 1 False (bind (expectPunct ''('') (\<lambda>_. bind (commaList n (parseExpr n)) (\<lambda>vals.
      bind (expectPunct '')'') (\<lambda>_. ret vals))))" if "M \<le> n" for M
    by (intro runs_step runs_on_bind [OF runs_commaList [OF runs_parseExpr]]) (use that in \<open>auto intro: runs_leaf\<close>)
  show ?thesis
    unfolding parseInsert_def bind_norm
    by (intro runs_step runs_on_bind [OF runs_commaList [OF row]] runs_on_bind [OF runs_commaList [OF runs_expectIdent]])
      (use assms in \<open>auto intro: runs_leaf\<close>)
qed

lemma runs_parseAlias: "runs_on N 0 ne (parseAlias dflt)"
  unfolding parseAlias_def by (intro runs_step) (auto intro: runs_leaf)

lemma runs_parseSelectItem: "N \<le> n \<Longrightarrow> runs_on N 1 ne (parseSelectItem n)"
  unfolding parseSelectItem_def bind_norm Let_def
  by (intro runs_step runs_on_bind [OF runs_parseExpr]) (auto intro: runs_leaf)

lemma runs_parseJoins:
  assumes "N \<le> m"
  shows "M \<le> n \<Longrightarrow> M \<le> N \<Longrightarrow> runs_on M 0 ne (parseJoins n m)"
proof (induction n arbitrary: M ne)
  case (Suc n)
  have IH: "runs_on K 0 False (parseJoins n m)" if "K < M" for K
    by (rule Suc.IH) (use Suc.prems that in auto)
  have body: "runs_on K 0 ne' (bind (expectKeyword ''JOIN'') (\<lambda>_. bind expectIdent (\<lambda>jt. bind (parseAlias jt) (\<lambda>alias.
      bind (expectKeyword ''ON'') (\<lambda>_. bind (parseExpr m) (\<lambda>on. bind (parseJoins n m) (\<lambda>js.
      ret (\<lparr>jTable = jt, jAlias = alias, jOn = on\<rparr> # js))))))))" if "K \<le> M" for K ne'
  proof (cases "K = 0")
    case False
    then have "runs_on (K - 1 - 1 - 0 - 1 - 1) 0 False (parseJoins n m)" using that by (intro IH) linarith
    then show ?thesis
      by (intro runs_step runs_on_bind [OF runs_parseAlias] runs_on_bind [OF runs_parseExpr] runs_on_bind [of _ 0 _ "parseJoins n m"])
        (use that assms Suc.prems in \<open>auto intro: runs_leaf\<close>)
  qed simp
  show ?case
    unfolding parseJoins.simps bind_norm
    by (intro runs_on_kw runs_on_if runs_on_advance runs_on_ret) (auto intro!: body)
qed simp

lemma runs_parseWhere: "N \<le> n \<Longrightarrow> runs_on N 0 ne (parseWhere n)"
  unfolding parseWhere_def by (intro runs_step runs_on_bind [OF runs_parseExpr]) (auto intro: runs_leaf)

lemma runs_parseOrderTerm: "N \<le> n \<Longrightarrow> runs_on N 1 ne (parseOrderTerm n)"
  unfolding parseOrderTerm_def by (intro runs_step runs_on_bind [OF runs_parseExpr]) (auto intro: runs_leaf)

lemma runs_parseOrderBy: "N \<le> n \<Longrightarrow> runs_on N 0 ne (parseOrderBy n)"
  unfolding parseOrderBy_def
  by (intro runs_step runs_tail [OF runs_commaList [OF runs_parseOrderTerm]]) (auto intro: runs_leaf)

lemma runs_parseLimit: "runs_on N 0 ne parseLimit"
  unfolding parseLimit_def
  by (intro runs_step runs_on_bind [OF runs_on_lift]) (auto intro: runs_leaf simp: ParseInt_errors)

lemma runs_parseSelect: "N \<le> n \<Longrightarrow> runs_on N 0 True (parseSelect n)"
  unfolding parseSelect_def bind_norm case_prod_conv
  by (intro runs_step runs_on_bind [OF runs_commaList [OF runs_parseSelectItem]] runs_on_bind [OF runs_parseAlias]
      runs_on_bind [OF runs_parseJoins [OF order_refl]] runs_on_bind [OF runs_parseWhere] runs_on_bind [OF runs_parseOrderBy]
      runs_on_bind [OF runs_parseLimit])
    (auto intro: runs_leaf)

lemma runs_parseAssignment: "N \<le> n \<Longrightarrow> runs_on N 1 ne (parseAssignment n)"
  unfolding parseAssignment_def by (intro runs_step runs_on_bind [OF runs_parseExpr]) (auto intro: runs_leaf)

lemma runs_parseUpdate: "N \<le> n \<Longrightarrow> runs_on N 0 True (parseUpdate n)"
  unfolding parseUpdate_def
  by (intro runs_step runs_on_bind [OF runs_commaList [OF runs_parseAssignment]] runs_on_bind [OF runs_parseWhere])
    (auto intro: runs_leaf)

lemma runs_parseDelete: "N \<le> n \<Longrightarrow> runs_on N 0 True (parseDelete n)"
  unfolding parseDelete_def by (intro runs_step runs_on_bind [OF runs_parseWhere]) (auto intro: runs_leaf)

lemma runs_parseBegin: "runs_on N 0 True parseBegin"
  unfolding parseBegin_def by (intro runs_step) (auto intro: runs_leaf)

lemma runs_parseStatement: "N \<le> n \<Longrightarrow> runs_on N 0 ne (parseStatement n)"
proof -
  assume n: "N \<le> n"
  have adv: "runs_on N 0 True (bind advance (\<lambda>_. ret st))" for st :: Statement
    by (intro runs_step) (auto intro: runs_leaf)
  have sh: "runs_on N 0 True (bind advance (\<lambda>_. bind (expectKeyword ''TABLES'') (\<lambda>_. ret ShowTablesStmt)))"
    by (intro runs_step) (auto intro: runs_leaf)
  show ?thesis
    unfolding parseStatement_def Let_def
    by (rule runs_on_cur)
      (intro runs_on_if runs_parseCreate [OF n] runs_parseDrop runs_parseInsert [OF n] runs_parseSelect [OF n]
         runs_parseUpdate [OF n] runs_parseDelete [OF n] runs_parseBegin adv sh runs_on_fail; simp)+
qed

end
