(* ===== verification/Grammar.thy ===== *)
theory Grammar
  imports ParserTotal
begin

text \<open>
  The grammar of expressions, with its eight levels of precedence, as a relation between
  an expression and its tokens, and the proof that \<^verbatim>\<open>parseExpr\<close> of
  \<^verbatim>\<open>internal/sqlparser/parser.go\<close> recognises exactly it.
\<close>

section \<open>The grammar\<close>

definition punct :: "string \<Rightarrow> Token \<Rightarrow> bool" where
  "punct s t \<longleftrightarrow> kType t = TokPunct \<and> kText t = s"

definition keyword :: "string \<Rightarrow> Token \<Rightarrow> bool" where
  "keyword s t \<longleftrightarrow> kType t = TokKeyword \<and> kText t = s"

definition cmpOp :: "Token \<Rightarrow> bool" where
  "cmpOp t \<longleftrightarrow> kType t = TokPunct \<and> kText t \<in> set cmpOps"

definition cmpName :: "Token \<Rightarrow> string" where
  "cmpName t = (if kText t = ''!='' then ''<>'' else kText t)"

text \<open>The left-associative operators of a level: OR, AND, sums and products.\<close>

definition level_op :: "nat \<Rightarrow> Token \<Rightarrow> bool" where
  "level_op l t \<longleftrightarrow> l = 0 \<and> orOp t \<or> l = 1 \<and> andOp t \<or> l = 4 \<and> addOp t \<or> l = 5 \<and> mulOp t"

inductive gram :: "nat \<Rightarrow> Expr \<Rightarrow> Token list \<Rightarrow> bool" where
  g_int: "kType t = TokNumber \<Longrightarrow> CHR ''.'' \<notin> set (kText t) \<Longrightarrow> ParseInt (kText t) = Inr i \<Longrightarrow> gram 7 (intLiteral i) [t]"
| g_float: "kType t = TokNumber \<Longrightarrow> CHR ''.'' \<in> set (kText t) \<Longrightarrow> ParseFloat (kText t) = Inr f \<Longrightarrow> gram 7 (floatLiteral f) [t]"
| g_string: "kType t = TokString \<Longrightarrow> gram 7 (stringLiteral (kText t)) [t]"
| g_null: "keyword ''NULL'' t \<Longrightarrow> gram 7 nullLiteral [t]"
| g_true: "keyword ''TRUE'' t \<Longrightarrow> gram 7 (boolLiteral True) [t]"
| g_false: "keyword ''FALSE'' t \<Longrightarrow> gram 7 (boolLiteral False) [t]"
| g_paren: "punct ''('' t \<Longrightarrow> gram 0 e us \<Longrightarrow> punct '')'' t' \<Longrightarrow> gram 7 e (t # us @ [t'])"
| g_column: "kType t = TokIdent \<Longrightarrow> gram 7 (ColumnRef [] (kText t)) [t]"
| g_qualified: "kType t = TokIdent \<Longrightarrow> punct ''.'' d \<Longrightarrow> kType c = TokIdent \<Longrightarrow>
    gram 7 (ColumnRef (kText t) (kText c)) [t, d, c]"
| g_minus: "punct ''-'' t \<Longrightarrow> gram 6 e us \<Longrightarrow> gram 6 (UnaryExpr ''-'' e) (t # us)"
| g_not: "keyword ''NOT'' t \<Longrightarrow> gram 2 e us \<Longrightarrow> gram 2 (UnaryExpr ''NOT'' e) (t # us)"
| g_compare: "gram 4 a us \<Longrightarrow> cmpOp t \<Longrightarrow> gram 4 b vs \<Longrightarrow> gram 3 (BinaryExpr (cmpName t) a b) (us @ t # vs)"
| g_binary: "gram l a us \<Longrightarrow> level_op l t \<Longrightarrow> gram (Suc l) b vs \<Longrightarrow> gram l (BinaryExpr (kText t) a b) (us @ t # vs)"
| g_lift: "gram (Suc l) e us \<Longrightarrow> gram l e us"

lemma gram_ne: "gram l e us \<Longrightarrow> us \<noteq> []"
  by (induction rule: gram.induct) auto

section \<open>Soundness\<close>

text \<open>\<open>yields R f\<close>: a value of \<open>f\<close> is related by \<open>R\<close> to the tokens it took.\<close>

definition yields :: "('a \<Rightarrow> Token list \<Rightarrow> bool) \<Rightarrow> 'a parser \<Rightarrow> bool" where
  "yields R f \<longleftrightarrow> (\<forall>ts x ts'. wf_toks ts \<longrightarrow> f ts = (Inr x, ts') \<longrightarrow> wf_toks ts' \<and> (\<exists>us. ts = us @ ts' \<and> R x us))"

lemma yieldsD:
  assumes "yields R f" "f ts = (Inr x, ts')" "wf_toks ts"
  obtains us where "ts = us @ ts'" "R x us" "wf_toks ts'"
  using assms unfolding yields_def by blast

lemma bind_InrD:
  assumes "bind f g ts = (Inr y, ts')"
  obtains x ts1 where "f ts = (Inr x, ts1)" "g x ts1 = (Inr y, ts')"
  using assms by (auto simp: bind_def split: prod.splits sum.splits)

lemma yields_bind:
  assumes "yields R f" "\<And>x us. R x us \<Longrightarrow> yields (\<lambda>y vs. S y (us @ vs)) (g x)"
  shows "yields S (bind f g)"
  unfolding yields_def
proof (intro allI impI)
  fix ts y ts' assume ts: "wf_toks ts" and b: "bind f g ts = (Inr y, ts')"
  from b obtain x ts1 where x: "f ts = (Inr x, ts1)" "g x ts1 = (Inr y, ts')" by (rule bind_InrD)
  obtain us where us: "ts = us @ ts1" "R x us" "wf_toks ts1" using yieldsD [OF assms(1) x(1) ts] by blast
  obtain vs where "ts1 = vs @ ts'" "S y (us @ vs)" "wf_toks ts'"
    using yieldsD [OF assms(2) [OF us(2)] x(2) us(3)] by blast
  then show "wf_toks ts' \<and> (\<exists>us. ts = us @ ts' \<and> S y us)" using us(1) by auto
qed

lemma yields_ret: "R x [] \<Longrightarrow> yields R (ret x)"
  by (simp add: yields_def)

lemma yields_fail [simp]: "yields R (fail e)"
  by (simp add: yields_def)

lemma yields_lift: "(\<And>x. r = Inr x \<Longrightarrow> R x []) \<Longrightarrow> yields R (lift r)"
  by (simp add: yields_def)

text \<open>The same for sequences that start with the token \<open>t\<close>.\<close>

definition yields_at :: "Token \<Rightarrow> ('a \<Rightarrow> Token list \<Rightarrow> bool) \<Rightarrow> 'a parser \<Rightarrow> bool" where
  "yields_at t R f \<longleftrightarrow> (\<forall>ts x ts'. wf_toks (t # ts) \<longrightarrow> f (t # ts) = (Inr x, ts') \<longrightarrow>
     wf_toks ts' \<and> (\<exists>us. t # ts = us @ ts' \<and> R x us))"

lemma yields_at_yields: "yields R f \<Longrightarrow> yields_at t R f"
  by (simp add: yields_def yields_at_def)

lemma yields_cur: "(\<And>t. yields_at t R (f t)) \<Longrightarrow> yields R (bind cur f)"
  unfolding yields_def
proof (intro allI impI)
  fix ts x ts' assume y: "\<And>t. yields_at t R (f t)" and w: "wf_toks ts" and b: "bind cur f ts = (Inr x, ts')"
  obtain t us where ts: "ts = t # us" using w by (cases ts) (auto simp: wf_toks_def)
  then have "f t ts = (Inr x, ts')" using b by (simp add: bind_def cur_def)
  then show "wf_toks ts' \<and> (\<exists>us. ts = us @ ts' \<and> R x us)" using y [of t] w ts by (simp add: yields_at_def)
qed

lemma yields_at_advance:
  assumes "kType t \<noteq> TokEOF" "yields (\<lambda>y vs. R y (t # vs)) (g t)"
  shows "yields_at t R (bind advance g)"
  unfolding yields_at_def
proof (intro allI impI)
  fix ts x ts' assume w: "wf_toks (t # ts)" and b: "bind advance g (t # ts) = (Inr x, ts')"
  obtain u us where ts: "ts = u # us" "wf_toks ts" using wf_toks_hd [OF w] assms(1) by auto
  then have "g t ts = (Inr x, ts')" using b by (simp add: bind_def advance_def)
  then obtain us where "ts = us @ ts'" "R x (t # us)" "wf_toks ts'" using yieldsD [OF assms(2) _ ts(2)] by blast
  then show "wf_toks ts' \<and> (\<exists>us. t # ts = us @ ts' \<and> R x us)" by (metis append_Cons)
qed

lemma yields_at_if:
  "(b \<Longrightarrow> yields_at t R f) \<Longrightarrow> (\<not> b \<Longrightarrow> yields_at t R g) \<Longrightarrow> yields_at t R (if b then f else g)"
  by simp

lemma yields_test: "(\<And>t. yields_at t R (f (P t))) \<Longrightarrow> yields R (bind (bind cur (\<lambda>t. ret (P t))) f)"
  unfolding bind_assoc bind_ret_left by (rule yields_cur)

lemma yields_expectPunct: "yields (\<lambda>_ us. \<exists>t. us = [t] \<and> punct s t) (expectPunct s)"
  unfolding expectPunct_def isPunct_def
  by (intro yields_test yields_at_if yields_at_advance)
    (auto intro!: yields_ret yields_at_yields yields_cur simp: punct_def)

lemma yields_expectIdent: "yields (\<lambda>x us. \<exists>t. us = [t] \<and> kType t = TokIdent \<and> kText t = x) expectIdent"
  unfolding expectIdent_def
  by (intro yields_cur yields_at_if yields_at_advance) (auto intro!: yields_ret yields_at_yields)

lemma yields_parsePrimary:
  assumes "yields (gram 0) pe"
  shows "yields (gram 7) (parsePrimary pe)"
proof -
  have num: "yields_at t (gram 7) (bind advance (\<lambda>_.
       if CHR ''.'' \<in> set (kText t) then bind (lift (ParseFloat (kText t))) (\<lambda>f. ret (floatLiteral f))
       else bind (lift (ParseInt (kText t))) (\<lambda>i. ret (intLiteral i))))" if "kType t = TokNumber" for t
  proof (rule yields_at_advance)
    let ?R = "\<lambda>x us. gram 7 x (t # us)"
    have "yields ?R (bind (lift (ParseFloat (kText t))) (\<lambda>f. ret (floatLiteral f)))" if "CHR ''.'' \<in> set (kText t)"
      by (rule yields_bind [OF yields_lift [where R = "\<lambda>x us. us = [] \<and> ParseFloat (kText t) = Inr x"]])
        (use that \<open>kType t = TokNumber\<close> in \<open>auto intro: yields_ret g_float\<close>)
    moreover have "yields ?R (bind (lift (ParseInt (kText t))) (\<lambda>f. ret (intLiteral f)))" if "CHR ''.'' \<notin> set (kText t)"
      by (rule yields_bind [OF yields_lift [where R = "\<lambda>x us. us = [] \<and> ParseInt (kText t) = Inr x"]])
        (use that \<open>kType t = TokNumber\<close> in \<open>auto intro: yields_ret g_int\<close>)
    ultimately show "yields ?R (if CHR ''.'' \<in> set (kText t) then bind (lift (ParseFloat (kText t))) (\<lambda>f. ret (floatLiteral f))
       else bind (lift (ParseInt (kText t))) (\<lambda>i. ret (intLiteral i)))" by simp
  qed (use that in simp)
  have par: "yields_at t (gram 7) (bind advance (\<lambda>_. bind pe (\<lambda>e. bind (expectPunct '')'') (\<lambda>_. ret e))))"
    if "punct ''('' t" for t
    using that
    by (intro yields_at_advance yields_bind [OF assms] yields_bind [OF yields_expectPunct])
      (auto simp: punct_def intro!: yields_ret intro: g_paren [unfolded punct_def])
  have col: "yields_at t (gram 7) (bind advance (\<lambda>_. bind (isPunct ''.'') (\<lambda>b.
       if b then bind advance (\<lambda>_. bind expectIdent (\<lambda>col. ret (ColumnRef (kText t) col)))
       else ret (ColumnRef [] (kText t)))))" if "kType t = TokIdent" for t
    using that unfolding isPunct_def
    by (intro yields_at_advance yields_test yields_at_if)
      (auto intro!: yields_at_advance yields_bind [OF yields_expectIdent] yields_ret yields_at_yields
        intro: g_column g_qualified [unfolded punct_def])
  have lit: "yields_at t (gram 7) (bind advance (\<lambda>_. ret e))" if "gram 7 e [t]" "kType t \<noteq> TokEOF" for t e
    using that by (intro yields_at_advance yields_ret)
  show ?thesis
    unfolding parsePrimary_def
    by (rule yields_cur, (intro yields_at_if num par col lit yields_at_yields yields_fail)?)
      (auto intro: g_string g_null g_true g_false simp: punct_def keyword_def)
qed

lemma yields_parseUnary: "yields (gram 0) pe \<Longrightarrow> yields (gram 6) (parseUnary n pe)"
proof (induction n)
  case (Suc n)
  have "yields (gram 6) (parsePrimary pe)"
    using yields_parsePrimary [OF Suc.prems] g_lift [of 6] unfolding yields_def by (metis eval_nat_numeral(3))
  then show ?case
    using Suc unfolding parseUnary.simps
    by (intro yields_cur yields_at_if yields_at_advance yields_bind [of "gram 6"] yields_at_yields yields_ret)
      (auto intro: g_minus simp: punct_def)
qed simp

lemma yields_binaryLoop:
  assumes "yields (gram (Suc l)) f" "\<And>t. isOp t \<Longrightarrow> level_op l t \<and> kType t \<noteq> TokEOF"
  shows "gram l left us0 \<Longrightarrow> yields (\<lambda>x us. gram l x (us0 @ us)) (binaryLoop n isOp f left)"
proof (induction n arbitrary: left us0)
  case (Suc n)
  have step: "yields (\<lambda>x vs. gram l x ((us0 @ [t]) @ us @ vs)) (binaryLoop n isOp f (BinaryExpr (kText t) left right))"
    if "isOp t" "gram (Suc l) right us" for t right us
    using Suc.IH [OF g_binary [OF Suc.prems _ that(2)]] assms(2) [OF that(1)] by simp
  show ?case
    unfolding binaryLoop.simps
    by (intro yields_cur yields_at_if yields_at_advance yields_bind [OF assms(1)] yields_at_yields yields_ret)
      (use assms(2) step Suc.prems in auto)
qed simp

lemma yields_level:
  assumes "yields (gram (Suc l)) f" "\<And>t. isOp t \<Longrightarrow> level_op l t \<and> kType t \<noteq> TokEOF"
  shows "yields (gram l) (bind f (binaryLoop n isOp f))"
  by (rule yields_bind [OF assms(1)]) (use yields_binaryLoop [OF assms] g_lift in auto)

lemma yields_parseNot:
  assumes "yields (gram 3) (parseComparison m pe)"
  shows "yields (gram 2) (parseNot n m pe)"
proof (induction n)
  case (Suc n)
  have "yields (gram 2) (parseComparison m pe)"
    using assms g_lift [of 2] unfolding yields_def by (metis eval_nat_numeral(3))
  then show ?case
    using Suc unfolding parseNot.simps isKeyword_def
    by (intro yields_test yields_at_if yields_at_advance yields_bind [of "gram 2"] yields_at_yields yields_ret)
      (auto intro: g_not simp: keyword_def)
qed (simp add: yields_def)

lemma yields_parseExpr: "yields (gram 0) (parseExpr n)"
proof (induction n)
  case (Suc n)
  let ?pe = "parseExpr n" and ?n = "Suc n"
  have un: "yields (gram (Suc 5)) (parseUnary ?n ?pe)" using yields_parseUnary [OF Suc.IH, of ?n] by (simp del: parseUnary.simps)
  have mul: "yields (gram (Suc 4)) (parseMultiplicative ?n ?pe)"
    using yields_level [OF un, of mulOp ?n] by (simp add: parseMultiplicative_def level_op_def mulOp_def)
  have add: "yields (gram 4) (parseAdditive ?n ?pe)"
    using yields_level [OF mul, of addOp ?n] by (simp add: parseAdditive_def level_op_def addOp_def)
  have cmp: "yields (gram 3) (parseComparison ?n ?pe)"
  proof -
    have "gram 3 x us" if "gram 4 x us" for x us using g_lift [of 3] that by simp
    then show ?thesis
      unfolding parseComparison_def Let_def
      by (intro yields_bind [OF add] yields_cur yields_at_if yields_at_advance yields_at_yields yields_ret)
        (use g_compare [unfolded cmpOp_def cmpName_def] in simp_all)
  qed
  have nt: "yields (gram (Suc 1)) (parseNot ?n ?n ?pe)" using yields_parseNot [OF cmp, of ?n] by (simp del: parseNot.simps add: numeral_2_eq_2)
  have an: "yields (gram (Suc 0)) (parseAnd ?n ?pe)"
    using yields_level [OF nt, of andOp ?n] by (simp add: parseAnd_def level_op_def andOp_def)
  show ?case
    using yields_level [OF an, of orOp ?n] by (simp add: parseOr_def level_op_def orOp_def)
qed (simp add: yields_def)

section \<open>Completeness\<close>

text \<open>
  \<open>stops l ts\<close>: an expression of level \<open>l\<close> may end before \<open>ts\<close>: the next token is no operator
  of the level or of a higher one, and no point.
\<close>

definition stops :: "nat \<Rightarrow> Token list \<Rightarrow> bool" where
  "stops l ts \<longleftrightarrow> ts \<noteq> [] \<and> \<not> punct ''.'' (hd ts) \<and> (\<forall>m\<ge>l. \<not> level_op m (hd ts)) \<and> (l \<le> 3 \<longrightarrow> \<not> cmpOp (hd ts))"

lemma stops_mono: "stops l ts \<Longrightarrow> l \<le> m \<Longrightarrow> stops m ts"
  by (auto simp: stops_def)

lemma stops_op: "level_op l t \<Longrightarrow> stops (Suc l) (t # ts)"
  by (auto simp: stops_def level_op_def punct_def orOp_def andOp_def addOp_def mulOp_def cmpOp_def cmpOps_def)

lemma stops_cmp: "cmpOp t \<Longrightarrow> stops 4 (t # ts)"
  by (auto simp: stops_def level_op_def punct_def orOp_def andOp_def addOp_def mulOp_def cmpOp_def cmpOps_def)

lemma stops_rparen: "punct '')'' t \<Longrightarrow> stops 0 (t # ts)"
  by (auto simp: stops_def level_op_def punct_def orOp_def andOp_def addOp_def mulOp_def cmpOp_def cmpOps_def)

lemma cur_Cons [simp]: "bind cur f (t # ts) = f t (t # ts)"
  by (simp add: bind_def cur_def)

lemma advance_Cons: "ts \<noteq> [] \<Longrightarrow> bind advance f (t # ts) = f t ts"
  by (cases ts) (simp_all add: bind_def advance_def)

lemma isPunct_Cons [simp]: "bind (isPunct s) f (t # ts) = f (punct s t) (t # ts)"
  by (simp add: isPunct_def bind_assoc bind_ret_left punct_def)

lemma isKeyword_Cons [simp]: "bind (isKeyword s) f (t # ts) = f (keyword s t) (t # ts)"
  by (simp add: isKeyword_def bind_assoc bind_ret_left keyword_def)

text \<open>The parser of a level; NOT has a count of its own.\<close>

definition level :: "nat \<Rightarrow> nat \<Rightarrow> nat \<Rightarrow> Expr parser \<Rightarrow> Expr parser" where
  "level l n m pe =
     (if l = 0 then parseOr m pe else if l = 1 then parseAnd m pe else if l = 2 then parseNot n m pe
      else if l = 3 then parseComparison m pe else if l = 4 then parseAdditive m pe
      else if l = 5 then parseMultiplicative m pe else if l = 6 then parseUnary m pe else parsePrimary pe)"

definition loop_level :: "nat \<Rightarrow> bool" where
  "loop_level l \<longleftrightarrow> l = 0 \<or> l = 1 \<or> l = 4 \<or> l = 5"

lemma level_loop:
  "loop_level l \<Longrightarrow> level l n m pe = bind (level (Suc l) m m pe) (binaryLoop m (level_op l) (level (Suc l) m m pe))"
proof -
  have "level_op 0 = orOp" "level_op 1 = andOp" "level_op 4 = addOp" "level_op 5 = mulOp"
    by (auto simp: level_op_def)
  then show "loop_level l \<Longrightarrow> ?thesis"
    by (auto simp: loop_level_def level_def parseOr_def parseAnd_def parseAdditive_def parseMultiplicative_def)
qed

text \<open>
  What is shown of a derivation: the level's parser takes its tokens, and where the level is a loop,
  it comes to the loop with them taken, whatever operator follows.
\<close>

definition complete :: "Expr parser \<Rightarrow> nat \<Rightarrow> Expr \<Rightarrow> Token list \<Rightarrow> bool" where
  "complete pe l e us \<longleftrightarrow>
     (\<forall>n m rest. length us < n \<longrightarrow> length us < m \<longrightarrow>
       (stops l rest \<longrightarrow> level l n m pe (us @ rest) = (Inr e, rest)) \<and>
       (loop_level l \<longrightarrow> stops (Suc l) rest \<longrightarrow>
          (\<exists>k. m \<le> k + length us \<and>
             level l n m pe (us @ rest) = binaryLoop k (level_op l) (level (Suc l) m m pe) e rest)))"

lemma completeD:
  assumes "complete pe l e us" "length us < n" "length us < m" "stops l rest"
  shows "level l n m pe (us @ rest) = (Inr e, rest)"
  using assms by (simp add: complete_def)

lemma loop_stop: "stops l rest \<Longrightarrow> 0 < k \<Longrightarrow> binaryLoop k (level_op l) f e rest = (Inr e, rest)"
  by (cases k; cases rest) (auto simp: stops_def)

lemma complete_loop:
  assumes "loop_level l"
    and "\<And>m rest. length us < m \<Longrightarrow> stops (Suc l) rest \<Longrightarrow> \<exists>k. m \<le> k + length us \<and>
       (\<forall>n. level l n m pe (us @ rest) = binaryLoop k (level_op l) (level (Suc l) m m pe) e rest)"
  shows "complete pe l e us"
  unfolding complete_def
proof (intro allI impI conjI)
  fix n m rest assume m: "length us < m"
  show "\<exists>k. m \<le> k + length us \<and> level l n m pe (us @ rest) = binaryLoop k (level_op l) (level (Suc l) m m pe) e rest"
    if "stops (Suc l) rest" using assms(2) [OF m that] by blast
  show "level l n m pe (us @ rest) = (Inr e, rest)" if s: "stops l rest"
  proof -
    have "stops (Suc l) rest" using stops_mono [OF s] by simp
    then obtain k where k: "m \<le> k + length us"
      "level l n m pe (us @ rest) = binaryLoop k (level_op l) (level (Suc l) m m pe) e rest"
      using assms(2) [OF m] by blast
    then show ?thesis using loop_stop [OF s] m by simp
  qed
qed

lemma complete_noloop:
  assumes "\<not> loop_level l"
    and "\<And>n m rest. length us < n \<Longrightarrow> length us < m \<Longrightarrow> stops l rest \<Longrightarrow> level l n m pe (us @ rest) = (Inr e, rest)"
  shows "complete pe l e us"
  using assms by (simp add: complete_def)

lemma gram_level: "gram l e us \<Longrightarrow> l \<le> 7"
  by (induction rule: gram.induct) (auto simp: level_op_def)

lemma gram_not_hd: "gram l e us \<Longrightarrow> 3 \<le> l \<Longrightarrow> \<not> keyword ''NOT'' (hd us)"
  by (induction rule: gram.induct) (auto simp: keyword_def punct_def dest: gram_ne)

lemma gram_minus_hd: "gram l e us \<Longrightarrow> 7 \<le> l \<Longrightarrow> \<not> punct ''-'' (hd us)"
  by (induction rule: gram.induct) (auto simp: keyword_def punct_def level_op_def dest: gram_level)

lemma complete_lift:
  assumes "complete pe (Suc l) e us" "gram (Suc l) e us"
  shows "complete pe l e us"
proof (cases "loop_level l")
  case True
  show ?thesis
  proof (rule complete_loop [OF True])
    fix m rest assume m: "length us < m" "stops (Suc l) rest"
    then have "level l n m pe (us @ rest) = binaryLoop m (level_op l) (level (Suc l) m m pe) e rest" for n
      using completeD [OF assms(1) m(1) m] by (simp add: level_loop [OF True] bind_def)
    then show "\<exists>k. m \<le> k + length us \<and>
        (\<forall>n. level l n m pe (us @ rest) = binaryLoop k (level_op l) (level (Suc l) m m pe) e rest)"
      by (intro exI [of _ m]) simp
  qed
next
  case False
  have "l \<le> 6" using gram_level [OF assms(2)] by simp
  then consider "l = 2" | "l = 3" | "l = 6" using False by (auto simp: loop_level_def numeral_eq_Suc le_Suc_eq)
  then show ?thesis
  proof (cases, goal_cases)
    case 1
    show ?case
    proof (rule complete_noloop [OF False])
      fix n m rest assume n: "length us < n" "length us < m" "stops l rest"
      obtain t us' where us: "us = t # us'" using gram_ne [OF assms(2)] by (cases us) auto
      have "\<not> keyword ''NOT'' t" using gram_not_hd [OF assms(2)] 1 us by simp
      moreover have "parseComparison m pe (us @ rest) = (Inr e, rest)"
        using completeD [OF assms(1) n(1,2)] stops_mono [OF n(3)] 1 by (simp add: level_def)
      ultimately show "level l n m pe (us @ rest) = (Inr e, rest)" using 1 us n(1) by (cases n) (auto simp: level_def)
    qed
  next
    case 2
    show ?case
    proof (rule complete_noloop [OF False])
      fix n m rest assume n: "length us < n" "length us < m" "stops l rest"
      have "parseAdditive m pe (us @ rest) = (Inr e, rest)"
        using completeD [OF assms(1) n(1,2)] stops_mono [OF n(3)] 2 by (simp add: level_def)
      then show "level l n m pe (us @ rest) = (Inr e, rest)"
        using n(3) 2 by (cases rest) (auto simp: level_def parseComparison_def bind_Inr stops_def cmpOp_def)
    qed
  next
    case 3
    show ?case
    proof (rule complete_noloop [OF False])
      fix n m rest assume n: "length us < n" "length us < m" "stops l rest"
      obtain t us' where us: "us = t # us'" using gram_ne [OF assms(2)] by (cases us) auto
      have "\<not> punct ''-'' t" using gram_minus_hd [OF assms(2)] 3 us by simp
      moreover have "parsePrimary pe (us @ rest) = (Inr e, rest)"
        using completeD [OF assms(1) n(1,2)] stops_mono [OF n(3)] 3 by (simp add: level_def)
      ultimately show "level l n m pe (us @ rest) = (Inr e, rest)"
        using 3 us n(2) by (cases m) (auto simp: level_def punct_def)
    qed
  qed
qed

lemma complete_binary:
  assumes "complete pe l a us" "level_op l t" "complete pe (Suc l) b vs"
  shows "complete pe l (BinaryExpr (kText t) a b) (us @ t # vs)"
proof -
  have loop: "loop_level l" using assms(2) by (auto simp: level_op_def loop_level_def)
  show ?thesis
  proof (rule complete_loop [OF loop])
    fix m rest assume m: "length (us @ t # vs) < m" "stops (Suc l) rest"
    let ?f = "level (Suc l) m m pe" and ?e = "BinaryExpr (kText t) a b"
    have "length us < m" using m(1) by simp
    then obtain k where k: "m \<le> k + length us"
      "level l m m pe (us @ t # vs @ rest) = binaryLoop k (level_op l) ?f a (t # vs @ rest)"
      using assms(1) loop stops_op [OF assms(2), of "vs @ rest"] unfolding complete_def by blast
    obtain k' where k': "k = Suc k'" using k(1) m(1) by (cases k) auto
    have ne: "vs @ rest \<noteq> []" using m(2) by (simp add: stops_def)
    have "?f (vs @ rest) = (Inr b, rest)" using completeD [OF assms(3) _ _ m(2)] m(1) by simp
    then have "level l m m pe (us @ t # vs @ rest) = binaryLoop k' (level_op l) ?f ?e rest"
      using assms(2) by (simp add: k(2) k' advance_Cons [OF ne] bind_Inr)
    moreover have "level l n m pe = level l m m pe" for n
      using level_loop [OF loop, of n m] level_loop [OF loop, of m m] by simp
    ultimately have "level l n m pe ((us @ t # vs) @ rest) = binaryLoop k' (level_op l) ?f ?e rest" for n
      by (metis append.assoc append_Cons)
    then show "\<exists>k. m \<le> k + length (us @ t # vs) \<and>
        (\<forall>n. level l n m pe ((us @ t # vs) @ rest) = binaryLoop k (level_op l) ?f ?e rest)"
      using k(1) k' by (intro exI [of _ k']) auto
  qed
qed

lemma complete_compare:
  assumes "complete pe 4 a us" "cmpOp t" "complete pe 4 b vs"
  shows "complete pe 3 (BinaryExpr (cmpName t) a b) (us @ t # vs)"
proof (rule complete_noloop)
  fix n m rest assume n: "length (us @ t # vs) < n" "length (us @ t # vs) < m" "stops 3 rest"
  have "parseAdditive m pe (us @ t # vs @ rest) = (Inr a, t # vs @ rest)"
    using completeD [OF assms(1) _ _ stops_cmp [OF assms(2)], of n m "vs @ rest"] n by (simp add: level_def)
  moreover have "parseAdditive m pe (vs @ rest) = (Inr b, rest)"
    using completeD [OF assms(3) _ _ stops_mono [OF n(3)], of n m] n by (simp add: level_def)
  moreover have "vs @ rest \<noteq> []" using n(3) by (simp add: stops_def)
  ultimately show "level 3 n m pe ((us @ t # vs) @ rest) = (Inr (BinaryExpr (cmpName t) a b), rest)"
    using assms(2) by (simp add: level_def parseComparison_def bind_Inr advance_Cons cmpOp_def cmpName_def Let_def)
qed (simp add: loop_level_def)

lemma complete_prefix:
  assumes "complete pe 2 e us" "keyword ''NOT'' t"
  shows "complete pe 2 (UnaryExpr ''NOT'' e) (t # us)"
proof (rule complete_noloop)
  fix n m rest assume n: "length (t # us) < n" "length (t # us) < m" "stops 2 rest"
  obtain n' where n': "n = Suc n'" "length us < n'" using n(1) by (cases n) auto
  have "parseNot n' m pe (us @ rest) = (Inr e, rest)"
    using completeD [OF assms(1) n'(2) _ n(3), of m] n(2) by (simp add: level_def)
  moreover have "us @ rest \<noteq> []" using n(3) by (simp add: stops_def)
  ultimately show "level 2 n m pe ((t # us) @ rest) = (Inr (UnaryExpr ''NOT'' e), rest)"
    using assms(2) n'(1) by (simp add: level_def advance_Cons bind_Inr)
qed (simp add: loop_level_def)

lemma complete_minus:
  assumes "complete pe 6 e us" "punct ''-'' t"
  shows "complete pe 6 (UnaryExpr ''-'' e) (t # us)"
proof (rule complete_noloop)
  fix n m rest assume n: "length (t # us) < n" "length (t # us) < m" "stops 6 rest"
  obtain m' where m': "m = Suc m'" "length us < m'" using n(2) by (cases m) auto
  have "parseUnary m' pe (us @ rest) = (Inr e, rest)"
    using completeD [OF assms(1) m'(2,2) n(3)] by (simp add: level_def)
  moreover have "us @ rest \<noteq> []" using n(3) by (simp add: stops_def)
  ultimately show "level 6 n m pe ((t # us) @ rest) = (Inr (UnaryExpr ''-'' e), rest)"
    using assms(2) m'(1) by (simp add: level_def advance_Cons bind_Inr punct_def)
qed (simp add: loop_level_def)

lemma complete_primary:
  assumes "\<And>rest. stops 7 rest \<Longrightarrow> parsePrimary pe (us @ rest) = (Inr e, rest)"
  shows "complete pe 7 e us"
  by (rule complete_noloop) (simp_all add: loop_level_def level_def assms)

lemma expectPunct_Cons: "punct s t \<Longrightarrow> ts \<noteq> [] \<Longrightarrow> expectPunct s (t # ts) = (Inr (), ts)"
  by (simp add: expectPunct_def advance_Cons)

lemma expectIdent_Cons: "kType t = TokIdent \<Longrightarrow> ts \<noteq> [] \<Longrightarrow> expectIdent (t # ts) = (Inr (kText t), ts)"
  by (simp add: expectIdent_def advance_Cons)

lemma stops_ne: "stops l ts \<Longrightarrow> ts \<noteq> []"
  by (simp add: stops_def)

lemma gram_complete:
  assumes pe: "\<And>e us rest. gram 0 e us \<Longrightarrow> length us < N \<Longrightarrow> stops 0 rest \<Longrightarrow> pe (us @ rest) = (Inr e, rest)"
  shows "gram l e us \<Longrightarrow> length us \<le> N \<Longrightarrow> complete pe l e us"
proof (induction rule: gram.induct)
  case (g_paren t e us t')
  show ?case
  proof (rule complete_primary)
    fix rest assume rest: "stops 7 rest"
    have "pe (us @ t' # rest) = (Inr e, t' # rest)"
      by (rule pe [OF g_paren(2) _ stops_rparen [OF g_paren(3)]]) (use g_paren.prems in simp)
    then show "parsePrimary pe ((t # us @ [t']) @ rest) = (Inr e, rest)"
      using g_paren(1,3) stops_ne [OF rest]
      by (simp add: parsePrimary_def advance_Cons bind_Inr punct_def [of "''(''"] expectPunct_Cons)
  qed
next
  case (g_column t)
  show ?case
  proof (rule complete_primary)
    fix rest assume "stops 7 rest"
    then obtain r rs where "rest = r # rs" "\<not> punct ''.'' r" by (cases rest) (auto simp: stops_def)
    then show "parsePrimary pe ([t] @ rest) = (Inr (ColumnRef [] (kText t)), rest)"
      using g_column by (simp add: parsePrimary_def advance_Cons)
  qed
next
  case (g_qualified t d c)
  then show ?case
    by (intro complete_primary) (simp add: parsePrimary_def advance_Cons stops_ne bind_Inr expectIdent_Cons)
next
  case (g_compare a us t b vs)
  then show ?case by (intro complete_compare) auto
next
  case (g_binary l a us t b vs)
  then show ?case by (intro complete_binary) auto
next
  case (g_lift l e us)
  from complete_lift [OF g_lift.IH [OF g_lift.prems] g_lift.hyps] show ?case .
qed (auto intro!: complete_primary complete_prefix complete_minus
    simp: parsePrimary_def advance_Cons stops_ne keyword_def)

lemma parseExpr_complete:
  "gram 0 e us \<Longrightarrow> length us < n \<Longrightarrow> stops 0 rest \<Longrightarrow> parseExpr n (us @ rest) = (Inr e, rest)"
proof (induction n arbitrary: e us rest)
  case (Suc n)
  have "complete (parseExpr n) 0 e us"
    by (rule gram_complete [OF Suc.IH Suc.prems(1)]) (use Suc.prems(2) in auto)
  from completeD [OF this Suc.prems(2,2,3)] show ?case by (simp add: level_def)
qed simp

end
