(* ===== verification/LexerProps.thy ===== *)
theory LexerProps
  imports Lexer
begin

text \<open>
  The lexer: its tokens in order and within the source, text through UTF-8 and back, and
  string literals with any contents.
\<close>

section \<open>The tokens of a source\<close>

lemma lex_next_EOF: "lex_next u src pos = Inr (tok, pos') \<Longrightarrow> kType tok = TokEOF \<Longrightarrow> pos \<le> kPos tok \<and> length src \<le> kPos tok"
proof (induction u src pos rule: lex_next_induct)
  case (call u src pos0)
  let ?pos = "skip_end (IsSpace u) src pos0"
  have ge: "pos0 \<le> ?pos" by (rule skip_end_ge)
  consider "?pos \<ge> length src" | "?pos < length src" "src ! ?pos = 45 \<and> ?pos + 1 < length src \<and> src ! (?pos + 1) = 45"
    | "?pos < length src" "\<not> (src ! ?pos = 45 \<and> ?pos + 1 < length src \<and> src ! (?pos + 1) = 45)" by linarith
  then show ?case
  proof cases
    case 1
    then show ?thesis using call.prems ge by (subst (asm) lex_next_unfold) (auto simp: Let_def)
  next
    case 2
    then have "lex_next u src (skip_end (\<lambda>r. r \<noteq> 10) src ?pos) = Inr (tok, pos')"
      using call.prems(1) by (subst (asm) lex_next_unfold) (simp add: Let_def)
    then have "skip_end (\<lambda>r. r \<noteq> 10) src ?pos \<le> kPos tok \<and> length src \<le> kPos tok"
      using call.IH [OF refl _ 2(2)] 2(1) call.prems(2) by simp
    then show ?thesis using ge skip_end_ge [of ?pos "\<lambda>r. r \<noteq> 10" src] by linarith
  next
    case 3
    then have "lex_token u src ?pos (src ! ?pos) = Inr (tok, pos')"
      using call.prems(1) by (subst (asm) lex_next_unfold) (auto simp: Let_def split: if_splits)
    then show ?thesis using lex_token_gt 3(1) call.prems(2) by blast
  qed
qed

definition in_order :: "rune list \<Rightarrow> nat \<Rightarrow> Token list \<Rightarrow> bool" where
  "in_order src pos toks \<longleftrightarrow> sorted_wrt (<) (map kPos toks) \<and>
     (\<forall>t\<in>set toks. kType t \<noteq> TokEOF \<and> kPos t < length src \<and> kPos t < pos)"

lemma tokenize_loop_order:
  "tokenize_loop u src pos toks = Inr ts \<Longrightarrow> in_order src pos toks \<Longrightarrow>
   \<exists>ts' eof. ts = ts' @ [eof] \<and> kType eof = TokEOF \<and> length src \<le> kPos eof \<and> in_order src (kPos eof) ts'"
proof (induction u src pos toks rule: tokenize_loop.induct)
  case (1 u src pos toks)
  from "1.prems"(1) obtain tok pos' where n: "lex_next u src pos = Inr (tok, pos')"
    by (subst (asm) tokenize_loop.simps) (auto split: sum.splits)
  show ?case
  proof (cases "kType tok = TokEOF")
    case True
    then have "ts = toks @ [tok]" using "1.prems"(1) n by (subst (asm) tokenize_loop.simps) simp
    moreover have "in_order src (kPos tok) toks"
      using "1.prems"(2) lex_next_EOF [OF n True] by (auto simp: in_order_def)
    ultimately show ?thesis using True lex_next_EOF [OF n True] by auto
  next
    case False
    then have "tokenize_loop u src pos' (toks @ [tok]) = Inr ts"
      using "1.prems"(1) n by (subst (asm) tokenize_loop.simps) (simp add: Let_def)
    moreover have "in_order src pos' (toks @ [tok])"
      using "1.prems"(2) lex_next_gt [OF n False] False by (force simp: in_order_def sorted_wrt_append)
    ultimately show ?thesis using "1.IH" [OF n refl refl False] by simp
  qed
qed

text \<open>
  C31: what \<^verbatim>\<open>Tokenize\<close> returns ends with its only end-of-input token; the tokens start at
  strictly increasing rune positions, all but the last within the source.
\<close>

theorem Tokenize_bounds:
  assumes "Tokenize u src = Inr toks"
  shows "toks \<noteq> [] \<and> kType (last toks) = TokEOF \<and> sorted_wrt (<) (map kPos toks) \<and>
    length (runes src) \<le> kPos (last toks) \<and>
    (\<forall>t\<in>set (butlast toks). kType t \<noteq> TokEOF \<and> kPos t < length (runes src))"
proof -
  have "in_order (runes src) 0 []" by (simp add: in_order_def)
  from tokenize_loop_order [OF assms [unfolded Tokenize_def] this] obtain ts' eof where
    "toks = ts' @ [eof]" "kType eof = TokEOF" "length (runes src) \<le> kPos eof" "in_order (runes src) (kPos eof) ts'"
    by blast
  then show ?thesis by (auto simp: in_order_def sorted_wrt_append)
qed

section \<open>UTF-8\<close>

definition valid_rune :: "rune \<Rightarrow> bool" where
  "valid_rune r \<longleftrightarrow> r \<le> 0x10FFFF \<and> \<not> surrogate r"

lemma tag_mod: "b < m \<Longrightarrow> m dvd k \<Longrightarrow> (k + b) mod m = (b :: nat)"
  by (metis mod_add_self2 mod_less dvd_def mod_mult_self4 add.commute mod_mult_self2)

lemma base64:
  "r div 64 * 64 + r mod 64 = (r :: nat)" "r div 4096 * 4096 + r div 64 mod 64 * 64 + r mod 64 = r"
  "r div 262144 * 262144 + r div 4096 mod 64 * 4096 + r div 64 mod 64 * 64 + r mod 64 = r"
proof -
  show 1: "r div 64 * 64 + r mod 64 = r" by simp
  have "r div 64 div 64 = r div 4096" "r div 4096 div 64 = r div 262144" by (simp_all flip: div_mult2_eq)
  then have "r div 64 = r div 4096 * 64 + r div 64 mod 64" "r div 4096 = r div 262144 * 64 + r div 4096 mod 64"
    by (metis div_mult_mod_eq)+
  with 1 show "r div 4096 * 4096 + r div 64 mod 64 * 64 + r mod 64 = r"
    "r div 262144 * 262144 + r div 4096 mod 64 * 4096 + r div 64 mod 64 * 64 + r mod 64 = r" by linarith+
qed

lemma mod64 [simp]: "n mod 64 \<le> (63 :: nat)"
  using mod_less_divisor [of 64 n] by linarith

lemma decode_encode_rune:
  assumes "valid_rune r"
  shows "decode_rune (encode_rune r @ s) = (r, length (encode_rune r))"
proof -
  have v: "\<not> surrogate r" "\<not> 0x10FFFF < r" using assms by (auto simp: valid_rune_def)
  consider "r \<le> 0x7F" | "0x7F < r" "r \<le> 0x7FF" | "0x7FF < r" "r \<le> 0xFFFF" | "0xFFFF < r" by linarith
  then show ?thesis
  proof cases
    case 1
    then show ?thesis using v by (simp add: encode_rune_def decode_rune_def)
  next
    case 2
    have b: "r div 64 < 32" using 2 by auto
    have "(0xC0 + r div 64) mod 32 * 64 + (0x80 + r mod 64) mod 64 = r" using b base64(1) by (simp add: tag_mod)
    then show ?thesis using v b 2 by (simp add: encode_rune_def decode_rune_def cont_def Let_def)
  next
    case 3
    have b: "r div 4096 < 16" using 3 by auto
    have "(0xE0 + r div 4096) mod 16 * 4096 + (0x80 + r div 64 mod 64) mod 64 * 64 + (0x80 + r mod 64) mod 64 = r"
      using b base64(2) by (simp add: tag_mod)
    then show ?thesis using v b 3 by (simp add: encode_rune_def decode_rune_def cont_def Let_def)
  next
    case 4
    have b: "r div 262144 < 8" using v by auto
    have "(0xF0 + r div 262144) mod 8 * 262144 + (0x80 + r div 4096 mod 64) mod 64 * 4096 +
        (0x80 + r div 64 mod 64) mod 64 * 64 + (0x80 + r mod 64) mod 64 = r"
      using b base64(3) by (simp add: tag_mod)
    then show ?thesis using v b 4 by (simp add: encode_rune_def decode_rune_def cont_def Let_def)
  qed
qed

lemma encode_rune_bytes: "b \<in> set (encode_rune r) \<Longrightarrow> b < 256"
  by (auto simp: encode_rune_def Let_def RuneError_def surrogate_def split: if_splits)

lemma decode_runes_encode: "list_all valid_rune rs \<Longrightarrow> decode_runes (concat (map encode_rune rs)) = rs"
proof (induction rs)
  case (Cons r rs)
  have "encode_rune r \<noteq> []" by (auto simp: encode_rune_def Let_def)
  then show ?case
    using Cons decode_encode_rune [of r "concat (map encode_rune rs)"] by (subst decode_runes.simps) simp
qed (simp add: decode_runes.simps)

lemma runes_string_of: "list_all valid_rune rs \<Longrightarrow> runes (string_of rs) = rs"
proof -
  assume v: "list_all valid_rune rs"
  have "map (of_char \<circ> char_of) bs = bs" if "\<forall>b\<in>set bs. b < 256" for bs :: "nat list"
    using that by (induction bs) auto
  moreover have "\<forall>b\<in>set (concat (map encode_rune rs)). b < 256" using encode_rune_bytes by auto
  ultimately have "map of_char (string_of rs) = concat (map encode_rune rs)" by (simp add: string_of_def)
  then show ?thesis using decode_runes_encode [OF v] by (simp add: runes_def)
qed

section \<open>String literals\<close>

text \<open>A string literal: the text between quotes, every quote in it doubled.\<close>

definition quote :: "rune list \<Rightarrow> rune list" where
  "quote rs = 39 # concat (map (\<lambda>r. if r = 39 then [39, 39] else [r]) rs) @ [39]"

lemma string_of_append: "string_of (a @ b) = string_of a @ string_of b"
  by (simp add: string_of_def)

lemma string_loop_quoted:
  "src = pre @ concat (map (\<lambda>r. if r = 39 then [39, 39] else [r]) rs) @ 39 # rest \<Longrightarrow> rest = [] \<or> hd rest \<noteq> 39 \<Longrightarrow>
   string_loop src start (length pre) sb = Inr (sb @ string_of rs, length src - length rest)"
proof (induction rs arbitrary: pre sb)
  case Nil
  then show ?case by (subst string_loop_unfold) (cases rest; auto simp: nth_append string_of_def)
next
  case (Cons r rs)
  let ?q = "if r = 39 then [39, 39] else [r]"
  have src: "src = (pre @ ?q) @ concat (map (\<lambda>r. if r = 39 then [39, 39] else [r]) rs) @ 39 # rest"
    using Cons.prems(1) by simp
  have "string_loop src start (length pre) sb = string_loop src start (length (pre @ ?q)) (sb @ string_of [r])"
    using Cons.prems(1) by (subst string_loop_unfold) (auto simp: nth_append)
  then show ?case using Cons.IH [OF src Cons.prems(2)] string_of_append [of "[r]" rs] by simp
qed

lemma tokenize_quoted:
  assumes "list_all valid_rune rs"
  shows "Tokenize u (string_of (quote rs)) =
    Inr [\<lparr>kType = TokString, kText = string_of rs, kPos = 0\<rparr>, \<lparr>kType = TokEOF, kText = [], kPos = length (quote rs)\<rparr>]"
proof -
  let ?src = "quote rs"
  have "list_all valid_rune ?src"
    using assms by (auto simp: quote_def list_all_iff valid_rune_def surrogate_def)
  then have r: "runes (string_of ?src) = ?src" by (rule runes_string_of)
  have sp: "skip_end (IsSpace u) ?src 0 = 0" by (simp add: skip_end_def quote_def IsSpace_def)
  have "string_loop ?src 0 (length [39 :: rune]) [] = Inr ([] @ string_of rs, length ?src - length ([] :: rune list))"
    by (rule string_loop_quoted) (simp_all add: quote_def)
  then have loop: "string_loop ?src 0 1 [] = Inr (string_of rs, length ?src)" by simp
  have c: "?src ! 0 = 39" "0 < length ?src" by (simp_all add: quote_def)
  have "lex_next u ?src 0 = Inr (\<lparr>kType = TokString, kText = string_of rs, kPos = 0\<rparr>, length ?src)"
    using loop c by (subst lex_next_unfold) (simp add: Let_def sp lex_token_def)
  moreover have "lex_next u ?src (length ?src) = Inr (\<lparr>kType = TokEOF, kText = [], kPos = length ?src\<rparr>, length ?src)"
    by (subst lex_next_unfold) (simp add: Let_def skip_end_def)
  ultimately show ?thesis by (simp add: Tokenize_def r tokenize_loop.simps Let_def)
qed

text \<open>
  C30: the source that quotes a text, with its quotes doubled, is one string token with that
  text, whatever characters it holds.
\<close>

theorem Tokenize_quote:
  assumes "list_all valid_rune rs"
  shows "Tokenize u (string_of (quote rs)) =
    Inr [\<lparr>kType = TokString, kText = string_of rs, kPos = 0\<rparr>, \<lparr>kType = TokEOF, kText = [], kPos = length (quote rs)\<rparr>]"
  by (rule tokenize_quoted [OF assms])

definition ascii :: unicode where
  "ascii = \<lparr>uSpace = (\<lambda>_. False), uDigit = (\<lambda>_. False), uLetter = (\<lambda>_. False)\<rparr>"

theorem Tokenize_quote_witness:
  "Tokenize ascii (string_of (quote [73, 39, 109])) =
    Inr [\<lparr>kType = TokString, kText = ''I'' @ [CHR 39] @ ''m'', kPos = 0\<rparr>, \<lparr>kType = TokEOF, kText = [], kPos = 6\<rparr>]"
proof -
  have "string_of [73, 39, 109] = ''I'' @ [CHR 39] @ ''m''"
    by (simp add: string_of_def encode_rune_def surrogate_def char_of_eq_iff)
  then show ?thesis
    using Tokenize_quote [of "[73, 39, 109]" ascii] by (simp add: valid_rune_def surrogate_def quote_def)
qed

theorem Tokenize_bounds_witness:
  "\<exists>toks. Tokenize ascii (string_of (quote [73])) = Inr toks \<and> toks \<noteq> [] \<and> kType (last toks) = TokEOF \<and>
     sorted_wrt (<) (map kPos toks)"
proof -
  have "list_all valid_rune [73 :: rune]" by (simp add: valid_rune_def surrogate_def)
  from Tokenize_bounds [OF tokenize_quoted [OF this, of ascii]] tokenize_quoted [OF this, of ascii]
  show ?thesis by blast
qed

end
