(* ===== verification/ParserProps.thy ===== *)
theory ParserProps
  imports Grammar LexerProps
begin

text \<open>
  The properties of the parser: it always ends, and it reads back every expression that is
  written with the parentheses its grammar needs.
\<close>

section \<open>Totality\<close>

lemma Tokenize_wf: "Tokenize u src = Inr toks \<Longrightarrow> wf_toks toks"
proof -
  assume t: "Tokenize u src = Inr toks"
  have "in_order (runes src) 0 []" by (simp add: in_order_def)
  from tokenize_loop_order [OF t [unfolded Tokenize_def] this] show ?thesis
    by (auto simp: wf_toks_def in_order_def)
qed

lemma string_loop_errors: "string_loop src start pos sb \<noteq> Inl Panic \<and> string_loop src start pos sb \<noteq> Inl Diverges"
proof (induction src start pos sb rule: string_loop.induct)
  case (1 src start pos sb)
  show ?case
  proof (cases "pos < length src")
    case True
    show ?thesis
      using "1.IH"(1) [OF True elem_at_in [OF True] _ holds_at_eq] "1.IH"(2) [OF True elem_at_in [OF True]]
      by (subst (1 2) string_loop_unfold) simp
  qed (simp add: string_loop.simps)
qed

lemma src_text_skipped:
  "pos \<le> length src \<Longrightarrow> \<exists>t. src_text src pos (skip_end P src pos) = Inr t"
  using src_text_eq [OF skip_end_ge skip_end_le] by blast

lemma lex_token_errors:
  assumes "start < length src"
  shows "lex_token u src start (src ! start) \<noteq> Inl Panic \<and> lex_token u src start (src ! start) \<noteq> Inl Diverges"
proof -
  have two: "\<exists>t. src_text src start (if start + 1 < length src \<and> P then start + 1 + 1 else start + 1) = Inr t" for P
    using src_text_eq [of start "start + 1" src] src_text_eq [of start "start + 1 + 1" src] assms by auto
  have skip: "\<exists>t. src_text src start (skip_end P src start) = Inr t" "\<exists>t. src_text src (start + 1) (skip_end P src (start + 1)) = Inr t" for P
    using src_text_skipped [of start src P] src_text_skipped [of "start + 1" src P] assms by simp_all
  obtain t1 t2 t3 t4 where t: "src_text src start (skip_end (\<lambda>r. IsDigit u r \<or> r = 46) src start) = Inr t1"
    "src_text src start (skip_end (\<lambda>r. IsLetter u r \<or> IsDigit u r \<or> r = 95) src start) = Inr t2"
    "src_text src (start + 1) (skip_end (\<lambda>r. r \<noteq> 34) src (start + 1)) = Inr t3"
    "src_text src start (if start + 1 < length src \<and> (src ! (start + 1) = 61 \<or> src ! start = 60 \<and> src ! (start + 1) = 62)
       then start + 1 + 1 else start + 1) = Inr t4"
    using skip two by metis
  show ?thesis
    using string_loop_errors [of src start "start + 1" "[]"]
    unfolding lex_token_def Let_def skip_while_eq holds_at_eq rbind_simps t
    by (cases "string_loop src start (start + 1) []") auto
qed

lemma lex_next_errors: "lex_next u src pos \<noteq> Inl Panic \<and> lex_next u src pos \<noteq> Inl Diverges"
proof (induction u src pos rule: lex_next_induct)
  case (call u src pos0)
  then show ?case
    using lex_token_errors [of "skip_end (IsSpace u) src pos0" src u] by (subst (1 2) lex_next_unfold) (simp add: Let_def)
qed

lemma tokenize_loop_errors: "tokenize_loop u src pos toks \<noteq> Inl Panic \<and> tokenize_loop u src pos toks \<noteq> Inl Diverges"
proof (induction u src pos toks rule: tokenize_loop.induct)
  case (1 u src pos toks)
  then show ?case
    using lex_next_errors [of u src pos] by (subst (1 2) tokenize_loop.simps) (auto simp: Let_def split: sum.splits)
qed

text \<open>
  C29: parsing ends for every source, with a statement or with an error message: the lexer
  never reads past the source, the parser never past its tokens, and their loops and recursion end.
\<close>

theorem Parse_total: "Parse u src \<noteq> Inl Panic \<and> Parse u src \<noteq> Inl Diverges"
proof (cases "Tokenize u src")
  case (Inl e)
  then show ?thesis using tokenize_loop_errors [of u "runes src" 0 "[]"] by (auto simp: Parse_def Tokenize_def)
next
  case (Inr toks)
  let ?f = "bind (parseStatement (length toks)) (\<lambda>stmt. bind (skipPunct '';'') (\<lambda>_. bind cur (\<lambda>t.
      if kType t \<noteq> TokEOF then fail (ErrTrailingInput (kText t)) else ret stmt)))"
  have "runs_on (length toks) 0 False ?f"
    by (intro runs_on_bind [OF runs_parseStatement] runs_step) (auto intro: runs_leaf)
  from this Tokenize_wf [OF Inr] order_refl show ?thesis
    by (rule runs_onD) (use Inr in \<open>simp_all add: Parse_def\<close>)
qed

section \<open>The grammar\<close>

text \<open>
  C28: the expression parser is exact.  Given steps for its tokens, it returns an expression \<open>e\<close>
  and the rest of the tokens if and only if the tokens before the rest derive \<open>e\<close> in the
  grammar, at every place where an expression may end.
\<close>

theorem parseExpr_grammar:
  assumes "wf_toks ts" "length ts \<le> n" "stops 0 rest"
  shows "parseExpr n ts = (Inr e, rest) \<longleftrightarrow> (\<exists>us. ts = us @ rest \<and> gram 0 e us)"
proof
  assume "parseExpr n ts = (Inr e, rest)"
  then show "\<exists>us. ts = us @ rest \<and> gram 0 e us" using yieldsD [OF yields_parseExpr _ assms(1)] by metis
next
  assume "\<exists>us. ts = us @ rest \<and> gram 0 e us"
  then obtain us where us: "ts = us @ rest" "gram 0 e us" by blast
  moreover have "length us < n" using assms(2,3) us(1) by (cases rest) (auto simp: stops_def)
  ultimately show "parseExpr n ts = (Inr e, rest)" using parseExpr_complete assms(3) by simp
qed

definition word_tok :: "string \<Rightarrow> Token" where "word_tok s = \<lparr>kType = TokIdent, kText = s, kPos = 0\<rparr>"
definition punct_tok :: "string \<Rightarrow> Token" where "punct_tok s = \<lparr>kType = TokPunct, kText = s, kPos = 0\<rparr>"
definition eof_tok :: Token where "eof_tok = \<lparr>kType = TokEOF, kText = [], kPos = 0\<rparr>"

text \<open>The tokens of \<^verbatim>\<open>a - b - c\<close>: subtraction associates to the left.\<close>

theorem parseExpr_grammar_witness:
  "parseExpr 6 [word_tok ''a'', punct_tok ''-'', word_tok ''b'', punct_tok ''-'', word_tok ''c'', eof_tok] =
    (Inr (BinaryExpr ''-'' (BinaryExpr ''-'' (ColumnRef [] ''a'') (ColumnRef [] ''b'')) (ColumnRef [] ''c'')), [eof_tok])"
proof -
  have col: "gram 5 (ColumnRef [] s) [word_tok s]" for s
    using g_column [of "word_tok s"] g_lift [of 6] g_lift [of 5] by (simp add: word_tok_def)
  then have col4: "gram 4 (ColumnRef [] s) [word_tok s]" for s using g_lift [of 4] by simp
  have op: "level_op 4 (punct_tok ''-'')" by (simp add: level_op_def addOp_def punct_tok_def)
  have "gram 4 (BinaryExpr ''-'' (BinaryExpr ''-'' (ColumnRef [] ''a'') (ColumnRef [] ''b'')) (ColumnRef [] ''c''))
      [word_tok ''a'', punct_tok ''-'', word_tok ''b'', punct_tok ''-'', word_tok ''c'']"
    using g_binary [OF g_binary [OF col4 op] op, of "ColumnRef [] ''b''" "[word_tok ''b'']" _ "[word_tok ''c'']"] col
    by (simp add: punct_tok_def)
  then have "gram 0 (BinaryExpr ''-'' (BinaryExpr ''-'' (ColumnRef [] ''a'') (ColumnRef [] ''b'')) (ColumnRef [] ''c''))
      [word_tok ''a'', punct_tok ''-'', word_tok ''b'', punct_tok ''-'', word_tok ''c'']"
    using g_lift [of 3] g_lift [of 2] g_lift [of 1] g_lift [of 0] by (simp add: numeral_eq_Suc)
  then show ?thesis
    by (subst parseExpr_grammar) (auto simp: wf_toks_def stops_def word_tok_def punct_tok_def eof_tok_def punct_def
        level_op_def orOp_def andOp_def addOp_def mulOp_def cmpOp_def)
qed

end
