(* ===== verification/Txn.thy ===== *)
theory Txn
  imports Catalog Wal
begin

text \<open>
  Transactions of \<^verbatim>\<open>internal/txn/txn.go\<close>: the store of pager, catalog and log under one
  write lock, the targets that name the trees of tables and indexes, and the operations
  of a transaction with its list of undo entries.

  The pager of the store is the one of its catalog.  A computation of a transaction
  runs on the store and the transaction.  A \<^verbatim>\<open>Begin\<close> that finds the lock taken
  does not return.
\<close>

section \<open>The store\<close>

record Store =
  st_cat :: Catalog
  st_wal :: wal
  st_nextTxnID :: uint64
  st_writes :: nat
  st_locked :: bool

definition on_cat :: "(Catalog, 'a) sm \<Rightarrow> (Store, 'a) sm" where
  "on_cat m s = (case m (st_cat s) of (r, c) \<Rightarrow> (r, s\<lparr>st_cat := c\<rparr>))"

definition on_wal :: "(wal, 'a) sm \<Rightarrow> (Store, 'a) sm" where
  "on_wal m s = (case m (st_wal s) of (r, w) \<Rightarrow> (r, s\<lparr>st_wal := w\<rparr>))"

definition TableTarget :: "string \<Rightarrow> string" where
  "TableTarget table = ''T:'' @ table"

definition IndexTarget :: "string \<Rightarrow> string \<Rightarrow> string" where
  "IndexTarget table index = ''I:'' @ table @ '':'' @ index"

text \<open>
  The setter \<^verbatim>\<open>resolve\<close> returns: the schema it captures and the root in it that it sets.
\<close>

datatype slot = HeapRoot TableDef | IndexRoot TableDef nat

fun index_slot :: "TableDef \<Rightarrow> string \<Rightarrow> nat \<Rightarrow> IndexDef list \<Rightarrow> (page_id \<times> slot) option" where
  "index_slot td idxName i [] = None"
| "index_slot td idxName i (ix # ixs) =
     (if iName ix = idxName then Some (iRoot ix, IndexRoot td i) else index_slot td idxName (i + 1) ixs)"

definition resolve :: "Catalog \<Rightarrow> string \<Rightarrow> (page_id \<times> slot) option" where
  "resolve cat target =
     (if take 2 target = ''T:'' then
        (case Table cat (drop 2 target) of
           None \<Rightarrow> None
         | Some td \<Rightarrow> Some (tRoot td, HeapRoot td))
      else if take 2 target = ''I:'' then
        (let rest = drop 2 target; tableName = takeWhile (\<lambda>c. c \<noteq> CHR '':'') rest
         in if CHR '':'' \<notin> set rest then None
            else (case Table cat tableName of
                    None \<Rightarrow> None
                  | Some td \<Rightarrow> index_slot td (drop (length tableName + 1) rest) 0 (tIndexes td)))
      else None)"

definition slot_table :: "slot \<Rightarrow> page_id \<Rightarrow> TableDef" where
  "slot_table sl pid =
     (case sl of
        HeapRoot td \<Rightarrow> td\<lparr>tRoot := pid\<rparr>
      | IndexRoot td i \<Rightarrow> td\<lparr>tIndexes := (tIndexes td)[i := (tIndexes td ! i)\<lparr>iRoot := pid\<rparr>]\<rparr>)"

text \<open>The setter changes the schema in memory and saves it.\<close>

definition save_root :: "slot \<Rightarrow> page_id \<Rightarrow> (Catalog, unit) sm" where
  "save_root sl pid c =
     (let td = slot_table sl pid
      in SaveTable td (c\<lparr>c_tables := table_set (tName td) td (c_tables c)\<rparr>))"

section \<open>Recovery\<close>

text \<open>The callback of the recovery scan.\<close>

definition replay_op :: "Op \<Rightarrow> (Catalog, unit) sm" where
  "replay_op op c =
     (case resolve c (oTable op) of
        None \<Rightarrow> (Inr (), c)
      | Some (root, sl) \<Rightarrow>
          bind (on_pager (OpenBTree root)) (\<lambda>bt.
          bind (if oType op = RecPut then on_pager (Put bt (oKey op) (oVal op))
                else if oType op = RecDelete then
                  (\<lambda>c. case on_pager (Delete bt (oKey op)) c of
                         (Inl e, c') \<Rightarrow> (if e = ErrKeyNotFound then (Inr bt, c') else (Inl e, c'))
                       | (Inr _, c') \<Rightarrow> (Inr bt, c'))
                else ret bt) (\<lambda>bt'.
            if bt' \<noteq> root then save_root sl bt' else ret ())) c)"

text \<open>
  \<^verbatim>\<open>Open\<close> on the contents of the data file and of the log (\<open>None\<close> when there is no log file).
\<close>

definition txn_Open :: "(pending \<Rightarrow> pending) \<Rightarrow> bytes \<Rightarrow> bytes option \<Rightarrow> Store result" where
  "txn_Open order data log =
     rbind (Open data) (\<lambda>pager.
     rbind (fst (catalog_Open pager)) (\<lambda>cat.
     case Replay order log replay_op cat of
       (Inl e, _) \<Rightarrow> Inl (ErrWalReplay e)
     | (Inr _, cat) \<Rightarrow>
         (case on_pager Sync cat of
            (Inl e, _) \<Rightarrow> Inl e
          | (Inr _, cat) \<Rightarrow>
              (case wal_Checkpoint (wal_Open (case log of None \<Rightarrow> [] | Some b \<Rightarrow> b)) of
                 (Inl e, _) \<Rightarrow> Inl e
               | (Inr _, w) \<Rightarrow>
                   Inr \<lparr>st_cat = cat, st_wal = w, st_nextTxnID = 0, st_writes = 0, st_locked = False\<rparr>))))"

definition store_Close :: "(Store, unit) sm" where
  "store_Close = bind (on_wal wal_Close) (\<lambda>_. on_cat (on_pager Close))"

section \<open>Transactions\<close>

record undoEntry =
  u_target :: string
  u_key :: bytes
  u_hadPrev :: bool
  u_prev :: bytes

record Txn =
  tx_id :: uint64
  tx_undo :: "undoEntry list"
  tx_done :: bool

type_synonym 'a txm = "(Store \<times> Txn, 'a) sm"

definition on_store :: "(Store, 'a) sm \<Rightarrow> 'a txm" where
  "on_store m st = (case m (fst st) of (r, s) \<Rightarrow> (r, (s, snd st)))"

definition on_tree :: "(pager, 'a) sm \<Rightarrow> 'a txm" where
  "on_tree m = on_store (on_cat (on_pager m))"

text \<open>The result of \<^verbatim>\<open>WAL.Begin\<close> is ignored.\<close>

definition Begin :: "(Store, Txn) sm" where
  "Begin s =
     (if st_locked s then (Inl Diverges, s)
      else (let s = s\<lparr>st_locked := True, st_nextTxnID := st_nextTxnID s + 1\<rparr>;
                txid = st_nextTxnID s
            in (Inr \<lparr>tx_id = txid, tx_undo = [], tx_done = False\<rparr>, snd (on_wal (wal_Begin txid) s))))"

definition push_undo :: "undoEntry \<Rightarrow> unit txm" where
  "push_undo e st = (case st of (s, t) \<Rightarrow> (Inr (), (s, t\<lparr>tx_undo := tx_undo t @ [e]\<rparr>)))"

text \<open>The tree a target names; every operation starts with it.\<close>

definition resolve_target :: "string \<Rightarrow> (page_id \<times> slot \<times> page_id) txm" where
  "resolve_target target st =
     (case resolve (st_cat (fst st)) target of
        None \<Rightarrow> (Inl (ErrUnknownTarget target), st)
      | Some (root, sl) \<Rightarrow> bind (on_tree (OpenBTree root)) (\<lambda>bt. ret (root, sl, bt)) st)"

definition save_moved :: "page_id \<Rightarrow> slot \<Rightarrow> page_id \<Rightarrow> unit txm" where
  "save_moved root sl bt = (if bt \<noteq> root then on_store (on_cat (save_root sl bt)) else ret ())"

definition txn_Put :: "string \<Rightarrow> bytes \<Rightarrow> bytes \<Rightarrow> unit txm" where
  "txn_Put target key val =
     bind (resolve_target target) (\<lambda>(root, sl, bt).
     bind (\<lambda>st. case on_tree (Get bt key) st of
             (Inr prev, st') \<Rightarrow> (Inr (True, prev), st')
           | (Inl e, st') \<Rightarrow> (if e = ErrKeyNotFound then (Inr (False, []), st') else (Inl e, st'))) (\<lambda>(hadPrev, prev).
     bind (\<lambda>st. on_store (on_wal (wal_Put (tx_id (snd st)) target key val hadPrev prev)) st) (\<lambda>_.
     bind (on_tree (Put bt key val)) (\<lambda>bt'.
     bind (save_moved root sl bt') (\<lambda>_.
     push_undo \<lparr>u_target = target, u_key = key, u_hadPrev = hadPrev, u_prev = prev\<rparr>)))))"

definition txn_Delete :: "string \<Rightarrow> bytes \<Rightarrow> unit txm" where
  "txn_Delete target key =
     bind (resolve_target target) (\<lambda>(root, sl, bt).
     bind (on_tree (Get bt key)) (\<lambda>prev.
     bind (\<lambda>st. on_store (on_wal (wal_Delete (tx_id (snd st)) target key prev)) st) (\<lambda>_.
     bind (on_tree (Delete bt key)) (\<lambda>_.
     bind (save_moved root sl bt) (\<lambda>_.
     push_undo \<lparr>u_target = target, u_key = key, u_hadPrev = True, u_prev = prev\<rparr>)))))"

definition txn_Get :: "string \<Rightarrow> bytes \<Rightarrow> bytes txm" where
  "txn_Get target key = bind (resolve_target target) (\<lambda>(root, sl, bt). on_tree (Get bt key))"

definition txn_Cursor :: "string \<Rightarrow> bytes option \<Rightarrow> cursor txm" where
  "txn_Cursor target start = bind (resolve_target target) (\<lambda>(root, sl, bt). on_tree (NewCursor bt start))"

text \<open>The deferred unlock runs whatever the outcome.\<close>

definition txn_Commit :: "unit txm" where
  "txn_Commit st =
     (if tx_done (snd st) then (Inr (), st)
      else
        (case bind (\<lambda>st. on_store (on_wal (wal_Commit (tx_id (snd st)))) st) (\<lambda>_ (s, t).
                (Inr (), (s\<lparr>st_writes := st_writes s + length (tx_undo t)\<rparr>, t)))
              (fst st, (snd st)\<lparr>tx_done := True\<rparr>) of
           (r, (s, t)) \<Rightarrow> (r, (s\<lparr>st_locked := False\<rparr>, t))))"

definition undo_entry :: "undoEntry \<Rightarrow> unit txm" where
  "undo_entry e st =
     (case resolve (st_cat (fst st)) (u_target e) of
        None \<Rightarrow> (Inr (), st)
      | Some (root, sl) \<Rightarrow>
          bind (on_tree (OpenBTree root)) (\<lambda>bt.
          bind (if u_hadPrev e then on_tree (Put bt (u_key e) (u_prev e))
                else (\<lambda>st. case on_tree (Delete bt (u_key e)) st of
                        (Inl err, st') \<Rightarrow> (if err = ErrKeyNotFound then (Inr bt, st') else (Inl err, st'))
                      | (Inr _, st') \<Rightarrow> (Inr bt, st'))) (\<lambda>bt'.
          save_moved root sl bt')) st)"

definition txn_Rollback :: "unit txm" where
  "txn_Rollback st =
     (if tx_done (snd st) then (Inr (), st)
      else
        (case bind (each undo_entry (rev (tx_undo (snd st)))) (\<lambda>_ st.
                on_store (on_wal (wal_Rollback (tx_id (snd st)))) st)
              (fst st, (snd st)\<lparr>tx_done := True\<rparr>) of
           (r, (s, t)) \<Rightarrow> (r, (s\<lparr>st_locked := False\<rparr>, t))))"

definition MaybeCheckpoint :: "nat \<Rightarrow> (Store, unit) sm" where
  "MaybeCheckpoint threshold s =
     (if st_writes s < threshold then (Inr (), s)
      else bind (on_cat (on_pager Sync)) (\<lambda>_.
           bind (on_wal wal_Checkpoint) (\<lambda>_ s. (Inr (), s\<lparr>st_writes := 0\<rparr>))) s)"

end
