(* ===== verification/TxnStore.thy ===== *)
theory TxnStore
  imports Txn CatalogStore WalRecovery
begin

text \<open>
  The contents of a store: a map from target and key to value, held by the trees of all
  targets.  Every change that a transaction, its rollback or recovery makes to a tree is
  the change of that map, root moves written to the catalog included.
\<close>

section \<open>Roots\<close>

definition root_at :: "Catalog \<Rightarrow> string \<Rightarrow> page_id option" where
  "root_at c t = map_option fst (resolve c t)"

definition index_root :: "string \<Rightarrow> IndexDef list \<Rightarrow> page_id option" where
  "index_root n ixs = map_option iRoot (find (\<lambda>ix. iName ix = n) ixs)"

lemma index_root_simps [simp]:
  "index_root n [] = None" "index_root n (ix # ixs) = (if iName ix = n then Some (iRoot ix) else index_root n ixs)"
  by (simp_all add: index_root_def)

lemma index_slot_root: "map_option fst (index_slot td n k ixs) = index_root n ixs"
  by (induction ixs arbitrary: k) auto

lemma index_slot_SomeD:
  "index_slot td n k ixs = Some (r, sl) \<Longrightarrow> \<exists>j<length ixs. sl = IndexRoot td (k + j) \<and> iName (ixs ! j) = n \<and> r = iRoot (ixs ! j) \<and>
     (\<forall>n' r'. index_root n' (ixs[j := (ixs ! j)\<lparr>iRoot := r'\<rparr>]) = (if n' = n then Some r' else index_root n' ixs))"
proof (induction ixs arbitrary: k)
  case (Cons ix ixs)
  show ?case
  proof (cases "iName ix = n")
    case True
    then show ?thesis using Cons.prems by (intro exI [of _ 0]) auto
  next
    case False
    then have "index_slot td n (k + 1) ixs = Some (r, sl)" using Cons.prems by simp
    from Cons.IH [OF this] obtain j where "j < length ixs" "sl = IndexRoot td (k + 1 + j)" "iName (ixs ! j) = n" "r = iRoot (ixs ! j)"
      "\<forall>n' r'. index_root n' (ixs[j := (ixs ! j)\<lparr>iRoot := r'\<rparr>]) = (if n' = n then Some r' else index_root n' ixs)" by blast
    then show ?thesis using False by (intro exI [of _ "Suc j"]) auto
  qed
qed simp

definition target_table :: "string \<Rightarrow> string" where
  "target_table t = (if take 2 t = ''T:'' then drop 2 t else takeWhile (\<lambda>ch. ch \<noteq> CHR '':'') (drop 2 t))"

definition target_index :: "string \<Rightarrow> string" where
  "target_index t = drop (length (takeWhile (\<lambda>ch. ch \<noteq> CHR '':'') (drop 2 t)) + 1) (drop 2 t)"

lemma root_at_def2:
  "root_at c t =
     (if take 2 t = ''T:'' then map_option tRoot (Table c (target_table t))
      else if take 2 t = ''I:'' \<and> CHR '':'' \<in> set (drop 2 t) then
        Option.bind (Table c (target_table t)) (\<lambda>td. index_root (target_index t) (tIndexes td))
      else None)"
  by (auto simp: root_at_def resolve_def Let_def target_table_def target_index_def index_slot_root split: option.splits)

lemma dropWhile_until: "x \<in> set d \<Longrightarrow> dropWhile (\<lambda>y. y \<noteq> x) d = x # drop (length (takeWhile (\<lambda>y. y \<noteq> x) d) + 1) d"
  by (induction d) auto

lemma target_eqI:
  assumes "take 2 t = ''I:''" "CHR '':'' \<in> set (drop 2 t)" "take 2 u = ''I:''" "CHR '':'' \<in> set (drop 2 u)"
    and "target_table t = target_table u" "target_index t = target_index u"
  shows "t = u"
proof -
  have split: "drop 2 x = target_table x @ '':'' @ target_index x" if "take 2 x = ''I:''" "CHR '':'' \<in> set (drop 2 x)" for x
  proof -
    let ?d = "drop 2 x"
    have "dropWhile (\<lambda>ch. ch \<noteq> CHR '':'') ?d = CHR '':'' # target_index x"
      using dropWhile_until [OF that(2)] by (simp add: target_index_def)
    moreover have "?d = takeWhile (\<lambda>ch. ch \<noteq> CHR '':'') ?d @ dropWhile (\<lambda>ch. ch \<noteq> CHR '':'') ?d" by simp
    ultimately show ?thesis using that(1) by (simp add: target_table_def)
  qed
  have "take 2 t @ drop 2 t = take 2 u @ drop 2 u" using assms split [of t] split [of u] by simp
  then show ?thesis by simp
qed

text \<open>A slot sets the root of its target and no other.\<close>

lemma slot_facts:
  assumes "resolve c t = Some (r, sl)" "\<And>n td. Table c n = Some td \<Longrightarrow> tName td = n"
  obtains td where "Table c (target_table t) = Some td" "tName td = target_table t"
    "\<And>r'. tName (slot_table sl r') = tName td" "\<And>r'. length (encodeTableDef (slot_table sl r')) = length (encodeTableDef td)"
    "\<And>r'. td_ok td \<Longrightarrow> td_ok (slot_table sl r')"
    "\<And>r'. root_at (with_table (slot_table sl r') c) = (root_at c)(t \<mapsto> r')"
proof (cases "take 2 t = ''T:''")
  case True
  with assms(1) obtain td where td: "Table c (target_table t) = Some td" "sl = HeapRoot td"
    by (auto simp: resolve_def target_table_def split: option.splits)
  have n: "tName td = target_table t" using assms(2) td(1) by blast
  have inj: "u = t" if "take 2 u = ''T:''" "target_table u = target_table t" for u
    using that True append_take_drop_id [of 2 u] append_take_drop_id [of 2 t] by (simp add: target_table_def)
  show thesis
  proof (rule that [OF td(1) n])
    show "root_at (with_table (slot_table sl r') c) = (root_at c)(t \<mapsto> r')" for r'
      using inj td True n by (auto simp: fun_eq_iff root_at_def2 slot_table_def)
  qed (auto simp: td(2) slot_table_def encodeTableDef_def td_ok_def)
next
  case False
  with assms(1) have I: "take 2 t = ''I:''" "CHR '':'' \<in> set (drop 2 t)"
    by (auto simp: resolve_def Let_def split: if_splits)
  with assms(1) False obtain td where td: "Table c (target_table t) = Some td"
    "index_slot td (target_index t) 0 (tIndexes td) = Some (r, sl)"
    by (auto simp: resolve_def Let_def target_table_def target_index_def split: option.splits)
  have n: "tName td = target_table t" using assms(2) td(1) by blast
  obtain j where j: "j < length (tIndexes td)" "sl = IndexRoot td j"
    "\<And>n' r'. index_root n' ((tIndexes td)[j := (tIndexes td ! j)\<lparr>iRoot := r'\<rparr>]) =
       (if n' = target_index t then Some r' else index_root n' (tIndexes td))"
    using index_slot_SomeD [OF td(2)] by auto
  have len: "length (concat (map index_bytes ((tIndexes td)[j := (tIndexes td ! j)\<lparr>iRoot := r'\<rparr>]))) =
      length (concat (map index_bytes (tIndexes td)))" for r'
  proof -
    have "length (index_bytes ((tIndexes td ! j)\<lparr>iRoot := r'\<rparr>)) = length (index_bytes (tIndexes td ! j))"
      by (simp add: index_bytes_def Let_def)
    then have "map (length \<circ> index_bytes) ((tIndexes td)[j := (tIndexes td ! j)\<lparr>iRoot := r'\<rparr>]) =
        map (length \<circ> index_bytes) (tIndexes td)"
      using j(1) by (simp add: map_update list_update_same_conv)
    then show ?thesis by (simp add: length_concat)
  qed
  show thesis
  proof (rule that [OF td(1) n])
    show "td_ok (slot_table sl r')" if "td_ok td" for r'
      using that j(1,2) nth_mem [OF j(1)]
      by (auto simp: td_ok_def slot_table_def dest!: subsetD [OF set_update_subset_insert])
    show "root_at (with_table (slot_table sl r') c) = (root_at c)(t \<mapsto> r')" for r'
    proof (rule ext)
      fix u
      have "u = t" if "take 2 u = ''I:''" "CHR '':'' \<in> set (drop 2 u)" "target_table u = target_table t"
        "target_index u = target_index t" using target_eqI [OF that(1,2) I that(3,4)] .
      then show "root_at (with_table (slot_table sl r') c) u = ((root_at c)(t \<mapsto> r')) u"
        using I False td(1) n j(2,3) by (auto simp: root_at_def2 slot_table_def)
    qed
  qed (auto simp: j(2) slot_table_def encodeTableDef_def len)
qed

end
