(* ===== verification/TxnContents.thy ===== *)
theory TxnContents
  imports TxnStore
begin

text \<open>
  The contents of a store and what one change of one tree does to them.
\<close>

section \<open>The invariant\<close>

definition tree_pages :: "Catalog \<Rightarrow> (string \<Rightarrow> gtree) \<Rightarrow> page_id set" where
  "tree_pages c tr = (\<Union>t\<in>dom (root_at c). set (pages (tr t)))"

definition store_inv :: "Catalog \<Rightarrow> gtree \<Rightarrow> (string \<Rightarrow> gtree) \<Rightarrow> bool" where
  "store_inv c sys tr \<longleftrightarrow> cat_inv c sys \<and> pager_owned (c_pager c) (set (pages sys) \<union> tree_pages c tr) \<and>
     (\<forall>t r. root_at c t = Some r \<longrightarrow> btree_at (c_pager c) (tr t) \<and> root_of (tr t) = r \<and>
        set (pages (tr t)) \<inter> set (pages sys) = {}) \<and>
     (\<forall>t u. t \<noteq> u \<longrightarrow> root_at c t \<noteq> None \<longrightarrow> root_at c u \<noteq> None \<longrightarrow> set (pages (tr t)) \<inter> set (pages (tr u)) = {})"

lemma store_invD:
  assumes "store_inv c sys tr"
  shows "cat_inv c sys" "pager_owned (c_pager c) (set (pages sys) \<union> tree_pages c tr)"
    "root_at c t = Some r \<Longrightarrow> btree_at (c_pager c) (tr t)" "root_at c t = Some r \<Longrightarrow> root_of (tr t) = r"
    "root_at c t = Some r \<Longrightarrow> set (pages (tr t)) \<inter> set (pages sys) = {}"
    "t \<noteq> u \<Longrightarrow> root_at c t = Some r \<Longrightarrow> root_at c u = Some r' \<Longrightarrow> set (pages (tr t)) \<inter> set (pages (tr u)) = {}"
  using assms by (auto simp: store_inv_def)

definition contents :: "Catalog \<Rightarrow> (string \<Rightarrow> gtree) \<Rightarrow> db" where
  "contents c tr = (\<lambda>(t, k). if root_at c t = None then None else map_of (entries (tr t)) k)"

definition store_holds :: "Catalog \<Rightarrow> db \<Rightarrow> bool" where
  "store_holds c \<sigma> \<longleftrightarrow> (\<exists>sys tr. store_inv c sys tr \<and> contents c tr = \<sigma>)"

text \<open>The pages of the other trees.\<close>

definition other_pages :: "Catalog \<Rightarrow> (string \<Rightarrow> gtree) \<Rightarrow> string \<Rightarrow> page_id set" where
  "other_pages c tr t = (\<Union>u\<in>dom (root_at c) - {t}. set (pages (tr u)))"

lemma tree_pages_split: "root_at c t = Some r \<Longrightarrow> tree_pages c tr = set (pages (tr t)) \<union> other_pages c tr t"
  by (auto simp: tree_pages_def other_pages_def)

lemma other_disjoint:
  assumes "store_inv c sys tr" "root_at c t = Some r"
  shows "other_pages c tr t \<inter> set (pages (tr t)) = {}" "set (pages sys) \<inter> set (pages (tr t)) = {}"
    "other_pages c tr t \<inter> set (pages sys) = {}"
proof -
  note I = store_invD [OF assms(1)]
  show "other_pages c tr t \<inter> set (pages (tr t)) = {}"
    using I(6) [OF _ _ assms(2)] unfolding other_pages_def by blast
  show "set (pages sys) \<inter> set (pages (tr t)) = {}" using I(5) [OF assms(2)] by blast
  show "other_pages c tr t \<inter> set (pages sys) = {}" using I(5) unfolding other_pages_def by blast
qed

text \<open>
  A change of one tree on its own pages keeps the rest: the invariant holds again for the new
  tree at its new root, once the catalog has that root.
\<close>

lemma btree_at_cong:
  assumes "btree_at p t" "pager_owned q (set (pages t))" "\<And>j. j \<in> set (pages t) \<Longrightarrow> page q j = page p j"
  shows "btree_at q t"
  using assms stored_cong(1) [of t q p 0] by (simp add: btree_at_def)

lemma store_inv_update:
  assumes inv: "store_inv c sys tr" and t: "root_at c t = Some r"
    and c': "cat_inv c' sys'" "root_at c' = (root_at c)(t \<mapsto> root_of t')"
    and own: "pager_owned (c_pager c') (set (pages t') \<union> set (pages sys') \<union> other_pages c tr t)"
    and b: "btree_at (c_pager c') t'" "set (pages t') \<inter> set (pages sys') = {}"
      "set (pages t') \<inter> other_pages c tr t = {}" "set (pages sys') \<inter> other_pages c tr t = {}"
    and pg: "\<And>j. j \<in> other_pages c tr t \<Longrightarrow> page (c_pager c') j = page (c_pager c) j"
  shows "store_inv c' sys' (tr(t := t'))" "contents c' (tr(t := t')) =
      (\<lambda>(u, k). if u = t then map_of (entries t') k else contents c tr (u, k))"
proof -
  note I = store_invD [OF inv]
  have dom: "dom (root_at c') = insert t (dom (root_at c))" using c'(2) by simp
  have tp: "tree_pages c' (tr(t := t')) = set (pages t') \<union> other_pages c tr t"
    unfolding tree_pages_def other_pages_def dom by (auto split: if_splits)
  have sub: "set (pages (tr u)) \<subseteq> other_pages c tr t" if "root_at c u = Some s" "u \<noteq> t" for u s
    using that by (auto simp: other_pages_def)
  have other: "btree_at (c_pager c') (tr u)" if u: "root_at c u = Some s" "u \<noteq> t" for u s
    by (rule btree_at_cong [OF I(3) [OF u(1)]]) (use own sub [OF u] pg in \<open>auto intro: pager_owned_mono\<close>)
  show "store_inv c' sys' (tr(t := t'))"
    unfolding store_inv_def
  proof (intro conjI allI impI)
    show "pager_owned (c_pager c') (set (pages sys') \<union> tree_pages c' (tr(t := t')))"
      using own by (simp add: tp Un_ac)
    fix u s assume "root_at c' u = Some s"
    then show "btree_at (c_pager c') ((tr(t := t')) u)" "root_of ((tr(t := t')) u) = s"
      "set (pages ((tr(t := t')) u)) \<inter> set (pages sys') = {}"
      using c'(2) b other I(4) [of u s] sub [of u s] by (auto split: if_splits)
  next
    fix u w assume "u \<noteq> w" "root_at c' u \<noteq> None" "root_at c' w \<noteq> None"
    then show "set (pages ((tr(t := t')) u)) \<inter> set (pages ((tr(t := t')) w)) = {}"
      using c'(2) I(6) [of u w] sub [of u] sub [of w] b(3) by (auto split: if_splits)
  qed (rule c'(1))
  show "contents c' (tr(t := t')) = (\<lambda>(u, k). if u = t then map_of (entries t') k else contents c tr (u, k))"
    using c'(2) by (auto simp: contents_def fun_eq_iff)
qed

section \<open>Changing a tree\<close>

text \<open>
  A write is ready: the tree of its target takes it, and should the root move, the system
  tree takes the schema with the new root.
\<close>

definition write_ready :: "Catalog \<Rightarrow> string \<Rightarrow> bytes \<Rightarrow> bytes \<Rightarrow> bool" where
  "write_ready c t key val \<longleftrightarrow>
     (\<exists>sys tr b b' td. store_inv c sys tr \<and> root_at c t \<noteq> None \<and> Table c (target_table t) = Some td \<and>
        put_ready b key val (c_pager c) (tr t) \<and>
        put_ready b' (str_bytes (tName td)) (encodeTableDef td) (c_pager c) sys \<and>
        height (tr t) + height sys + 4 < pager_room (c_pager c))"

text \<open>The contents do not depend on how the trees are described.\<close>

lemma contents_unique:
  assumes "store_inv c sys tr" "store_inv c sys' tr'"
  shows "contents c tr = contents c tr'"
proof -
  have "entries (tr t) = entries (tr' t)" if "root_at c t = Some r" for t r
    using btree_entries_unique [OF store_invD(3) [OF assms(1) that] store_invD(3) [OF assms(2) that]]
      store_invD(4) [OF assms(1) that] store_invD(4) [OF assms(2) that] by simp
  then show ?thesis by (auto simp: contents_def fun_eq_iff)
qed

lemma store_holds_unique: "store_holds c \<sigma> \<Longrightarrow> store_holds c \<tau> \<Longrightarrow> \<sigma> = \<tau>"
  unfolding store_holds_def using contents_unique by metis

lemma resolve_cong: "c_tables d = c_tables c \<Longrightarrow> resolve d t = resolve c t"
  by (simp add: resolve_def Table_def Let_def)

lemma root_at_cong: "c_tables d = c_tables c \<Longrightarrow> root_at d = root_at c"
  using resolve_cong [of d c] by (simp add: root_at_def fun_eq_iff)

lemma root_at_pager [simp]: "root_at (c\<lparr>c_pager := p\<rparr>) = root_at c" "resolve (c\<lparr>c_pager := p\<rparr>) t = resolve c t"
  by (rule root_at_cong, simp, rule resolve_cong, simp)

lemma resolve_root: "resolve c t = Some (r, sl) \<Longrightarrow> root_at c t = Some r"
  by (simp add: root_at_def)

lemma root_at_ne_0: "store_inv c sys tr \<Longrightarrow> root_at c t = Some r \<Longrightarrow> r \<noteq> 0"
  using root_nonzero store_invD(3,4) by blast

text \<open>What a change on the pages of one tree leaves of the rest.\<close>

lemma tree_moved:
  assumes inv: "store_inv c sys tr" and rt: "root_at c t = Some r"
    and mv: "moves k (c_pager c) (set (pages (tr t))) q (set (pages t'))"
  shows "cat_inv (c\<lparr>c_pager := q\<rparr>) sys"
    "pager_owned q (set (pages t') \<union> (set (pages sys) \<union> other_pages c tr t))"
    "set (pages t') \<inter> (set (pages sys) \<union> other_pages c tr t) = {}"
    "\<And>j. j \<in> set (pages sys) \<union> other_pages c tr t \<Longrightarrow> page q j = page (c_pager c) j"
proof -
  note I = store_invD [OF inv] and D = other_disjoint [OF inv rt]
  let ?O = "other_pages c tr t"
  have own: "pager_owned (c_pager c) (set (pages (tr t)) \<union> (set (pages sys) \<union> ?O))"
    using I(2) unfolding tree_pages_split [OF rt] by (simp add: Un_ac)
  have dj: "(set (pages sys) \<union> ?O) \<inter> set (pages (tr t)) = {}" using D by auto
  note m = movesD [OF mv dj own]
  show "pager_owned q (set (pages t') \<union> (set (pages sys) \<union> ?O))" "set (pages t') \<inter> (set (pages sys) \<union> ?O) = {}"
    "\<And>j. j \<in> set (pages sys) \<union> ?O \<Longrightarrow> page q j = page (c_pager c) j" using m by auto
  have "btree_at q sys"
    by (rule btree_at_cong [OF cat_invD(1) [OF I(1)]]) (use m in \<open>auto intro: pager_owned_mono\<close>)
  then show "cat_inv (c\<lparr>c_pager := q\<rparr>) sys" using I(1) mv by (simp add: cat_inv_def Table_def moves_def)
qed

lemma tree_same_root:
  assumes inv: "store_inv c sys tr" and rt: "root_at c t = Some (root_of t')"
    and t': "btree_at q t'" "moves k (c_pager c) (set (pages (tr t))) q (set (pages t'))"
  shows "store_inv (c\<lparr>c_pager := q\<rparr>) sys (tr(t := t'))" "contents (c\<lparr>c_pager := q\<rparr>) (tr(t := t')) =
      (\<lambda>(u, k). if u = t then map_of (entries t') k else contents c tr (u, k))"
proof -
  note m = tree_moved [OF inv rt t'(2)] and D = other_disjoint [OF inv rt]
  have upd: "root_at (c\<lparr>c_pager := q\<rparr>) = (root_at c)(t \<mapsto> root_of t')" using rt by (auto simp: fun_eq_iff)
  show "store_inv (c\<lparr>c_pager := q\<rparr>) sys (tr(t := t'))" "contents (c\<lparr>c_pager := q\<rparr>) (tr(t := t')) =
      (\<lambda>(u, k). if u = t then map_of (entries t') k else contents c tr (u, k))"
    by (rule store_inv_update [OF inv rt m(1) upd], use m t' D in \<open>auto simp: Un_ac\<close>)+
qed

text \<open>
  The new tree \<open>t'\<close> of a target on the pager \<open>q\<close>; if its root is not the one the catalog has,
  the setter writes it.
\<close>

lemma save_moved_root:
  assumes inv: "store_inv c sys tr" and rs: "resolve c t = Some (r, sl)"
    and t': "btree_at q t'" "moves k (c_pager c) (set (pages (tr t))) q (set (pages t'))"
    and td: "Table c (target_table t) = Some td"
      "put_ready b (str_bytes (tName td)) (encodeTableDef td) (c_pager c) sys" "height sys + 1 + k < pager_room (c_pager c)"
  shows "\<exists>c' sys'. (if root_of t' \<noteq> r then save_root sl (root_of t') else ret ()) (c\<lparr>c_pager := q\<rparr>) = (Inr (), c') \<and>
    store_inv c' sys' (tr(t := t')) \<and> contents c' (tr(t := t')) =
      (\<lambda>(u, k). if u = t then map_of (entries t') k else contents c tr (u, k)) \<and> dom (root_at c') = dom (root_at c)"
proof -
  note I = store_invD [OF inv] and C = cat_invD [OF store_invD(1) [OF inv]]
  have rt: "root_at c t = Some r" by (rule resolve_root [OF rs])
  note D = other_disjoint [OF inv rt]
  let ?O = "other_pages c tr t" and ?q = "c\<lparr>c_pager := q\<rparr>"
  note m = tree_moved [OF inv rt t'(2)]
  note catq = m(1)
  obtain td' where F: "Table c (target_table t) = Some td'" "tName td' = target_table t"
    "tName (slot_table sl (root_of t')) = tName td'"
    "length (encodeTableDef (slot_table sl (root_of t'))) = length (encodeTableDef td')"
    "td_ok td' \<Longrightarrow> td_ok (slot_table sl (root_of t'))"
    "\<And>r'. root_at (with_table (slot_table sl r') c) = (root_at c)(t \<mapsto> r')"
    using slot_facts [OF rs C(5)] by metis
  have td': "td' = td" using F(1) td(1) by simp
  show ?thesis
  proof (cases "root_of t' = r")
    case True
    then have "store_inv ?q sys (tr(t := t'))" "contents ?q (tr(t := t')) =
        (\<lambda>(u, k). if u = t then map_of (entries t') k else contents c tr (u, k))"
      using tree_same_root [OF inv _ t'] rt by auto
    then show ?thesis using True by auto
  next
    case False
    let ?td = "slot_table sl (root_of t')"
    have room: "height sys + 1 < pager_room q" using moves_room [OF t'(2)] td(3) by simp
    have ok: "td_ok ?td" using F(5) C(6) td(1) td' by blast
    have "put_ready b (str_bytes (tName td)) (encodeTableDef ?td) q sys"
      by (rule put_ready_cong [OF td(2)]) (use m(4) F(4) td' room in auto)
    then have "put_ready b (str_bytes (tName ?td)) (encodeTableDef ?td) (c_pager ?q) sys"
      using F(3) td' by simp
    from persist_inv [OF catq ok this] obtain c1 sys' where
      P: "persist ?td ?q = (Inr (), c1)" "cat_inv (with_table ?td c1) sys'" "c_tables c1 = c_tables ?q"
        "shifts (height sys + 2) q (set (pages sys)) (c_pager c1) (set (pages sys'))" by auto
    have own2: "pager_owned q (set (pages sys) \<union> (set (pages t') \<union> ?O))" using m(2) by (simp add: Un_ac)
    have dj2: "(set (pages t') \<union> ?O) \<inter> set (pages sys) = {}" using m(3) D by auto
    note m2 = shiftsD [OF P(4) dj2 own2]
    have "save_root sl (root_of t') ?q = (Inr (), with_table ?td c1)"
      using P(1,3) by (simp add: save_root_def SaveTable_def Let_def persist_tables with_table_def)
    moreover have "root_at (with_table ?td c1) = root_at (with_table ?td c)"
      by (rule root_at_cong) (use P(3) in \<open>simp add: with_table_def\<close>)
    then have upd: "root_at (with_table ?td c1) = (root_at c)(t \<mapsto> root_of t')" using F(6) by simp
    have pq: "c_pager (with_table ?td c1) = c_pager c1" by (simp add: with_table_def)
    have bt: "btree_at (c_pager c1) t'"
      by (rule btree_at_cong [OF t'(1)]) (use m2 in \<open>auto intro: pager_owned_mono\<close>)
    have "store_inv (with_table ?td c1) sys' (tr(t := t'))" "contents (with_table ?td c1) (tr(t := t')) =
        (\<lambda>(u, k). if u = t then map_of (entries t') k else contents c tr (u, k))"
      by (rule store_inv_update [OF inv rt P(2) upd], use m m2 bt D in \<open>auto simp: Un_ac pq\<close>)+
    ultimately show ?thesis using False upd rt by auto
  qed
qed

section \<open>Applying operations\<close>

definition op_ready :: "Op \<Rightarrow> Catalog \<Rightarrow> bool" where
  "op_ready op c \<longleftrightarrow> root_at c (oTable op) \<noteq> None \<and>
     (oType op = RecPut \<and> write_ready c (oTable op) (oKey op) (oVal op) \<or> oType op = RecDelete)"

lemma OpenBTree_root: "r \<noteq> 0 \<Longrightarrow> on_pager (OpenBTree r) c = (Inr r, c)"
  by (simp add: on_pager_def OpenBTree_def)

lemma contents_upd:
  "(\<And>k. \<sigma> (t, k) = m k) \<Longrightarrow> (\<lambda>(u, k). if u = t then (m(key := v)) k else \<sigma> (u, k)) = \<sigma>((t, key) := v)"
  by (auto simp: fun_eq_iff)

lemma contents_at: "root_at c t = Some r \<Longrightarrow> contents c tr (t, k) = map_of (entries (tr t)) k"
  by (simp add: contents_def)

lemma store_put:
  assumes "store_holds c \<sigma>" "write_ready c t key val" "resolve c t = Some (r, sl)"
  obtains bt' q c' where "Put r key val (c_pager c) = (Inr bt', q)"
    "(if bt' \<noteq> r then save_root sl bt' else ret ()) (c\<lparr>c_pager := q\<rparr>) = (Inr (), c')"
    "store_holds c' (\<sigma>((t, key) \<mapsto> val))" "dom (root_at c') = dom (root_at c)"
proof -
  obtain sys tr b b' td where W: "store_inv c sys tr" "Table c (target_table t) = Some td"
    "put_ready b key val (c_pager c) (tr t)" "put_ready b' (str_bytes (tName td)) (encodeTableDef td) (c_pager c) sys"
    "height (tr t) + height sys + 4 < pager_room (c_pager c)"
    using assms(2) unfolding write_ready_def by blast
  have "store_holds c (contents c tr)" using W(1) unfolding store_holds_def by blast
  then have \<sigma>: "\<sigma> = contents c tr" by (rule store_holds_unique [OF assms(1)])
  have rt: "root_at c t = Some r" by (rule resolve_root [OF assms(3)])
  note I = store_invD [OF W(1)]
  obtain t' q where P: "Put (root_of (tr t)) key val (c_pager c) = (Inr (root_of t'), q)" "btree_at q t'"
    "entries t' = al_put key val (entries (tr t))"
    "moves (height (tr t) + 2) (c_pager c) (set (pages (tr t))) q (set (pages t'))"
    using Put_ok [OF I(3) [OF rt] W(3)] by metis
  have "height sys + 1 + (height (tr t) + 2) < pager_room (c_pager c)" using W(5) by simp
  from save_moved_root [OF W(1) assms(3) P(2,4) W(2,4) this] obtain c' sys' where
    c': "(if root_of t' \<noteq> r then save_root sl (root_of t') else ret ()) (c\<lparr>c_pager := q\<rparr>) = (Inr (), c')"
      "store_inv c' sys' (tr(t := t'))" "dom (root_at c') = dom (root_at c)"
      "contents c' (tr(t := t')) = (\<lambda>(u, k). if u = t then map_of (entries t') k else contents c tr (u, k))" by blast
  have "contents c' (tr(t := t')) = \<sigma>((t, key) \<mapsto> val)"
    unfolding c'(4) \<sigma> P(3) map_of_al_put [OF btree_atD(5) [OF I(3) [OF rt]]]
    by (rule contents_upd) (rule contents_at [OF rt])
  then have "store_holds c' (\<sigma>((t, key) \<mapsto> val))" using c'(2) unfolding store_holds_def by blast
  then show thesis using that P(1) I(4) [OF rt] c'(1,3) by simp
qed

lemma store_get:
  assumes "store_holds c \<sigma>" "root_at c t = Some r"
  shows "Get r key (c_pager c) = (case \<sigma> (t, key) of None \<Rightarrow> (Inl ErrKeyNotFound, c_pager c) | Some v \<Rightarrow> (Inr v, c_pager c))"
proof -
  obtain sys tr where s: "store_inv c sys tr" "contents c tr = \<sigma>" using assms(1) by (auto simp: store_holds_def)
  have "\<sigma> (t, key) = map_of (entries (tr t)) key" using s(2) assms(2) by (auto simp: contents_def)
  then show ?thesis using Get_map_of [OF store_invD(3) [OF s(1) assms(2)], of key] store_invD(4) [OF s(1) assms(2)] by simp
qed

lemma store_delete:
  assumes "store_holds c \<sigma>" "root_at c t = Some r"
  shows "\<sigma> (t, key) = None \<Longrightarrow> Delete r key (c_pager c) = (Inl ErrKeyNotFound, c_pager c)"
    "\<sigma> (t, key) = Some v \<Longrightarrow> \<exists>q. Delete r key (c_pager c) = (Inr (), q) \<and>
       store_holds (c\<lparr>c_pager := q\<rparr>) (\<sigma>((t, key) := None))"
proof -
  obtain sys tr where s: "store_inv c sys tr" "contents c tr = \<sigma>" using assms(1) by (auto simp: store_holds_def)
  note I = store_invD(3) [OF s(1) assms(2)] and R = store_invD(4) [OF s(1) assms(2)]
  have \<sigma>: "\<sigma> (t, key) = map_of (entries (tr t)) key" using s(2) assms(2) by (auto simp: contents_def)
  show "Delete r key (c_pager c) = (Inl ErrKeyNotFound, c_pager c)" if "\<sigma> (t, key) = None"
    using Delete_absent [OF I] that \<sigma> R by simp
  show "\<exists>q. Delete r key (c_pager c) = (Inr (), q) \<and> store_holds (c\<lparr>c_pager := q\<rparr>) (\<sigma>((t, key) := None))"
    if "\<sigma> (t, key) = Some v"
  proof -
    have "map_of (entries (tr t)) key = Some v" using that \<sigma> by simp
    then obtain q where q: "Delete (root_of (tr t)) key (c_pager c) = (Inr (), q)" "btree_at q (tdel key (tr t))"
      "moves 0 (c_pager c) (set (pages (tr t))) q (set (pages (tr t)))"
      using Delete_present [OF I] by metis
    have rt: "root_at c t = Some (root_of (tdel key (tr t)))" using assms(2) R by simp
    have mv: "moves 0 (c_pager c) (set (pages (tr t))) q (set (pages (tdel key (tr t))))" using q(3) by simp
    note U = tree_same_root [OF s(1) rt q(2) mv]
    have "contents (c\<lparr>c_pager := q\<rparr>) (tr(t := tdel key (tr t))) = \<sigma>((t, key) := None)"
      unfolding U(2) s(2) entries_tdel(1) [OF btree_atD(2) [OF I]] map_of_al_del
      by (rule contents_upd) (simp add: s(2) [symmetric] contents_at [OF assms(2)])
    then have "store_holds (c\<lparr>c_pager := q\<rparr>) (\<sigma>((t, key) := None))"
      using U(1) unfolding store_holds_def by blast
    then show ?thesis using q(1) R by blast
  qed
qed

lemma replay_op_law:
  assumes "store_holds c \<sigma>" "op_ready op c"
  shows "\<exists>c'. replay_op op c = (Inr (), c') \<and> store_holds c' (snd (db_apply op \<sigma>)) \<and> dom (root_at c') = dom (root_at c)"
proof -
  obtain r sl where rs: "resolve c (oTable op) = Some (r, sl)"
    using assms(2) by (auto simp: op_ready_def root_at_def)
  have rt: "root_at c (oTable op) = Some r" by (rule resolve_root [OF rs])
  have nz: "r \<noteq> 0" using assms(1) rt root_at_ne_0 unfolding store_holds_def by blast
  consider "oType op = RecPut" "write_ready c (oTable op) (oKey op) (oVal op)" | "oType op = RecDelete" "oType op \<noteq> RecPut"
    using assms(2) by (auto simp: op_ready_def)
  then show ?thesis
  proof cases
    case 1
    obtain bt' q c' where P: "Put r (oKey op) (oVal op) (c_pager c) = (Inr bt', q)"
      "(if bt' \<noteq> r then save_root sl bt' else ret ()) (c\<lparr>c_pager := q\<rparr>) = (Inr (), c')"
      "store_holds c' (\<sigma>((oTable op, oKey op) \<mapsto> oVal op))" "dom (root_at c') = dom (root_at c)"
      using store_put [OF assms(1) 1(2) rs] by metis
    have "on_pager (Put r (oKey op) (oVal op)) c = (Inr bt', c\<lparr>c_pager := q\<rparr>)" using P(1) by (simp add: on_pager_def)
    then have "replay_op op c = (Inr (), c')" using rs 1(1) P(2) by (simp add: replay_op_def OpenBTree_root [OF nz] bind_Inr)
    then show ?thesis using P(3,4) 1(1) by (simp add: db_apply_def)
  next
    case 2
    show ?thesis
    proof (cases "\<sigma> (oTable op, oKey op)")
      case None
      then have "on_pager (Delete r (oKey op)) c = (Inl ErrKeyNotFound, c)"
        using store_delete(1) [OF assms(1) rt] by (simp add: on_pager_def)
      then have "replay_op op c = (Inr (), c)" using rs 2 by (simp add: replay_op_def OpenBTree_root [OF nz] bind_def)
      moreover have "\<sigma>((oTable op, oKey op) := None) = \<sigma>" using None by auto
      ultimately show ?thesis using assms(1) 2 by (simp add: db_apply_def)
    next
      case (Some v)
      obtain q where q: "Delete r (oKey op) (c_pager c) = (Inr (), q)"
        "store_holds (c\<lparr>c_pager := q\<rparr>) (\<sigma>((oTable op, oKey op) := None))"
        using store_delete(2) [OF assms(1) rt Some] by blast
      then have "on_pager (Delete r (oKey op)) c = (Inr (), c\<lparr>c_pager := q\<rparr>)" by (simp add: on_pager_def)
      then have "replay_op op c = (Inr (), c\<lparr>c_pager := q\<rparr>)"
        using rs 2 by (simp add: replay_op_def OpenBTree_root [OF nz] bind_def)
      then show ?thesis using q(2) 2 by (simp add: db_apply_def)
    qed
  qed
qed

end
