(* ===== verification/TxnReplay.thy ===== *)
theory TxnReplay
  imports TxnContents
begin

text \<open>
  Sequences of operations applied to a store: the contract between the recovery scan and
  the store it works on, and what \<^verbatim>\<open>Replay\<close> and a rollback do to the contents when every
  write on the way is ready.
\<close>

text \<open>Whether every operation was ready when it was applied.\<close>

definition watched :: "(Op \<Rightarrow> 's \<Rightarrow> bool) \<Rightarrow> (Op \<Rightarrow> ('s, unit) sm) \<Rightarrow> Op \<Rightarrow> ('s \<times> bool, unit) sm" where
  "watched ready f op = (\<lambda>(s, ok). case f op s of (r, s') \<Rightarrow> (r, (s', ok \<and> ready op s)))"

definition stayed_ready :: "('s \<times> bool, 'a) sm \<Rightarrow> 's \<Rightarrow> bool" where
  "stayed_ready m s = snd (snd (m (s, True)))"

locale op_store =
  fixes app :: "Op \<Rightarrow> ('s, unit) sm"
    and holds :: "'s \<Rightarrow> db \<Rightarrow> bool"
    and ready :: "Op \<Rightarrow> 's \<Rightarrow> bool"
  assumes app_law: "holds s \<sigma> \<Longrightarrow> ready op s \<Longrightarrow> \<exists>s'. app op s = (Inr (), s') \<and> holds s' (snd (db_apply op \<sigma>))"
begin

text \<open>Three runs of one program: on the store, on the store and a flag, and on the contents.\<close>

definition sim :: "('s, 'a) sm \<Rightarrow> ('s \<times> bool, 'a) sm \<Rightarrow> (db, 'a) sm \<Rightarrow> bool" where
  "sim f g h \<longleftrightarrow> (\<forall>s ok. \<exists>r s' ok'. g (s, ok) = (r, (s', ok')) \<and> f s = (r, s') \<and> (ok' \<longrightarrow> ok) \<and>
     (\<forall>\<sigma>. holds s \<sigma> \<longrightarrow> ok' \<longrightarrow> (\<exists>\<sigma>'. h \<sigma> = (r, \<sigma>') \<and> holds s' \<sigma>')))"

lemma simD:
  assumes "sim f g h"
  obtains r s' ok' where "g (s, ok) = (r, (s', ok'))" "f s = (r, s')" "ok' \<Longrightarrow> ok"
    "\<And>\<sigma>. holds s \<sigma> \<Longrightarrow> ok' \<Longrightarrow> \<exists>\<sigma>'. h \<sigma> = (r, \<sigma>') \<and> holds s' \<sigma>'"
proof -
  have "\<exists>r s' ok'. g (s, ok) = (r, (s', ok')) \<and> f s = (r, s') \<and> (ok' \<longrightarrow> ok) \<and>
     (\<forall>\<sigma>. holds s \<sigma> \<longrightarrow> ok' \<longrightarrow> (\<exists>\<sigma>'. h \<sigma> = (r, \<sigma>') \<and> holds s' \<sigma>'))"
    using assms unfolding sim_def by (elim allE)
  then show thesis using that by blast
qed

lemma sim_ret: "sim (ret x) (ret x) (ret x)"
  by (simp add: sim_def)

lemma sim_app: "sim (app op) (watched ready app op) (db_apply op)"
  unfolding sim_def
proof (intro allI)
  fix s ok
  obtain r s' where a: "app op s = (r, s')" by fastforce
  have "\<exists>\<sigma>'. db_apply op \<sigma> = (r, \<sigma>') \<and> holds s' \<sigma>'" if "holds s \<sigma>" "ready op s" for \<sigma>
    using app_law [OF that] a by (auto simp: db_apply_def)
  then show "\<exists>r s' ok'. watched ready app op (s, ok) = (r, (s', ok')) \<and> app op s = (r, s') \<and> (ok' \<longrightarrow> ok) \<and>
      (\<forall>\<sigma>. holds s \<sigma> \<longrightarrow> ok' \<longrightarrow> (\<exists>\<sigma>'. db_apply op \<sigma> = (r, \<sigma>') \<and> holds s' \<sigma>'))"
    using a by (auto simp: watched_def)
qed

lemma sim_bind:
  assumes "sim f g h" "\<And>x. sim (f' x) (g' x) (h' x)"
  shows "sim (bind f f') (bind g g') (bind h h')"
  unfolding sim_def
proof (intro allI)
  fix s ok
  obtain r s1 ok1 where 1: "g (s, ok) = (r, (s1, ok1))" "f s = (r, s1)" "ok1 \<Longrightarrow> ok"
    "\<And>\<sigma>. holds s \<sigma> \<Longrightarrow> ok1 \<Longrightarrow> \<exists>\<sigma>1. h \<sigma> = (r, \<sigma>1) \<and> holds s1 \<sigma>1" using simD [OF assms(1)] by metis
  show "\<exists>r s' ok'. bind g g' (s, ok) = (r, (s', ok')) \<and> bind f f' s = (r, s') \<and> (ok' \<longrightarrow> ok) \<and>
      (\<forall>\<sigma>. holds s \<sigma> \<longrightarrow> ok' \<longrightarrow> (\<exists>\<sigma>'. bind h h' \<sigma> = (r, \<sigma>') \<and> holds s' \<sigma>'))"
  proof (cases r)
    case (Inl e)
    then show ?thesis using 1 by (fastforce simp: bind_def)
  next
    case (Inr x)
    obtain r2 s2 ok2 where 2: "g' x (s1, ok1) = (r2, (s2, ok2))" "f' x s1 = (r2, s2)" "ok2 \<Longrightarrow> ok1"
      "\<And>\<sigma>. holds s1 \<sigma> \<Longrightarrow> ok2 \<Longrightarrow> \<exists>\<sigma>'. h' x \<sigma> = (r2, \<sigma>') \<and> holds s2 \<sigma>'" using simD [OF assms(2)] by metis
    have "\<exists>\<sigma>'. bind h h' \<sigma> = (r2, \<sigma>') \<and> holds s2 \<sigma>'" if "holds s \<sigma>" "ok2" for \<sigma>
      using 1(4) [OF that(1) 2(3)] 2(4) that(2) Inr by (auto simp: bind_def)
    then show ?thesis using 1(1-3) 2(1-3) Inr by (auto simp: bind_def)
  qed
qed

lemma sim_each: "(\<And>x. sim (f x) (g x) (h x)) \<Longrightarrow> sim (each f xs) (each g xs) (each h xs)"
  by (induction xs) (auto intro: sim_ret sim_bind)

lemma sim_redo: "sim (applyRedo app op) (applyRedo (watched ready app) op) (applyRedo db_apply op)"
  unfolding applyRedo_def by (simp add: sim_app sim_ret)

lemma sim_undo: "sim (applyUndo app op) (applyUndo (watched ready app) op) (applyUndo db_apply op)"
  unfolding applyUndo_def by (simp add: sim_app)

lemma sim_replay_step:
  "sim (replay_step app ty i payload pend) (replay_step (watched ready app) ty i payload pend) (replay_step db_apply ty i payload pend)"
proof -
  have "sim (bind (each (applyRedo app) xs) (\<lambda>_. ret y)) (bind (each (applyRedo (watched ready app)) xs) (\<lambda>_. ret y))
      (bind (each (applyRedo db_apply) xs) (\<lambda>_. ret y))" for xs and y :: pending
    by (intro sim_bind sim_each sim_redo sim_ret)
  then show ?thesis
    unfolding replay_step_def by (simp add: sim_ret split: sum.split prod.split)
qed

lemma sim_replay_loop:
  "sim (replay_loop app b pend) (replay_loop (watched ready app) b pend) (replay_loop db_apply b pend)"
proof (induction "length b" arbitrary: b pend rule: less_induct)
  case less
  show ?case
  proof (cases "next_record b")
    case None
    then show ?thesis by (simp add: replay_loop.simps sim_ret)
  next
    case (Some x)
    obtain ty i payload rest where x: "x = (ty, i, payload, rest)" by (metis prod_cases4)
    have "sim (replay_loop app rest p) (replay_loop (watched ready app) rest p) (replay_loop db_apply rest p)" for p
      using less next_record_shorter Some x by blast
    then have "sim (bind (replay_step app ty i payload pend) (replay_loop app rest))
        (bind (replay_step (watched ready app) ty i payload pend) (replay_loop (watched ready app) rest))
        (bind (replay_step db_apply ty i payload pend) (replay_loop db_apply rest))"
      by (intro sim_bind sim_replay_step)
    then show ?thesis using Some x by (simp add: replay_loop.simps [of _ b])
  qed
qed

lemma sim_Replay: "sim (Replay order log app) (Replay order log (watched ready app)) (Replay order log db_apply)"
proof (cases log)
  case None
  then show ?thesis by (simp add: Replay_def sim_ret)
next
  case (Some b)
  have "sim (case x of (j, ops) \<Rightarrow> each (applyUndo app) (rev ops))
      (case x of (j, ops) \<Rightarrow> each (applyUndo (watched ready app)) (rev ops))
      (case x of (j, ops) \<Rightarrow> each (applyUndo db_apply) (rev ops))" for x :: "uint64 \<times> Op list"
    by (cases x) (auto intro: sim_each sim_undo)
  then show ?thesis
    using Some unfolding Replay_def by (auto intro!: sim_bind sim_replay_loop intro: sim_each)
qed

lemma sim_ready:
  assumes "sim f g h" "stayed_ready g s" "holds s \<sigma>" "h \<sigma> = (r, \<sigma>')"
  shows "\<exists>s'. f s = (r, s') \<and> holds s' \<sigma>'"
proof -
  obtain r1 s' ok' where 1: "g (s, True) = (r1, (s', ok'))" "f s = (r1, s')"
    "\<And>\<sigma>. holds s \<sigma> \<Longrightarrow> ok' \<Longrightarrow> \<exists>\<sigma>'. h \<sigma> = (r1, \<sigma>') \<and> holds s' \<sigma>'" using simD [OF assms(1)] by metis
  then have "ok'" using assms(2) by (simp add: stayed_ready_def)
  with 1(3) [OF assms(3)] show ?thesis using 1(2) assms(4) by auto
qed

lemmas replay_ready = sim_ready [OF sim_Replay]
lemmas each_ready = sim_ready [OF sim_each [OF sim_app]]

end

interpretation cs: op_store replay_op store_holds op_ready
  by unfold_locales (use replay_op_law in blast)

section \<open>Opening a store\<close>

lemma store_holds_reopen:
  assumes "store_holds c \<sigma>"
  obtains p c' where "Open (fdata (c_pager c)) = Inr p" "catalog_Open p = (Inr c', p)" "store_holds c' \<sigma>"
    "Table c' = Table c"
proof -
  obtain sys tr where s: "store_inv c sys tr" "contents c tr = \<sigma>" using assms by (auto simp: store_holds_def)
  note I = store_invD [OF s(1)]
  obtain p c' where r: "Open (fdata (c_pager c)) = Inr p" "p = c_pager c\<lparr>durable := fdata (c_pager c)\<rparr>"
    "catalog_Open p = (Inr c', p)" "c_pager c' = p" "Table c' = Table c" "cat_inv c' sys"
    using reopen [OF I(1)] by metis
  have rt: "root_at c' = root_at c" using r(5) by (auto simp: fun_eq_iff root_at_def2)
  have own: "pager_owned p A" if "pager_owned (c_pager c) A" for A
    by (rule pager_owned_cong [OF that]) (simp_all add: r(2))
  have pg: "page p j = page (c_pager c) j" for j by (simp add: r(2) page_def)
  have "btree_at p (tr t)" if "root_at c t = Some x" for t x
    by (rule btree_at_cong [OF I(3) [OF that] own [OF btree_atD(4) [OF I(3) [OF that]]] pg])
  then have "store_inv c' sys tr"
    using s(1) r(4,6) own by (auto simp: store_inv_def rt tree_pages_def)
  moreover have "contents c' tr = \<sigma>" using s(2) by (auto simp: contents_def rt)
  ultimately show thesis using that r(1,3,5) unfolding store_holds_def by blast
qed

lemma store_holds_durable: "store_holds c \<sigma> \<Longrightarrow> \<exists>d. on_pager Sync c = (Inr (), c\<lparr>c_pager := c_pager c\<lparr>durable := d\<rparr>\<rparr>) \<and>
    store_holds (c\<lparr>c_pager := c_pager c\<lparr>durable := d\<rparr>\<rparr>) \<sigma>"
proof -
  assume "store_holds c \<sigma>"
  then obtain sys tr where s: "store_inv c sys tr" "contents c tr = \<sigma>" by (auto simp: store_holds_def)
  note I = store_invD [OF s(1)]
  let ?p = "c_pager c\<lparr>durable := fdata (c_pager c)\<rparr>"
  have own: "pager_owned ?p A" if "pager_owned (c_pager c) A" for A
    by (rule pager_owned_cong [OF that]) simp_all
  have "btree_at ?p (tr t)" if "root_at c t = Some x" for t x
    by (rule btree_at_cong [OF I(3) [OF that] own [OF btree_atD(4) [OF I(3) [OF that]]]]) (simp add: page_def)
  then have "store_inv (c\<lparr>c_pager := ?p\<rparr>) sys tr"
    using s(1) own cat_inv_durable [OF I(1)] by (auto simp: store_inv_def tree_pages_def)
  then have "store_holds (c\<lparr>c_pager := ?p\<rparr>) \<sigma>"
    using s(2) unfolding store_holds_def by (intro exI [of _ sys] exI [of _ tr]) (simp add: contents_def)
  moreover have "\<not> closed (c_pager c)" using I(2) by (auto simp: pager_owned_def dest: pager_invD)
  ultimately show ?thesis by (auto simp: on_pager_def Sync_def)
qed

lemma txn_Open_replays:
  assumes "store_holds c \<tau>" "Replay order log db_apply \<tau> = (Inr (), \<sigma>)"
    and "\<And>p d. Open (fdata (c_pager c)) = Inr p \<Longrightarrow> catalog_Open p = (Inr d, p) \<Longrightarrow>
      stayed_ready (Replay order log (watched op_ready replay_op)) d"
  shows "\<exists>s. txn_Open order (fdata (c_pager c)) log = Inr s \<and> store_holds (st_cat s) \<sigma> \<and>
    wfile (st_wal s) = [] \<and> \<not> wclosed (st_wal s) \<and> \<not> st_locked s"
proof -
  obtain p d where d: "Open (fdata (c_pager c)) = Inr p" "catalog_Open p = (Inr d, p)" "store_holds d \<tau>"
    using store_holds_reopen [OF assms(1)] by metis
  obtain e where e: "Replay order log replay_op d = (Inr (), e)" "store_holds e \<sigma>"
    using cs.replay_ready [OF assms(3) [OF d(1,2)] d(3) assms(2)] by blast
  obtain q where q: "on_pager Sync e = (Inr (), e\<lparr>c_pager := c_pager e\<lparr>durable := q\<rparr>\<rparr>)"
    "store_holds (e\<lparr>c_pager := c_pager e\<lparr>durable := q\<rparr>\<rparr>) \<sigma>" using store_holds_durable [OF e(2)] by blast
  show ?thesis
    using d(1,2) e(1) q by (simp add: txn_Open_def wal_Checkpoint_def wal_Open_def)
qed

end
