(* ===== verification/OnePage.thy ===== *)
theory OnePage
  imports TxnReplay
begin

text \<open>
  Trees that fit one page: a put that finds room leaves the tree on its page, with the room
  less the cost of the cell.  So a run of writes that fits needs no look at the
  shape of the trees to be ready.
\<close>

section \<open>Room on the page of a tree\<close>

definition roomy :: "nat \<Rightarrow> pager \<Rightarrow> gtree \<Rightarrow> bool" where
  "roomy n p t \<longleftrightarrow> (\<exists>pid kvs. t = GLeaf pid kvs \<and> int n \<le> freeSpace \<lparr>n_id = 0, n_buf = page p pid\<rparr>)"

lemma roomy_height: "roomy n p t \<Longrightarrow> height t = 0"
  by (auto simp: roomy_def)

lemma roomy_mono: "roomy n p t \<Longrightarrow> m \<le> n \<Longrightarrow> roomy m p t"
  by (auto simp: roomy_def)

lemma roomy_cong: "roomy n p t \<Longrightarrow> (\<And>j. j \<in> set (pages t) \<Longrightarrow> page q j = page p j) \<Longrightarrow> roomy n q t"
  by (auto simp: roomy_def)

lemma roomy_new: "page p pid = newNodeBuf leafPage \<Longrightarrow> n \<le> page_room \<Longrightarrow> roomy n p (GLeaf pid [])"
  by (simp add: roomy_def freeSpace_new)

text \<open>The page of the root tells whether the tree is one page.\<close>

lemma leaf_page_tree:
  assumes "btree_at p t" "leaf_repr (page p (root_of t)) nxt kvs"
  obtains kvs' where "t = GLeaf (root_of t) kvs'"
proof (cases t)
  case (GNode pid f)
  let ?n = "\<lparr>n_id = pid, n_buf = page p pid\<rparr>"
  have "inner_repr (n_buf ?n) (root_of (flast f)) (fcells f)" using assms(1) GNode by (simp add: btree_at_def)
  then have "\<not> isLeaf ?n" using internal_reprD(1) inner_reprD(1) by blast
  moreover have "isLeaf ?n" using leaf_reprD(1) [of ?n] assms(2) GNode by simp
  ultimately show thesis by blast
qed (use that in auto)

lemma Put_roomy:
  assumes t: "btree_at p t" "roomy n p t" and "length key \<le> maxKeyValue" "length val \<le> maxKeyValue"
    and "cell_cost (key, val) \<le> n"
    and P: "Put (root_of t) key val p = (Inr (root_of t'), q)" "btree_at q t'"
  shows "roomy (n - cell_cost (key, val)) q t'" "root_of t' = root_of t"
proof -
  obtain pid kvs where l: "t = GLeaf pid kvs" "int n \<le> freeSpace \<lparr>n_id = 0, n_buf = page p pid\<rparr>"
    using t(2) by (auto simp: roomy_def)
  let ?n = "\<lparr>n_id = pid, n_buf = page p pid\<rparr>"
  have r: "leaf_repr (page p pid) 0 kvs" "keys_sorted kvs" "pager_owned p {pid}"
    using btree_atD [OF t(1)] l(1) by (auto simp: btree_at_def)
  obtain m where m: "(if key \<in> fst ` set kvs then removeCellAt (lower_bound (map fst kvs) key) ?n else Inr ?n) = Inr m"
    "n_id m = pid" "leaf_repr (n_buf m) 0 (without key kvs)" "freeSpace ?n \<le> freeSpace m"
    using leaf_removed [OF r(1,2)] by metis
  have fm: "int n \<le> freeSpace m" using l(2) m(4) freeSpace_buf [of ?n] by simp
  have fits: "int (length (leafCellBody key val) + 2) \<le> freeSpace m" using fm assms(5) by (simp add: cell_cost_def)
  obtain q' where q': "putLeaf ?n key val p = (Inr None, q')" "leaf_repr (page q' pid) 0 (al_put key val kvs)"
    "freeSpace \<lparr>n_id = 0, n_buf = page q' pid\<rparr> = freeSpace m - int (6 + length key + length val)"
    using putLeaf_room [OF r assms(3,4) m(1-3) fits] by metis
  have "isLeaf ?n" using leaf_reprD(1) r(1) by force
  then have "Put pid key val p = (Inr pid, q')"
    using q'(1) assms(3,4) readNode_owned [OF r(3), of pid] by (simp add: Put_def putRec.simps [of _ pid] bind_def)
  then have e: "root_of t' = pid" "q = q'" using P(1) l(1) by auto
  then show "root_of t' = root_of t" using l(1) by simp
  obtain kvs' where "t' = GLeaf pid kvs'" using leaf_page_tree [OF P(2)] q'(2) e by metis
  then show "roomy (n - cell_cost (key, val)) q t'"
    using e fm q'(3) assms(5) by (simp add: roomy_def cell_cost_def)
qed

text \<open>A page with room takes keys of like lengths.\<close>

lemma put_ready_roomy:
  assumes "roomy n p t" "cell_cost (key, val) \<le> n" "length val \<le> maxKeyValue" "1 < pager_room p"
    and "\<And>k. k \<in> insert key (fst ` set (entries t)) \<Longrightarrow> span b k"
  shows "put_ready b key val p t"
  using assms by (auto simp: put_ready_def roomy_def leaf_accepts_def)

section \<open>Tables\<close>

lemma persist_roomy:
  assumes c: "btree_at (c_pager c) t" "root_of t = c_sysRoot c" "roomy n (c_pager c) t"
    and ready: "put_ready b (str_bytes (tName td)) (encodeTableDef td) (c_pager c) t"
      "6 + length (tName td) + length (encodeTableDef td) \<le> n"
    and c': "persist td c = (Inr (), c')" "btree_at (c_pager c') t'" "root_of t' = c_sysRoot c'"
  shows "roomy (n - (6 + length (tName td) + length (encodeTableDef td))) (c_pager c') t'"
proof -
  let ?k = "str_bytes (tName td)" and ?v = "encodeTableDef td"
  obtain t1 q where P: "Put (root_of t) ?k ?v (c_pager c) = (Inr (root_of t1), q)" "btree_at q t1"
    using Put_ok [OF c(1) ready(1)] by metis
  have len: "length ?k \<le> maxKeyValue" "length ?v \<le> maxKeyValue" "cell_cost (?k, ?v) \<le> n"
    using ready span_length [of b ?k] by (auto simp: put_ready_def cell_cost_def)
  have r1: "roomy (n - cell_cost (?k, ?v)) q t1" using Put_roomy(1) [OF c(1,3) len P] .
  obtain r where r: "SetCatalogRoot (root_of t1) q = (Inr (), r)" "\<And>j. j \<in> set (pages t1) \<Longrightarrow> page r j = page q j"
    using SetCatalogRoot_shifts [OF btree_atD(4) [OF P(2)]] by blast
  have e: "c' = c\<lparr>c_pager := r, c_sysRoot := root_of t1\<rparr>"
    using P(1) r(1) c(2) c'(1) by (auto simp: persist_def on_pager_def bind_def)
  obtain pid kvs where l: "t1 = GLeaf pid kvs" using r1 by (auto simp: roomy_def)
  then have "leaf_repr (page r (root_of t')) 0 kvs" using P(2) r(2) c'(3) e by (simp add: btree_at_def)
  then obtain kvs' where "t' = GLeaf (root_of t') kvs'" using leaf_page_tree [of r t' 0 kvs] c'(2) e by auto
  then have "set (pages t') = set (pages t1)" "\<exists>kvs. t' = GLeaf pid kvs" using c'(3) e l by auto
  then show ?thesis using r1 r(2) e l by (auto simp: roomy_def cell_cost_def)
qed

lemma CreateTable_roomy:
  assumes c: "cat_inv c sys" "roomy n (c_pager c) sys" "Table c name = None"
    and room: "put_ready b (str_bytes name) (encodeTableDef (new_table name cols 0)) (c_pager c) sys"
      "6 + length name + length (encodeTableDef (new_table name cols 0)) \<le> n" "height sys + 2 < pager_room (c_pager c)"
    and c': "CreateTable name cols c = (Inr td, c')" "cat_inv c' sys'"
  shows "roomy (n - (6 + length name + length (encodeTableDef (new_table name cols 0)))) (c_pager c') sys'"
proof -
  note I = cat_invD [OF c(1)]
  have own: "pager_owned (c_pager c) ({} \<union> set (pages sys))" using btree_atD(4) [OF I(1)] by simp
  have "pager_owned (c_pager c) {}" "0 < pager_room (c_pager c)" using pager_owned_mono [OF own] room(3) by auto
  then obtain root q where q: "OpenBTree 0 (c_pager c) = (Inr root, q)" "moves 1 (c_pager c) {} q {root}"
    using OpenBTree_new [of "c_pager c" "{}"] by metis
  note pg = movesD [OF q(2) Int_empty_right own]
  have bq: "btree_at q sys" by (rule btree_at_cong [OF I(1)]) (use pg in \<open>auto intro: pager_owned_mono\<close>)
  let ?td = "new_table name cols root" and ?c = "c\<lparr>c_pager := q\<rparr>"
  have len: "length (encodeTableDef ?td) = length (encodeTableDef (new_table name cols 0))"
    using length_encodeTableDef_root [of root "new_table name cols 0"] by (simp add: new_table_def)
  obtain d where d: "persist ?td ?c = (Inr (), d)" "c_pager c' = c_pager d" "c_sysRoot c' = c_sysRoot d"
    using c'(1) c(3) q(1) by (auto simp: CreateTable_def on_pager_def bind_def Let_def new_table_def split: prod.splits sum.splits)
  have "put_ready b (str_bytes (tName ?td)) (encodeTableDef ?td) (c_pager ?c) sys"
    using put_ready_cong [OF room(1) _ len, of q] pg(3) room(3) moves_room [OF q(2)] by (simp add: new_table_def)
  moreover have "roomy n q sys" using roomy_cong [OF c(2)] pg(3) by blast
  ultimately have "roomy (n - (6 + length (tName ?td) + length (encodeTableDef ?td))) (c_pager d) sys'"
    using persist_roomy [of ?c sys n b ?td d sys'] bq I(2) room(2) d cat_invD(1,2) [OF c'(2)] len by (simp add: new_table_def)
  then show ?thesis using d(2) len by (simp add: new_table_def)
qed

text \<open>A new table adds an empty tree.\<close>

lemma CreateTable_store:
  assumes inv: "store_inv c sys tr" and new: "Table c name = None" "td_ok (new_table name cols 0)"
    and room: "put_ready b (str_bytes name) (encodeTableDef (new_table name cols 0)) (c_pager c) sys"
      "height sys + 2 < pager_room (c_pager c)"
  obtains c' sys' root where "CreateTable name cols c = (Inr (new_table name cols root), c')"
    "store_inv c' sys' (tr(TableTarget name := GLeaf root []))" "contents c' (tr(TableTarget name := GLeaf root [])) = contents c tr"
    "Table c' = (Table c)(name \<mapsto> new_table name cols root)" "root_at c' = (root_at c)(TableTarget name \<mapsto> root)"
    "page (c_pager c') root = newNodeBuf leafPage" "pager_room (c_pager c) \<le> pager_room (c_pager c') + (height sys + 3)"
proof -
  note I = store_invD [OF inv]
  obtain c' sys' root where C: "CreateTable name cols c = (Inr (new_table name cols root), c')" "cat_inv c' sys'"
    "Table c' = (Table c)(name \<mapsto> new_table name cols root)" "btree_at (c_pager c') (GLeaf root [])" "root \<notin> set (pages sys')"
    "shifts (height sys + 3) (c_pager c) (set (pages sys)) (c_pager c') (insert root (set (pages sys')))"
    "page (c_pager c') root = newNodeBuf leafPage"
    using CreateTable_inv [OF I(1) new room] by metis
  let ?t = "TableTarget name" and ?T = "tree_pages c tr"
  have dj: "?T \<inter> set (pages sys) = {}" using I(5) by (fastforce simp: tree_pages_def)
  note S = shiftsD [OF C(6) dj I(2)]
  have rt: "root_at c' = (root_at c)(?t \<mapsto> root)"
  proof (rule ext)
    fix u
    have "u = ?t" if "take 2 u = ''T:''" "target_table u = name"
      using that append_take_drop_id [of 2 u] by (simp add: target_table_def TableTarget_def)
    moreover have "take 2 ?t = ''T:''" "target_table ?t = name" by (simp_all add: TableTarget_def target_table_def)
    ultimately show "root_at c' u = ((root_at c)(?t \<mapsto> root)) u"
      using new(1) by (cases "u = ?t") (auto simp: root_at_def2 [of _ u] root_at_def2 [of _ ?t] C(3) new_table_def)
  qed
  have fresh: "root_at c ?t = None" using new(1) by (simp add: root_at_def2 TableTarget_def target_table_def)
  have tp: "tree_pages c' (tr(?t := GLeaf root [])) = insert root ?T"
  proof -
    have "dom (root_at c') = insert ?t (dom (root_at c))" "?t \<notin> dom (root_at c)" using rt fresh by auto
    then show ?thesis by (simp add: tree_pages_def) (intro arg_cong [of _ _ "insert root"] SUP_cong; auto)
  qed
  have sub: "set (pages (tr u)) \<subseteq> ?T" if "root_at c u = Some r" for u r using that by (auto simp: tree_pages_def)
  have bt: "btree_at (c_pager c') (tr u)" if "root_at c u = Some r" for u r
    by (rule btree_at_cong [OF I(3) [OF that]]) (use S sub [OF that] in \<open>auto intro: pager_owned_mono\<close>)
  have inv': "store_inv c' sys' (tr(?t := GLeaf root []))"
    unfolding store_inv_def tp
  proof (intro conjI allI impI)
    show "pager_owned (c_pager c') (set (pages sys') \<union> insert root ?T)" using S(1) by (simp add: Un_ac)
  next
    fix u r assume u: "root_at c' u = Some r"
    have "set (pages (tr u)) \<inter> set (pages sys') = {}" if "u \<noteq> ?t" using u rt sub [of u r] S(2) that by auto
    then show "btree_at (c_pager c') ((tr(?t := GLeaf root [])) u)" "root_of ((tr(?t := GLeaf root [])) u) = r"
      "set (pages ((tr(?t := GLeaf root [])) u)) \<inter> set (pages sys') = {}"
      using u rt C(4,5) bt [of u r] I(4) [of u r] by (cases "u = ?t"; simp)+
  next
    fix u w assume "u \<noteq> w" "root_at c' u \<noteq> None" "root_at c' w \<noteq> None"
    then show "set (pages ((tr(?t := GLeaf root [])) u)) \<inter> set (pages ((tr(?t := GLeaf root [])) w)) = {}"
      using rt I(6) [of u w] sub [of u] sub [of w] S(2) by (cases "u = ?t"; cases "w = ?t") auto
  qed (rule C(2))
  moreover have "contents c' (tr(?t := GLeaf root [])) = contents c tr"
    using rt fresh by (auto simp: contents_def fun_eq_iff)
  ultimately show thesis using that C(1,3,7) rt shifts_room [OF C(6)] by blast
qed

lemma sys_keys:
  assumes "cat_inv c sys" "k \<in> fst ` set (entries sys)"
  obtains n td where "k = str_bytes n" "Table c n = Some td"
proof -
  from assms(2) obtain v where v: "(k, v) \<in> set (entries sys)" by auto
  have "map_of (entries sys) k = Some v"
    using map_of_sorted_iff [OF btree_atD(5) [OF cat_invD(1) [OF assms(1)]], of k v] v by simp
  then have "Table c (bytes_str k) \<noteq> None" using cat_invD(4) [OF assms(1), of "bytes_str k"] by (cases "Table c (bytes_str k)") auto
  then show thesis using that [of "bytes_str k"] by auto
qed

lemma write_ready_roomy:
  assumes inv: "store_inv c sys tr" "root_at c t = Some r" "Table c (target_table t) = Some td"
    and tree: "roomy n (c_pager c) (tr t)" "cell_cost (key, val) \<le> n" "length val \<le> maxKeyValue"
      "\<And>k. k \<in> insert key (fst ` set (entries (tr t))) \<Longrightarrow> span b k"
    and cat: "roomy m (c_pager c) sys" "6 + length (tName td) + length (encodeTableDef td) \<le> m"
      "length (encodeTableDef td) \<le> maxKeyValue" "\<And>u d. Table c u = Some d \<Longrightarrow> span b' (str_bytes u)"
    and room: "4 < pager_room (c_pager c)"
  shows "write_ready c t key val"
proof -
  have C: "cat_inv c sys" using store_invD(1) [OF inv(1)] .
  have n: "tName td = target_table t" using cat_invD(5) [OF C] inv(3) by blast
  have "put_ready b key val (c_pager c) (tr t)"
    by (rule put_ready_roomy [OF tree(1-3) _ tree(4)]) (use room in auto)
  moreover have "put_ready b' (str_bytes (tName td)) (encodeTableDef td) (c_pager c) sys"
  proof (rule put_ready_roomy [OF cat(1)])
    show "span b' k" if "k \<in> insert (str_bytes (tName td)) (fst ` set (entries sys))" for k
      using that cat(4) inv(3) n sys_keys [OF C, of k] by (metis insertE)
  qed (use cat room in \<open>auto simp: cell_cost_def\<close>)
  moreover have "height (tr t) + height sys + 4 < pager_room (c_pager c)"
    using roomy_height [OF tree(1)] roomy_height [OF cat(1)] room by simp
  ultimately show ?thesis using inv unfolding write_ready_def by blast
qed

section \<open>A store with one empty table\<close>

lemma new_store:
  obtains s pid where "txn_Open order [] None = Inr s" "store_inv (st_cat s) (GLeaf pid []) tr"
    "contents (st_cat s) tr = (\<lambda>_. None)" "Table (st_cat s) = Map.empty" "roomy page_room (c_pager (st_cat s)) (GLeaf pid [])"
    "100 < pager_room (c_pager (st_cat s))" "wfile (st_wal s) = []" "\<not> wclosed (st_wal s)" "\<not> st_locked s" "st_nextTxnID s = 0"
proof -
  have "catalog_root new_pager = 0" by (simp add: new_pager_def)
  from catalog_Open_new [OF owned_new_pager(1,2) this] obtain c pid where
    c: "catalog_Open new_pager = (Inr c, c_pager c)" "cat_inv c (GLeaf pid [])" "Table c = Map.empty"
      "page (c_pager c) pid = newNodeBuf leafPage" "shifts 1 new_pager {} (c_pager c) {pid}" by metis
  have rt: "root_at c' = Map.empty" if "Table c' = Map.empty" for c' using that by (simp add: fun_eq_iff root_at_def2)
  have inv: "store_inv c (GLeaf pid []) tr" "contents c tr = (\<lambda>_. None)"
    using c(2) rt [OF c(3)] btree_atD(4) [OF cat_invD(1) [OF c(2)]] by (simp add: store_inv_def tree_pages_def, simp add: contents_def fun_eq_iff)
  let ?c = "c\<lparr>c_pager := c_pager c\<lparr>durable := fdata (c_pager c)\<rparr>\<rparr>"
  have cl: "\<not> closed (c_pager c)" using store_invD(2) [OF inv(1)] by (auto simp: pager_owned_def dest: pager_invD)
  have own: "pager_owned (c_pager ?c) A" if "pager_owned (c_pager c) A" for A
    by (rule pager_owned_cong [OF that]) simp_all
  have T: "Table ?c = Map.empty" using c(3) by (simp add: Table_def fun_eq_iff)
  have "store_inv ?c (GLeaf pid []) tr" "contents ?c tr = (\<lambda>_. None)"
    using cat_inv_durable [OF c(2)] own store_invD(2) [OF inv(1)] rt [OF T] rt [OF c(3)]
    by (auto simp: store_inv_def tree_pages_def contents_def)
  moreover have "100 < pager_room (c_pager ?c)"
    using shifts_room [OF c(5)] by (simp add: pager_room_def new_pager_def)
  moreover have "roomy page_room (c_pager ?c) (GLeaf pid [])"
    using roomy_new [of "c_pager ?c" pid page_room] c(4) by (simp add: page_def)
  moreover have "\<exists>s. txn_Open order [] None = Inr s \<and> st_cat s = ?c \<and> wfile (st_wal s) = [] \<and> \<not> wclosed (st_wal s) \<and>
      \<not> st_locked s \<and> st_nextTxnID s = 0"
    using c(1) cl by (simp add: txn_Open_def Open_new Replay_def on_pager_def Sync_def wal_Checkpoint_def wal_Open_def)
  ultimately show thesis using that T by metis
qed

definition users_columns :: "ColumnDef list" where
  "users_columns = [\<lparr>cName = ''id'', cType = TypeInteger, cPrimaryKey = False, cUnique = False, cNotNull = True\<rparr>,
     \<lparr>cName = ''name'', cType = TypeText, cPrimaryKey = False, cUnique = False, cNotNull = False\<rparr>]"

lemma users_store:
  obtains s c sys tr root s' where "txn_Open order [] None = Inr s"
    "CreateTable ''users'' users_columns (st_cat s) = (Inr (new_table ''users'' users_columns root), c)" "s' = s\<lparr>st_cat := c\<rparr>"
    "store_inv c sys tr" "contents c tr = (\<lambda>_. None)" "Table c = [''users'' \<mapsto> new_table ''users'' users_columns root]"
    "root_at c = [''T:users'' \<mapsto> root]" "tr ''T:users'' = GLeaf root []" "roomy 3000 (c_pager c) sys"
    "roomy page_room (c_pager c) (tr ''T:users'')" "50 < pager_room (c_pager c)"
    "wfile (st_wal s') = []" "\<not> wclosed (st_wal s')" "\<not> st_locked s'" "st_nextTxnID s' = 0"
proof -
  let ?n = "''users''" and ?td = "new_table ''users'' users_columns" and ?tr = "\<lambda>_. GLeaf 0 []"
  obtain s pid where s: "txn_Open order [] None = Inr s" "store_inv (st_cat s) (GLeaf pid []) ?tr"
    "contents (st_cat s) ?tr = (\<lambda>_. None)" "Table (st_cat s) = Map.empty"
    "roomy page_room (c_pager (st_cat s)) (GLeaf pid [])" "100 < pager_room (c_pager (st_cat s))"
    "wfile (st_wal s) = []" "\<not> wclosed (st_wal s)" "\<not> st_locked s" "st_nextTxnID s = 0"
    using new_store [of order ?tr] by metis
  have ok: "td_ok (?td 0)" by (simp add: td_ok_def new_table_def users_columns_def)
  have len: "length (encodeTableDef (?td r)) \<le> 500" for r
    by (simp add: encodeTableDef_def new_table_def users_columns_def writeString_def column_bytes_def)
  have ready: "put_ready 13 (str_bytes ?n) (encodeTableDef (?td 0)) (c_pager (st_cat s)) (GLeaf pid [])"
    by (rule put_ready_roomy [OF s(5)]) (use s(6) len [of 0] in \<open>auto simp: cell_cost_def span_def\<close>)
  have none: "Table (st_cat s) ?n = None" using s(4) by simp
  have room: "height (GLeaf pid []) + 2 < pager_room (c_pager (st_cat s))" using s(6) by simp
  obtain c sys root where c: "CreateTable ?n users_columns (st_cat s) = (Inr (?td root), c)"
    "store_inv c sys (?tr(TableTarget ?n := GLeaf root []))" "contents c (?tr(TableTarget ?n := GLeaf root [])) = contents (st_cat s) ?tr"
    "Table c = (Table (st_cat s))(?n \<mapsto> ?td root)" "root_at c = (root_at (st_cat s))(TableTarget ?n \<mapsto> root)"
    "page (c_pager c) root = newNodeBuf leafPage"
    "pager_room (c_pager (st_cat s)) \<le> pager_room (c_pager c) + (height (GLeaf pid []) + 3)"
    using CreateTable_store [OF s(2) none ok ready room] by metis
  have cost: "6 + length ?n + length (encodeTableDef (?td 0)) \<le> page_room" using len [of 0] by simp
  have "roomy (page_room - (6 + length ?n + length (encodeTableDef (?td 0)))) (c_pager c) sys"
    by (rule CreateTable_roomy [OF store_invD(1) [OF s(2)] s(5) none ready cost room c(1) store_invD(1) [OF c(2)]])
  then have r1: "roomy 3000 (c_pager c) sys" by (rule roomy_mono) (use len [of 0] in simp)
  have r2: "roomy page_room (c_pager c) (GLeaf root [])" using roomy_new [OF c(6)] by simp
  have t: "TableTarget ?n = ''T:users''" by (simp add: TableTarget_def)
  have ra: "root_at (st_cat s) = Map.empty" using s(4) by (simp add: fun_eq_iff root_at_def2)
  show thesis
    by (rule that [OF s(1) c(1) refl c(2)]) (use c(3-7) s r1 r2 t ra in simp_all)
qed

end
