(* ===== verification/TxnProps.thy ===== *)
theory TxnProps
  imports OnePage WalProps
begin

text \<open>
  Transactions: what the operations of \<^verbatim>\<open>internal/txn/txn.go\<close> do to a store, from begin
  to commit, rollback or crash.
\<close>

section \<open>Undo entries and logged operations\<close>

definition entry_of :: "Op \<Rightarrow> undoEntry" where
  "entry_of op = \<lparr>u_target = oTable op, u_key = oKey op, u_hadPrev = oHadPrev op, u_prev = oPrevVal op\<rparr>"

lemma on_tree_apply: "on_tree m (s, t) =
    (case on_pager m (st_cat s) of (r, c) \<Rightarrow> (r, (s\<lparr>st_cat := c\<rparr>, t)))"
  by (simp add: on_tree_def on_store_def on_cat_def split: prod.split)

text \<open>The loop of a rollback makes the changes recovery makes for an unfinished transaction.\<close>

lemma undo_entry_of: "undo_entry (entry_of op) (s, t) =
    (case applyUndo replay_op op (st_cat s) of (r, c) \<Rightarrow> (r, (s\<lparr>st_cat := c\<rparr>, t)))"
proof (cases "resolve (st_cat s) (oTable op)")
  case None
  then show ?thesis by (simp add: undo_entry_def entry_of_def applyUndo_def replay_op_def)
next
  case (Some rs)
  then obtain root sl where rs: "resolve (st_cat s) (oTable op) = Some (root, sl)" by (cases rs) auto
  show ?thesis
    using rs by (auto simp: undo_entry_def entry_of_def applyUndo_def replay_op_def bind_def on_tree_apply
        save_moved_def on_store_def on_cat_def split: prod.splits sum.splits if_splits)
qed

lemma each_undo_entry: "each undo_entry (map entry_of ops) (s, t) =
    (case each (applyUndo replay_op) ops (st_cat s) of (r, c) \<Rightarrow> (r, (s\<lparr>st_cat := c\<rparr>, t)))"
proof (induction ops arbitrary: s)
  case (Cons op ops)
  show ?case
    by (simp add: bind_def undo_entry_of Cons.IH split: prod.split sum.split)
qed simp

section \<open>Operations of a transaction on the contents\<close>

lemma resolve_target_ok:
  assumes "resolve (st_cat s) target = Some (root, sl)" "root \<noteq> 0"
  shows "resolve_target target (s, t) = (Inr (root, sl, root), (s, t))"
  using assms by (simp add: resolve_target_def bind_def on_tree_apply OpenBTree_root)

lemma resolve_target_unknown:
  "root_at (st_cat s) target = None \<Longrightarrow> resolve_target target (s, t) = (Inl (ErrUnknownTarget target), (s, t))"
  by (simp add: resolve_target_def root_at_def)

lemma known_target:
  assumes "store_holds c \<sigma>" "root_at c target \<noteq> None"
  obtains root sl where "resolve c target = Some (root, sl)" "root_at c target = Some root" "root \<noteq> 0"
  using assms root_at_ne_0 unfolding store_holds_def root_at_def by fastforce

lemma txn_Get_holds:
  assumes "store_holds (st_cat s) \<sigma>"
  shows "txn_Get target key (s, t) =
    (if root_at (st_cat s) target = None then Inl (ErrUnknownTarget target)
     else case \<sigma> (target, key) of None \<Rightarrow> Inl ErrKeyNotFound | Some v \<Rightarrow> Inr v, (s, t))"
proof (cases "root_at (st_cat s) target = None")
  case True
  then show ?thesis by (simp add: txn_Get_def bind_def resolve_target_unknown)
next
  case False
  obtain root sl where r: "resolve (st_cat s) target = Some (root, sl)" "root_at (st_cat s) target = Some root" "root \<noteq> 0"
    by (rule known_target [OF assms False])
  show ?thesis
    using store_get [OF assms r(2), of key]
    by (simp add: txn_Get_def bind_def resolve_target_ok [OF r(1,3)] on_tree_apply on_pager_def r(2) split: option.splits)
qed

text \<open>What a put logs and remembers, and what it does to the contents.\<close>

lemma wal_append: "\<not> wclosed (st_wal s) \<Longrightarrow> \<exists>w. append_rec r (st_wal s) = (Inr (), w) \<and>
    wfile w = wfile (st_wal s) @ rec_bytes r \<and> \<not> wclosed w"
  using append_rec_file by blast

lemma txn_Put_holds:
  assumes "store_holds (st_cat s) \<sigma>" "write_ready (st_cat s) target key val" "\<not> wclosed (st_wal s)"
  shows "\<exists>s'. txn_Put target key val (s, t) =
      (Inr (), (s', t\<lparr>tx_undo := tx_undo t @ [entry_of (op_of \<sigma> ((target, key), Some val))]\<rparr>)) \<and>
    store_holds (st_cat s') (\<sigma>((target, key) \<mapsto> val)) \<and> dom (root_at (st_cat s')) = dom (root_at (st_cat s)) \<and>
    wfile (st_wal s') = wfile (st_wal s) @ rec_bytes (logged (tx_id t) \<sigma> ((target, key), Some val)) \<and>
    \<not> wclosed (st_wal s') \<and> st_locked s' = st_locked s"
proof -
  have "root_at (st_cat s) target \<noteq> None" using assms(2) by (auto simp: write_ready_def)
  then obtain root sl where r: "resolve (st_cat s) target = Some (root, sl)" "root_at (st_cat s) target = Some root" "root \<noteq> 0"
    using known_target [OF assms(1)] by metis
  obtain bt' q c' where P: "Put root key val (c_pager (st_cat s)) = (Inr bt', q)"
    "(if bt' \<noteq> root then save_root sl bt' else ret ()) (st_cat s\<lparr>c_pager := q\<rparr>) = (Inr (), c')"
    "store_holds c' (\<sigma>((target, key) \<mapsto> val))" "dom (root_at c') = dom (root_at (st_cat s))"
    using store_put [OF assms(1,2) r(1)] by metis
  obtain w where w: "append_rec (logged (tx_id t) \<sigma> ((target, key), Some val)) (st_wal s) = (Inr (), w)"
    "wfile w = wfile (st_wal s) @ rec_bytes (logged (tx_id t) \<sigma> ((target, key), Some val))" "\<not> wclosed w"
    using wal_append [OF assms(3)] by metis
  let ?s = "s\<lparr>st_wal := w, st_cat := c'\<rparr>"
  have "save_moved root sl bt' (s\<lparr>st_wal := w, st_cat := st_cat s\<lparr>c_pager := q\<rparr>\<rparr>, t) = (Inr (), (?s, t))"
    using P(2) by (auto simp: save_moved_def on_store_def on_cat_def split: if_splits)
  then have "txn_Put target key val (s, t) =
      (Inr (), (?s, t\<lparr>tx_undo := tx_undo t @ [entry_of (op_of \<sigma> ((target, key), Some val))]\<rparr>))"
    using P(1) w(1) store_get [OF assms(1) r(2), of key]
    by (cases "\<sigma> (target, key)")
      (simp_all add: txn_Put_def bind_def resolve_target_ok [OF r(1,3)] on_tree_apply on_pager_def on_store_def on_wal_def
        push_undo_def entry_of_def)
  then show ?thesis using P(3,4) w(2,3) by (intro exI [of _ ?s]) simp
qed

lemma txn_Delete_holds:
  assumes "store_holds (st_cat s) \<sigma>" "\<not> wclosed (st_wal s)"
  shows "root_at (st_cat s) target = None \<Longrightarrow> txn_Delete target key (s, t) = (Inl (ErrUnknownTarget target), (s, t))"
    "root_at (st_cat s) target \<noteq> None \<Longrightarrow> \<sigma> (target, key) = None \<Longrightarrow>
       txn_Delete target key (s, t) = (Inl ErrKeyNotFound, (s, t))"
    "\<sigma> (target, key) = Some v \<Longrightarrow> \<exists>s'. txn_Delete target key (s, t) =
       (Inr (), (s', t\<lparr>tx_undo := tx_undo t @ [entry_of (op_of \<sigma> ((target, key), None))]\<rparr>)) \<and>
     store_holds (st_cat s') (\<sigma>((target, key) := None)) \<and> dom (root_at (st_cat s')) = dom (root_at (st_cat s)) \<and>
     wfile (st_wal s') = wfile (st_wal s) @ rec_bytes (logged (tx_id t) \<sigma> ((target, key), None)) \<and>
     \<not> wclosed (st_wal s') \<and> st_locked s' = st_locked s"
proof -
  show "txn_Delete target key (s, t) = (Inl (ErrUnknownTarget target), (s, t))" if "root_at (st_cat s) target = None"
    using that by (simp add: txn_Delete_def bind_def resolve_target_unknown)
  show "txn_Delete target key (s, t) = (Inl ErrKeyNotFound, (s, t))"
    if none: "root_at (st_cat s) target \<noteq> None" "\<sigma> (target, key) = None"
  proof -
    obtain root sl where r: "resolve (st_cat s) target = Some (root, sl)" "root_at (st_cat s) target = Some root" "root \<noteq> 0"
      by (rule known_target [OF assms(1) none(1)])
    show ?thesis
      using store_get [OF assms(1) r(2), of key] none(2)
      by (simp add: txn_Delete_def bind_def resolve_target_ok [OF r(1,3)] on_tree_apply on_pager_def)
  qed
  assume v: "\<sigma> (target, key) = Some v"
  have "root_at (st_cat s) target \<noteq> None"
    using v assms(1) by (auto simp: store_holds_def contents_def split: if_splits)
  then obtain root sl where r: "resolve (st_cat s) target = Some (root, sl)" "root_at (st_cat s) target = Some root" "root \<noteq> 0"
    using known_target [OF assms(1)] by metis
  obtain q where P: "Delete root key (c_pager (st_cat s)) = (Inr (), q)"
    "store_holds (st_cat s\<lparr>c_pager := q\<rparr>) (\<sigma>((target, key) := None))"
    using store_delete(2) [OF assms(1) r(2) v] by blast
  obtain w where w: "append_rec (logged (tx_id t) \<sigma> ((target, key), None)) (st_wal s) = (Inr (), w)"
    "wfile w = wfile (st_wal s) @ rec_bytes (logged (tx_id t) \<sigma> ((target, key), None))" "\<not> wclosed w"
    using wal_append [OF assms(2)] by metis
  let ?s = "s\<lparr>st_wal := w, st_cat := st_cat s\<lparr>c_pager := q\<rparr>\<rparr>"
  have "txn_Delete target key (s, t) =
      (Inr (), (?s, t\<lparr>tx_undo := tx_undo t @ [entry_of (op_of \<sigma> ((target, key), None))]\<rparr>))"
    using P(1) w(1) store_get [OF assms(1) r(2), of key] v
    by (simp add: txn_Delete_def bind_def resolve_target_ok [OF r(1,3)] on_tree_apply on_pager_def on_store_def on_wal_def
        push_undo_def entry_of_def save_moved_def)
  then show "\<exists>s'. txn_Delete target key (s, t) =
       (Inr (), (s', t\<lparr>tx_undo := tx_undo t @ [entry_of (op_of \<sigma> ((target, key), None))]\<rparr>)) \<and>
     store_holds (st_cat s') (\<sigma>((target, key) := None)) \<and> dom (root_at (st_cat s')) = dom (root_at (st_cat s)) \<and>
     wfile (st_wal s') = wfile (st_wal s) @ rec_bytes (logged (tx_id t) \<sigma> ((target, key), None)) \<and>
     \<not> wclosed (st_wal s') \<and> st_locked s' = st_locked s"
    using P(2) w(2,3) by (intro exI [of _ ?s]) simp
qed

section \<open>Runs\<close>

text \<open>
  A run of a store from the time its log was empty: the open transaction, the contents \<open>\<sigma>\<close>
  at that time, the finished transactions since, and the changes of the open one.
\<close>

definition finished :: "Txn \<Rightarrow> change list \<Rightarrow> bool \<Rightarrow> xact" where
  "finished t cs ok = \<lparr>x_id = tx_id t, x_changes = cs, x_commit = ok\<rparr>"

definition undo_op :: "undoEntry \<Rightarrow> Op" where
  "undo_op e = \<lparr>oType = RecPut, oTable = u_target e, oKey = u_key e, oVal = [], oHadPrev = u_hadPrev e, oPrevVal = u_prev e\<rparr>"

definition undo_ready :: "Store \<Rightarrow> Txn \<Rightarrow> bool" where
  "undo_ready s t \<longleftrightarrow> stayed_ready (each (applyUndo (watched op_ready replay_op)) (map undo_op (rev (tx_undo t)))) (st_cat s)"

lemma applyUndo_undo_op: "applyUndo f (undo_op (entry_of op)) = applyUndo f op"
  by (simp add: applyUndo_def undo_op_def entry_of_def)

lemma each_undo_op: "each (applyUndo f) (map (undo_op \<circ> entry_of) ops) = each (applyUndo f) ops"
  by (induction ops) (simp_all add: applyUndo_undo_op)

inductive store_run :: "Store \<Rightarrow> Txn option \<Rightarrow> db \<Rightarrow> xact list \<Rightarrow> change list \<Rightarrow> bool" where
  run_opened: "store_holds (st_cat s) \<sigma> \<Longrightarrow> wfile (st_wal s) = [] \<Longrightarrow> \<not> wclosed (st_wal s) \<Longrightarrow> \<not> st_locked s \<Longrightarrow>
    store_run s None \<sigma> [] []"
| run_begin: "store_run s None \<sigma> xs [] \<Longrightarrow> Begin s = (Inr t, s') \<Longrightarrow> store_run s' (Some t) \<sigma> xs []"
| run_Put: "store_run s (Some t) \<sigma> xs cs \<Longrightarrow> write_ready (st_cat s) target key val \<Longrightarrow>
    txn_Put target key val (s, t) = (r, (s', t')) \<Longrightarrow> store_run s' (Some t') \<sigma> xs (cs @ [((target, key), Some val)])"
| run_Delete: "store_run s (Some t) \<sigma> xs cs \<Longrightarrow> txn_Delete target key (s, t) = (Inr (), (s', t')) \<Longrightarrow>
    store_run s' (Some t') \<sigma> xs (cs @ [((target, key), None)])"
| run_Delete_failed: "store_run s (Some t) \<sigma> xs cs \<Longrightarrow> txn_Delete target key (s, t) = (Inl e, (s', t')) \<Longrightarrow>
    store_run s' (Some t') \<sigma> xs cs"
| run_Commit: "store_run s (Some t) \<sigma> xs cs \<Longrightarrow> txn_Commit (s, t) = (r, (s', t')) \<Longrightarrow>
    store_run s' None \<sigma> (xs @ [finished t cs True]) []"
| run_Rollback: "store_run s (Some t) \<sigma> xs cs \<Longrightarrow> undo_ready s t \<Longrightarrow> txn_Rollback (s, t) = (r, (s', t')) \<Longrightarrow>
    store_run s' None \<sigma> (xs @ [finished t cs False]) []"
| run_below_threshold: "store_run s xo \<sigma> xs cs \<Longrightarrow> st_writes s < threshold \<Longrightarrow> MaybeCheckpoint threshold s = (r, s') \<Longrightarrow>
    store_run s' xo \<sigma> xs cs"
| run_checkpoint: "store_run s None \<sigma> xs [] \<Longrightarrow> threshold \<le> st_writes s \<Longrightarrow> MaybeCheckpoint threshold s = (r, s') \<Longrightarrow>
    store_run s' None (committed \<sigma> xs) [] []"

definition opened :: "Txn option \<Rightarrow> change list \<Rightarrow> (uint64 \<times> change list) option" where
  "opened xo cs = map_option (\<lambda>t. (tx_id t, cs)) xo"

definition run_inv :: "Store \<Rightarrow> Txn option \<Rightarrow> db \<Rightarrow> xact list \<Rightarrow> change list \<Rightarrow> bool" where
  "run_inv s xo \<sigma> xs cs \<longleftrightarrow> store_holds (st_cat s) (perform (committed \<sigma> xs) cs) \<and>
     wfile (st_wal s) = log_bytes (crash_log \<sigma> xs (opened xo cs)) \<and> \<not> wclosed (st_wal s) \<and>
     (st_locked s \<longleftrightarrow> xo \<noteq> None) \<and> changes_ok (committed \<sigma> xs) cs \<and>
     (case xo of None \<Rightarrow> cs = [] | Some t \<Rightarrow> \<not> tx_done t \<and> tx_undo t = map entry_of (ops_of (committed \<sigma> xs) cs))"

lemma run_invD:
  assumes "run_inv s xo \<sigma> xs cs"
  shows "store_holds (st_cat s) (perform (committed \<sigma> xs) cs)"
    "wfile (st_wal s) = log_bytes (crash_log \<sigma> xs (opened xo cs))" "\<not> wclosed (st_wal s)"
    "st_locked s \<longleftrightarrow> xo \<noteq> None" "changes_ok (committed \<sigma> xs) cs"
    "xo = None \<Longrightarrow> cs = []" "xo = Some t \<Longrightarrow> \<not> tx_done t"
    "xo = Some t \<Longrightarrow> tx_undo t = map entry_of (ops_of (committed \<sigma> xs) cs)"
  using assms by (auto simp: run_inv_def)

lemma log_bytes_append [simp]: "log_bytes (rs @ ss) = log_bytes rs @ log_bytes ss" "log_bytes [] = []"
  "log_bytes (r # rs) = rec_bytes r @ log_bytes rs"
  by (simp_all add: log_bytes_def)

lemma perform_append: "perform \<sigma> (cs @ ds) = perform (perform \<sigma> cs) ds"
  by (induction cs arbitrary: \<sigma>) auto

lemma log_changes_snoc: "log_changes i \<sigma> (cs @ [c]) = log_changes i \<sigma> cs @ [logged i (perform \<sigma> cs) c]"
  by (induction cs arbitrary: \<sigma>) (auto, cases c, auto)

lemma ops_of_snoc: "ops_of \<sigma> (cs @ [c]) = ops_of \<sigma> cs @ [op_of (perform \<sigma> cs) c]"
  by (induction cs arbitrary: \<sigma>) (auto, cases c, auto)

lemma changes_ok_snoc:
  "changes_ok \<sigma> (cs @ [(x, v)]) \<longleftrightarrow> changes_ok \<sigma> cs \<and> (v = None \<longrightarrow> perform \<sigma> cs x \<noteq> None)"
  by (induction cs arbitrary: \<sigma>) auto

lemma log_hist_snoc: "log_hist \<sigma> (xs @ [x]) = log_hist \<sigma> xs @ log_xact (committed \<sigma> xs) x"
  by (induction xs arbitrary: \<sigma>) (auto simp: committed_def)

lemma committed_snoc: "committed \<sigma> (xs @ [x]) = after (committed \<sigma> xs) x"
  by (simp add: committed_def)

lemma crash_log_finish:
  "log_bytes (crash_log \<sigma> (xs @ [finished t cs ok]) None) =
     log_bytes (crash_log \<sigma> xs (Some (tx_id t, cs))) @ rec_bytes (if ok then LCommit (tx_id t) else LRollback (tx_id t))"
  by (simp add: crash_log_def log_hist_snoc log_xact_def finished_def)

text \<open>A change by the open transaction.\<close>

lemma run_inv_change:
  assumes I: "run_inv s (Some t) \<sigma> xs cs" and t': "t' = t\<lparr>tx_undo := tx_undo t @ [entry_of (op_of (perform (committed \<sigma> xs) cs) (x, v))]\<rparr>"
    and s': "store_holds (st_cat s') ((perform (committed \<sigma> xs) cs)(x := v))"
      "wfile (st_wal s') = wfile (st_wal s) @ rec_bytes (logged (tx_id t) (perform (committed \<sigma> xs) cs) (x, v))"
      "\<not> wclosed (st_wal s')" "st_locked s' = st_locked s"
    and ok: "v = None \<Longrightarrow> perform (committed \<sigma> xs) cs x \<noteq> None"
  shows "run_inv s' (Some t') \<sigma> xs (cs @ [(x, v)])"
  using run_invD [OF I] s' ok
  by (simp add: run_inv_def t' opened_def crash_log_def perform_append log_changes_snoc ops_of_snoc changes_ok_snoc)

lemma Begin_inv:
  assumes "run_inv s None \<sigma> xs []"
  obtains t s' where "Begin s = (Inr t, s')" "run_inv s' (Some t) \<sigma> xs []"
proof -
  note I = run_invD [OF assms]
  let ?i = "st_nextTxnID s + 1"
  obtain w where w: "append_rec (LBegin ?i) (st_wal s) = (Inr (), w)" "wfile w = wfile (st_wal s) @ rec_bytes (LBegin ?i)" "\<not> wclosed w"
    using wal_append [OF I(3)] by metis
  let ?s = "s\<lparr>st_locked := True, st_nextTxnID := ?i, st_wal := w\<rparr>" and ?t = "\<lparr>tx_id = ?i, tx_undo = [], tx_done = False\<rparr>"
  have "Begin s = (Inr ?t, ?s)" using I(4) w(1) by (simp add: Begin_def Let_def on_wal_def)
  moreover have "run_inv ?s (Some ?t) \<sigma> xs []"
    using I(1,2) w(2,3) by (simp add: run_inv_def opened_def crash_log_def)
  ultimately show thesis by (rule that)
qed

lemma Commit_inv:
  assumes "run_inv s (Some t) \<sigma> xs cs"
  obtains s' t' where "txn_Commit (s, t) = (Inr (), (s', t'))" "run_inv s' None \<sigma> (xs @ [finished t cs True]) []"
    "wsynced (st_wal s') = wfile (st_wal s')"
proof -
  note I = run_invD [OF assms]
  obtain w where w: "append_rec (LCommit (tx_id t)) (st_wal s) = (Inr (), w)" "wfile w = wfile (st_wal s) @ rec_bytes (LCommit (tx_id t))"
    "\<not> wclosed w" "wsynced w = wfile w" using append_rec_file [OF I(3), of "LCommit (tx_id t)"] by auto
  let ?s = "s\<lparr>st_wal := w, st_writes := st_writes s + length (tx_undo t), st_locked := False\<rparr>"
  have "txn_Commit (s, t) = (Inr (), (?s, t\<lparr>tx_done := True\<rparr>))"
    using I(7) w(1) by (simp add: txn_Commit_def bind_def on_store_def on_wal_def)
  moreover have "run_inv ?s None \<sigma> (xs @ [finished t cs True]) []"
    using I(1,2) w(2,3) by (simp add: run_inv_def opened_def crash_log_finish committed_snoc after_def) (simp add: finished_def)
  ultimately show thesis using that w(4) by simp
qed

lemma perform_untouched: "x \<notin> touched cs \<Longrightarrow> perform \<sigma> cs x = \<sigma> x"
  by (metis perform_value)

lemma perform_undone: "changes_ok \<sigma> cs \<Longrightarrow> each (applyUndo db_apply) (rev (ops_of \<sigma> cs)) (perform \<sigma> cs) = (Inr (), \<sigma>)"
  using undo_changes [of \<sigma> cs "perform \<sigma> cs"] by (simp add: fun_eq_iff perform_untouched)

lemma Rollback_inv:
  assumes "run_inv s (Some t) \<sigma> xs cs" "undo_ready s t"
  obtains s' t' where "txn_Rollback (s, t) = (Inr (), (s', t'))" "run_inv s' None \<sigma> (xs @ [finished t cs False]) []"
proof -
  note I = run_invD [OF assms(1)]
  let ?\<sigma> = "committed \<sigma> xs" and ?ops = "rev (ops_of (committed \<sigma> xs) cs)"
  have "stayed_ready (each (applyUndo (watched op_ready replay_op)) ?ops) (st_cat s)"
    using assms(2) I(8) by (simp add: undo_ready_def rev_map each_undo_op)
  then obtain c where c: "each (applyUndo replay_op) ?ops (st_cat s) = (Inr (), c)" "store_holds c ?\<sigma>"
    using cs.sim_ready [OF cs.sim_each [OF cs.sim_undo] _ I(1) perform_undone [OF I(5)]] by blast
  obtain w where w: "append_rec (LRollback (tx_id t)) (st_wal s) = (Inr (), w)"
    "wfile w = wfile (st_wal s) @ rec_bytes (LRollback (tx_id t))" "\<not> wclosed w" using wal_append [OF I(3)] by metis
  let ?s = "s\<lparr>st_cat := c, st_wal := w, st_locked := False\<rparr>"
  have "txn_Rollback (s, t) = (Inr (), (?s, t\<lparr>tx_done := True\<rparr>))"
    using I(7,8) w(1) c(1) by (simp add: txn_Rollback_def bind_def on_store_def on_wal_def rev_map each_undo_entry)
  moreover have "run_inv ?s None \<sigma> (xs @ [finished t cs False]) []"
    using I(1,2) w(2,3) c(2) by (simp add: run_inv_def opened_def crash_log_finish committed_snoc after_def) (simp add: finished_def)
  ultimately show thesis by (rule that)
qed

lemma checkpoint_state:
  assumes "store_holds (st_cat s) \<sigma>" "\<not> wclosed (st_wal s)" "threshold \<le> st_writes s"
  obtains s' where "MaybeCheckpoint threshold s = (Inr (), s')" "store_holds (st_cat s') \<sigma>" "wfile (st_wal s') = []"
    "\<not> wclosed (st_wal s')" "st_locked s' = st_locked s"
proof -
  obtain q where q: "on_pager Sync (st_cat s) = (Inr (), st_cat s\<lparr>c_pager := c_pager (st_cat s)\<lparr>durable := q\<rparr>\<rparr>)"
    "store_holds (st_cat s\<lparr>c_pager := c_pager (st_cat s)\<lparr>durable := q\<rparr>\<rparr>) \<sigma>"
    using store_holds_durable [OF assms(1)] by auto
  obtain w where w: "wal_Checkpoint (st_wal s) = (Inr (), w)" "wfile w = []" "\<not> wclosed w"
    using assms(2) by (simp add: wal_Checkpoint_def)
  have "MaybeCheckpoint threshold s =
      (Inr (), s\<lparr>st_cat := st_cat s\<lparr>c_pager := c_pager (st_cat s)\<lparr>durable := q\<rparr>\<rparr>, st_wal := w, st_writes := 0\<rparr>)"
    using assms(3) q(1) w(1) by (simp add: MaybeCheckpoint_def bind_def on_cat_def on_wal_def)
  then show thesis by (rule that) (use q(2) w in simp_all)
qed

lemma checkpoint_inv:
  assumes "run_inv s None \<sigma> xs []" "threshold \<le> st_writes s"
  obtains s' where "MaybeCheckpoint threshold s = (Inr (), s')" "run_inv s' None (committed \<sigma> xs) [] []"
proof -
  note I = run_invD [OF assms(1)]
  obtain s' where s': "MaybeCheckpoint threshold s = (Inr (), s')" "store_holds (st_cat s') (committed \<sigma> xs)"
    "wfile (st_wal s') = []" "\<not> wclosed (st_wal s')" "st_locked s' = st_locked s"
    using checkpoint_state [OF _ I(3) assms(2)] I(1) by (metis perform.simps(1))
  moreover have "run_inv s' None (committed \<sigma> xs) [] []"
    using s' I(4) by (simp add: run_inv_def opened_def crash_log_def committed_def)
  ultimately show thesis by (blast intro: that)
qed

lemma store_run_inv: "store_run s xo \<sigma> xs cs \<Longrightarrow> run_inv s xo \<sigma> xs cs"
proof (induction rule: store_run.induct)
  case (run_opened s \<sigma>)
  then show ?case by (simp add: run_inv_def opened_def crash_log_def committed_def)
next
  case (run_begin s \<sigma> xs t s')
  from Begin_inv [OF run_begin.IH] run_begin.hyps(2) show ?case by (metis prod.inject sum.inject(2))
next
  case (run_Put s t \<sigma> xs cs target key val r s' t')
  note I = run_invD [OF run_Put.IH]
  from txn_Put_holds [OF I(1) run_Put.hyps(2) I(3), of t] run_Put.hyps(3)
  have "t' = t\<lparr>tx_undo := tx_undo t @ [entry_of (op_of (perform (committed \<sigma> xs) cs) ((target, key), Some val))]\<rparr>"
    "store_holds (st_cat s') ((perform (committed \<sigma> xs) cs)((target, key) \<mapsto> val))"
    "wfile (st_wal s') = wfile (st_wal s) @ rec_bytes (logged (tx_id t) (perform (committed \<sigma> xs) cs) ((target, key), Some val))"
    "\<not> wclosed (st_wal s')" "st_locked s' = st_locked s" by (auto simp del: op_of.simps logged.simps)
  from run_inv_change [OF run_Put.IH this] show ?case by simp
next
  case (run_Delete s t \<sigma> xs cs target key s' t')
  note I = run_invD [OF run_Delete.IH]
  note D = txn_Delete_holds [OF I(1,3), where target = target and key = key and t = t] run_Delete.hyps(2)
  obtain v where v: "perform (committed \<sigma> xs) cs (target, key) = Some v"
    using D(1,2,4) by (cases "perform (committed \<sigma> xs) cs (target, key)") fastforce+
  from D(3) [OF v] D(4)
  have "t' = t\<lparr>tx_undo := tx_undo t @ [entry_of (op_of (perform (committed \<sigma> xs) cs) ((target, key), None))]\<rparr>"
    "store_holds (st_cat s') ((perform (committed \<sigma> xs) cs)((target, key) := None))"
    "wfile (st_wal s') = wfile (st_wal s) @ rec_bytes (logged (tx_id t) (perform (committed \<sigma> xs) cs) ((target, key), None))"
    "\<not> wclosed (st_wal s')" "st_locked s' = st_locked s" by (auto simp del: op_of.simps logged.simps)
  from run_inv_change [OF run_Delete.IH this] v show ?case by simp
next
  case (run_Delete_failed s t \<sigma> xs cs target key e s' t')
  note I = run_invD [OF run_Delete_failed.IH]
  note D = txn_Delete_holds [OF I(1,3), where target = target and key = key and t = t] run_Delete_failed.hyps(2)
  have "s' = s \<and> t' = t"
  proof (cases "perform (committed \<sigma> xs) cs (target, key)")
    case None
    then show ?thesis using D(1,2,4) by (cases "root_at (st_cat s) target = None") auto
  next
    case (Some v)
    then show ?thesis using D(3) [OF Some] D(4) by auto
  qed
  then show ?case using run_Delete_failed.IH by simp
next
  case (run_Commit s t \<sigma> xs cs r s' t')
  from Commit_inv [OF run_Commit.IH] run_Commit.hyps(2) show ?case by (metis prod.inject)
next
  case (run_Rollback s t \<sigma> xs cs r s' t')
  from Rollback_inv [OF run_Rollback.IH run_Rollback.hyps(2)] run_Rollback.hyps(3) show ?case by (metis prod.inject)
next
  case (run_below_threshold s xo \<sigma> xs cs threshold r s')
  then show ?case by (simp add: MaybeCheckpoint_def)
next
  case (run_checkpoint s \<sigma> xs threshold r s')
  from checkpoint_inv [OF run_checkpoint.IH run_checkpoint.hyps(2)] run_checkpoint.hyps(3) show ?case
    by (metis prod.inject)
qed

section \<open>Properties\<close>

text \<open>
  C14: rolling back a transaction of a run succeeds, gives back the contents of the committed
  transactions whatever the transaction wrote and removed, in every tree, and
  releases the store's lock.  The puts of the run are \<open>write_ready\<close> and those of the rollback
  \<open>undo_ready\<close>: each finds a tree that takes it without losing entries.
\<close>

theorem Rollback_restores:
  assumes "store_run s (Some t) \<sigma> xs cs" "undo_ready s t"
  shows "\<exists>s' t'. txn_Rollback (s, t) = (Inr (), (s', t')) \<and> store_holds (st_cat s') (committed \<sigma> xs) \<and> \<not> st_locked s'"
proof -
  obtain s' t' where s': "txn_Rollback (s, t) = (Inr (), (s', t'))" "run_inv s' None \<sigma> (xs @ [finished t cs False]) []"
    using Rollback_inv [OF store_run_inv [OF assms(1)] assms(2)] by metis
  show ?thesis
    using s'(1) run_invD(1,4) [OF s'(2)] by (simp add: committed_snoc after_def) (simp add: finished_def)
qed



text \<open>
  C15: a transaction of a run, whose puts are \<open>write_ready\<close> and whose rollbacks are \<open>undo_ready\<close>, reads its own writes over the
  committed contents; an unknown target and a missing key are errors, and reading changes nothing.
\<close>

theorem txn_Get_reads_own_writes:
  assumes "store_run s (Some t) \<sigma> xs cs"
  shows "txn_Get target key (s, t) =
    (if root_at (st_cat s) target = None then Inl (ErrUnknownTarget target)
     else case perform (committed \<sigma> xs) cs (target, key) of None \<Rightarrow> Inl ErrKeyNotFound | Some v \<Rightarrow> Inr v, (s, t))"
  by (rule txn_Get_holds [OF run_invD(1) [OF store_run_inv [OF assms]]])

text \<open>
  C16: whatever happens while a transaction commits or rolls back, errors included, the
  lock is free afterwards, so the next transaction can begin.
\<close>

theorem Begin_after_end:
  assumes "\<not> tx_done t" "finish = txn_Commit \<or> finish = txn_Rollback"
  shows "\<exists>u s'. Begin (fst (snd (finish (s, t)))) = (Inr u, s')"
proof -
  have "\<not> st_locked (fst (snd (finish (s, t))))"
    using assms by (auto simp: txn_Commit_def txn_Rollback_def split: prod.splits)
  then show ?thesis by (simp add: Begin_def Let_def)
qed

text \<open>
  C17: a checkpoint while a transaction is open, which the lock does not prevent, makes its
  changes permanent: after a crash the reopened store holds them although
  the transaction never committed.
\<close>

theorem checkpoint_keeps_uncommitted:
  assumes "store_run s (Some t) \<sigma> xs cs" "threshold \<le> st_writes s" "order [] = []"
  shows "\<exists>s' s''. MaybeCheckpoint threshold s = (Inr (), s') \<and>
    txn_Open order (fdata (c_pager (st_cat s'))) (Some (wfile (st_wal s'))) = Inr s'' \<and>
    store_holds (st_cat s'') (perform (committed \<sigma> xs) cs)"
proof -
  note I = run_invD [OF store_run_inv [OF assms(1)]]
  obtain s' where s': "MaybeCheckpoint threshold s = (Inr (), s')" "wfile (st_wal s') = []"
    "store_holds (st_cat s') (perform (committed \<sigma> xs) cs)"
    using checkpoint_state [OF I(1,3) assms(2)] by metis
  have e: "Replay order (Some []) f = ret ()" for f :: "Op \<Rightarrow> ('s, unit) sm"
    using assms(3) by (simp add: fun_eq_iff Replay_def replay_loop.simps next_record_end bind_def)
  have "Replay order (Some []) db_apply (perform (committed \<sigma> xs) cs) = (Inr (), perform (committed \<sigma> xs) cs)"
    by (simp add: e)
  moreover have "stayed_ready (Replay order (Some []) (watched op_ready replay_op)) d" for d
    by (simp add: e stayed_ready_def)
  ultimately show ?thesis using txn_Open_replays [OF s'(3)] s'(1,2) by metis
qed

section \<open>A store with one uncommitted row\<close>

definition one_row :: "change list" where
  "one_row = [((''T:users'', [1]), Some [10])]"

lemma users_def_length: "length (encodeTableDef (new_table ''users'' users_columns r)) \<le> 500"
  by (simp add: encodeTableDef_def new_table_def users_columns_def writeString_def column_bytes_def)

text \<open>A transaction on a store with the empty table \<open>users\<close>.\<close>

lemma users_txn:
  obtains s0 s t sys tr root where "store_run s0 None (\<lambda>_. None) [] []" "Begin s0 = (Inr t, s)" "st_cat s0 = st_cat s"
    "store_run s (Some t) (\<lambda>_. None) [] []" "tx_id t = 1" "tx_undo t = []" "\<not> tx_done t"
    "store_inv (st_cat s) sys tr" "Table (st_cat s) = [''users'' \<mapsto> new_table ''users'' users_columns root]"
    "root_at (st_cat s) = [''T:users'' \<mapsto> root]" "tr ''T:users'' = GLeaf root []" "roomy 3000 (c_pager (st_cat s)) sys"
    "roomy page_room (c_pager (st_cat s)) (tr ''T:users'')" "50 < pager_room (c_pager (st_cat s))"
proof -
  let ?td = "new_table ''users'' users_columns"
  obtain s0 c sys tr root s1 where o: "txn_Open (\<lambda>p. p) [] None = Inr s0"
    "CreateTable ''users'' users_columns (st_cat s0) = (Inr (?td root), c)" and u: "s1 = s0\<lparr>st_cat := c\<rparr>"
    "store_inv c sys tr" "contents c tr = (\<lambda>_. None)" "Table c = [''users'' \<mapsto> ?td root]"
    "root_at c = [''T:users'' \<mapsto> root]" "tr ''T:users'' = GLeaf root []" "roomy 3000 (c_pager c) sys"
    "roomy page_room (c_pager c) (tr ''T:users'')" "50 < pager_room (c_pager c)"
    "wfile (st_wal s1) = []" "\<not> wclosed (st_wal s1)" "\<not> st_locked s1" "st_nextTxnID s1 = 0"
    by (rule users_store [of "\<lambda>p. p"])
  have "store_holds (st_cat s1) (\<lambda>_. None)" using u(1-3) unfolding store_holds_def by auto
  then have run1: "store_run s1 None (\<lambda>_. None) [] []" using u(10-12) by (rule run_opened)
  obtain t s2 where b: "Begin s1 = (Inr t, s2)" using Begin_inv [OF store_run_inv [OF run1]] by metis
  have b': "st_cat s2 = c" "tx_id t = 1" "tx_undo t = []" "\<not> tx_done t"
    using b u(1,12,13) by (auto simp: Begin_def Let_def on_wal_def split: prod.splits)
  have run2: "store_run s2 (Some t) (\<lambda>_. None) [] []" by (rule run_begin [OF run1 b])
  show thesis using that [OF run1 b _ run2] b' u(1,2,4-9) by simp
qed

lemma one_row_run:
  obtains s t where "store_run s (Some t) (\<lambda>_. None) [] one_row" "tx_id t = 1" "root_at (st_cat s) ''T:users'' \<noteq> None"
    "tx_undo t = [\<lparr>u_target = ''T:users'', u_key = [1], u_hadPrev = False, u_prev = []\<rparr>]" "\<not> tx_done t"
proof -
  let ?td = "new_table ''users'' users_columns"
  obtain s0 s t sys tr root where "store_run s0 None (\<lambda>_. None) [] []" "Begin s0 = (Inr t, s)" "st_cat s0 = st_cat s"
    and run: "store_run s (Some t) (\<lambda>_. None) [] []" and t: "tx_id t = 1" "tx_undo t = []" "\<not> tx_done t"
    and u: "store_inv (st_cat s) sys tr" "Table (st_cat s) = [''users'' \<mapsto> ?td root]" "root_at (st_cat s) = [''T:users'' \<mapsto> root]"
    "tr ''T:users'' = GLeaf root []" "roomy 3000 (c_pager (st_cat s)) sys" "roomy page_room (c_pager (st_cat s)) (tr ''T:users'')"
    "50 < pager_room (c_pager (st_cat s))" by (rule users_txn)
  have ready: "write_ready (st_cat s) ''T:users'' [1] [10]"
    by (intro write_ready_roomy [OF u(1), where r = root and td = "?td root" and b = 9 and b' = 13 and n = page_room and m = 3000])
      (use u(2-7) users_def_length [of root] in \<open>auto simp: target_table_def span_def cell_cost_def new_table_def split: if_splits\<close>)
  note I = run_invD [OF store_run_inv [OF run]]
  have h: "store_holds (st_cat s) (\<lambda>_. None)" using I(1) by (simp add: committed_def)
  obtain s3 where s3: "txn_Put ''T:users'' [1] [10] (s, t) =
      (Inr (), (s3, t\<lparr>tx_undo := tx_undo t @ [entry_of (op_of (\<lambda>_. None) ((''T:users'', [1]), Some [10]))]\<rparr>))"
    "dom (root_at (st_cat s3)) = dom (root_at (st_cat s))" using txn_Put_holds [OF h ready I(3), of t] by metis
  from run_Put [OF run ready s3(1)] have "store_run s3
      (Some (t\<lparr>tx_undo := tx_undo t @ [entry_of (op_of (\<lambda>_. None) ((''T:users'', [1]), Some [10]))]\<rparr>)) (\<lambda>_. None) [] one_row"
    by (simp add: one_row_def)
  moreover have "root_at (st_cat s3) ''T:users'' \<noteq> None" using s3(2) u(3) by (metis domIff fun_upd_same option.distinct(1))
  ultimately show thesis using t by (auto simp: entry_of_def intro!: that)
qed

lemma delete_ready: "root_at c target \<noteq> None \<Longrightarrow> stayed_ready (each (applyUndo (watched op_ready replay_op))
    [\<lparr>oType = ty, oTable = target, oKey = k, oVal = v, oHadPrev = False, oPrevVal = pv\<rparr>]) c"
  by (simp add: stayed_ready_def applyUndo_def watched_def op_ready_def bind_def split: prod.split sum.split)

theorem Rollback_restores_witness:
  "\<exists>s t s' t'. store_run s (Some t) (\<lambda>_. None) [] one_row \<and> txn_Rollback (s, t) = (Inr (), (s', t')) \<and>
     store_holds (st_cat s') (\<lambda>_. None) \<and> \<not> st_locked s'"
proof -
  obtain s t where r: "store_run s (Some t) (\<lambda>_. None) [] one_row" "root_at (st_cat s) ''T:users'' \<noteq> None"
    "tx_undo t = [\<lparr>u_target = ''T:users'', u_key = [1], u_hadPrev = False, u_prev = []\<rparr>]"
    using one_row_run by metis
  have "undo_ready s t" using delete_ready [OF r(2)] r(3) by (simp add: undo_ready_def undo_op_def)
  from Rollback_restores [OF r(1) this] r(1) show ?thesis by (auto simp: committed_def)
qed


theorem txn_Get_reads_own_writes_witness:
  "\<exists>s t. store_run s (Some t) (\<lambda>_. None) [] one_row \<and> txn_Get ''T:users'' [1] (s, t) = (Inr [10], (s, t))"
proof -
  obtain s t where r: "store_run s (Some t) (\<lambda>_. None) [] one_row" "root_at (st_cat s) ''T:users'' \<noteq> None"
    using one_row_run by metis
  with txn_Get_reads_own_writes [OF r(1), of "''T:users''" "[1]"] show ?thesis by (auto simp: one_row_def)
qed

theorem Begin_after_end_witness:
  "\<exists>s t u s'. \<not> tx_done t \<and> st_locked s \<and> Begin (fst (snd (txn_Commit (s, t)))) = (Inr u, s')"
proof -
  obtain s t where r: "store_run s (Some t) (\<lambda>_. None) [] one_row" "\<not> tx_done t" using one_row_run by metis
  have "st_locked s" using run_invD(4) [OF store_run_inv [OF r(1)]] by simp
  then show ?thesis using Begin_after_end [of t txn_Commit s] r(2) by blast
qed

theorem checkpoint_keeps_uncommitted_witness:
  "\<exists>s t s' s''. store_run s (Some t) (\<lambda>_. None) [] one_row \<and> MaybeCheckpoint 0 s = (Inr (), s') \<and>
     txn_Open (\<lambda>p. p) (fdata (c_pager (st_cat s'))) (Some (wfile (st_wal s'))) = Inr s'' \<and>
     store_holds (st_cat s'') ((\<lambda>_. None)((''T:users'', [1]) := Some [10]))"
proof -
  obtain s t where r: "store_run s (Some t) (\<lambda>_. None) [] one_row" using one_row_run by metis
  with checkpoint_keeps_uncommitted [OF r, of 0 "\<lambda>p. p"] show ?thesis
    by (simp add: one_row_def committed_def) blast
qed

end
