(* ===== verification/FloatArith.thy ===== *)
theory FloatArith
  imports Float64
begin

text \<open>
  The arithmetic of Go's \<^verbatim>\<open>float64\<close> on bit patterns: the exact result on the numbers the
  patterns stand for, rounded to the nearest, ties to even.  The pattern of a NaN result,
  which Go leaves to the processor, is the one arm64 gives: the first NaN operand made
  quiet, or the default NaN.
\<close>

definition f_default_nan :: float64 where
  "f_default_nan = 0x7FF8000000000000"

definition f_inf :: "float64 \<Rightarrow> bool" where
  "f_inf x \<longleftrightarrow> f_mag x = f_inf_mag"

definition f_zero :: "float64 \<Rightarrow> bool" where
  "f_zero x \<longleftrightarrow> f_mag x = 0"

text \<open>A finite number is \<open>f_sig x * 2 ^ f_exp x\<close>, as a ratio \<open>f_num x / f_den x\<close>.\<close>

definition f_biased :: "float64 \<Rightarrow> int" where
  "f_biased x = uint (f_mag x) div 2 ^ 52"

definition f_sig :: "float64 \<Rightarrow> int" where
  "f_sig x =
     (let m = uint (f_mag x) mod 2 ^ 52 + (if f_biased x = 0 then 0 else 2 ^ 52)
      in if f_neg x then - m else m)"

definition f_exp :: "float64 \<Rightarrow> int" where
  "f_exp x = max (f_biased x) 1 - 1075"

definition f_num :: "float64 \<Rightarrow> int" where
  "f_num x = f_sig x * 2 ^ nat (f_exp x)"

definition f_den :: "float64 \<Rightarrow> int" where
  "f_den x = 2 ^ nat (- f_exp x)"

definition with_sign :: "bool \<Rightarrow> 64 word \<Rightarrow> float64" where
  "with_sign neg m = (if neg then m OR sign_bit else m)"

definition round_ratio :: "bool \<Rightarrow> int \<Rightarrow> int \<Rightarrow> float64" where
  "round_ratio zero_neg n d =
     (if n = 0 then with_sign zero_neg 0 else with_sign (n < 0) (round_mag \<bar>n\<bar> d))"

definition f_nan_result :: "float64 \<Rightarrow> float64 \<Rightarrow> float64" where
  "f_nan_result x y =
     (if f_nan x then x OR 0x0008000000000000 else if f_nan y then y OR 0x0008000000000000 else f_default_nan)"

definition f_add :: "float64 \<Rightarrow> float64 \<Rightarrow> float64" where
  "f_add x y =
     (if f_nan x \<or> f_nan y \<or> f_inf x \<and> f_inf y \<and> f_neg x \<noteq> f_neg y then f_nan_result x y
      else if f_inf x then x
      else if f_inf y then y
      else round_ratio (f_neg x \<and> f_neg y) (f_num x * f_den y + f_num y * f_den x) (f_den x * f_den y))"

definition f_sub :: "float64 \<Rightarrow> float64 \<Rightarrow> float64" where
  "f_sub x y = (if f_nan x \<or> f_nan y then f_nan_result x y else f_add x (f_negate y))"

definition f_mul :: "float64 \<Rightarrow> float64 \<Rightarrow> float64" where
  "f_mul x y =
     (let neg = (f_neg x \<noteq> f_neg y)
      in if f_nan x \<or> f_nan y \<or> f_inf x \<and> f_zero y \<or> f_zero x \<and> f_inf y then f_nan_result x y
         else if f_inf x \<or> f_inf y then with_sign neg f_inf_mag
         else round_ratio neg (f_num x * f_num y) (f_den x * f_den y))"

definition f_div :: "float64 \<Rightarrow> float64 \<Rightarrow> float64" where
  "f_div x y =
     (let neg = (f_neg x \<noteq> f_neg y)
      in if f_nan x \<or> f_nan y \<or> f_inf x \<and> f_inf y \<or> f_zero x \<and> f_zero y then f_nan_result x y
         else if f_inf x \<or> f_zero y then with_sign neg f_inf_mag
         else if f_inf y then with_sign neg 0
         else round_ratio neg (sgn (f_num y) * f_num x * f_den y) (\<bar>f_num y\<bar> * f_den x))"

text \<open>The truncating division of \<^verbatim>\<open>int64\<close>, which wraps for the least number divided by -1.\<close>

definition i_div :: "int64 \<Rightarrow> int64 \<Rightarrow> int64" where
  "i_div a b = word_of_int (sgn (sint a) * sgn (sint b) * (\<bar>sint a\<bar> div \<bar>sint b\<bar>))"

end
