(* ===== verification/Eval.thy ===== *)
theory Eval
  imports Ast Catalog FloatArith
begin

text \<open>
  Expression evaluation of \<^verbatim>\<open>internal/engine/expr.go\<close>: tuples of bindings, column
  references, operators with their NULL rules, arithmetic at 64 bits, and the coercion
  of a value to a column type.
\<close>

section \<open>Tuples\<close>

record Binding =
  bAlias :: string
  bTable :: TableDef
  bRowKey :: bytes
  bValues :: "Value list"

type_synonym Tuple = "Binding list"

text \<open>The loop of \<^verbatim>\<open>resolve\<close>; an index beyond the values of a binding is a panic.\<close>

fun resolve_loop :: "Tuple \<Rightarrow> string \<Rightarrow> string \<Rightarrow> Value option \<Rightarrow> Value result" where
  "resolve_loop [] table name found =
     (case found of None \<Rightarrow> Inl (ErrUnknownColumn name) | Some v \<Rightarrow> Inr v)"
| "resolve_loop (b # tp) table name found =
     (if table \<noteq> [] \<and> table \<noteq> bAlias b then resolve_loop tp table name found
      else
        (let idx = ColumnIndex (bTable b) name
         in if idx < 0 then resolve_loop tp table name found
            else if found \<noteq> None then Inl (ErrAmbiguousColumn name)
            else if nat idx \<ge> length (bValues b) then Inl Panic
            else resolve_loop tp table name (Some (bValues b ! nat idx))))"

definition tuple_resolve :: "Tuple \<Rightarrow> string \<Rightarrow> string \<Rightarrow> Value result" where
  "tuple_resolve tp table name = resolve_loop tp table name None"

section \<open>Operators\<close>

definition toFloat :: "Value \<Rightarrow> float64" where
  "toFloat v = (if vType v = TypeFloat then vF v else f_of_int64 (vI v))"

definition arith :: "string \<Rightarrow> Value \<Rightarrow> Value \<Rightarrow> Value result" where
  "arith op l r =
     (if vNull l \<or> vNull r then Inr (NullValue TypeFloat)
      else if (vType l = TypeFloat \<or> vType r = TypeFloat) \<and> op \<in> {''+'', ''-'', ''*'', ''/''} then
        (let lf = toFloat l; rf = toFloat r
         in if op = ''+'' then Inr (FloatValue (f_add lf rf))
            else if op = ''-'' then Inr (FloatValue (f_sub lf rf))
            else if op = ''*'' then Inr (FloatValue (f_mul lf rf))
            else if f_eq rf 0 then Inl ErrDivisionByZero
            else Inr (FloatValue (f_div lf rf)))
      else
        (let li = vI l; ri = vI r
         in if op = ''+'' then Inr (IntValue (li + ri))
            else if op = ''-'' then Inr (IntValue (li - ri))
            else if op = ''*'' then Inr (IntValue (li * ri))
            else if op = ''/'' then
              (if ri = 0 then Inl ErrDivisionByZero else Inr (IntValue (i_div li ri)))
            else Inl (ErrUnknownArith op)))"

text \<open>A comparison: NULL when an operand is, otherwise a test of \<^verbatim>\<open>catalog.Compare\<close>.\<close>

definition compareWith :: "(int \<Rightarrow> bool) \<Rightarrow> Value \<Rightarrow> Value \<Rightarrow> Value result" where
  "compareWith test l r =
     (if vNull l \<or> vNull r then Inr (NullValue TypeBoolean) else Inr (BoolValue (test (Compare l r))))"

text \<open>
  \<^verbatim>\<open>evalBinary\<close> on the outcomes of its operands; AND and OR look at the right one only when
  the left one does not decide.
\<close>

definition evalBinary :: "string \<Rightarrow> Value result \<Rightarrow> Value result \<Rightarrow> Value result" where
  "evalBinary op left right =
     (if op = ''AND'' \<or> op = ''OR'' then
        rbind left (\<lambda>l.
          if op = ''AND'' \<and> \<not> Truthy l then Inr (BoolValue False)
          else if op = ''OR'' \<and> Truthy l then Inr (BoolValue True)
          else rbind right (\<lambda>r. Inr (BoolValue (Truthy r))))
      else
        rbind left (\<lambda>l.
        rbind right (\<lambda>r.
          if op = ''='' then compareWith (\<lambda>c. c = 0) l r
          else if op = ''<>'' then compareWith (\<lambda>c. c \<noteq> 0) l r
          else if op = ''<'' then compareWith (\<lambda>c. c < 0) l r
          else if op = ''<='' then compareWith (\<lambda>c. c \<le> 0) l r
          else if op = ''>'' then compareWith (\<lambda>c. c > 0) l r
          else if op = ''>='' then compareWith (\<lambda>c. c \<ge> 0) l r
          else if op \<in> {''+'', ''-'', ''*'', ''/''} then arith op l r
          else Inl (ErrUnknownOperator op))))"

definition evalLiteral :: "Literal \<Rightarrow> Value result" where
  "evalLiteral e =
     (if lKind e = ''int'' then Inr (IntValue (lI e))
      else if lKind e = ''float'' then Inr (FloatValue (lF e))
      else if lKind e = ''string'' then Inr (TextValue (lS e))
      else if lKind e = ''bool'' then Inr (BoolValue (lB e))
      else if lKind e = ''null'' then Inr (NullValue TypeText)
      else Inl (ErrBadLiteralKind (lKind e)))"

definition evalUnary :: "string \<Rightarrow> Value \<Rightarrow> Value result" where
  "evalUnary op v =
     (if op = ''NOT'' then Inr (BoolValue (\<not> Truthy v))
      else if op = ''-'' then
        (if vType v = TypeFloat then Inr (FloatValue (f_negate (vF v))) else Inr (IntValue (- vI v)))
      else Inl (ErrUnknownUnary op))"

primrec eval :: "Expr \<Rightarrow> Tuple \<Rightarrow> Value result" where
  "eval (LiteralExpr e) tp = evalLiteral e"
| "eval (ColumnRef table name) tp = tuple_resolve tp table name"
| "eval (UnaryExpr op e) tp = rbind (eval e tp) (evalUnary op)"
| "eval (BinaryExpr op l r) tp = evalBinary op (eval l tp) (eval r tp)"
| "eval CountStarExpr tp = Inl ErrCountStar"

section \<open>Coercion\<close>

definition coerce :: "Value \<Rightarrow> Type \<Rightarrow> Value result" where
  "coerce v want =
     (if vNull v then Inr (NullValue want)
      else if vType v = want then Inr v
      else if vType v = TypeInteger \<and> want = TypeFloat then Inr (FloatValue (f_of_int64 (vI v)))
      else Inl (ErrCannotUse (vType v) want))"

end
