(* ===== verification/Engine.thy ===== *)
theory Engine
  imports Eval Txn
begin

text \<open>
  Row statements of \<^verbatim>\<open>internal/engine\<close>: scans and index seeks (\<^verbatim>\<open>scan.go\<close>), and the
  execution of SELECT, INSERT, UPDATE and DELETE.

  The functions take the operations of the transaction they run in as an argument \<open>T\<close>:
  \<^verbatim>\<open>t.Put\<close>, \<^verbatim>\<open>t.Delete\<close>, \<^verbatim>\<open>t.Get\<close>, \<^verbatim>\<open>t.Cursor\<close> and \<^verbatim>\<open>Next\<close>, the look-up of a
  schema in the store's catalog, and the draw of a row number, which saves the schema.
  The statements hold a pointer to the schema while the roots and the next row number in it
  change under them; what they read through it later is the part that stays.
\<close>

section \<open>The operations of a transaction\<close>

record ('s, 'c) txn_ops =
  t_Table :: "string \<Rightarrow> ('s, TableDef option) sm"
  t_NextRow :: "string \<Rightarrow> ('s, uint64) sm"
  t_Put :: "string \<Rightarrow> bytes \<Rightarrow> bytes \<Rightarrow> ('s, unit) sm"
  t_Delete :: "string \<Rightarrow> bytes \<Rightarrow> ('s, unit) sm"
  t_Get :: "string \<Rightarrow> bytes \<Rightarrow> ('s, bytes) sm"
  t_Cursor :: "string \<Rightarrow> bytes option \<Rightarrow> ('s, 'c) sm"
  t_Next :: "'c \<Rightarrow> ('s, (bytes \<times> bytes) option \<times> 'c) sm"
  t_fuel :: "'s \<Rightarrow> 'c \<Rightarrow> nat"

text \<open>The part of a schema that row statements leave alone.\<close>

definition schema_of :: "TableDef \<Rightarrow> TableDef" where
  "schema_of td = td\<lparr>tRoot := 0, tNextRow := 0, tIndexes := map (\<lambda>ix. ix\<lparr>iRoot := 0\<rparr>) (tIndexes td)\<rparr>"

definition lookup_schema :: "string \<Rightarrow> TableDef option txm" where
  "lookup_schema name st = (Inr (map_option schema_of (Table (st_cat (fst st)) name)), st)"

text \<open>A change of the schema a pointer leads to, and its save.\<close>

definition save_schema :: "TableDef \<Rightarrow> (Catalog, unit) sm" where
  "save_schema td c = SaveTable td (c\<lparr>c_tables := table_set (tName td) td (c_tables c)\<rparr>)"

definition next_row :: "string \<Rightarrow> uint64 txm" where
  "next_row name st =
     (case Table (st_cat (fst st)) name of
        None \<Rightarrow> (Inl Panic, st)
      | Some td \<Rightarrow> bind (on_store (on_cat (save_schema (td\<lparr>tNextRow := tNextRow td + 1\<rparr>)))) (\<lambda>_. ret (tNextRow td)) st)"

definition real_txn :: "(Store \<times> Txn, cursor) txn_ops" where
  "real_txn = \<lparr>t_Table = lookup_schema, t_NextRow = next_row, t_Put = txn_Put, t_Delete = txn_Delete, t_Get = txn_Get,
     t_Cursor = txn_Cursor, t_Next = (\<lambda>c. on_tree (Next c)), t_fuel = (\<lambda>st _. load_fuel (c_pager (st_cat (fst st))))\<rparr>"

text \<open>A panic and an endless loop are not errors a caller can handle.\<close>

definition stops :: "go_error \<Rightarrow> bool" where
  "stops e \<longleftrightarrow> e = Panic \<or> e = Diverges"

primrec traverse :: "('a \<Rightarrow> 'b result) \<Rightarrow> 'a list \<Rightarrow> 'b list result" where
  "traverse f [] = Inr []"
| "traverse f (x # xs) = rbind (f x) (\<lambda>y. rbind (traverse f xs) (\<lambda>ys. Inr (y # ys)))"

definition index_at :: "'a list \<Rightarrow> int \<Rightarrow> 'a result" where
  "index_at xs i = (if 0 \<le> i \<and> nat i < length xs then Inr (xs ! nat i) else Inl Panic)"

definition need_table :: "('s, 'c) txn_ops \<Rightarrow> string \<Rightarrow> ('s, TableDef) sm" where
  "need_table T name =
     bind (t_Table T name) (\<lambda>tdo. case tdo of None \<Rightarrow> fail (ErrNoSuchTable name) | Some td \<Rightarrow> ret td)"

section \<open>Index entries\<close>

definition indexKey :: "Value \<Rightarrow> bytes \<Rightarrow> bytes" where
  "indexKey v rowKey = SortKey v @ rowKey"

definition hasPrefix :: "bytes \<Rightarrow> bytes \<Rightarrow> bool" where
  "hasPrefix b pre \<longleftrightarrow> length pre \<le> length b \<and> take (length pre) b = pre"

definition checkUniqueViaTxn :: "('s, 'c) txn_ops \<Rightarrow> TableDef \<Rightarrow> IndexDef \<Rightarrow> Value \<Rightarrow> ('s, unit) sm" where
  "checkUniqueViaTxn T td idx v =
     (let pre = SortKey v
      in bind (t_Cursor T (IndexTarget (tName td) (iName idx)) (Some pre)) (\<lambda>cur.
         bind (t_Next T cur) (\<lambda>(kv, _).
           case kv of
             Some (k, _) \<Rightarrow> if hasPrefix k pre then fail (ErrDuplicateValue (iColumn idx)) else ret ()
           | None \<Rightarrow> ret ())))"

section \<open>Scans\<close>

fun fetch_loop :: "('s, 'c) txn_ops \<Rightarrow> Type list \<Rightarrow> nat \<Rightarrow> 'c \<Rightarrow> bytes list \<Rightarrow> Value list list \<Rightarrow>
    ('s, bytes list \<times> Value list list) sm" where
  "fetch_loop T types 0 cur ks rows = fail Diverges"
| "fetch_loop T types (Suc n) cur ks rows =
     bind (t_Next T cur) (\<lambda>(kv, cur).
       case kv of
         None \<Rightarrow> ret (ks, rows)
       | Some (k, v) \<Rightarrow> bind (lift (DecodeRow v types)) (\<lambda>vals.
           fetch_loop T types n cur (ks @ [k]) (rows @ [vals])))"

definition fetchAllRows :: "('s, 'c) txn_ops \<Rightarrow> TableDef \<Rightarrow> ('s, bytes list \<times> Value list list) sm" where
  "fetchAllRows T td =
     bind (t_Cursor T (TableTarget (tName td)) None) (\<lambda>cur s.
       fetch_loop T (ColumnTypes td) (t_fuel T s cur) cur [] [] s)"

definition matchColumnLiteral :: "Expr \<Rightarrow> Expr \<Rightarrow> string \<Rightarrow> (string \<times> Expr) option" where
  "matchColumnLiteral a b alias =
     (case a of
        ColumnRef table name \<Rightarrow>
          if table \<noteq> [] \<and> table \<noteq> alias then None
          else (case b of LiteralExpr l \<Rightarrow> Some (name, b) | _ \<Rightarrow> None)
      | _ \<Rightarrow> None)"

definition literalValue :: "Expr \<Rightarrow> Value result" where
  "literalValue e = eval e []"

fun index_for :: "TableDef \<Rightarrow> string \<Rightarrow> Expr \<Rightarrow> IndexDef list \<Rightarrow> (IndexDef \<times> Value) option result" where
  "index_for td col lit [] = Inr None"
| "index_for td col lit (ix # ixs) =
     (if iColumn ix = col then
        (case literalValue lit of
           Inl _ \<Rightarrow> Inr None
         | Inr v \<Rightarrow> rbind (index_at (tColumns td) (ColumnIndex td col)) (\<lambda>c.
             case coerce v (cType c) of Inl _ \<Rightarrow> Inr None | Inr cv \<Rightarrow> Inr (Some (ix, cv))))
      else index_for td col lit ixs)"

definition findEqualityIndex :: "TableDef \<Rightarrow> Expr \<Rightarrow> string \<Rightarrow> (IndexDef \<times> Value) option result" where
  "findEqualityIndex td cond alias =
     (case cond of
        BinaryExpr op l r \<Rightarrow>
          if op \<noteq> ''='' then Inr None
          else (case (case matchColumnLiteral l r alias of None \<Rightarrow> matchColumnLiteral r l alias | m \<Rightarrow> m) of
                  None \<Rightarrow> Inr None
                | Some (col, lit) \<Rightarrow> index_for td col lit (tIndexes td))
      | _ \<Rightarrow> Inr None)"

fun lookup_loop :: "('s, 'c) txn_ops \<Rightarrow> bytes \<Rightarrow> nat \<Rightarrow> 'c \<Rightarrow> bytes list \<Rightarrow> ('s, bytes list) sm" where
  "lookup_loop T pre 0 cur out = fail Diverges"
| "lookup_loop T pre (Suc n) cur out =
     bind (t_Next T cur) (\<lambda>(kv, cur).
       case kv of
         None \<Rightarrow> ret out
       | Some (k, rowKey) \<Rightarrow> if \<not> hasPrefix k pre then ret out else lookup_loop T pre n cur (out @ [rowKey]))"

definition indexEqualityLookup :: "('s, 'c) txn_ops \<Rightarrow> TableDef \<Rightarrow> IndexDef \<Rightarrow> Value \<Rightarrow> ('s, bytes list) sm" where
  "indexEqualityLookup T td idx v =
     (let pre = SortKey v
      in bind (t_Cursor T (IndexTarget (tName td) (iName idx)) (Some pre)) (\<lambda>cur s.
           lookup_loop T pre (t_fuel T s cur) cur [] s))"

text \<open>The rows of the keys an index gave; a key without a row is skipped.\<close>

fun load_keys :: "('s, 'c) txn_ops \<Rightarrow> TableDef \<Rightarrow> bytes list \<Rightarrow> bytes list \<Rightarrow> Value list list \<Rightarrow>
    ('s, bytes list \<times> Value list list) sm" where
  "load_keys T td [] ks rows = ret (ks, rows)"
| "load_keys T td (rk # rks) ks rows = (\<lambda>s.
     case t_Get T (TableTarget (tName td)) rk s of
       (Inl e, s) \<Rightarrow> (if stops e then (Inl e, s) else load_keys T td rks ks rows s)
     | (Inr raw, s) \<Rightarrow> bind (lift (DecodeRow raw (ColumnTypes td))) (\<lambda>vals.
         load_keys T td rks (ks @ [rk]) (rows @ [vals])) s)"

definition loadRows :: "('s, 'c) txn_ops \<Rightarrow> TableDef \<Rightarrow> Expr option \<Rightarrow> string \<Rightarrow> ('s, bytes list \<times> Value list list) sm" where
  "loadRows T td cond alias =
     (case cond of
        None \<Rightarrow> fetchAllRows T td
      | Some e \<Rightarrow> bind (lift (findEqualityIndex td e alias)) (\<lambda>m.
          case m of
            None \<Rightarrow> fetchAllRows T td
          | Some (idx, lit) \<Rightarrow> bind (indexEqualityLookup T td idx lit) (\<lambda>rowKeys. load_keys T td rowKeys [] [])))"

section \<open>SELECT\<close>

record Result =
  rColumns :: "string list option"
  rRows :: "Value list list option"
  rRowsAffected :: int
  rMessage :: string

definition message :: "string \<Rightarrow> int \<Rightarrow> Result" where
  "message msg n = \<lparr>rColumns = None, rRows = None, rRowsAffected = n, rMessage = msg\<rparr>"

definition rowset :: "string list \<Rightarrow> Value list list \<Rightarrow> Result" where
  "rowset cols rows = \<lparr>rColumns = Some cols, rRows = Some rows, rRowsAffected = 0, rMessage = []\<rparr>"

definition bind_row :: "string \<Rightarrow> TableDef \<Rightarrow> bytes \<Rightarrow> Value list \<Rightarrow> Binding" where
  "bind_row alias td key vals = \<lparr>bAlias = alias, bTable = td, bRowKey = key, bValues = vals\<rparr>"

text \<open>The two loops of a join; the first error of its condition ends them.\<close>

fun join_rows :: "JoinClause \<Rightarrow> TableDef \<Rightarrow> Tuple \<Rightarrow> Value list list \<Rightarrow> Tuple list result" where
  "join_rows j jtd left [] = Inr []"
| "join_rows j jtd left (jvals # jrows) =
     (let candidate = left @ [bind_row (jAlias j) jtd [] jvals]
      in rbind (eval (jOn j) candidate) (\<lambda>v.
         rbind (join_rows j jtd left jrows) (\<lambda>rest. Inr (if Truthy v then candidate # rest else rest))))"

definition join_tuples :: "JoinClause \<Rightarrow> TableDef \<Rightarrow> Value list list \<Rightarrow> Tuple list \<Rightarrow> Tuple list result" where
  "join_tuples j jtd jrows tuples = rbind (traverse (\<lambda>left. join_rows j jtd left jrows) tuples) (\<lambda>tss. Inr (concat tss))"

fun join_all :: "('s, 'c) txn_ops \<Rightarrow> JoinClause list \<Rightarrow> Tuple list \<Rightarrow> ('s, Tuple list) sm" where
  "join_all T [] tuples = ret tuples"
| "join_all T (j # js) tuples =
     bind (need_table T (jTable j)) (\<lambda>jtd.
     bind (fetchAllRows T jtd) (\<lambda>(_, jrows).
     bind (lift (join_tuples j jtd jrows tuples)) (\<lambda>tuples. join_all T js tuples)))"

text \<open>
  The filter and the order pass over tuples on which an expression has an error.  A panic is not among those: the values of a
  tuple are as many as the columns (\<open>loaded_rows_full\<close> and \<open>eval_no_panic\<close> of the theory \<open>Rows\<close>).
\<close>

definition matches :: "Expr \<Rightarrow> Tuple \<Rightarrow> bool" where
  "matches cond tp = (case eval cond tp of Inl _ \<Rightarrow> False | Inr v \<Rightarrow> Truthy v)"

definition filterTuples :: "Tuple list \<Rightarrow> Expr \<Rightarrow> Tuple list" where
  "filterTuples tuples cond = filter (matches cond) tuples"

fun tuple_less :: "OrderTerm list \<Rightarrow> Tuple \<Rightarrow> Tuple \<Rightarrow> bool" where
  "tuple_less [] ti tj = False"
| "tuple_less (term # terms) ti tj =
     (case (eval (otExpr term) ti, eval (otExpr term) tj) of
        (Inr vi, Inr vj) \<Rightarrow>
          (let c = Compare vi vj
           in if c = 0 then tuple_less terms ti tj else if otDesc term then c > 0 else c < 0)
      | _ \<Rightarrow> tuple_less terms ti tj)"

text \<open>
  \<^verbatim>\<open>sort.SliceStable\<close>: an element moves left past those it is less than.  For an order that is
  a strict weak one the result is the only stable one; the library leaves
  open what it does with any other.
\<close>

fun insert_left :: "('a \<Rightarrow> 'a \<Rightarrow> bool) \<Rightarrow> 'a \<Rightarrow> 'a list \<Rightarrow> 'a list" where
  "insert_left lt x [] = [x]"
| "insert_left lt x (y # ys) = (if lt x y then y # insert_left lt x ys else x # y # ys)"

definition SliceStable :: "('a \<Rightarrow> 'a \<Rightarrow> bool) \<Rightarrow> 'a list \<Rightarrow> 'a list" where
  "SliceStable lt xs = rev (fold (insert_left lt) xs [])"

definition sortTuples :: "Tuple list \<Rightarrow> OrderTerm list \<Rightarrow> Tuple list" where
  "sortTuples tuples terms = SliceStable (tuple_less terms) tuples"

text \<open>A limit below the number of rows cuts them; a negative one is out of range.\<close>

definition limit_rows :: "SelectStmt \<Rightarrow> 'a list \<Rightarrow> 'a list result" where
  "limit_rows st xs =
     (if seHasLim st \<and> sint (seLimit st) < int (length xs) then
        (if sint (seLimit st) < 0 then Inl Panic else Inr (take (nat (sint (seLimit st))) xs))
      else Inr xs)"

fun join_columns :: "('s, 'c) txn_ops \<Rightarrow> JoinClause list \<Rightarrow> ('s, string list) sm" where
  "join_columns T [] = ret []"
| "join_columns T (j # js) =
     bind (need_table T (jTable j)) (\<lambda>jtd.
     bind (join_columns T js) (\<lambda>cols.
       ret (map (\<lambda>c. jAlias j @ ''.'' @ cName c) (tColumns jtd) @ cols)))"

definition selectColumns :: "('s, 'c) txn_ops \<Rightarrow> SelectStmt \<Rightarrow> TableDef \<Rightarrow> ('s, string list) sm" where
  "selectColumns T st td =
     (if seStar st then
        bind (join_columns T (seJoins st)) (\<lambda>cols.
          ret (map (\<lambda>c. if seJoins st \<noteq> [] then seAlias st @ ''.'' @ cName c else cName c) (tColumns td) @ cols))
      else ret (map (\<lambda>(i, item). if siAlias item \<noteq> [] then siAlias item else ''col'' @ decimal_text (i + 1))
             (enumerate 0 (seItems st))))"

definition projectTuple :: "SelectStmt \<Rightarrow> Tuple \<Rightarrow> Value list result" where
  "projectTuple st tp =
     (if seStar st then Inr (concat (map bValues tp)) else traverse (\<lambda>item. eval (siExpr item) tp) (seItems st))"

definition is_count :: "SelectStmt \<Rightarrow> bool" where
  "is_count st = (case seItems st of [item] \<Rightarrow> siExpr item = CountStarExpr | _ \<Rightarrow> False)"

definition execSelect :: "('s, 'c) txn_ops \<Rightarrow> SelectStmt \<Rightarrow> ('s, Result) sm" where
  "execSelect T st =
     bind (need_table T (seTable st)) (\<lambda>td.
     bind (loadRows T td (if seJoins st = [] then seWhere st else None) (seAlias st)) (\<lambda>(_, rows).
     bind (join_all T (seJoins st) (map (\<lambda>vals. [bind_row (seAlias st) td [] vals]) rows)) (\<lambda>tuples.
       let tuples = (case seWhere st of None \<Rightarrow> tuples | Some cond \<Rightarrow> filterTuples tuples cond)
       in if is_count st then ret (rowset [siAlias (hd (seItems st))] [[IntValue (word_of_nat (length tuples))]])
          else
            (let tuples = (if seOrderBy st \<noteq> [] then sortTuples tuples (seOrderBy st) else tuples)
             in bind (lift (limit_rows st tuples)) (\<lambda>tuples.
                bind (selectColumns T st td) (\<lambda>cols.
                bind (lift (traverse (projectTuple st) tuples)) (\<lambda>outRows. ret (rowset cols outRows))))))))"

section \<open>INSERT\<close>

definition insert_columns :: "InsertStmt \<Rightarrow> TableDef \<Rightarrow> string list" where
  "insert_columns st td = (if inColumns st = [] then map cName (tColumns td) else inColumns st)"

definition column_position :: "string \<Rightarrow> TableDef \<Rightarrow> string \<Rightarrow> nat result" where
  "column_position table td name =
     (let idx = ColumnIndex td name in if idx < 0 then Inl (ErrNoSuchColumnOn name table) else Inr (nat idx))"

text \<open>The values of one row: an expression per listed column, NULL for the others.\<close>

definition column_value :: "ColumnDef \<Rightarrow> Value result \<Rightarrow> Value result" where
  "column_value col r = rbind r (\<lambda>v.
     case coerce v (cType col) of Inl e \<Rightarrow> Inl (ErrColumn (cName col) e) | Inr cv \<Rightarrow> Inr cv)"

fun fill_values :: "TableDef \<Rightarrow> Tuple \<Rightarrow> (nat \<times> Expr) list \<Rightarrow> Value list \<Rightarrow> Value list result" where
  "fill_values td tp [] vals = Inr vals"
| "fill_values td tp ((p, e) # pes) vals =
     rbind (column_value (tColumns td ! p) (eval e tp)) (\<lambda>cv. fill_values td tp pes (vals[p := cv]))"

fun check_not_null :: "ColumnDef list \<Rightarrow> Value list \<Rightarrow> unit result" where
  "check_not_null (col # cols) (v # vs) =
     (if cNotNull col \<and> vNull v then Inl (ErrMayNotBeNull (cName col)) else check_not_null cols vs)"
| "check_not_null _ _ = Inr ()"

definition insert_index_entry :: "('s, 'c) txn_ops \<Rightarrow> TableDef \<Rightarrow> Value list \<Rightarrow> bytes \<Rightarrow> IndexDef \<Rightarrow> ('s, unit) sm" where
  "insert_index_entry T td vals rowKey idx =
     bind (lift (index_at vals (ColumnIndex td (iColumn idx)))) (\<lambda>v.
     bind (if iUnique idx \<and> \<not> vNull v then checkUniqueViaTxn T td idx v else ret ()) (\<lambda>_.
     t_Put T (IndexTarget (tName td) (iName idx)) (indexKey v rowKey) rowKey))"

definition insert_row :: "('s, 'c) txn_ops \<Rightarrow> TableDef \<Rightarrow> nat list \<Rightarrow> Expr list \<Rightarrow> ('s, unit) sm" where
  "insert_row T td positions rowExprs =
     (if length rowExprs \<noteq> length positions then fail (ErrValueCount (length positions) (length rowExprs))
      else
        bind (lift (fill_values td [] (zip positions rowExprs) (map (NullValue \<circ> cType) (tColumns td)))) (\<lambda>vals.
        bind (lift (check_not_null (tColumns td) vals)) (\<lambda>_.
        bind (t_NextRow T (tName td)) (\<lambda>rowID.
          let rowKey = EncodeUint64 rowID
          in bind (each (insert_index_entry T td vals rowKey) (tIndexes td)) (\<lambda>_.
             t_Put T (TableTarget (tName td)) rowKey (EncodeRow vals))))))"

definition execInsert :: "('s, 'c) txn_ops \<Rightarrow> InsertStmt \<Rightarrow> ('s, Result) sm" where
  "execInsert T st =
     bind (need_table T (inTable st)) (\<lambda>td.
     bind (lift (traverse (column_position (inTable st) td) (insert_columns st td))) (\<lambda>positions.
     bind (each (insert_row T td positions) (inRows st)) (\<lambda>_.
       ret (message ''INSERT'' (int (length (inRows st)))))))"

section \<open>UPDATE and DELETE\<close>

text \<open>Whether a row is selected; an error of the condition ends the statement.\<close>

definition row_selected :: "Expr option \<Rightarrow> Tuple \<Rightarrow> bool result" where
  "row_selected cond tp = (case cond of None \<Rightarrow> Inr True | Some e \<Rightarrow> rbind (eval e tp) (\<lambda>v. Inr (Truthy v)))"

definition move_index_entry ::
    "('s, 'c) txn_ops \<Rightarrow> TableDef \<Rightarrow> bytes \<Rightarrow> Value list \<Rightarrow> Value list \<Rightarrow> IndexDef \<Rightarrow> ('s, unit) sm" where
  "move_index_entry T td key old_vals new_vals idx =
     bind (lift (index_at old_vals (ColumnIndex td (iColumn idx)))) (\<lambda>oldV.
     bind (lift (index_at new_vals (ColumnIndex td (iColumn idx)))) (\<lambda>newV.
       if Compare oldV newV = 0 then ret ()
       else
         bind (if iUnique idx \<and> \<not> vNull newV then checkUniqueViaTxn T td idx newV else ret ()) (\<lambda>_.
         bind (t_Delete T (IndexTarget (tName td) (iName idx)) (indexKey oldV key)) (\<lambda>_.
         t_Put T (IndexTarget (tName td) (iName idx)) (indexKey newV key) key))))"

definition update_row :: "('s, 'c) txn_ops \<Rightarrow> TableDef \<Rightarrow> UpdateStmt \<Rightarrow> nat list \<Rightarrow> bytes \<Rightarrow> Value list \<Rightarrow> ('s, nat) sm" where
  "update_row T td st assignPos key row =
     (let tp = [bind_row (upTable st) td key row]
      in bind (lift (row_selected (upWhere st) tp)) (\<lambda>sel.
         if \<not> sel then ret 0
         else
           bind (lift (fill_values td tp (zip assignPos (map asValue (upSet st))) row)) (\<lambda>newVals.
           bind (lift (check_not_null (tColumns td) newVals)) (\<lambda>_.
           bind (each (move_index_entry T td key row newVals) (tIndexes td)) (\<lambda>_.
           bind (t_Put T (TableTarget (tName td)) key (EncodeRow newVals)) (\<lambda>_. ret 1))))))"

text \<open>A loop over rows that counts.\<close>

fun count_rows :: "(bytes \<Rightarrow> Value list \<Rightarrow> ('s, nat) sm) \<Rightarrow> (bytes \<times> Value list) list \<Rightarrow> nat \<Rightarrow> ('s, nat) sm" where
  "count_rows f [] n = ret n"
| "count_rows f ((key, row) # rows) n = bind (f key row) (\<lambda>m. count_rows f rows (n + m))"

definition execUpdate :: "('s, 'c) txn_ops \<Rightarrow> UpdateStmt \<Rightarrow> ('s, Result) sm" where
  "execUpdate T st =
     bind (need_table T (upTable st)) (\<lambda>td.
     bind (loadRows T td (upWhere st) (upTable st)) (\<lambda>(ks, rows).
     bind (lift (traverse (column_position (upTable st) td) (map asColumn (upSet st)))) (\<lambda>assignPos.
     bind (count_rows (update_row T td st assignPos) (zip ks rows) 0) (\<lambda>count.
       ret (message ''UPDATE'' (int count))))))"

definition delete_index_entry :: "('s, 'c) txn_ops \<Rightarrow> TableDef \<Rightarrow> bytes \<Rightarrow> Value list \<Rightarrow> IndexDef \<Rightarrow> ('s, unit) sm" where
  "delete_index_entry T td key row idx =
     bind (lift (index_at row (ColumnIndex td (iColumn idx)))) (\<lambda>v.
     t_Delete T (IndexTarget (tName td) (iName idx)) (indexKey v key))"

definition delete_row :: "('s, 'c) txn_ops \<Rightarrow> TableDef \<Rightarrow> DeleteStmt \<Rightarrow> bytes \<Rightarrow> Value list \<Rightarrow> ('s, nat) sm" where
  "delete_row T td st key row =
     bind (lift (row_selected (deWhere st) [bind_row (deTable st) td key row])) (\<lambda>sel.
       if \<not> sel then ret 0
       else
         bind (each (delete_index_entry T td key row) (tIndexes td)) (\<lambda>_.
         bind (t_Delete T (TableTarget (tName td)) key) (\<lambda>_. ret 1)))"

definition execDelete :: "('s, 'c) txn_ops \<Rightarrow> DeleteStmt \<Rightarrow> ('s, Result) sm" where
  "execDelete T st =
     bind (need_table T (deTable st)) (\<lambda>td.
     bind (loadRows T td (deWhere st) (deTable st)) (\<lambda>(ks, rows).
     bind (count_rows (delete_row T td st) (zip ks rows) 0) (\<lambda>count.
       ret (message ''DELETE'' (int count)))))"

end
