(* ===== verification/Session.thy ===== *)
theory Session
  imports Engine Parser
begin

text \<open>
  Sessions of \<^verbatim>\<open>internal/engine/engine.go\<close> and the schema statements of \<^verbatim>\<open>ddl.go\<close>: one
  client's connection with its explicit transaction, the dispatch of a statement, and
  the implicit transaction around a row statement.
\<close>

record Session =
  se_store :: Store
  se_txn :: "Txn option"

definition NewSession :: "Store \<Rightarrow> Session" where
  "NewSession store = \<lparr>se_store = store, se_txn = None\<rparr>"

definition InTxn :: "Session \<Rightarrow> bool" where
  "InTxn s \<longleftrightarrow> se_txn s \<noteq> None"

definition on_sess :: "(Store, 'a) sm \<Rightarrow> (Session, 'a) sm" where
  "on_sess m s = (case m (se_store s) of (r, st) \<Rightarrow> (r, s\<lparr>se_store := st\<rparr>))"

definition sess_Close :: "(Session, unit) sm" where
  "sess_Close s =
     (case se_txn s of
        None \<Rightarrow> (Inr (), s)
      | Some t \<Rightarrow>
          (case txn_Rollback (se_store s, t) of
             (r, (st, t)) \<Rightarrow> (case r of
                Inl e \<Rightarrow> (if stops e then Inl e else Inr (), \<lparr>se_store = st, se_txn = None\<rparr>)
              | Inr _ \<Rightarrow> (Inr (), \<lparr>se_store = st, se_txn = None\<rparr>))))"

section \<open>Row statements\<close>

definition runInTxn :: "'a txm \<Rightarrow> (Session, 'a) sm" where
  "runInTxn fn s =
     (case se_txn s of
        Some t \<Rightarrow> (case fn (se_store s, t) of (r, (st, t)) \<Rightarrow> (r, \<lparr>se_store = st, se_txn = Some t\<rparr>))
      | None \<Rightarrow>
          bind (on_sess Begin) (\<lambda>t s.
            case fn (se_store s, t) of
              (Inl e, (st, t)) \<Rightarrow>
                if stops e then (Inl e, s\<lparr>se_store := st\<rparr>)
                else (case txn_Rollback (st, t) of
                  (r, (st, _)) \<Rightarrow> (case r of Inl e' \<Rightarrow> (Inl (if stops e' then e' else e), s\<lparr>se_store := st\<rparr>)
                                    | Inr _ \<Rightarrow> (Inl e, s\<lparr>se_store := st\<rparr>)))
            | (Inr res, (st, t)) \<Rightarrow>
                bind (\<lambda>s. case txn_Commit (st, t) of (r, (st, _)) \<Rightarrow> (r, s\<lparr>se_store := st\<rparr>)) (\<lambda>_.
                bind (on_sess (MaybeCheckpoint 2000)) (\<lambda>_. ret res)) s) s)"

section \<open>Schema statements\<close>

definition sess_cat :: "(Catalog, 'a) sm \<Rightarrow> (Session, 'a) sm" where
  "sess_cat m = on_sess (on_cat m)"

definition sess_table :: "string \<Rightarrow> (Session, TableDef option) sm" where
  "sess_table name s = (Inr (Table (st_cat (se_store s)) name), s)"

definition hasIndexEntryForValue :: "page_id \<Rightarrow> Value \<Rightarrow> (pager, bool) sm" where
  "hasIndexEntryForValue ibt v =
     (let pre = SortKey v
      in bind (NewCursor ibt (Some pre)) (\<lambda>crs.
         bind (Next crs) (\<lambda>(kv, _). ret (case kv of None \<Rightarrow> False | Some (k, _) \<Rightarrow> hasPrefix k pre))))"

text \<open>The loop that fills a new index from the rows; it returns the root of the index.\<close>

fun backfill_loop :: "nat \<Rightarrow> Type list \<Rightarrow> int \<Rightarrow> string \<Rightarrow> bool \<Rightarrow> cursor \<Rightarrow> page_id \<Rightarrow> (pager, page_id) sm" where
  "backfill_loop 0 types colIdx column unique crs ibt = fail Diverges"
| "backfill_loop (Suc n) types colIdx column unique crs ibt =
     bind (Next crs) (\<lambda>(kv, crs).
       case kv of
         None \<Rightarrow> ret ibt
       | Some (k, v) \<Rightarrow>
           bind (lift (DecodeRow v types)) (\<lambda>vals.
           bind (lift (index_at vals colIdx)) (\<lambda>x.
           bind (if unique then hasIndexEntryForValue ibt x else ret False) (\<lambda>dup.
             if dup then fail (ErrDuplicateValue column)
             else bind (Put ibt (indexKey x k) k) (backfill_loop n types colIdx column unique crs)))))"

definition createIndexFor :: "TableDef \<Rightarrow> string \<Rightarrow> string \<Rightarrow> bool \<Rightarrow> (Catalog, IndexDef) sm" where
  "createIndexFor td column indexName unique c =
     (let colIdx = ColumnIndex td column
      in if colIdx < 0 then (Inl (ErrNoSuchColumn column), c)
         else
           bind (on_pager (OpenBTree 0)) (\<lambda>ibt.
           bind (on_pager (OpenBTree (tRoot td))) (\<lambda>rowbt.
           bind (on_pager (NewCursor rowbt None)) (\<lambda>crs.
           bind (\<lambda>c. on_pager (backfill_loop (load_fuel (c_pager c)) (ColumnTypes td) colIdx column unique crs ibt) c) (\<lambda>root.
             let def = \<lparr>iName = indexName, iColumn = column, iUnique = unique, iRoot = root\<rparr>
             in bind (save_schema (td\<lparr>tIndexes := tIndexes td @ [def]\<rparr>)) (\<lambda>_. ret def))))) c)"

definition column_of_spec :: "ColumnSpec \<Rightarrow> ColumnDef result" where
  "column_of_spec c = rbind (ParseType (spType c)) (\<lambda>t.
     Inr \<lparr>cName = spName c, cType = t, cPrimaryKey = spPrimaryKey c, cUnique = spUnique c, cNotNull = spNotNull c\<rparr>)"

text \<open>The backing index of a declared unique column, on the schema as it is by then.\<close>

definition backing_index :: "string \<Rightarrow> ColumnDef \<Rightarrow> (Catalog, unit) sm" where
  "backing_index name col c =
     (if cPrimaryKey col \<or> cUnique col then
        (case Table c name of
           None \<Rightarrow> (Inl Panic, c)
         | Some td \<Rightarrow> bind (createIndexFor td (cName col) (''idx_'' @ tName td @ ''_'' @ cName col) True) (\<lambda>_. ret ()) c)
      else (Inr (), c))"

definition execCreateTable :: "CreateTableStmt \<Rightarrow> (Session, Result) sm" where
  "execCreateTable st s =
     (if Table (st_cat (se_store s)) (ctTable st) \<noteq> None then (Inl (ErrNameTaken (ctTable st)), s)
      else
        bind (lift (traverse column_of_spec (ctColumns st))) (\<lambda>cols.
          if length (filter spPrimaryKey (ctColumns st)) > 1 then fail ErrSinglePrimaryKey
          else
            bind (sess_cat (CreateTable (ctTable st) cols)) (\<lambda>_.
            bind (sess_cat (each (backing_index (ctTable st)) cols)) (\<lambda>_.
            bind (sess_cat (on_pager Sync)) (\<lambda>_.
              ret (message (''CREATE TABLE '' @ ctTable st) 0))))) s)"

definition execDropTable :: "DropTableStmt \<Rightarrow> (Session, Result) sm" where
  "execDropTable st =
     bind (sess_cat (DropTable (dtTable st))) (\<lambda>_.
     bind (sess_cat (on_pager Sync)) (\<lambda>_. ret (message (''DROP TABLE '' @ dtTable st) 0)))"

definition execCreateIndex :: "CreateIndexStmt \<Rightarrow> (Session, Result) sm" where
  "execCreateIndex st =
     bind (sess_table (ciTable st)) (\<lambda>tdo.
       case tdo of
         None \<Rightarrow> fail (ErrNoSuchTable (ciTable st))
       | Some td \<Rightarrow>
           if ColumnIndex td (ciColumn st) < 0 then fail (ErrNoSuchColumnOn (ciColumn st) (ciTable st))
           else if \<exists>ix\<in>set (tIndexes td). iName ix = ciName st then fail (ErrIndexExists (ciName st))
           else
             bind (sess_cat (createIndexFor td (ciColumn st) (ciName st) (ciUnique st))) (\<lambda>_.
             bind (sess_cat (on_pager Sync)) (\<lambda>_. ret (message (''CREATE INDEX '' @ ciName st) 0))))"

definition execShowTables :: "(string list \<Rightarrow> string list) \<Rightarrow> (Session, Result) sm" where
  "execShowTables order s =
     (Inr (rowset [''table''] (map (\<lambda>n. [TextValue n]) (TableNames order (st_cat (se_store s))))), s)"

section \<open>Statements\<close>

definition exec_begin :: "(Session, Result) sm" where
  "exec_begin s =
     (if se_txn s \<noteq> None then (Inl ErrTxnOpen, s)
      else bind (on_sess Begin) (\<lambda>t s. (Inr (message ''BEGIN'' 0), s\<lparr>se_txn := Some t\<rparr>)) s)"

text \<open>The end of an explicit transaction; the session has none afterwards, whatever the outcome.\<close>

definition end_txn :: "unit txm \<Rightarrow> (Session, unit) sm" where
  "end_txn fin s =
     (case se_txn s of
        None \<Rightarrow> (Inl ErrNoTxnOpen, s)
      | Some t \<Rightarrow> (case fin (se_store s, t) of (r, (st, _)) \<Rightarrow> (r, \<lparr>se_store = st, se_txn = None\<rparr>)))"

definition executeStmt :: "(string list \<Rightarrow> string list) \<Rightarrow> Statement \<Rightarrow> (Session, Result) sm" where
  "executeStmt order stmt =
     (case stmt of
        BeginStmt \<Rightarrow> exec_begin
      | CommitStmt \<Rightarrow> bind (end_txn txn_Commit) (\<lambda>_.
          bind (on_sess (MaybeCheckpoint 2000)) (\<lambda>_. ret (message ''COMMIT'' 0)))
      | RollbackStmt \<Rightarrow> bind (end_txn txn_Rollback) (\<lambda>_. ret (message ''ROLLBACK'' 0))
      | CreateTable_stmt st \<Rightarrow> execCreateTable st
      | DropTable_stmt st \<Rightarrow> execDropTable st
      | CreateIndex_stmt st \<Rightarrow> execCreateIndex st
      | ShowTablesStmt \<Rightarrow> execShowTables order
      | Insert_stmt st \<Rightarrow> runInTxn (execInsert real_txn st)
      | Update_stmt st \<Rightarrow> runInTxn (execUpdate real_txn st)
      | Delete_stmt st \<Rightarrow> runInTxn (execDelete real_txn st)
      | Select_stmt st \<Rightarrow> runInTxn (execSelect real_txn st))"

definition Execute :: "unicode \<Rightarrow> (string list \<Rightarrow> string list) \<Rightarrow> string \<Rightarrow> (Session, Result) sm" where
  "Execute u order sql = bind (lift (Parse u sql)) (executeStmt order)"

end
