(* ===== verification/Wire.thy ===== *)
theory Wire
  imports Session
begin

text \<open>
  The line protocol of \<^verbatim>\<open>internal/server/wire/wire.go\<close>, \<^verbatim>\<open>Value.String\<close>, and the request loop
  of \<^verbatim>\<open>internal/server/server.go\<close> on the text of a connection.  A reader is the text that
  is still to come and a writer the text written; formatting of a \<^verbatim>\<open>float64\<close> and the
  texts of errors are parameters.
\<close>

section \<open>Values as text\<close>

definition FormatInt :: "int \<Rightarrow> string" where
  "FormatInt i = (if i < 0 then CHR ''-'' # decimal_text (nat (- i)) else decimal_text (nat i))"

definition Value_String :: "(float64 \<Rightarrow> string) \<Rightarrow> Value \<Rightarrow> string" where
  "Value_String ff v =
     (if vNull v then ''NULL''
      else if vType v = TypeInteger then FormatInt (sint (vI v))
      else if vType v = TypeFloat then ff (vF v)
      else if vType v = TypeText then vS v
      else if vType v = TypeBoolean then (if vB v then ''true'' else ''false'')
      else ''?'')"

definition ValueStrings :: "(float64 \<Rightarrow> string) \<Rightarrow> Value list \<Rightarrow> string list" where
  "ValueStrings ff row = map (Value_String ff) row"

section \<open>Package strings\<close>

abbreviation tab :: char where "tab \<equiv> CHR 0x09"
abbreviation newline :: char where "newline \<equiv> CHR 0x0A"

fun Join :: "string list \<Rightarrow> char \<Rightarrow> string" where
  "Join [] sep = []"
| "Join [s] sep = s"
| "Join (s # t # ss) sep = s @ sep # Join (t # ss) sep"

fun Split :: "string \<Rightarrow> char \<Rightarrow> string list" where
  "Split [] sep = [[]]"
| "Split (c # cs) sep =
     (if c = sep then [] # Split cs sep
      else (case Split cs sep of s # ss \<Rightarrow> (c # s) # ss | [] \<Rightarrow> [[c]]))"

text \<open>\<^verbatim>\<open>SplitN\<close> with at most two parts: what comes before the first separator, and the rest if there is one.\<close>

definition SplitN2 :: "string \<Rightarrow> char \<Rightarrow> string \<times> string option" where
  "SplitN2 s sep = (takeWhile (\<lambda>c. c \<noteq> sep) s,
     (if sep \<in> set s then Some (tl (dropWhile (\<lambda>c. c \<noteq> sep) s)) else None))"

definition HasPrefix :: "string \<Rightarrow> string \<Rightarrow> bool" where
  "HasPrefix s pre \<longleftrightarrow> take (length pre) s = pre"

definition TrimPrefix :: "string \<Rightarrow> string \<Rightarrow> string" where
  "TrimPrefix s pre = (if HasPrefix s pre then drop (length pre) s else s)"

definition TrimRight :: "string \<Rightarrow> char \<Rightarrow> string" where
  "TrimRight s c = rev (dropWhile (\<lambda>d. d = c) (rev s))"

text \<open>\<^verbatim>\<open>Atoi\<close> as it is used here: the error is dropped, the number it comes with is not.\<close>

definition Atoi :: "string \<Rightarrow> int" where
  "Atoi s =
     (let neg = (s \<noteq> [] \<and> hd s = CHR ''-''); ds = (if s \<noteq> [] \<and> hd s \<in> {CHR ''-'', CHR ''+''} then tl s else s)
      in if ds = [] \<or> \<not> list_all digit_char ds then 0
         else if neg then max (- (2 ^ 63)) (- int (decimal ds)) else min (2 ^ 63 - 1) (int (decimal ds)))"

section \<open>Responses\<close>

definition WriteResult :: "(float64 \<Rightarrow> string) \<Rightarrow> Result \<Rightarrow> string" where
  "WriteResult ff res =
     (case (rColumns res, rRows res) of
        (None, None) \<Rightarrow> ''OK '' @ FormatInt (rRowsAffected res) @ '' '' @ rMessage res @ [newline]
      | (cols, rows) \<Rightarrow>
          (let cols = (case cols of None \<Rightarrow> [] | Some cs \<Rightarrow> cs); rows = (case rows of None \<Rightarrow> [] | Some rs \<Rightarrow> rs)
           in ''ROWS '' @ FormatInt (int (length cols)) @ [newline] @
              ''COLUMNS'' @ [tab] @ Join cols tab @ [newline] @
              concat (map (\<lambda>row. ''ROW'' @ [tab] @ Join (ValueStrings ff row) tab @ [newline]) rows) @
              ''END'' @ [newline]))"

definition WriteError :: "string \<Rightarrow> string" where
  "WriteError msg = ''ERR '' @ map (\<lambda>c. if c = newline then CHR '' '' else c) msg @ [newline]"

record ClientResult =
  crOK :: bool
  crMessage :: string
  crRowsAffected :: int
  crColumns :: "string list option"
  crRows :: "string list list option"
  crErr :: string

definition client_result :: ClientResult where
  "client_result = \<lparr>crOK = False, crMessage = [], crRowsAffected = 0, crColumns = None, crRows = None, crErr = []\<rparr>"

text \<open>\<^verbatim>\<open>ReadString\<close> up to a newline; what is left without one is consumed with the error.\<close>

definition ReadString :: "(string, string) sm" where
  "ReadString inp =
     (if newline \<in> set inp
      then (Inr (takeWhile (\<lambda>c. c \<noteq> newline) inp @ [newline]), tl (dropWhile (\<lambda>c. c \<noteq> newline) inp))
      else (Inl ErrEOF, []))"

definition read_line :: "(string, string) sm" where
  "read_line = bind ReadString (\<lambda>line. ret (TrimRight line newline))"

text \<open>The loop that reads rows; every line it reads shortens the input.\<close>

lemma ReadString_shorter: "ReadString inp = (Inr line, rest) \<Longrightarrow> length rest < length inp"
proof -
  assume "ReadString inp = (Inr line, rest)"
  then have "newline \<in> set inp" "rest = tl (dropWhile (\<lambda>c. c \<noteq> newline) inp)"
    by (auto simp: ReadString_def split: if_splits)
  then show ?thesis
    using length_dropWhile_le [of "\<lambda>c. c \<noteq> newline" inp] by (cases inp) (auto simp: less_Suc_eq_le dest: dropWhile_eq_Nil_conv [THEN iffD1])
qed

function read_rows :: "string list list \<Rightarrow> (string, string list list) sm" where
  "read_rows rows inp =
     (case ReadString inp of
        (Inl e, rest) \<Rightarrow> (Inl e, rest)
      | (Inr line, rest) \<Rightarrow>
          (let rl = TrimRight line newline
           in if rl = ''END'' then (Inr rows, rest)
              else read_rows (rows @ [Split (TrimPrefix rl (''ROW'' @ [tab])) tab]) rest))"
  by pat_completeness auto
termination
  by (relation "measure (length \<circ> snd)") (auto dest: ReadString_shorter [OF sym])

declare read_rows.simps [simp del]

definition ReadResult :: "(string, ClientResult) sm" where
  "ReadResult =
     bind read_line (\<lambda>line.
       if HasPrefix line ''OK '' then
         (let (n, msg) = SplitN2 (drop 3 line) CHR '' ''
          in ret (client_result\<lparr>crOK := True, crRowsAffected := Atoi n, crMessage := (case msg of None \<Rightarrow> [] | Some m \<Rightarrow> m)\<rparr>))
       else if HasPrefix line ''ERR '' then ret (client_result\<lparr>crErr := drop 4 line\<rparr>)
       else if HasPrefix line ''ROWS '' then
         bind read_line (\<lambda>colLine.
         bind (read_rows []) (\<lambda>rows.
           ret (client_result\<lparr>crOK := True,
             crColumns := (if colLine = ''COLUMNS'' @ [tab] \<or> colLine = ''COLUMNS'' then None
                           else Some (Split (TrimPrefix colLine (''COLUMNS'' @ [tab])) tab)),
             crRows := (if rows = [] then None else Some rows)\<rparr>)))
       else fail (ErrUnexpectedResponse line))"

end
