(* ===== verification/Server.thy ===== *)
theory Server
  imports Wire
begin

text \<open>
  The request loop of a connection (\<^verbatim>\<open>internal/server/server.go\<close>, \<^verbatim>\<open>handle\<close>): the text a client
  sends, and the text sent back.  The server with its connections (\<^verbatim>\<open>ListenAndServe\<close>, \<^verbatim>\<open>Close\<close>), and the
  program around it (\<^verbatim>\<open>cmd/eleonesqld/main.go\<close>).
\<close>

section \<open>Package strings\<close>

text \<open>The runes of a string with the bytes they come from.\<close>

function rune_parts :: "string \<Rightarrow> (rune \<times> string) list" where
  "rune_parts s =
     (if s = [] then [] else (case decode_rune (map of_char s) of (r, n) \<Rightarrow> (r, take n s) # rune_parts (drop n s)))"
  by pat_completeness auto
termination
proof (relation "measure length")
  show "(drop n s, s) \<in> measure length" if "s \<noteq> []" "(r, n) = decode_rune (map of_char s)" for s :: string and r n
    using that decode_rune_pos [of "map of_char s"] by (cases s) (auto simp: prod_eq_iff)
qed simp

declare rune_parts.simps [simp del]

definition TrimSpace :: "unicode \<Rightarrow> string \<Rightarrow> string" where
  "TrimSpace u s =
     (let sp = (\<lambda>(r, _). IsSpace u r)
      in concat (map snd (rev (dropWhile sp (rev (dropWhile sp (rune_parts s)))))))"

text \<open>\<^verbatim>\<open>EqualFold\<close> with a word of letters that have no case variants beyond ASCII.\<close>

definition EqualFold :: "string \<Rightarrow> string \<Rightarrow> bool" where
  "EqualFold s t \<longleftrightarrow> map upper_char s = map upper_char t"

section \<open>A connection\<close>

record server_env =
  v_unicode :: unicode
  v_order :: "string list \<Rightarrow> string list"
  v_float :: "float64 \<Rightarrow> string"
  v_error :: "go_error \<Rightarrow> string"

text \<open>The answer to one statement.\<close>

definition respond :: "server_env \<Rightarrow> string \<Rightarrow> (Session, string) sm" where
  "respond v sql s =
     (case Execute (v_unicode v) (v_order v) sql s of
        (Inl e, s) \<Rightarrow> (if stops e then (Inl e, s) else (Inr (WriteError (v_error v e)), s))
      | (Inr res, s) \<Rightarrow> (Inr (WriteResult (v_float v) res), s))"

text \<open>One turn of the loop: the text written for a line, or \<open>None\<close> when the line ends the connection.\<close>

definition handle_line :: "server_env \<Rightarrow> string \<Rightarrow> (Session, string option) sm" where
  "handle_line v line =
     (let sql = TrimSpace (v_unicode v) line
      in if sql = [] then ret (Some [])
         else if EqualFold sql ''quit'' \<or> EqualFold sql ''exit'' then ret None
         else bind (respond v sql) (\<lambda>text. ret (Some text)))"

text \<open>The loop; an unhandled panic ends the process, and with it the loop.\<close>

function handle_loop :: "server_env \<Rightarrow> string \<Rightarrow> string \<Rightarrow> (Session, string) sm" where
  "handle_loop v inp out s =
     (case ReadString inp of
        (Inl _, _) \<Rightarrow> (Inr out, s)
      | (Inr line, rest) \<Rightarrow>
          (case handle_line v line s of
             (Inl e, s) \<Rightarrow> (Inl e, s)
           | (Inr None, s) \<Rightarrow> (Inr out, s)
           | (Inr (Some text), s) \<Rightarrow> handle_loop v rest (out @ text) s))"
  by pat_completeness auto
termination
  by (relation "measure (\<lambda>(v, inp, out, s). length inp)") (auto dest: ReadString_shorter [OF sym])

declare handle_loop.simps [simp del]

definition handle :: "server_env \<Rightarrow> string \<Rightarrow> (Store, string) sm" where
  "handle v inp store =
     (case bind (handle_loop v inp []) (\<lambda>out. bind sess_Close (\<lambda>_. ret out)) (NewSession store) of
        (r, s) \<Rightarrow> (r, se_store s))"

section \<open>The server\<close>

text \<open>
  \<^verbatim>\<open>ListenAndServe\<close> starts a goroutine for each connection.  The state has the store they share, the listener, and
  for each connection what its goroutine keeps: the text that has arrived and is not read, the text
  written, and the transaction of its session; \<open>None\<close> is a goroutine that is done, so the number of others
  is the count of the wait group.
\<close>

datatype listener = NoListener | Listening | ListenerClosed

record Conn =
  cn_in :: string
  cn_out :: string
  cn_txn :: "Txn option"

record Server =
  sv_store :: Store
  sv_listener :: listener
  sv_conns :: "Conn option list"

definition server_New :: "Store \<Rightarrow> Server" where
  "server_New store = \<lparr>sv_store = store, sv_listener = NoListener, sv_conns = []\<rparr>"

definition server_Close :: "(Server, unit) sm" where
  "server_Close s =
     (case sv_listener s of
        NoListener \<Rightarrow> (Inr (), s)
      | Listening \<Rightarrow> (Inr (), s\<lparr>sv_listener := ListenerClosed\<rparr>)
      | ListenerClosed \<Rightarrow> (Inl ErrNetClosed, s))"

text \<open>
  What can happen, in the order it happens: a client connects or \<^verbatim>\<open>Accept\<close> fails; text of a client arrives; a
  goroutine takes its next line and answers it, and the write of the answer succeeds or not; a client is
  gone; the listener is closed.  Statements of different connections follow one another as a whole.
\<close>

datatype event =
    Accept
  | AcceptFails go_error
  | Receive nat string
  | Answer nat bool
  | Hangup nat
  | Shutdown

definition conn_at :: "Server \<Rightarrow> nat \<Rightarrow> Conn option" where
  "conn_at s i = (if i < length (sv_conns s) then sv_conns s ! i else None)"

definition conn_session :: "Server \<Rightarrow> Conn \<Rightarrow> Session" where
  "conn_session s c = \<lparr>se_store = sv_store s, se_txn = cn_txn c\<rparr>"

definition set_conn :: "nat \<Rightarrow> Conn \<Rightarrow> Session \<Rightarrow> Server \<Rightarrow> Server" where
  "set_conn i c se s = s\<lparr>sv_store := se_store se, sv_conns := (sv_conns s)[i := Some (c\<lparr>cn_txn := se_txn se\<rparr>)]\<rparr>"

text \<open>The deferred calls of \<^verbatim>\<open>handle\<close> and of the goroutine.\<close>

definition leave :: "nat \<Rightarrow> Session \<Rightarrow> (Server, unit) sm" where
  "leave i se s =
     (case sess_Close se of (r, se) \<Rightarrow> (r, s\<lparr>sv_store := se_store se, sv_conns := (sv_conns s)[i := None]\<rparr>))"

text \<open>
  A goroutine whose statement needs the write lock while another session holds it waits in \<^verbatim>\<open>Begin\<close>: its turn comes
  later.
\<close>

definition takes_lock :: "Statement \<Rightarrow> bool" where
  "takes_lock stmt = (case stmt of
     BeginStmt \<Rightarrow> True | Insert_stmt _ \<Rightarrow> True | Update_stmt _ \<Rightarrow> True | Delete_stmt _ \<Rightarrow> True | Select_stmt _ \<Rightarrow> True | _ \<Rightarrow> False)"

definition waits :: "server_env \<Rightarrow> string \<Rightarrow> Session \<Rightarrow> bool" where
  "waits v line s \<longleftrightarrow> st_locked (se_store s) \<and> se_txn s = None \<and>
     (case Parse (v_unicode v) (TrimSpace (v_unicode v) line) of Inl _ \<Rightarrow> False | Inr stmt \<Rightarrow> takes_lock stmt)"

definition answer :: "server_env \<Rightarrow> nat \<Rightarrow> bool \<Rightarrow> Conn \<Rightarrow> (Server, unit) sm" where
  "answer v i written c s =
     (case ReadString (cn_in c) of
        (Inl _, _) \<Rightarrow> (Inr (), s)
      | (Inr line, rest) \<Rightarrow>
          if waits v line (conn_session s c) then (Inr (), s)
          else (case handle_line v line (conn_session s c) of
             (Inl e, se) \<Rightarrow> (Inl e, s\<lparr>sv_store := se_store se\<rparr>)
           | (Inr None, se) \<Rightarrow> leave i se s
           | (Inr (Some text), se) \<Rightarrow>
               if written \<or> text = [] then (Inr (), set_conn i (c\<lparr>cn_in := rest, cn_out := cn_out c @ text\<rparr>) se s)
               else leave i se s))"

fun serve :: "server_env \<Rightarrow> event \<Rightarrow> (Server, unit) sm" where
  "serve v Accept s =
     (Inr (), if sv_listener s = Listening
              then s\<lparr>sv_conns := sv_conns s @ [Some \<lparr>cn_in = [], cn_out = [], cn_txn = None\<rparr>]\<rparr> else s)"
| "serve v (AcceptFails e) s = (if sv_listener s = Listening \<and> e \<noteq> ErrNetClosed then (Inl e, s) else (Inr (), s))"
| "serve v (Receive i text) s =
     (Inr (), case conn_at s i of None \<Rightarrow> s | Some c \<Rightarrow> set_conn i (c\<lparr>cn_in := cn_in c @ text\<rparr>) (conn_session s c) s)"
| "serve v (Answer i written) s = (case conn_at s i of None \<Rightarrow> (Inr (), s) | Some c \<Rightarrow> answer v i written c s)"
| "serve v (Hangup i) s =
     (case conn_at s i of
        None \<Rightarrow> (Inr (), s)
      | Some c \<Rightarrow> (if newline \<in> set (cn_in c) then (Inr (), s) else leave i (conn_session s c) s))"
| "serve v Shutdown s = (Inr (), snd (server_Close s))"

text \<open>The loop of \<^verbatim>\<open>ListenAndServe\<close> on the events that happen; it has not returned when they are used up.\<close>

definition served :: "Server \<Rightarrow> bool" where
  "served s \<longleftrightarrow> sv_listener s = ListenerClosed \<and> list_all (\<lambda>c. c = None) (sv_conns s)"

fun accept_loop :: "server_env \<Rightarrow> event list \<Rightarrow> (Server, unit) sm" where
  "accept_loop v [] s = (if served s then (Inr (), s) else (Inl Diverges, s))"
| "accept_loop v (ev # evs) s = (if served s then (Inr (), s) else bind (serve v ev) (\<lambda>_. accept_loop v evs) s)"

definition ListenAndServe :: "server_env \<Rightarrow> go_error option \<Rightarrow> event list \<Rightarrow> (Server, unit) sm" where
  "ListenAndServe v ln evs s =
     (case ln of
        Some e \<Rightarrow> (Inl (ErrListen e), s)
      | None \<Rightarrow> accept_loop v evs (s\<lparr>sv_listener := Listening\<rparr>))"

text \<open>
  The program \<^verbatim>\<open>eleonesqld\<close> on the contents of its files: the closed store, or the error it ends with.
\<close>

definition eleonesqld :: "server_env \<Rightarrow> (pending \<Rightarrow> pending) \<Rightarrow> bytes \<Rightarrow> bytes option \<Rightarrow> go_error option \<Rightarrow> event list \<Rightarrow> Store result" where
  "eleonesqld v order data log ln evs =
     rbind (txn_Open order data log) (\<lambda>store.
       case ListenAndServe v ln evs (server_New store) of
         (Inl e, s) \<Rightarrow> Inl e
       | (Inr _, s) \<Rightarrow> Inr (snd (store_Close (sv_store s))))"

end
