(* ===== verification/Keeps.thy ===== *)
theory Keeps
  imports Engine
begin

text \<open>
  What computations leave alone: a part of the state that the operations of a transaction keep is
  kept by the statements that use them.
\<close>

section \<open>What a computation keeps\<close>

definition keeps :: "('s \<Rightarrow> 'v) \<Rightarrow> ('s, 'a) sm \<Rightarrow> bool" where
  "keeps f m \<longleftrightarrow> (\<forall>s. f (snd (m s)) = f s)"

named_theorems keeps_intros \<open>what keeps a part of the state\<close>

lemma keepsD: "keeps f m \<Longrightarrow> m s = (r, s') \<Longrightarrow> f s' = f s"
  by (metis keeps_def snd_conv)

lemma keepsI: "(\<And>s r s'. m s = (r, s') \<Longrightarrow> f s' = f s) \<Longrightarrow> keeps f m"
  unfolding keeps_def by (metis prod.collapse)

lemma keeps_ret [keeps_intros]: "keeps f (ret x)"
  by (simp add: keeps_def)

lemma keeps_fail [keeps_intros]: "keeps f (fail e)"
  by (simp add: keeps_def)

lemma keeps_lift [keeps_intros]: "keeps f (lift r)"
  by (simp add: keeps_def)

lemma keeps_Pair [keeps_intros]: "keeps f (Pair r)"
  by (simp add: keeps_def)

lemma keeps_bind [keeps_intros]: "keeps f m \<Longrightarrow> (\<And>x. keeps f (k x)) \<Longrightarrow> keeps f (bind m k)"
  by (auto simp: keeps_def bind_def split: prod.split sum.split) (metis snd_conv)+

lemma keeps_if [keeps_intros]: "(b \<Longrightarrow> keeps f m) \<Longrightarrow> (\<not> b \<Longrightarrow> keeps f n) \<Longrightarrow> keeps f (if b then m else n)"
  by simp

lemma keeps_state: "(\<And>s. keeps f (m s)) \<Longrightarrow> keeps f (\<lambda>s. m s s)"
  by (simp add: keeps_def)

lemma keeps_each [keeps_intros]: "(\<And>x. keeps f (m x)) \<Longrightarrow> keeps f (each m xs)"
  by (induction xs) (auto intro: keeps_intros)

lemma keeps_split [keeps_intros]: "(\<And>x y. keeps f (m x y)) \<Longrightarrow> keeps f (case z of (x, y) \<Rightarrow> m x y)"
  by (cases z) simp

lemma keeps_option [keeps_intros]:
  "keeps f m \<Longrightarrow> (\<And>x. keeps f (n x)) \<Longrightarrow> keeps f (case z of None \<Rightarrow> m | Some x \<Rightarrow> n x)"
  by (cases z) simp_all

section \<open>Statements\<close>

text \<open>Operations that read, and what only reads through them.\<close>

locale reading =
  fixes f :: "'s \<Rightarrow> 'v" and T :: "('s, 'c) txn_ops"
  assumes Table: "keeps f (t_Table T n)" and Get: "keeps f (t_Get T t k)" and Cursor: "keeps f (t_Cursor T t start)"
    and Next: "keeps f (t_Next T c)"
begin

lemmas reads [keeps_intros] = Table Get Cursor Next

lemma keeps_need_table: "keeps f (need_table T name)"
  unfolding need_table_def by (intro keeps_intros)

lemma keeps_fetch_loop: "keeps f (fetch_loop T types n crs ks rows)"
  by (induction n arbitrary: crs ks rows) (auto intro!: keeps_intros)

lemma keeps_fetchAllRows: "keeps f (fetchAllRows T td)"
  unfolding fetchAllRows_def by (rule keeps_bind [OF Cursor], rule keeps_state, rule keeps_fetch_loop)

lemma keeps_lookup_loop: "keeps f (lookup_loop T pre n crs out)"
  by (induction n arbitrary: crs out) (auto intro!: keeps_intros)

lemma keeps_indexEqualityLookup: "keeps f (indexEqualityLookup T td idx v)"
  unfolding indexEqualityLookup_def Let_def by (rule keeps_bind [OF Cursor], rule keeps_state, rule keeps_lookup_loop)

lemma keeps_load_keys: "keeps f (load_keys T td rks ks rows)"
proof (induction rks arbitrary: ks rows)
  case (Cons rk rks)
  show ?case
  proof (rule keepsI)
    fix s r s' assume a: "load_keys T td (rk # rks) ks rows s = (r, s')"
    obtain r1 s1 where g: "t_Get T (TableTarget (tName td)) rk s = (r1, s1)" by fastforce
    have "f s' = f s1"
    proof (cases r1)
      case (Inl e)
      then show ?thesis using a g keepsD [OF Cons.IH] by (auto split: if_splits)
    next
      case (Inr raw)
      have "keeps f (bind (lift (DecodeRow raw (ColumnTypes td))) (\<lambda>vals. load_keys T td rks (ks @ [rk]) (rows @ [vals])))"
        by (intro keeps_intros Cons.IH)
      then show ?thesis using a g Inr keepsD by fastforce
    qed
    then show "f s' = f s" using keepsD [OF Get g] by simp
  qed
qed (simp add: keeps_ret)

lemma keeps_loadRows: "keeps f (loadRows T td cond alias)"
  unfolding loadRows_def by (intro keeps_intros keeps_fetchAllRows keeps_indexEqualityLookup keeps_load_keys)

lemma keeps_join_all: "keeps f (join_all T js tuples)"
  by (induction js arbitrary: tuples) (auto intro!: keeps_intros keeps_need_table keeps_fetchAllRows)

lemma keeps_join_columns: "keeps f (join_columns T js)"
  by (induction js) (auto intro!: keeps_intros keeps_need_table)

lemma keeps_execSelect: "keeps f (execSelect T st)"
  unfolding execSelect_def Let_def selectColumns_def
  by (intro keeps_intros keeps_need_table keeps_loadRows keeps_join_all keeps_join_columns)

lemma keeps_checkUnique: "keeps f (checkUniqueViaTxn T td idx v)"
  unfolding checkUniqueViaTxn_def Let_def by (intro keeps_intros)

end

text \<open>Operations that write as well, and those that draw row numbers.\<close>

locale writing = reading +
  assumes Put: "keeps f (t_Put T t k v)" and Delete: "keeps f (t_Delete T t k)"
begin

lemmas writes [keeps_intros] = Put Delete

lemma keeps_insert_index_entry: "keeps f (insert_index_entry T td vals rowKey idx)"
  unfolding insert_index_entry_def by (intro keeps_intros keeps_checkUnique)

lemma keeps_count_rows: "(\<And>k row. keeps f (m k row)) \<Longrightarrow> keeps f (count_rows m rows n)"
  by (induction m rows n rule: count_rows.induct) (auto intro!: keeps_intros)

lemma keeps_execUpdate: "keeps f (execUpdate T st)"
  unfolding execUpdate_def update_row_def move_index_entry_def Let_def
  by (intro keeps_intros keeps_need_table keeps_loadRows keeps_count_rows keeps_checkUnique)

lemma keeps_execDelete: "keeps f (execDelete T st)"
  unfolding execDelete_def delete_row_def delete_index_entry_def
  by (intro keeps_intros keeps_need_table keeps_loadRows keeps_count_rows)

end

locale keeping = writing +
  assumes NextRow: "keeps f (t_NextRow T n)"
begin

lemma keeps_execInsert: "keeps f (execInsert T st)"
  unfolding execInsert_def insert_row_def Let_def
  by (intro keeps_intros NextRow keeps_need_table keeps_insert_index_entry)

end

end
