(* ===== verification/SessionProps.thy ===== *)
theory SessionProps
  imports Server Keeps
begin

text \<open>
  Sessions and the store's lock: a session holds it exactly while it has a transaction, so a
  connection that ends, in any way but a crash of the process, leaves it free.
\<close>

section \<open>The operations of a transaction\<close>

definition held :: "Store \<times> Txn \<Rightarrow> bool \<times> bool" where
  "held st = (st_locked (fst st), tx_done (snd st))"

lemma keeps_on_store: "keeps st_locked m \<Longrightarrow> keeps held (on_store m)"
  by (rule keepsI) (auto simp: held_def on_store_def dest: keepsD split: prod.splits)

lemma keeps_on_cat [keeps_intros]: "keeps st_locked (on_cat m)"
  by (auto simp: keeps_def on_cat_def split: prod.split)

lemma keeps_on_wal [keeps_intros]: "keeps st_locked (on_wal m)"
  by (auto simp: keeps_def on_wal_def split: prod.split)

lemmas keeps_store [keeps_intros] = keeps_on_store [OF keeps_on_cat] keeps_on_store [OF keeps_on_wal]

lemma keeps_on_tree [keeps_intros]: "keeps held (on_tree m)"
  unfolding on_tree_def by (rule keeps_intros)

lemma keeps_push_undo [keeps_intros]: "keeps held (push_undo e)"
  by (auto simp: keeps_def held_def push_undo_def split: prod.split)

lemma keeps_save_moved [keeps_intros]: "keeps held (save_moved root sl bt)"
  unfolding save_moved_def by (intro keeps_intros)

lemma keeps_resolve_target [keeps_intros]: "keeps held (resolve_target target)"
proof -
  have "resolve_target target = (\<lambda>st. (case resolve (st_cat (fst st)) target of
      None \<Rightarrow> fail (ErrUnknownTarget target)
    | Some (root, sl) \<Rightarrow> bind (on_tree (OpenBTree root)) (\<lambda>bt. ret (root, sl, bt))) st)"
    by (auto simp: fun_eq_iff resolve_target_def split: option.split)
  then show ?thesis by (simp only:) (rule keeps_state, intro keeps_intros)
qed

lemma keeps_txn_Put: "keeps held (txn_Put target key val)"
proof -
  have "keeps held (\<lambda>st. case on_tree (Get bt key) st of
      (Inr prev, st') \<Rightarrow> (Inr (True, prev), st')
    | (Inl e, st') \<Rightarrow> (if e = ErrKeyNotFound then (Inr (False, []), st') else (Inl e, st')))" for bt
    by (rule keepsI) (auto split: prod.splits sum.splits if_splits dest: keepsD [OF keeps_on_tree])
  moreover have "keeps held (\<lambda>st. on_store (on_wal (wal_Put (tx_id (snd st)) target key val hadPrev prev)) st)" for hadPrev prev
    by (rule keeps_state) (rule keeps_intros)
  ultimately show ?thesis unfolding txn_Put_def by (intro keeps_intros)
qed

lemma keeps_txn_Delete: "keeps held (txn_Delete target key)"
proof -
  have "keeps held (\<lambda>st. on_store (on_wal (wal_Delete (tx_id (snd st)) target key prev)) st)" for prev
    by (rule keeps_state) (rule keeps_intros)
  then show ?thesis unfolding txn_Delete_def by (intro keeps_intros)
qed

lemma keeps_next_row: "keeps held (next_row name)"
proof -
  have "next_row name = (\<lambda>st. (case Table (st_cat (fst st)) name of
      None \<Rightarrow> fail Panic
    | Some td \<Rightarrow> bind (on_store (on_cat (save_schema (td\<lparr>tNextRow := tNextRow td + 1\<rparr>)))) (\<lambda>_. ret (tNextRow td))) st)"
    by (auto simp: fun_eq_iff next_row_def split: option.split)
  then show ?thesis by (simp only:) (rule keeps_state, intro keeps_intros)
qed

lemma keeps_lookup_schema: "keeps f (lookup_schema n)"
  by (simp add: keeps_def lookup_schema_def)

interpretation rt: keeping held real_txn
  by unfold_locales
    (auto simp: real_txn_def keeps_txn_Put keeps_txn_Delete keeps_next_row keeps_lookup_schema txn_Get_def txn_Cursor_def intro!: keeps_intros)

section \<open>Sessions\<close>

definition session_ok :: "Session \<Rightarrow> bool" where
  "session_ok s \<longleftrightarrow> (st_locked (se_store s) \<longleftrightarrow> se_txn s \<noteq> None) \<and> (\<forall>t. se_txn s = Some t \<longrightarrow> \<not> tx_done t)"

definition upholds :: "(Session, 'a) sm \<Rightarrow> bool" where
  "upholds m \<longleftrightarrow> (\<forall>s r s'. session_ok s \<longrightarrow> m s = (r, s') \<longrightarrow> (\<exists>e. r = Inl e \<and> stops e) \<or> session_ok s')"

lemma upholdsI:
  "(\<And>s r s'. session_ok s \<Longrightarrow> m s = (r, s') \<Longrightarrow> (\<exists>e. r = Inl e \<and> stops e) \<or> session_ok s') \<Longrightarrow> upholds m"
  unfolding upholds_def by blast

lemma upholdsD: "upholds m \<Longrightarrow> session_ok s \<Longrightarrow> m s = (r, s') \<Longrightarrow> (\<And>e. r = Inl e \<Longrightarrow> \<not> stops e) \<Longrightarrow> session_ok s'"
  unfolding upholds_def by blast

definition owner :: "Session \<Rightarrow> bool \<times> Txn option" where
  "owner s = (st_locked (se_store s), se_txn s)"

lemma upholds_keeps: "keeps owner m \<Longrightarrow> upholds m"
  by (rule upholdsI) (auto simp: session_ok_def owner_def dest!: keepsD)

lemma upholds_bind:
  assumes "upholds m" "\<And>x. upholds (k x)"
  shows "upholds (bind m k)"
proof (rule upholdsI)
  fix s r s' assume s: "session_ok s" "bind m k s = (r, s')"
  obtain r1 s1 where m: "m s = (r1, s1)" by fastforce
  show "(\<exists>e. r = Inl e \<and> stops e) \<or> session_ok s'"
  proof (cases r1)
    case (Inl e)
    then show ?thesis using s m assms(1) unfolding upholds_def by (auto simp: bind_def)
  next
    case (Inr x)
    have "session_ok s1" using upholdsD [OF assms(1) s(1) m] Inr by blast
    then show ?thesis using s(2) m Inr assms(2) unfolding upholds_def by (auto simp: bind_def)
  qed
qed

lemma keeps_on_sess: "keeps st_locked m \<Longrightarrow> keeps owner (on_sess m)"
  by (rule keepsI) (auto simp: owner_def on_sess_def dest: keepsD split: prod.splits)

lemma keeps_sess_cat [keeps_intros]: "keeps owner (sess_cat m)"
  unfolding sess_cat_def by (rule keeps_on_sess [OF keeps_on_cat])

lemma keeps_MaybeCheckpoint: "keeps st_locked (MaybeCheckpoint n)"
proof -
  have "MaybeCheckpoint n = (\<lambda>s. (if st_writes s < n then ret ()
      else bind (on_cat (on_pager Sync)) (\<lambda>_. bind (on_wal wal_Checkpoint) (\<lambda>_ s. (Inr (), s\<lparr>st_writes := 0\<rparr>)))) s)"
    by (auto simp: fun_eq_iff MaybeCheckpoint_def)
  moreover have "keeps st_locked (\<lambda>s :: Store. (Inr (), s\<lparr>st_writes := 0\<rparr>))" by (simp add: keeps_def)
  ultimately show ?thesis by (simp only:) (rule keeps_state, intro keeps_intros)
qed

lemmas upholds_checkpoint = upholds_keeps [OF keeps_on_sess [OF keeps_MaybeCheckpoint]]

lemma unlocked: "\<not> tx_done t \<Longrightarrow> txn_Commit (s, t) = (r, (s', t')) \<Longrightarrow> \<not> st_locked s'"
  "\<not> tx_done t \<Longrightarrow> txn_Rollback (s, t) = (r, (s', t')) \<Longrightarrow> \<not> st_locked s'"
  by (auto simp: txn_Commit_def txn_Rollback_def split: prod.splits)

lemma upholds_exec_begin: "upholds exec_begin"
  by (rule upholdsI)
    (auto simp: exec_begin_def session_ok_def bind_def on_sess_def Begin_def Let_def on_wal_def split: if_splits prod.splits)

lemma upholds_end_txn: "fin = txn_Commit \<or> fin = txn_Rollback \<Longrightarrow> upholds (end_txn fin)"
  by (rule upholdsI) (auto simp: end_txn_def session_ok_def dest: unlocked split: option.splits prod.splits)

lemma upholds_runInTxn:
  assumes "keeps held fn"
  shows "upholds (runInTxn fn)"
proof (rule upholdsI)
  fix s r s' assume s: "session_ok s" "runInTxn fn s = (r, s')"
  show "(\<exists>e. r = Inl e \<and> stops e) \<or> session_ok s'"
  proof (cases "se_txn s")
    case (Some t)
    then show ?thesis using s keepsD [OF assms] by (auto simp: runInTxn_def session_ok_def held_def split: prod.splits)
  next
    case None
    obtain t st where b: "Begin (se_store s) = (Inr t, st)" "\<not> tx_done t"
      using s(1) None by (auto simp: Begin_def session_ok_def Let_def)
    obtain r1 st1 t1 where f: "fn (st, t) = (r1, (st1, t1))" by (metis prod.exhaust)
    have d: "\<not> tx_done t1" using keepsD [OF assms f] b(2) by (simp add: held_def)
    show ?thesis
    proof (cases r1)
      case (Inl e)
      then show ?thesis using s(2) None b(1) f d
        by (auto simp: runInTxn_def bind_def on_sess_def session_ok_def dest: unlocked split: prod.splits sum.splits if_splits)
    next
      case (Inr res)
      obtain r2 st2 t2 where c: "txn_Commit (st1, t1) = (r2, (st2, t2))" by (metis prod.exhaust)
      have "session_ok (s\<lparr>se_store := st2\<rparr>)" using unlocked(1) [OF d c] None by (simp add: session_ok_def)
      moreover have "upholds (bind (on_sess (MaybeCheckpoint 2000)) (\<lambda>_. ret res))"
        by (rule upholds_bind [OF upholds_checkpoint upholds_keeps [OF keeps_ret]])
      ultimately show ?thesis
        using s(2) None b(1) f Inr c unfolding upholds_def
        by (auto simp: runInTxn_def bind_Inr [of "on_sess Begin" s] on_sess_def [of Begin] bind_def [of "\<lambda>s. _ s"] split: sum.splits)
    qed
  qed
qed

lemma keeps_sess_table [keeps_intros]: "keeps f (sess_table name)"
  by (simp add: keeps_def sess_table_def)

lemma keeps_execCreateTable: "keeps owner (execCreateTable st)"
proof -
  have "execCreateTable st = (\<lambda>s. (if Table (st_cat (se_store s)) (ctTable st) \<noteq> None then fail (ErrNameTaken (ctTable st))
      else bind (lift (traverse column_of_spec (ctColumns st))) (\<lambda>cols.
          if length (filter spPrimaryKey (ctColumns st)) > 1 then fail ErrSinglePrimaryKey
          else bind (sess_cat (CreateTable (ctTable st) cols)) (\<lambda>_. bind (sess_cat (each (backing_index (ctTable st)) cols)) (\<lambda>_.
            bind (sess_cat (on_pager Sync)) (\<lambda>_. ret (message (''CREATE TABLE '' @ ctTable st) 0)))))) s)"
    by (auto simp: fun_eq_iff execCreateTable_def)
  then show ?thesis by (simp only:) (rule keeps_state, intro keeps_intros)
qed

lemma upholds_executeStmt: "upholds (executeStmt order stmt)"
proof (cases stmt)
  case BeginStmt
  then show ?thesis by (simp add: executeStmt_def upholds_exec_begin)
next
  case CommitStmt
  then show ?thesis
    by (auto simp: executeStmt_def intro!: upholds_bind upholds_end_txn upholds_checkpoint upholds_keeps [OF keeps_ret])
next
  case RollbackStmt
  then show ?thesis by (auto simp: executeStmt_def intro!: upholds_bind upholds_end_txn upholds_keeps [OF keeps_ret])
next
  case (CreateTable_stmt st)
  then show ?thesis by (simp add: executeStmt_def upholds_keeps [OF keeps_execCreateTable])
next
  case (DropTable_stmt st)
  then show ?thesis by (auto simp: executeStmt_def execDropTable_def intro!: upholds_keeps keeps_intros)
next
  case (CreateIndex_stmt st)
  then show ?thesis by (auto simp: executeStmt_def execCreateIndex_def intro!: upholds_keeps keeps_intros)
next
  case ShowTablesStmt
  have "keeps owner (execShowTables order)" by (simp add: keeps_def execShowTables_def)
  then show ?thesis using ShowTablesStmt by (simp add: executeStmt_def upholds_keeps)
qed (simp_all add: executeStmt_def upholds_runInTxn rt.keeps_execInsert rt.keeps_execSelect rt.keeps_execUpdate rt.keeps_execDelete)

lemma upholds_Execute: "upholds (Execute u order sql)"
  unfolding Execute_def by (intro upholds_bind upholds_executeStmt upholds_keeps keeps_lift)

lemma upholds_respond: "upholds (respond v sql)"
proof (rule upholdsI)
  fix s r s' assume s: "session_ok s" "respond v sql s = (r, s')"
  obtain r1 s1 where e: "Execute (v_unicode v) (v_order v) sql s = (r1, s1)" by fastforce
  show "(\<exists>e. r = Inl e \<and> stops e) \<or> session_ok s'"
    using s(2) e upholds_Execute [unfolded upholds_def, rule_format, OF s(1) e]
    by (auto simp: respond_def split: sum.splits if_splits)
qed

lemma upholds_handle_line: "upholds (handle_line v line)"
  by (auto simp: handle_line_def Let_def intro!: upholds_bind upholds_respond upholds_keeps [OF keeps_ret])

lemma handle_loop_ok:
  "session_ok s \<Longrightarrow> handle_loop v inp out s = (Inr out', s') \<Longrightarrow> session_ok s'"
proof (induction v inp out s rule: handle_loop.induct)
  case (1 v inp out s)
  obtain r rest where rd: "ReadString inp = (r, rest)" by fastforce
  show ?case
  proof (cases r)
    case (Inl e)
    then show ?thesis using "1.prems" rd by (simp add: handle_loop.simps [of v inp])
  next
    case (Inr line)
    obtain r1 s1 where h: "handle_line v line s = (r1, s1)" by fastforce
    then obtain reply where t: "r1 = Inr reply"
      using "1.prems"(2) rd Inr by (cases r1) (auto simp: handle_loop.simps [of v inp])
    have s1: "session_ok s1" using upholdsD [OF upholds_handle_line "1.prems"(1) h] t by simp
    show ?thesis
    proof (cases reply)
      case None
      then show ?thesis using "1.prems"(2) rd Inr h t s1 by (simp add: handle_loop.simps [of v inp])
    next
      case (Some sent)
      then show ?thesis
        using "1.IH" [OF rd [symmetric] Inr h [symmetric] t Some s1] "1.prems"(2) rd Inr h t by (simp add: handle_loop.simps [of v inp])
    qed
  qed
qed

text \<open>
  C18: whatever a client sends, when its connection ends the store's lock is free again and the
  next transaction can begin: open transactions, failed statements and disconnection
  in the middle of a transaction included.
\<close>

theorem handle_releases_lock:
  assumes "\<not> st_locked store" "handle v inp store = (Inr out, store')"
  shows "\<exists>t s. Begin store' = (Inr t, s)"
proof -
  have s0: "session_ok (NewSession store)" using assms(1) by (simp add: session_ok_def NewSession_def)
  obtain r1 s1 where l: "handle_loop v inp [] (NewSession store) = (r1, s1)" by fastforce
  then obtain out1 where r1: "r1 = Inr out1" using assms(2) by (cases r1) (auto simp: handle_def bind_def)
  have "session_ok s1" using handle_loop_ok [OF s0] l r1 by simp
  moreover obtain s2 where "sess_Close s1 = (Inr (), s2)" "store' = se_store s2"
    using assms(2) l r1 by (auto simp: handle_def bind_def split: prod.splits sum.splits)
  ultimately have "\<not> st_locked store'"
    by (auto simp: sess_Close_def session_ok_def dest: unlocked(2) split: option.splits prod.splits sum.splits if_splits)
  then show ?thesis by (simp add: Begin_def Let_def)
qed

definition ascii_env :: server_env where
  "ascii_env = \<lparr>v_unicode = \<lparr>uSpace = \<lambda>_. False, uDigit = \<lambda>_. False, uLetter = \<lambda>_. False\<rparr>, v_order = \<lambda>ns. ns,
     v_float = \<lambda>_. ''0'', v_error = \<lambda>_. ''error''\<rparr>"

lemma parse_begin: "Parse (v_unicode ascii_env) ''BEGIN'' = Inr BeginStmt"
proof -
  let ?u = "v_unicode ascii_env" and ?r = "[66, 69, 71, 73, 78] :: rune list"
  have r: "runes ''BEGIN'' = ?r" by (simp add: runes_def decode_runes.simps decode_rune_def)
  have s: "string_of ?r = ''BEGIN''" by (simp add: string_of_def encode_rune_def surrogate_def char_of_eq_iff)
  have "ToUpper ''BEGIN'' = ''BEGIN''" by (simp add: upper_char_def)
  with s have 1: "lex_next ?u ?r 0 = Inr (\<lparr>kType = TokKeyword, kText = ''BEGIN'', kPos = 0\<rparr>, 5)"
    by (simp add: lex_next_unfold lex_token_def Let_def skip_while_eq skip_end_def IsSpace_def IsDigit_def IsLetter_def src_text_def slice_def holds_at_eq keyword_list_def)
  have 2: "lex_next ?u ?r 5 = Inr (\<lparr>kType = TokEOF, kText = [], kPos = 5\<rparr>, 5)"
    by (simp add: lex_next_unfold Let_def skip_end_def)
  have "Tokenize ?u ''BEGIN'' = Inr [\<lparr>kType = TokKeyword, kText = ''BEGIN'', kPos = 0\<rparr>, \<lparr>kType = TokEOF, kText = [], kPos = 5\<rparr>]"
    by (simp add: Tokenize_def r tokenize_loop.simps 1 2)
  then show ?thesis
    by (simp add: Parse_def parseStatement_def parseBegin_def cur_def advance_def isKeyword_def skipPunct_def isPunct_def
        bind_def ret_def)
qed

lemma read_begin:
  "ReadString (''BEGIN'' @ [newline]) = (Inr (''BEGIN'' @ [newline]), [])" "ReadString [] = (Inl ErrEOF, [])"
  "TrimSpace (v_unicode ascii_env) (''BEGIN'' @ [newline]) = ''BEGIN''"
  by (simp_all add: ReadString_def TrimSpace_def rune_parts.simps decode_rune_def IsSpace_def)

definition idle_store :: Store where
  "idle_store = \<lparr>st_cat = \<lparr>c_pager = new_pager, c_sysRoot = 0, c_tables = []\<rparr>, st_wal = wal_Open [], st_nextTxnID = 0,
     st_writes = 0, st_locked = False\<rparr>"

text \<open>The greeting of a transaction on that store.\<close>

abbreviation begun :: string where "begun \<equiv> WriteResult (v_float ascii_env) (message ''BEGIN'' 0)"

lemma idle_begin:
  obtains t st where "handle_line ascii_env (''BEGIN'' @ [newline]) (NewSession idle_store) = (Inr (Some begun), \<lparr>se_store = st, se_txn = Some t\<rparr>)"
    "st_locked st" "sess_Close \<lparr>se_store = st, se_txn = Some t\<rparr> = (Inr (), \<lparr>se_store = fst (snd (txn_Rollback (st, t))), se_txn = None\<rparr>)"
proof -
  obtain t st where b: "Begin idle_store = (Inr t, st)" "\<not> tx_done t" "tx_undo t = []" "\<not> wclosed (st_wal st)" "st_locked st"
    by (auto simp: Begin_def idle_store_def Let_def on_wal_def wal_Begin_def writeRecord_def wal_Open_def)
  have fold: "EqualFold ''BEGIN'' ''quit'' = False" "EqualFold ''BEGIN'' ''exit'' = False"
    by (simp_all add: EqualFold_def upper_char_def char_of_eq_iff)
  have "Execute (v_unicode ascii_env) (v_order ascii_env) ''BEGIN'' (NewSession idle_store) =
      (Inr (message ''BEGIN'' 0), \<lparr>se_store = st, se_txn = Some t\<rparr>)"
    using b(1) by (simp add: Execute_def parse_begin bind_def executeStmt_def exec_begin_def NewSession_def on_sess_def)
  then have "respond ascii_env ''BEGIN'' (NewSession idle_store) = (Inr begun, \<lparr>se_store = st, se_txn = Some t\<rparr>)"
    by (simp add: respond_def)
  then have h: "handle_line ascii_env (''BEGIN'' @ [newline]) (NewSession idle_store) = (Inr (Some begun), \<lparr>se_store = st, se_txn = Some t\<rparr>)"
    using read_begin(3) fold by (simp add: handle_line_def bind_def)
  obtain r2 st2 t2 where rb: "txn_Rollback (st, t) = (r2, (st2, t2))" by (metis prod.exhaust)
  then have "r2 = Inr ()"
    using b(2-4) by (simp add: txn_Rollback_def bind_def on_store_def on_wal_def wal_Rollback_def writeRecord_def split: prod.splits)
  then show ?thesis using that [OF h b(5)] rb by (simp add: sess_Close_def)
qed

theorem handle_releases_lock_witness:
  "\<exists>out store' t s. handle ascii_env (''BEGIN'' @ [newline]) idle_store = (Inr out, store') \<and> Begin store' = (Inr t, s)"
proof -
  obtain t st where b: "handle_line ascii_env (''BEGIN'' @ [newline]) (NewSession idle_store) = (Inr (Some begun), \<lparr>se_store = st, se_txn = Some t\<rparr>)"
    "sess_Close \<lparr>se_store = st, se_txn = Some t\<rparr> = (Inr (), \<lparr>se_store = fst (snd (txn_Rollback (st, t))), se_txn = None\<rparr>)"
    by (rule idle_begin)
  have "handle_loop ascii_env (''BEGIN'' @ [newline]) [] (NewSession idle_store) = (Inr begun, \<lparr>se_store = st, se_txn = Some t\<rparr>)"
    using read_begin b(1) by (simp add: handle_loop.simps)
  then have h: "handle ascii_env (''BEGIN'' @ [newline]) idle_store = (Inr begun, fst (snd (txn_Rollback (st, t))))"
    using b(2) by (simp add: handle_def bind_def)
  have "\<not> st_locked idle_store" by (simp add: idle_store_def)
  from handle_releases_lock [OF this h] h show ?thesis by blast
qed

end
