(* ===== verification/ServerProps.thy ===== *)
theory ServerProps
  imports SessionProps
begin

text \<open>
  The server and its connections: whatever the connections do, in whatever order, at most one of them has a
  transaction and the store's lock is held exactly while one has.
\<close>

section \<open>Sessions that do not take the lock\<close>

lemma executeStmt_other:
  assumes "\<not> takes_lock stmt" "se_txn s = None" "executeStmt order stmt s = (r, s')"
  shows "owner s' = owner s"
proof -
  have k: "owner s' = owner s" if "keeps owner m" "m s = (r, s')" for m :: "(Session, Result) sm"
    using keepsD [OF that] by simp
  have show_tables: "keeps owner (execShowTables order)" by (simp add: keeps_def execShowTables_def)
  have drop_table: "keeps owner (execDropTable st)" for st unfolding execDropTable_def by (intro keeps_intros)
  have create_index: "keeps owner (execCreateIndex st)" for st
    unfolding execCreateIndex_def by (auto intro!: keeps_intros split: option.split)
  show ?thesis
    using assms k [OF keeps_execCreateTable] k [OF drop_table] k [OF create_index] k [OF show_tables]
    by (cases stmt) (auto simp: takes_lock_def executeStmt_def end_txn_def bind_def)
qed

lemma handle_line_other:
  assumes "st_locked (se_store s)" "se_txn s = None" "\<not> waits v line s" "handle_line v line s = (r, s')"
  shows "owner s' = owner s"
proof -
  let ?sql = "TrimSpace (v_unicode v) line"
  have "owner s1 = owner s" if "Execute (v_unicode v) (v_order v) ?sql s = (r1, s1)" for r1 s1
    using assms(1-3) that executeStmt_other [of _ s]
    by (auto simp: Execute_def bind_def waits_def split: sum.splits)
  then show ?thesis
    using assms(4) by (auto simp: handle_line_def Let_def respond_def bind_def split: if_splits prod.splits sum.splits)
qed

section \<open>The transactions of a server\<close>

definition conn_txns :: "Conn option \<Rightarrow> Txn list" where
  "conn_txns oc = (case oc of None \<Rightarrow> [] | Some c \<Rightarrow> (case cn_txn c of None \<Rightarrow> [] | Some t \<Rightarrow> [t]))"

definition txns :: "Server \<Rightarrow> Txn list" where
  "txns s = concat (map conn_txns (sv_conns s))"

definition server_ok :: "Server \<Rightarrow> bool" where
  "server_ok s \<longleftrightarrow> (if st_locked (sv_store s) then \<exists>t. txns s = [t] \<and> \<not> tx_done t else txns s = [])"

text \<open>What a turn of a connection may do to its session.\<close>

definition turn :: "Session \<Rightarrow> Session \<Rightarrow> bool" where
  "turn se se' \<longleftrightarrow> session_ok se \<and> session_ok se' \<or> se_txn se = None \<and> owner se' = owner se"

lemma txns_split:
  assumes "conn_at s i = Some c"
  obtains a b where "txns s = a @ conn_txns (Some c) @ b"
    "\<And>st oc. txns (s\<lparr>sv_store := st, sv_conns := (sv_conns s)[i := oc]\<rparr>) = a @ conn_txns oc @ b"
proof -
  have i: "i < length (sv_conns s)" "sv_conns s ! i = Some c" using assms by (auto simp: conn_at_def split: if_splits)
  let ?T = "\<lambda>cs. concat (map conn_txns cs)"
  have "txns s = ?T (take i (sv_conns s)) @ conn_txns (Some c) @ ?T (drop (Suc i) (sv_conns s))"
    using arg_cong [OF id_take_nth_drop [OF i(1)], of ?T] i(2) by (simp add: txns_def)
  then show ?thesis using that by (simp add: txns_def upd_conv_take_nth_drop [OF i(1)])
qed

lemma conn_txns_simps [simp]:
  "conn_txns None = []" "conn_txns (Some c) = (case cn_txn c of None \<Rightarrow> [] | Some t \<Rightarrow> [t])"
  by (simp_all add: conn_txns_def)

lemma conn_session_turn:
  assumes "server_ok s" "conn_at s i = Some c" "\<not> st_locked (sv_store s) \<or> cn_txn c \<noteq> None"
  shows "session_ok (conn_session s c)"
proof -
  obtain a b where "txns s = a @ conn_txns (Some c) @ b" using assms(2) by (rule txns_split)
  then show ?thesis
    using assms(1,3)
    by (auto simp: server_ok_def session_ok_def conn_session_def append_eq_Cons_conv split: option.splits if_splits)
qed

lemma server_ok_turn:
  assumes "server_ok s" "conn_at s i = Some c" "turn (conn_session s c) se"
    "conn_txns oc = (case se_txn se of None \<Rightarrow> [] | Some t \<Rightarrow> [t])"
  shows "server_ok (s\<lparr>sv_store := se_store se, sv_conns := (sv_conns s)[i := oc]\<rparr>)"
proof -
  obtain a b where t: "txns s = a @ conn_txns (Some c) @ b"
    "\<And>st oc. txns (s\<lparr>sv_store := st, sv_conns := (sv_conns s)[i := oc]\<rparr>) = a @ conn_txns oc @ b"
    using assms(2) by (rule txns_split) blast
  show ?thesis
    using assms(1,3,4) t(1)
    by (auto simp: server_ok_def t(2) turn_def session_ok_def owner_def conn_session_def append_eq_Cons_conv
        split: option.splits if_splits)
qed

lemma session_turn:
  assumes "server_ok s" "conn_at s i = Some c" "upholds m" "m (conn_session s c) = (Inr x, se)"
    and "st_locked (sv_store s) \<Longrightarrow> cn_txn c = None \<Longrightarrow> owner se = owner (conn_session s c)"
  shows "turn (conn_session s c) se"
proof (cases "st_locked (sv_store s) \<and> cn_txn c = None")
  case True
  then show ?thesis using assms(5) by (simp add: turn_def conn_session_def)
next
  case False
  then have "session_ok (conn_session s c)" using conn_session_turn [OF assms(1,2)] by blast
  then show ?thesis using upholdsD [OF assms(3) _ assms(4)] by (simp add: turn_def)
qed

lemma leave_ok:
  assumes "server_ok s" "conn_at s i = Some c" "turn (conn_session s c) se" "leave i se s = (Inr (), s')"
  shows "server_ok s'"
proof -
  obtain se' where c: "sess_Close se = (Inr (), se')" "s' = s\<lparr>sv_store := se_store se', sv_conns := (sv_conns s)[i := None]\<rparr>"
    using assms(4) by (auto simp: leave_def split: prod.splits)
  have "turn (conn_session s c) se'" "se_txn se' = None"
    using assms(3) c(1) unlocked(2) by (auto simp: turn_def sess_Close_def session_ok_def owner_def split: option.splits prod.splits sum.splits if_splits)
  then show ?thesis using server_ok_turn [OF assms(1,2), of se' None] c(2) by (simp add: conn_txns_def)
qed

lemma answer_ok:
  assumes "server_ok s" "conn_at s i = Some c" "answer v i written c s = (Inr (), s')"
  shows "server_ok s'"
proof -
  obtain r rest where rd: "ReadString (cn_in c) = (r, rest)" by fastforce
  consider "s' = s" | line reply se where "r = Inr line" "\<not> waits v line (conn_session s c)"
      "handle_line v line (conn_session s c) = (Inr reply, se)"
    using assms(3) rd by (auto simp: answer_def split: sum.splits if_splits prod.splits)
  then show ?thesis
  proof cases
    case 2
    have t: "turn (conn_session s c) se"
      by (rule session_turn [OF assms(1,2) upholds_handle_line 2(3)])
        (use handle_line_other [OF _ _ 2(2,3)] in \<open>simp add: conn_session_def\<close>)
    show ?thesis
    proof (cases "leave i se s = (Inr (), s')")
      case True
      then show ?thesis by (rule leave_ok [OF assms(1,2) t])
    next
      case False
      then have "\<exists>c'. s' = set_conn i c' se s" using assms(3) rd 2 by (auto simp: answer_def split: option.splits if_splits)
      then show ?thesis using server_ok_turn [OF assms(1,2) t] by (auto simp: set_conn_def conn_txns_def)
    qed
  qed (use assms(1) in simp)
qed

lemma serve_ok: "server_ok s \<Longrightarrow> serve v ev s = (Inr (), s') \<Longrightarrow> server_ok s'"
proof (cases ev)
  case (Receive i sent)
  assume s: "server_ok s" "serve v ev s = (Inr (), s')"
  show ?thesis
  proof (cases "conn_at s i")
    case (Some c)
    have "turn (conn_session s c) (conn_session s c)"
      by (rule session_turn [OF s(1) Some upholds_keeps [OF keeps_ret [where x = "()"]]]) (simp_all add: ret_def)
    then show ?thesis using server_ok_turn [OF s(1) Some] s(2) Some Receive by (auto simp: set_conn_def conn_txns_def)
  qed (use s Receive in simp)
next
  case (Hangup i)
  assume s: "server_ok s" "serve v ev s = (Inr (), s')"
  show ?thesis
  proof (cases "conn_at s i")
    case (Some c)
    have "turn (conn_session s c) (conn_session s c)"
      by (rule session_turn [OF s(1) Some upholds_keeps [OF keeps_ret [where x = "()"]]]) (simp_all add: ret_def)
    then show ?thesis using leave_ok [OF s(1) Some] s Some Hangup by (auto split: if_splits)
  qed (use s Hangup in simp)
next
  case (Answer i written)
  assume "server_ok s" "serve v ev s = (Inr (), s')"
  then show ?thesis using Answer answer_ok by (auto split: option.splits)
qed (auto simp: server_ok_def txns_def server_Close_def split: if_splits listener.splits)

lemma serving_ok: "server_ok s \<Longrightarrow> each (serve v) evs s = (Inr (), s') \<Longrightarrow> server_ok s'"
proof (induction evs arbitrary: s)
  case (Cons ev evs)
  obtain r s1 where e: "serve v ev s = (r, s1)" by fastforce
  then have "r = Inr ()" using Cons.prems(2) by (cases r) (auto simp: bind_def)
  then show ?case using Cons.IH [of s1] Cons.prems e serve_ok by (auto simp: bind_def)
qed (simp add: ret_def)

lemma accept_loop_ok: "server_ok s \<Longrightarrow> accept_loop v evs s = (Inr (), s') \<Longrightarrow> server_ok s' \<and> served s'"
proof (induction evs arbitrary: s)
  case (Cons ev evs)
  obtain r s1 where e: "serve v ev s = (r, s1)" by fastforce
  show ?case
  proof (cases "served s")
    case False
    then have "r = Inr ()" using Cons.prems(2) e by (cases r) (auto simp: bind_def)
    then show ?thesis using Cons.IH [of s1] Cons.prems e False serve_ok by (auto simp: bind_def)
  qed (use Cons.prems in auto)
qed (auto split: if_splits)

abbreviation listening :: "Store \<Rightarrow> Server" where
  "listening store \<equiv> (server_New store)\<lparr>sv_listener := Listening\<rparr>"

lemma listening_ok: "\<not> st_locked store \<Longrightarrow> server_ok (listening store)"
  by (simp add: server_ok_def txns_def server_New_def)

text \<open>
  C19: whatever the connections of a server do, in whatever order, at most one of them has a transaction open, and the
  write lock is held exactly while one has.
\<close>

theorem one_writer:
  assumes "\<not> st_locked store" "each (serve v) evs (listening store) = (Inr (), s)"
  shows "length (txns s) \<le> 1 \<and> (st_locked (sv_store s) \<longleftrightarrow> txns s \<noteq> [])"
  using serving_ok [OF listening_ok [OF assms(1)] assms(2)] by (auto simp: server_ok_def split: if_splits)

text \<open>Two clients, one with a transaction, the other about to begin one.\<close>

definition two_clients :: "event list" where
  "two_clients = [Accept, Accept, Receive 0 (''BEGIN'' @ [newline]), Answer 0 True, Receive 1 (''BEGIN'' @ [newline])]"

lemma two_clients_run:
  obtains st t where "each (serve ascii_env) two_clients (listening idle_store) = (Inr (), \<lparr>sv_store = st, sv_listener = Listening,
      sv_conns = [Some \<lparr>cn_in = [], cn_out = begun, cn_txn = Some t\<rparr>, Some \<lparr>cn_in = ''BEGIN'' @ [newline], cn_out = [], cn_txn = None\<rparr>]\<rparr>)"
    "st_locked st" "sess_Close \<lparr>se_store = st, se_txn = Some t\<rparr> = (Inr (), \<lparr>se_store = fst (snd (txn_Rollback (st, t))), se_txn = None\<rparr>)"
proof -
  obtain t st where b: "handle_line ascii_env (''BEGIN'' @ [newline]) (NewSession idle_store) = (Inr (Some begun), \<lparr>se_store = st, se_txn = Some t\<rparr>)"
    "st_locked st" "sess_Close \<lparr>se_store = st, se_txn = Some t\<rparr> = (Inr (), \<lparr>se_store = fst (snd (txn_Rollback (st, t))), se_txn = None\<rparr>)"
    by (rule idle_begin)
  have "\<not> st_locked idle_store" by (simp add: idle_store_def)
  then show ?thesis
    using that [OF _ b(2,3)] b(1) read_begin(1)
    by (simp add: two_clients_def bind_def ret_def server_New_def conn_at_def set_conn_def conn_session_def answer_def waits_def NewSession_def)
qed

theorem one_writer_witness:
  "\<exists>s. each (serve ascii_env) two_clients (listening idle_store) = (Inr (), s) \<and> st_locked (sv_store s) \<and> length (txns s) = 1"
proof -
  obtain s where s: "each (serve ascii_env) two_clients (listening idle_store) = (Inr (), s)" "st_locked (sv_store s)"
    by (rule two_clients_run) auto
  have "\<not> st_locked idle_store" by (simp add: idle_store_def)
  from one_writer [OF this s(1)] s show ?thesis by (cases "txns s") auto
qed

text \<open>
  C21: a connection that waits for the lock waits for one that does not wait itself, and when the
  client of that one is gone, its turn comes.
\<close>

theorem waiting_is_served:
  assumes "\<not> st_locked store" "each (serve v) evs (listening store) = (Inr (), s)"
    and "conn_at s i = Some c" "waits v line (conn_session s c)"
  shows "\<exists>j d. j \<noteq> i \<and> conn_at s j = Some d \<and> cn_txn d \<noteq> None \<and> (\<forall>l. \<not> waits v l (conn_session s d)) \<and>
    (\<forall>s'. newline \<notin> set (cn_in d) \<longrightarrow> serve v (Hangup j) s = (Inr (), s') \<longrightarrow>
       conn_at s' i = Some c \<and> \<not> waits v line (conn_session s' c))"
proof -
  have ok: "server_ok s" by (rule serving_ok [OF listening_ok [OF assms(1)] assms(2)])
  then obtain t where t: "txns s = [t]" using assms(4) by (auto simp: server_ok_def waits_def conn_session_def)
  then have "t \<in> set (txns s)" by simp
  then obtain j d where j: "conn_at s j = Some d" "cn_txn d = Some t"
    by (auto simp: txns_def conn_txns_def conn_at_def in_set_conv_nth split: option.splits) metis
  have ji: "j \<noteq> i" using j assms(3,4) by (auto simp: waits_def conn_session_def)
  have "conn_at s' i = Some c \<and> \<not> waits v line (conn_session s' c)"
    if h: "newline \<notin> set (cn_in d)" "serve v (Hangup j) s = (Inr (), s')" for s'
  proof -
    have l: "leave j (conn_session s d) s = (Inr (), s')" using h j(1) by simp
    have "session_ok (conn_session s d)" using conn_session_turn [OF ok j(1)] j(2) by simp
    then have "\<not> st_locked (sv_store s')"
      using l j(2) unlocked(2)
      by (auto simp: leave_def sess_Close_def session_ok_def conn_session_def split: prod.splits sum.splits if_splits)
    moreover have "conn_at s' i = Some c" using l ji assms(3) by (auto simp: leave_def conn_at_def split: prod.splits if_splits)
    ultimately show ?thesis by (simp add: waits_def conn_session_def)
  qed
  then show ?thesis using ji j by (auto simp: waits_def conn_session_def intro!: exI [of _ j] exI [of _ d])
qed

theorem waiting_is_served_witness:
  "\<exists>s s' c. each (serve ascii_env) two_clients (listening idle_store) = (Inr (), s) \<and> serve ascii_env (Hangup 0) s = (Inr (), s') \<and>
     conn_at s 1 = Some c \<and> conn_at s' 1 = Some c \<and> waits ascii_env (''BEGIN'' @ [newline]) (conn_session s c) \<and>
     \<not> waits ascii_env (''BEGIN'' @ [newline]) (conn_session s' c)"
proof -
  let ?c = "\<lparr>cn_in = ''BEGIN'' @ [newline], cn_out = [], cn_txn = None\<rparr>"
  obtain st t where r: "each (serve ascii_env) two_clients (listening idle_store) = (Inr (), \<lparr>sv_store = st, sv_listener = Listening,
      sv_conns = [Some \<lparr>cn_in = [], cn_out = begun, cn_txn = Some t\<rparr>, Some ?c]\<rparr>)" (is "_ = (Inr (), ?s)")
    "st_locked st" "sess_Close \<lparr>se_store = st, se_txn = Some t\<rparr> = (Inr (), \<lparr>se_store = fst (snd (txn_Rollback (st, t))), se_txn = None\<rparr>)"
    by (rule two_clients_run)
  have f: "\<not> st_locked idle_store" by (simp add: idle_store_def)
  have c: "conn_at ?s 1 = Some ?c" by (simp add: conn_at_def)
  have w: "waits ascii_env (''BEGIN'' @ [newline]) (conn_session ?s ?c)"
    using r(2) read_begin(3) parse_begin by (simp add: waits_def conn_session_def takes_lock_def)
  from waiting_is_served [OF f r(1) c w] obtain j d where j: "j \<noteq> 1" "conn_at ?s j = Some d"
    "\<And>s'. newline \<notin> set (cn_in d) \<Longrightarrow> serve ascii_env (Hangup j) ?s = (Inr (), s') \<Longrightarrow>
       conn_at s' 1 = Some ?c \<and> \<not> waits ascii_env (''BEGIN'' @ [newline]) (conn_session s' ?c)"
    by blast
  have j0: "j = 0" "newline \<notin> set (cn_in d)" using j(1,2) by (auto simp: conn_at_def nth_Cons split: if_splits nat.splits)
  obtain s' where "serve ascii_env (Hangup 0) ?s = (Inr (), s')" using r(3) by (simp add: conn_at_def leave_def conn_session_def)
  with j(3) [OF j0(2), of s'] j0(1) r(1) c w show ?thesis by blast
qed

section \<open>The end\<close>

text \<open>
  When \<^verbatim>\<open>ListenAndServe\<close> returns after the listener was closed, no connection is left and the lock is free, so that
  the program closes a store without a transaction.
\<close>

lemma ListenAndServe_unlocked:
  assumes "\<not> st_locked store" "ListenAndServe v ln evs (server_New store) = (Inr (), s)"
  shows "\<not> st_locked (sv_store s) \<and> served s"
proof -
  have ok: "server_ok s" "served s"
    using accept_loop_ok [OF listening_ok [OF assms(1)]] assms(2) by (auto simp: ListenAndServe_def split: option.splits)
  have "txns s = []" using ok(2) by (auto simp: served_def txns_def list_all_iff)
  with ok show ?thesis by (auto simp: server_ok_def split: if_splits)
qed

text \<open>A signal that comes before the listener is there has no effect.\<close>

lemma early_Close: "server_Close (server_New store) = (Inr (), server_New store)"
  by (simp add: server_Close_def server_New_def)

end
