(* ===== verification/Client.thy ===== *)
theory Client
  imports Server
begin

text \<open>
  The command line client (\<^verbatim>\<open>cmd/eleonesql/main.go\<close>): the reader of statements, and what is printed for them when
  the client opens the files itself and when it is connected to a server.  What a program prints is a list of
  texts for its two output streams; the layout of \<^verbatim>\<open>text/tabwriter\<close> is a parameter, a function of the text
  written to it.
\<close>

section \<open>Output\<close>

datatype printed = Stdout string | Stderr string

definition emit :: "printed list \<Rightarrow> ('s \<times> printed list, unit) sm" where
  "emit os st = (case st of (s, out) \<Rightarrow> (Inr (), (s, out @ os)))"

record client_env =
  ce_server :: server_env
  ce_layout :: "string \<Rightarrow> string"

definition print_rows :: "client_env \<Rightarrow> string list \<Rightarrow> string list list \<Rightarrow> printed list" where
  "print_rows ce cols rows =
     [Stdout (ce_layout ce (concat (map (\<lambda>cells. Join cells tab @ [newline]) (cols # rows)))),
      Stdout (''('' @ FormatInt (int (length rows)) @ '' rows)'' @ [newline])]"

definition print_status :: "int \<Rightarrow> string \<Rightarrow> printed list" where
  "print_status n msg = [Stdout (''OK ('' @ FormatInt n @ '' rows affected) '' @ msg @ [newline])]"

definition print_error :: "string \<Rightarrow> string \<Rightarrow> printed list" where
  "print_error what msg = [Stderr (what @ '' '' @ msg @ [newline])]"

definition embedded_greeting :: "string \<Rightarrow> printed" where
  "embedded_greeting dataPath = Stdout (''EleoneSQL embedded session on '' @ dataPath @ '' (type 'exit;' to quit)'' @ [newline])"

definition connected_greeting :: "string \<Rightarrow> printed" where
  "connected_greeting addr = Stdout (''Connected to EleoneSQL at '' @ addr @ '' (type 'exit;' to quit)'' @ [newline])"

definition printLocalResult :: "client_env \<Rightarrow> Result \<Rightarrow> printed list" where
  "printLocalResult ce res =
     (case rColumns res of
        None \<Rightarrow> print_status (rRowsAffected res) (rMessage res)
      | Some cols \<Rightarrow> print_rows ce cols
          (map (ValueStrings (v_float (ce_server ce))) (case rRows res of None \<Rightarrow> [] | Some rows \<Rightarrow> rows)))"

definition printRemoteResult :: "client_env \<Rightarrow> ClientResult \<Rightarrow> printed list" where
  "printRemoteResult ce res =
     (if crErr res \<noteq> [] then print_error ''error:'' (crErr res)
      else if crColumns res = None \<and> crRows res = None then print_status (crRowsAffected res) (crMessage res)
      else print_rows ce (case crColumns res of None \<Rightarrow> [] | Some cols \<Rightarrow> cols) (case crRows res of None \<Rightarrow> [] | Some rows \<Rightarrow> rows))"

section \<open>Package strings and bufio\<close>

fun ToLower :: "string \<Rightarrow> string" where
  "ToLower [] = []"
| "ToLower [c] = [if 65 \<le> (of_char c :: nat) \<and> (of_char c :: nat) \<le> 90 then char_of ((of_char c :: nat) + 32) else c]"
| "ToLower (c # d # cs) =
     (if c = CHR 0xC4 \<and> d = CHR 0xB0 then CHR ''i'' # ToLower cs
      else (if 65 \<le> (of_char c :: nat) \<and> (of_char c :: nat) \<le> 90 then char_of ((of_char c :: nat) + 32) else c) # ToLower (d # cs))"

definition HasSuffix :: "string \<Rightarrow> string \<Rightarrow> bool" where
  "HasSuffix s suf \<longleftrightarrow> length suf \<le> length s \<and> drop (length s - length suf) s = suf"

definition TrimSuffix :: "string \<Rightarrow> string \<Rightarrow> string" where
  "TrimSuffix s suf = (if HasSuffix s suf then take (length s - length suf) s else s)"

text \<open>
  The lines a \<^verbatim>\<open>bufio.Scanner\<close> finds in its input, without their ends; it stops at a line that does not fit the
  buffer of one megabyte.
\<close>

function scan_lines :: "string \<Rightarrow> string list" where
  "scan_lines inp =
     (let line = takeWhile (\<lambda>c. c \<noteq> newline) inp
      in if inp = [] \<or> 1024 * 1024 \<le> length line then []
         else TrimSuffix line [CHR 0x0D] # scan_lines (tl (dropWhile (\<lambda>c. c \<noteq> newline) inp)))"
  by pat_completeness auto
termination
proof (relation "measure length")
  show "(tl (dropWhile (\<lambda>c. c \<noteq> newline) inp), inp) \<in> measure length"
    if "\<not> (inp = [] \<or> 1024 * 1024 \<le> length line)" for inp line :: string
    using that length_dropWhile_le [of "\<lambda>c. c \<noteq> newline" inp] by (cases inp) (auto simp: le_imp_less_Suc diff_le_mono le_trans [OF diff_le_self])
qed simp

declare scan_lines.simps [simp del]

section \<open>The reader\<close>

text \<open>
  \<^verbatim>\<open>repl\<close> on the lines of its input, with the function it hands statements to; \<open>buf\<close> is the statement being typed.
\<close>

fun repl_loop :: "unicode \<Rightarrow> (string \<Rightarrow> ('s \<times> printed list, unit) sm) \<Rightarrow> string \<Rightarrow> string list \<Rightarrow> ('s \<times> printed list, unit) sm" where
  "repl_loop u run buf [] = ret ()"
| "repl_loop u run buf (line # lines) =
     (let trimmed = TrimSpace u line; lower = ToLower (TrimSuffix trimmed '';'')
      in if buf = [] \<and> (lower = ''exit'' \<or> lower = ''quit'') then ret ()
         else
           (let buf = buf @ line @ '' ''
            in if HasSuffix trimmed '';'' then
                 (let sql = TrimSpace u buf
                  in bind (if sql \<noteq> [] then run sql else ret ()) (\<lambda>_.
                     bind (emit [Stdout ''eleonesql> '']) (\<lambda>_. repl_loop u run [] lines)))
               else bind (emit [Stdout ''        -> '']) (\<lambda>_. repl_loop u run buf lines)))"

definition repl :: "unicode \<Rightarrow> (string \<Rightarrow> ('s \<times> printed list, unit) sm) \<Rightarrow> string \<Rightarrow> ('s \<times> printed list, unit) sm" where
  "repl u run stdin = bind (emit [Stdout ''eleonesql> '']) (\<lambda>_. repl_loop u run [] (scan_lines stdin))"

section \<open>In process\<close>

text \<open>The function given to \<^verbatim>\<open>repl\<close>, on the session.\<close>

definition run_local :: "client_env \<Rightarrow> string \<Rightarrow> (Session \<times> printed list, unit) sm" where
  "run_local ce sql st =
     (let v = ce_server ce
      in case st of (se, out) \<Rightarrow>
        (case Execute (v_unicode v) (v_order v) sql se of
           (Inl e, se) \<Rightarrow> (if stops e then (Inl e, (se, out)) else emit (print_error ''error:'' (v_error v e)) (se, out))
         | (Inr res, se) \<Rightarrow> emit (printLocalResult ce res) (se, out)))"

text \<open>
  \<^verbatim>\<open>runEmbedded\<close> on files given by the contents of each name, a data file that is not there being created empty: how the program ends, the store it leaves (none when the files could
  not be opened), and what it printed.  \<^verbatim>\<open>os.Exit\<close> skips the deferred close of the store.
\<close>

definition runEmbedded ::
    "client_env \<Rightarrow> (pending \<Rightarrow> pending) \<Rightarrow> (string \<Rightarrow> bytes option) \<Rightarrow> string \<Rightarrow> string \<Rightarrow> string \<Rightarrow> string \<Rightarrow>
       unit result \<times> Store option \<times> printed list" where
  "runEmbedded ce order files dataPath walPath execOnly stdin =
     (let v = ce_server ce; walPath = (if walPath = [] then dataPath @ ''.wal'' else walPath);
          data = (case files dataPath of None \<Rightarrow> [] | Some data \<Rightarrow> data); close = (\<lambda>(r, (se, out)). (r, Some (snd (store_Close (se_store se))), out))
      in case txn_Open order data (files walPath) of
           Inl e \<Rightarrow> (Inl (if stops e then e else ExitStatus 1), None, print_error ''eleonesql:'' (v_error v e))
         | Inr store \<Rightarrow>
             if execOnly \<noteq> [] then
               (case Execute (v_unicode v) (v_order v) execOnly (NewSession store) of
                  (Inl e, se) \<Rightarrow> (Inl (if stops e then e else ExitStatus 1), Some (se_store se), print_error ''error:'' (v_error v e))
                | (Inr res, se) \<Rightarrow> close (Inr (), (se, printLocalResult ce res)))
             else
               (case bind (emit [embedded_greeting dataPath])
                       (\<lambda>_. repl (v_unicode v) (run_local ce) stdin) (NewSession store, []) of
                  (Inl e, (se, out)) \<Rightarrow> (Inl e, Some (se_store se), out)
                | (Inr _, st) \<Rightarrow> close (Inr (), st)))"

section \<open>Connected\<close>

text \<open>
  The other end of a connection is a parameter: what it sends back for a text it is sent, and whether it closes the
  connection then.  A read that finds no complete line waits for one unless the connection is closed.
\<close>

type_synonym 'p peer = "string \<Rightarrow> 'p \<Rightarrow> (string \<times> bool) \<times> 'p"

record 'p link =
  lk_peer :: 'p
  lk_unread :: string
  lk_closed :: bool

definition send :: "'p peer \<Rightarrow> string \<Rightarrow> ('p link, ClientResult) sm" where
  "send peer sql k =
     (case (if lk_closed k then (([], True), lk_peer k) else peer (sql @ [newline]) (lk_peer k)) of
        ((sent, shut), p) \<Rightarrow>
          (case ReadResult (lk_unread k @ sent) of
             (r, rest) \<Rightarrow> (if r = Inl ErrEOF \<and> \<not> shut then Inl Diverges else r,
               \<lparr>lk_peer = p, lk_unread = rest, lk_closed = shut\<rparr>)))"

definition run_remote :: "client_env \<Rightarrow> 'p peer \<Rightarrow> string \<Rightarrow> ('p link \<times> printed list, unit) sm" where
  "run_remote ce peer sql st =
     (case st of (k, out) \<Rightarrow>
        (case send peer sql k of
           (Inl e, k) \<Rightarrow>
             (if stops e then (Inl e, (k, out))
              else (Inl (ExitStatus 1), (k, out @ print_error ''connection error:'' (v_error (ce_server ce) e))))
         | (Inr res, k) \<Rightarrow> emit (printRemoteResult ce res) (k, out)))"

text \<open>\<^verbatim>\<open>runNetworked\<close>; \<open>dial\<close> is the connection or the error of \<^verbatim>\<open>net.Dial\<close>.\<close>

definition runNetworked ::
    "client_env \<Rightarrow> string \<Rightarrow> 'p peer \<Rightarrow> 'p result \<Rightarrow> string \<Rightarrow> string \<Rightarrow> unit result \<times> printed list" where
  "runNetworked ce addr peer dial execOnly stdin =
     (let v = ce_server ce
      in case dial of
           Inl e \<Rightarrow> (Inl (ExitStatus 1), print_error ''eleonesql: could not connect to'' (addr @ '' - '' @ v_error v e))
         | Inr p \<Rightarrow>
             (let k = \<lparr>lk_peer = p, lk_unread = [], lk_closed = False\<rparr>
              in if execOnly \<noteq> [] then
                   (case send peer execOnly k of
                      (Inl e, k) \<Rightarrow> (if stops e then (Inl e, []) else (Inl (ExitStatus 1), print_error ''error:'' (v_error v e)))
                    | (Inr res, k) \<Rightarrow> (if crErr res \<noteq> [] then Inl (ExitStatus 1) else Inr (), printRemoteResult ce res))
                 else
                   (case bind (emit [connected_greeting addr])
                           (\<lambda>_. repl (v_unicode v) (run_remote ce peer) stdin) (k, []) of
                      (r, (k, out)) \<Rightarrow> (r, out))))"

section \<open>The program\<close>

record flags =
  fl_addr :: string
  fl_embed :: string
  fl_embedWAL :: string
  fl_c :: string

text \<open>
  \<^verbatim>\<open>main\<close> with its flags parsed.
\<close>

definition client_main ::
    "client_env \<Rightarrow> (pending \<Rightarrow> pending) \<Rightarrow> flags \<Rightarrow> (string \<Rightarrow> bytes option) \<Rightarrow> 'p peer \<Rightarrow> (string \<Rightarrow> 'p result) \<Rightarrow> string \<Rightarrow>
       unit result \<times> Store option \<times> printed list" where
  "client_main ce order fl files peer dial stdin =
     (if fl_embed fl \<noteq> [] then
        runEmbedded ce order files (fl_embed fl) (fl_embedWAL fl) (fl_c fl) stdin
      else
        (case runNetworked ce (fl_addr fl) peer (dial (fl_addr fl)) (fl_c fl) stdin of (r, out) \<Rightarrow> (r, None, out)))"

end
