(* ===== verification/Runes.thy ===== *)
theory Runes
  imports Client
begin

text \<open>
  \<^verbatim>\<open>TrimSpace\<close> on texts of any bytes: how a text falls into runes when it is cut or continued, and what is left when
  a text that was trimmed is trimmed again.
\<close>

section \<open>Runes of parts of a text\<close>

lemma decode_rune_le: "bs \<noteq> [] \<Longrightarrow> snd (decode_rune bs) \<le> length bs"
  by (cases bs) (auto simp: decode_rune_def Let_def split: list.split)

lemma decode_rune_ascii: "bs \<noteq> [] \<Longrightarrow> c < 0x80 \<Longrightarrow> decode_rune (bs @ c # cs) = decode_rune bs"
  by (cases bs) (auto simp: decode_rune_def Let_def cont_def Cons_eq_append_conv split: list.split)

text \<open>The runes of two, three and four bytes.\<close>

definition rune2 :: "nat \<Rightarrow> nat \<Rightarrow> rune option" where
  "rune2 a b = (let r = (a mod 0x20) * 64 + b mod 64 in if cont b \<and> 0x7F < r then Some r else None)"

definition rune3 :: "nat \<Rightarrow> nat \<Rightarrow> nat \<Rightarrow> rune option" where
  "rune3 a b c = (let r = (a mod 0x10) * 4096 + (b mod 64) * 64 + c mod 64 in if cont b \<and> cont c \<and> 0x7FF < r \<and> \<not> surrogate r then Some r else None)"

definition rune4 :: "nat \<Rightarrow> nat \<Rightarrow> nat \<Rightarrow> nat \<Rightarrow> rune option" where
  "rune4 a b c d = (let r = (a mod 8) * 262144 + (b mod 64) * 4096 + (c mod 64) * 64 + d mod 64
     in if cont b \<and> cont c \<and> cont d \<and> 0xFFFF < r \<and> r \<le> 0x10FFFF then Some r else None)"

definition long_rune :: "nat \<Rightarrow> rune option \<Rightarrow> rune \<times> nat" where
  "long_rune n x = (case x of None \<Rightarrow> (RuneError, 1) | Some r \<Rightarrow> (r, n))"

lemma decode_rune_long:
  "decode_rune (a # s) =
     (if a < 0x80 then (a, 1)
      else if 0xC0 \<le> a \<and> a < 0xE0 then (case s of b # _ \<Rightarrow> long_rune 2 (rune2 a b) | _ \<Rightarrow> (RuneError, 1))
      else if 0xE0 \<le> a \<and> a < 0xF0 then (case s of b # c # _ \<Rightarrow> long_rune 3 (rune3 a b c) | _ \<Rightarrow> (RuneError, 1))
      else if 0xF0 \<le> a \<and> a < 0xF8 then (case s of b # c # d # _ \<Rightarrow> long_rune 4 (rune4 a b c d) | _ \<Rightarrow> (RuneError, 1))
      else (RuneError, 1))"
  unfolding decode_rune_def list.case Let_def rune2_def rune3_def rune4_def long_rune_def
  by (simp only: if_distrib [where f = "case_option _ _"] option.case)

lemma decode_rune_prefix:
  assumes "as \<noteq> []" "snd (decode_rune (as @ bs)) \<le> length as"
  shows "decode_rune as = decode_rune (as @ bs)"
proof -
  consider a where "as = [a]" | a b where "as = [a, b]" | a b c where "as = [a, b, c]" | a b c d ds where "as = a # b # c # d # ds"
    using assms(1) by (metis list.exhaust)
  then show ?thesis
    using assms(2) by cases (auto simp: decode_rune_long long_rune_def split: list.splits if_splits option.splits)
qed

lemma rune_parts_Nil [simp]: "rune_parts [] = []"
  by (simp add: rune_parts.simps)

lemma rune_parts_ascii:
  "(of_char c :: nat) < 0x80 \<Longrightarrow> rune_parts (s @ c # t) = rune_parts s @ (of_char c, [c]) # rune_parts t"
proof (induction s rule: rune_parts.induct)
  case (1 s)
  show ?case
  proof (cases "s = []")
    case True
    then show ?thesis using 1(2) by (simp add: rune_parts.simps [of "c # t"] decode_rune_def)
  next
    case False
    obtain r n where d: "decode_rune (map of_char s) = (r, n)" by fastforce
    then have "n \<le> length s" using decode_rune_le [of "map of_char s"] False by simp
    moreover have "decode_rune (map of_char (s @ c # t)) = (r, n)"
      using decode_rune_ascii [of "map of_char s" "of_char c"] d False 1(2) by simp
    ultimately show ?thesis
      using "1.IH" [OF False d [symmetric]] 1(2) d False by (simp add: rune_parts.simps [of "s @ c # t"] rune_parts.simps [of s])
  qed
qed

lemma concat_rune_parts [simp]: "concat (map snd (rune_parts s)) = s"
proof (induction s rule: rune_parts.induct)
  case (1 s)
  then show ?case by (cases "s = []") (auto simp: rune_parts.simps [of s] split: prod.split)
qed

lemma rune_parts_nonempty: "p \<in> set (rune_parts s) \<Longrightarrow> snd p \<noteq> []"
proof (induction s rule: rune_parts.induct)
  case (1 s)
  then show ?case
    using decode_rune_pos [of "map of_char s"] by (cases "s = []"; cases "decode_rune (map of_char s)") (auto simp: rune_parts.simps [of s])
qed

lemma rune_parts_Cons:
  assumes "rune_parts s = (r, p) # ps"
  shows "s = p @ concat (map snd ps)" "p \<noteq> []" "decode_rune (map of_char s) = (r, length p)" "rune_parts (concat (map snd ps)) = ps"
proof -
  have s: "s \<noteq> []" using assms by auto
  show e: "s = p @ concat (map snd ps)" using arg_cong [OF assms, of "\<lambda>q. concat (map snd q)"] by simp
  obtain n where d: "decode_rune (map of_char s) = (r, n)" "p = take n s" "ps = rune_parts (drop n s)"
    using assms s by (auto simp: rune_parts.simps [of s] split: prod.splits)
  then have n: "n \<le> length s" "0 < n" using decode_rune_le [of "map of_char s"] decode_rune_pos [of "map of_char s"] s by simp_all
  then show "p \<noteq> []" "decode_rune (map of_char s) = (r, length p)" "rune_parts (concat (map snd ps)) = ps" using d s by auto
qed

lemma rune_parts_suffix: "rune_parts s = xs @ ys \<Longrightarrow> rune_parts (concat (map snd ys)) = ys"
proof (induction xs arbitrary: s)
  case Nil
  then show ?case by (metis append_Nil concat_rune_parts)
next
  case (Cons x xs)
  then show ?case using rune_parts_Cons(4) [of s "fst x" "snd x" "xs @ ys"] by simp
qed

lemma rune_parts_prefix: "rune_parts s = xs @ ys \<Longrightarrow> rune_parts (concat (map snd xs)) = xs"
proof (induction xs arbitrary: s)
  case (Cons x xs)
  obtain r p where x: "x = (r, p)" by fastforce
  let ?xs = "concat (map snd xs)" and ?ys = "concat (map snd ys)"
  note R = rune_parts_Cons [of s r p "xs @ ys"]
  have s: "s = p @ ?xs @ ?ys" "p \<noteq> []" "decode_rune (map of_char s) = (r, length p)" "rune_parts (?xs @ ?ys) = xs @ ys"
    using R Cons.prems x by simp_all
  have "decode_rune (map of_char (p @ ?xs)) = (r, length p)"
    using decode_rune_prefix [of "map of_char (p @ ?xs)" "map of_char ?ys"] s by simp
  then show ?case using x s(2) Cons.IH [OF s(4)] by (simp add: rune_parts.simps [of "p @ ?xs"])
qed simp

section \<open>Trimming lists\<close>

definition rstrip :: "('a \<Rightarrow> bool) \<Rightarrow> 'a list \<Rightarrow> 'a list" where
  "rstrip f xs = rev (dropWhile f (rev xs))"

lemma rstrip_append: "rstrip f (xs @ ys) = (if list_all f ys then rstrip f xs else xs @ rstrip f ys)"
  by (auto simp: rstrip_def list_all_iff dropWhile_append)

lemma rstrip_split: obtains ys where "xs = rstrip f xs @ ys"
  using takeWhile_dropWhile_id [of f "rev xs"] that unfolding rstrip_def by (metis rev_append rev_rev_ident)

lemma rstrip_last: "rstrip f xs \<noteq> [] \<Longrightarrow> \<not> f (last (rstrip f xs))"
  using hd_dropWhile [of f "rev xs"] by (auto simp: rstrip_def last_rev)

lemma rstrip_idem: "rstrip f (rstrip f xs) = rstrip f xs"
  by (simp add: rstrip_def)

lemma dropWhile_self_append: "dropWhile f xs = xs \<Longrightarrow> xs \<noteq> [] \<Longrightarrow> dropWhile f (xs @ ys) = xs @ ys"
  by (simp add: dropWhile_eq_self_iff)

lemma dropWhile_strip: "dropWhile f (rstrip f (dropWhile f xs)) = rstrip f (dropWhile f xs)"
proof (cases "rstrip f (dropWhile f xs)")
  case (Cons y ys)
  obtain zs where "dropWhile f xs = rstrip f (dropWhile f xs) @ zs" by (rule rstrip_split)
  then have "dropWhile f xs = y # ys @ zs" using Cons by simp
  then have "\<not> f y" by (metis dropWhile_eq_Cons_conv)
  then show ?thesis using Cons by simp
qed simp

lemma last_strip:
  assumes "\<not> list_all f ys"
  shows "rstrip f (dropWhile f (xs @ ys)) \<noteq> [] \<and> last (rstrip f (dropWhile f (xs @ ys))) = last (rstrip f (dropWhile f ys))"
proof -
  have r: "\<exists>zs. rstrip f ys = zs @ rstrip f (dropWhile f ys)" "rstrip f (dropWhile f ys) \<noteq> []"
  proof -
    have "\<not> list_all f (dropWhile f ys)" using assms hd_dropWhile [of f ys] hd_in_set [of "dropWhile f ys"]
      by (metis dropWhile_eq_Nil_conv list_all_iff)
    then show "rstrip f (dropWhile f ys) \<noteq> []" "\<exists>zs. rstrip f ys = zs @ rstrip f (dropWhile f ys)"
      using rstrip_append [of f "takeWhile f ys" "dropWhile f ys"] by (auto simp: rstrip_def list_all_iff)
  qed
  have "dropWhile f (xs @ ys) = (if list_all f xs then dropWhile f ys else dropWhile f xs @ ys)"
    by (auto simp: dropWhile_append list_all_iff)
  then show ?thesis using r assms by (auto simp: rstrip_append)
qed

section \<open>TrimSpace\<close>

abbreviation space_part :: "unicode \<Rightarrow> rune \<times> string \<Rightarrow> bool" where
  "space_part u \<equiv> \<lambda>(r, _). IsSpace u r"

abbreviation trimmed_parts :: "unicode \<Rightarrow> string \<Rightarrow> (rune \<times> string) list" where
  "trimmed_parts u s \<equiv> rstrip (space_part u) (dropWhile (space_part u) (rune_parts s))"

lemma TrimSpace_parts: "TrimSpace u s = concat (map snd (trimmed_parts u s))"
  by (simp add: TrimSpace_def rstrip_def Let_def)

lemma rune_parts_TrimSpace: "rune_parts (TrimSpace u s) = trimmed_parts u s"
proof -
  obtain ys where "dropWhile (space_part u) (rune_parts s) = trimmed_parts u s @ ys" by (rule rstrip_split)
  moreover have "rune_parts s = takeWhile (space_part u) (rune_parts s) @ dropWhile (space_part u) (rune_parts s)" by simp
  ultimately show ?thesis using rune_parts_suffix rune_parts_prefix by (metis TrimSpace_parts)
qed

lemma set_TrimSpace: "set (TrimSpace u s) \<subseteq> set s"
proof -
  have "set (trimmed_parts u s) \<subseteq> set (rune_parts s)" by (auto simp: rstrip_def dest!: set_dropWhileD)
  then have "set (concat (map snd (trimmed_parts u s))) \<subseteq> set (concat (map snd (rune_parts s)))" unfolding set_concat set_map by blast
  then show ?thesis by (simp only: TrimSpace_parts concat_rune_parts)
qed

lemma TrimSpace_newline: "TrimSpace u (TrimSpace u s @ [newline]) = TrimSpace u s"
proof -
  let ?sp = "space_part u" and ?t = "TrimSpace u s"
  have "rune_parts (?t @ [newline]) = rune_parts ?t @ [(10, [newline])]" using rune_parts_ascii [of newline ?t "[]"] by simp
  moreover have "dropWhile ?sp (rune_parts ?t) = rune_parts ?t" unfolding rune_parts_TrimSpace by (rule dropWhile_strip)
  moreover have "rstrip ?sp (rune_parts ?t) = rune_parts ?t" unfolding rune_parts_TrimSpace by (rule rstrip_idem)
  moreover have "list_all ?sp [(10, [newline])]" by (simp add: IsSpace_def)
  moreover have "rstrip ?sp (dropWhile ?sp ([] @ [(10, [newline])])) = []" by (simp add: IsSpace_def rstrip_def)
  ultimately have "trimmed_parts u (?t @ [newline]) = rune_parts ?t"
    by (cases "rune_parts ?t = []") (simp_all add: rstrip_append dropWhile_self_append)
  then show ?thesis by (simp add: TrimSpace_parts [of u "?t @ [newline]"])
qed

text \<open>A text that is continued by a space after it was trimmed at its end keeps its last character.\<close>

lemma last_TrimSpace:
  assumes "TrimSpace u line \<noteq> []" "buf = [] \<or> last buf = CHR '' ''"
  shows "TrimSpace u (buf @ line @ '' '') \<noteq> [] \<and> last (TrimSpace u (buf @ line @ '' '')) = last (TrimSpace u line)"
proof -
  let ?sp = "space_part u" and ?p = "rune_parts line"
  have sp: "(of_char (CHR '' '') :: nat) < 0x80" by simp
  have b: "rune_parts (buf @ line @ '' '') = rune_parts buf @ ?p @ [(32, '' '')]"
  proof (cases "buf = []")
    case True
    then show ?thesis using rune_parts_ascii [OF sp, of line "[]"] by simp
  next
    case False
    then obtain b0 where "buf = b0 @ '' ''" using assms(2) by (metis append_butlast_last_id)
    then show ?thesis using rune_parts_ascii [OF sp] by simp
  qed
  have ne: "trimmed_parts u line \<noteq> []" using assms(1) by (auto simp: TrimSpace_parts)
  then have n: "\<not> list_all ?sp ?p" by (metis dropWhile_eq_Nil_conv list_all_iff rev.simps(1) rstrip_def dropWhile.simps(1))
  let ?q = "rstrip ?sp (dropWhile ?sp (rune_parts buf @ ?p))"
  have q: "?q \<noteq> []" "last ?q = last (trimmed_parts u line)" using last_strip [OF n] by auto
  have "trimmed_parts u (buf @ line @ '' '') = ?q"
    using n by (auto simp: b dropWhile_append rstrip_append IsSpace_def list_all_iff)
  then have t: "TrimSpace u (buf @ line @ '' '') = concat (map snd ?q)" by (simp only: TrimSpace_parts)
  have "last (trimmed_parts u line) \<in> set ?p" using last_in_set [OF ne] by (auto simp: rstrip_def dest!: set_dropWhileD)
  then have "snd (last (trimmed_parts u line)) \<noteq> []" by (rule rune_parts_nonempty)
  moreover have "last (concat (map snd xs)) = last (snd (last xs)) \<and> concat (map snd xs) \<noteq> []"
    if "xs \<noteq> []" "snd (last xs) \<noteq> []" for xs :: "(rune \<times> string) list"
    using that by (induction xs rule: rev_induct) auto
  ultimately show ?thesis using q ne t TrimSpace_parts [of u line] by simp
qed

end
