(* ===== verification/WireProps.thy ===== *)
theory WireProps
  imports Wire
begin

text \<open>The client reads what the server wrote.\<close>

section \<open>Strings\<close>

lemma Split_plain: "sep \<notin> set s \<Longrightarrow> Split s sep = [s]"
  by (induction s) auto

lemma Split_sep: "sep \<notin> set s \<Longrightarrow> Split (s @ sep # t) sep = s # Split t sep"
  by (induction s) auto

lemma Split_Join: "ss \<noteq> [] \<Longrightarrow> \<forall>s\<in>set ss. sep \<notin> set s \<Longrightarrow> Split (Join ss sep) sep = ss"
  by (induction ss sep rule: Join.induct) (auto simp: Split_plain Split_sep)

lemma set_Join: "set (Join ss sep) \<subseteq> insert sep (\<Union>s\<in>set ss. set s)"
  by (induction ss sep rule: Join.induct) auto

lemma Join_Nil: "Join ss sep = [] \<longleftrightarrow> ss = [] \<or> ss = [[]]"
  by (induction ss sep rule: Join.induct) auto

lemma HasPrefix_append [simp]: "HasPrefix (pre @ s) pre"
  by (simp add: HasPrefix_def)

lemma TrimPrefix_append [simp]: "TrimPrefix (pre @ s) pre = s"
  by (simp add: TrimPrefix_def)

lemma takeWhile_line: "newline \<notin> set l \<Longrightarrow> takeWhile (\<lambda>c. c \<noteq> newline) (l @ newline # rest) = l"
  "newline \<notin> set l \<Longrightarrow> dropWhile (\<lambda>c. c \<noteq> newline) (l @ newline # rest) = newline # rest"
  by (induction l) auto

lemma ReadString_line: "newline \<notin> set l \<Longrightarrow> ReadString (l @ newline # rest) = (Inr (l @ [newline]), rest)"
  by (simp add: ReadString_def takeWhile_line)

lemma TrimRight_line: "newline \<notin> set l \<Longrightarrow> TrimRight (l @ [newline]) newline = l"
  by (simp add: TrimRight_def) (metis dropWhile_eq_self_iff hd_in_set rev_rev_ident set_rev)

lemma read_line_line: "newline \<notin> set l \<Longrightarrow> read_line (l @ newline # rest) = (Inr l, rest)"
  by (simp add: read_line_def bind_def ReadString_line TrimRight_line)

section \<open>Numbers\<close>

lemma digit_code: "d < 10 \<Longrightarrow> of_char (digit d) = 48 + d"
  by (simp add: digit_def)

lemma decimal_snoc: "decimal (s @ [c]) = 10 * decimal s + (of_char c - 48)"
  by (simp add: decimal_def)

lemma decimal_decimal_text: "decimal (decimal_text n) = n"
proof (induction n rule: decimal_text.induct)
  case (1 n)
  show ?case
  proof (cases "n < 10")
    case True
    then show ?thesis by (simp add: decimal_text.simps [of n] decimal_def digit_code)
  next
    case False
    then show ?thesis using 1 by (simp add: decimal_text.simps [of n] decimal_snoc digit_code)
  qed
qed

lemma decimal_text_digits: "decimal_text n \<noteq> [] \<and> list_all digit_char (decimal_text n)"
proof (induction n rule: decimal_text.induct)
  case (1 n)
  then show ?case
    by (cases "n < 10") (auto simp: decimal_text.simps [of n] digit_char_def digit_code)
qed

lemma digit_not: "digit_char c \<Longrightarrow> c \<notin> {newline, CHR '' '', CHR ''-'', CHR ''+'', tab}"
  by (auto simp: digit_char_def)

lemma decimal_text_plain: "c \<in> set (decimal_text n) \<Longrightarrow> c \<notin> {newline, CHR '' '', CHR ''-'', CHR ''+'', tab}"
  using decimal_text_digits [of n] by (intro digit_not) (auto simp: list_all_iff)

lemma FormatInt_plain: "c \<in> set (FormatInt i) \<Longrightarrow> c \<notin> {newline, CHR '' '', tab}"
  using decimal_text_plain by (auto simp: FormatInt_def split: if_splits)

lemma Atoi_FormatInt:
  assumes "- (2 ^ 63) \<le> i" "i < 2 ^ 63"
  shows "Atoi (FormatInt i) = i"
proof (cases "i < 0")
  case True
  then show ?thesis using assms decimal_text_digits by (simp add: Atoi_def FormatInt_def Let_def decimal_decimal_text)
next
  case False
  have "hd (decimal_text (nat i)) \<notin> {CHR ''-'', CHR ''+''}"
    using decimal_text_plain [of "hd (decimal_text (nat i))" "nat i"] decimal_text_digits [of "nat i"] by (simp add: hd_in_set)
  then show ?thesis
    using False assms decimal_text_digits [of "nat i"] by (simp add: Atoi_def FormatInt_def Let_def decimal_decimal_text)
qed

lemma SplitN2_sep: "sep \<notin> set s \<Longrightarrow> SplitN2 (s @ sep # t) sep = (s, Some t)"
  by (induction s) (auto simp: SplitN2_def)

section \<open>The round trip\<close>

text \<open>
  What a client can be told: a status with a one-line message, or rows whose column names and
  texts have no tab and no newline, with at least one named column and a
  value in every row.
\<close>

definition plain :: "string \<Rightarrow> bool" where
  "plain s \<longleftrightarrow> tab \<notin> set s \<and> newline \<notin> set s"

fun sendable :: "(float64 \<Rightarrow> string) \<Rightarrow> Result \<Rightarrow> bool" where
  "sendable ff res =
     (case (rColumns res, rRows res) of
        (None, None) \<Rightarrow> newline \<notin> set (rMessage res) \<and> - (2 ^ 63) \<le> rRowsAffected res \<and> rRowsAffected res < 2 ^ 63
      | (Some cols, Some rows) \<Rightarrow> cols \<noteq> [] \<and> cols \<noteq> [[]] \<and> list_all plain cols \<and>
          (\<forall>row\<in>set rows. row \<noteq> [] \<and> list_all plain (ValueStrings ff row))
      | _ \<Rightarrow> False)"

definition client_view :: "(float64 \<Rightarrow> string) \<Rightarrow> Result \<Rightarrow> ClientResult" where
  "client_view ff res =
     (case (rColumns res, rRows res) of
        (Some cols, Some rows) \<Rightarrow> \<lparr>crOK = True, crMessage = [], crRowsAffected = 0, crColumns = Some cols,
          crRows = (if rows = [] then None else Some (map (ValueStrings ff) rows)), crErr = []\<rparr>
      | _ \<Rightarrow> \<lparr>crOK = True, crMessage = rMessage res, crRowsAffected = rRowsAffected res, crColumns = None, crRows = None,
          crErr = []\<rparr>)"

declare sendable.simps [simp del]

lemma plain_Join: "list_all plain ss \<Longrightarrow> newline \<notin> set (Join ss tab)"
  using set_Join [of ss tab] by (auto simp: plain_def list_all_iff)

lemma read_rows_written:
  "\<forall>row\<in>set rows. row \<noteq> [] \<and> list_all plain (ValueStrings ff row) \<Longrightarrow>
   read_rows acc (concat (map (\<lambda>row. ''ROW'' @ [tab] @ Join (ValueStrings ff row) tab @ [newline]) rows) @ ''END'' @ newline # rest) =
     (Inr (acc @ map (ValueStrings ff) rows), rest)"
proof (induction rows arbitrary: acc)
  case Nil
  have "ReadString (''END'' @ newline # rest) = (Inr (''END'' @ [newline]), rest)" by (rule ReadString_line) simp
  moreover have "TrimRight (''END'' @ [newline]) newline = ''END''" by (rule TrimRight_line) simp
  ultimately show ?case by (simp add: read_rows.simps)
next
  case (Cons row rows)
  let ?c = "ValueStrings ff row" and ?l = "''ROW'' @ tab # Join (ValueStrings ff row) tab"
  let ?tl = "concat (map (\<lambda>row. ''ROW'' @ [tab] @ Join (ValueStrings ff row) tab @ [newline]) rows) @ ''END'' @ newline # rest"
  have ok: "list_all plain ?c" "?c \<noteq> []" using Cons.prems by (auto simp: ValueStrings_def)
  have nl: "newline \<notin> set ?l" using plain_Join [OF ok(1)] by simp
  have "Split (TrimPrefix ?l (''ROW'' @ [tab])) tab = ?c"
    using TrimPrefix_append [of "''ROW'' @ [tab]" "Join ?c tab"] Split_Join [of ?c tab] ok by (auto simp: plain_def list_all_iff)
  moreover have "?l \<noteq> ''END''" by simp
  moreover have "ReadString (?l @ newline # ?tl) = (Inr (?l @ [newline]), ?tl)" by (rule ReadString_line [OF nl])
  ultimately have "read_rows acc (?l @ newline # ?tl) = read_rows (acc @ [?c]) ?tl"
    using TrimRight_line [OF nl] by (subst read_rows.simps) (simp add: Let_def)
  then show ?case using Cons by simp
qed

lemma read_written:
  assumes "sendable ff res"
  shows "ReadResult (WriteResult ff res @ rest) = (Inr (client_view ff res), rest)"
proof (cases "rColumns res")
  case None
  then have s: "rRows res = None" "newline \<notin> set (rMessage res)" "Atoi (FormatInt (rRowsAffected res)) = rRowsAffected res"
    using assms Atoi_FormatInt by (auto simp: sendable.simps split: option.splits)
  let ?l = "''OK '' @ FormatInt (rRowsAffected res) @ '' '' @ rMessage res"
  have n: "newline \<notin> set ?l" "CHR '' '' \<notin> set (FormatInt (rRowsAffected res))"
    using s(2) FormatInt_plain by auto
  have "read_line (?l @ newline # rest) = (Inr ?l, rest)" by (rule read_line_line [OF n(1)])
  moreover have "WriteResult ff res @ rest = ?l @ newline # rest" using None s(1) by (simp add: WriteResult_def)
  ultimately show ?thesis
    using None s SplitN2_sep [OF n(2), of "rMessage res"]
    by (simp add: ReadResult_def bind_def HasPrefix_def client_view_def client_result_def)
next
  case (Some cols)
  then obtain rows where r: "rRows res = Some rows" "cols \<noteq> []" "cols \<noteq> [[]]" "list_all plain cols"
    "\<forall>row\<in>set rows. row \<noteq> [] \<and> list_all plain (ValueStrings ff row)"
    using assms by (auto simp: sendable.simps split: option.splits)
  let ?h = "''ROWS '' @ FormatInt (int (length cols))" and ?c = "''COLUMNS'' @ tab # Join cols tab"
  let ?b = "concat (map (\<lambda>row. ''ROW'' @ [tab] @ Join (ValueStrings ff row) tab @ [newline]) rows) @ ''END'' @ newline # rest"
  have "newline \<notin> set ?h" using FormatInt_plain by auto
  from read_line_line [OF this, of "?c @ newline # ?b"]
  have h: "read_line (?h @ newline # ?c @ newline # ?b) = (Inr ?h, ?c @ newline # ?b)" .
  have "newline \<notin> set ?c" using plain_Join [OF r(4)] by simp
  from read_line_line [OF this, of ?b] have c: "read_line (?c @ newline # ?b) = (Inr ?c, ?b)" .
  have "Split (TrimPrefix ?c (''COLUMNS'' @ [tab])) tab = cols"
    using TrimPrefix_append [of "''COLUMNS'' @ [tab]" "Join cols tab"] Split_Join [of cols tab] r(2,4) by (auto simp: plain_def list_all_iff)
  moreover have "?c \<noteq> ''COLUMNS'' @ [tab]" "?c \<noteq> ''COLUMNS''" using Join_Nil [of cols tab] r(2,3) by auto
  moreover have "WriteResult ff res @ rest = ?h @ newline # ?c @ newline # ?b" using Some r(1) by (simp add: WriteResult_def)
  ultimately show ?thesis
    using Some r(1) h c read_rows_written [OF r(5), of "[]" rest]
    by (simp add: ReadResult_def bind_def HasPrefix_def client_view_def client_result_def)
qed

text \<open>
  C22: the client reads every result that is \<open>sendable\<close>, and no more of the connection than
  the response: a status with its count and message, or the column names and the
  rows as the texts of their values.  A result is sendable when no column name and no text of a value has a tab or a newline, there is
  a named column and a value in every row, and a status message is one line with a 64-bit count; \<open>tab_splits_value\<close> shows
  what becomes of others.
\<close>

theorem ReadResult_WriteResult:
  assumes "sendable ff res"
  shows "ReadResult (WriteResult ff res @ rest) = (Inr (client_view ff res), rest)"
  by (rule read_written [OF assms])

theorem ReadResult_WriteResult_witness:
  "ReadResult (WriteResult (\<lambda>_. ''0'') (rowset [''id'', ''name''] [[IntValue 7, TextValue ''ann''], [IntValue 8, NullValue TypeText]]) @ ''OK'') =
     (Inr \<lparr>crOK = True, crMessage = [], crRowsAffected = 0, crColumns = Some [''id'', ''name''],
        crRows = Some [[''7'', ''ann''], [''8'', ''NULL'']], crErr = []\<rparr>, ''OK'')"
proof -
  let ?r = "rowset [''id'', ''name''] [[IntValue 7, TextValue ''ann''], [IntValue 8, NullValue TypeText]]"
  note ev = ZeroValue_def ValueStrings_def Value_String_def IntValue_def TextValue_def NullValue_def FormatInt_def decimal_text.simps digit_def
  have v: "ValueStrings (\<lambda>_. ''0'') [IntValue 7, TextValue ''ann''] = [''7'', ''ann'']"
    "ValueStrings (\<lambda>_. ''0'') [IntValue 8, NullValue TypeText] = [''8'', ''NULL'']"
    by (simp_all add: ev char_of_eq_iff)
  have "sendable (\<lambda>_. ''0'') ?r" by (simp add: sendable.simps rowset_def v plain_def)
  from ReadResult_WriteResult [OF this, of "''OK''"] show ?thesis by (simp add: client_view_def rowset_def v)
qed

text \<open>The condition on tabs is needed: a text with one arrives as two values.\<close>

lemma tab_splits_value:
  "ReadResult (WriteResult ff (rowset [''name''] [[TextValue [CHR ''a'', tab, CHR ''b'']]])) =
     (Inr \<lparr>crOK = True, crMessage = [], crRowsAffected = 0, crColumns = Some [''name''],
        crRows = Some [[''a'', ''b'']], crErr = []\<rparr>, [])"
proof -
  let ?r = "rowset [''name''] [[TextValue [CHR ''a'', tab, CHR ''b'']]]" and ?s = "rowset [''name''] [[TextValue ''a'', TextValue ''b'']]"
  have "WriteResult ff ?r = WriteResult ff ?s"
    by (simp add: WriteResult_def rowset_def ValueStrings_def Value_String_def TextValue_def ZeroValue_def)
  moreover have "sendable ff ?s" by (simp add: sendable.simps rowset_def ValueStrings_def Value_String_def TextValue_def ZeroValue_def plain_def)
  then have "ReadResult (WriteResult ff ?s @ []) = (Inr (client_view ff ?s), [])" by (rule read_written)
  ultimately show ?thesis by (simp add: client_view_def rowset_def ValueStrings_def Value_String_def TextValue_def ZeroValue_def)
qed

end
