(* ===== verification/ClientProps.thy ===== *)
theory ClientProps
  imports Runes SessionProps WireProps OnePage
begin

text \<open>
  The client against the server: over a connection it prints, statement for statement, what it prints when it opens
  the files itself.
\<close>

section \<open>The server's end of a connection\<close>

text \<open>The text \<^verbatim>\<open>handle\<close> sends for a text it is sent, and whether it is done.\<close>

function serve_text :: "server_env \<Rightarrow> string \<Rightarrow> Session \<Rightarrow> (string \<times> bool) \<times> Session" where
  "serve_text v inp s =
     (case ReadString inp of
        (Inl _, _) \<Rightarrow> (([], False), s)
      | (Inr line, rest) \<Rightarrow>
          (case handle_line v line s of
             (Inl _, s) \<Rightarrow> (([], True), s)
           | (Inr None, s) \<Rightarrow> (([], True), s)
           | (Inr (Some reply), s) \<Rightarrow> (case serve_text v rest s of ((out, shut), s) \<Rightarrow> ((reply @ out, shut), s))))"
  by pat_completeness auto
termination
  by (relation "measure (\<lambda>(v, inp, s). length inp)") (auto dest: ReadString_shorter [OF sym])

declare serve_text.simps [simp del]

lemma serve_text_handle:
  "handle_loop v inp out s = (Inr out', s') \<Longrightarrow> \<exists>reply shut. serve_text v inp s = ((reply, shut), s') \<and> out' = out @ reply"
proof (induction v inp out s rule: handle_loop.induct)
  case (1 v inp out s)
  obtain r rest where rd: "ReadString inp = (r, rest)" by fastforce
  show ?case
  proof (cases r)
    case (Inr line)
    obtain r1 s1 where h: "handle_line v line s = (r1, s1)" by fastforce
    then show ?thesis
      using "1.prems" "1.IH" [OF rd [symmetric] Inr h [symmetric]] rd Inr
      by (cases r1) (auto simp: handle_loop.simps [of v inp] serve_text.simps [of v inp] split: option.splits)
  qed (use "1.prems" rd in \<open>auto simp: handle_loop.simps [of v inp] serve_text.simps [of v inp]\<close>)
qed

section \<open>Statements as they are typed\<close>

text \<open>The statements \<^verbatim>\<open>repl\<close> hands on.\<close>

fun typed_statements :: "unicode \<Rightarrow> string \<Rightarrow> string list \<Rightarrow> string list" where
  "typed_statements u buf [] = []"
| "typed_statements u buf (line # lines) =
     (let trimmed = TrimSpace u line; lower = ToLower (TrimSuffix trimmed '';'')
      in if buf = [] \<and> (lower = ''exit'' \<or> lower = ''quit'') then []
         else if HasSuffix trimmed '';'' then TrimSpace u (buf @ line @ '' '') # typed_statements u [] lines
         else typed_statements u (buf @ line @ '' '') lines)"

text \<open>A statement that \<^verbatim>\<open>handle\<close> takes as one line and answers.\<close>

definition one_line :: "unicode \<Rightarrow> string \<Rightarrow> bool" where
  "one_line u sql \<longleftrightarrow> sql \<noteq> [] \<and> newline \<notin> set sql \<and> TrimSpace u (sql @ [newline]) = sql \<and>
     \<not> EqualFold sql ''quit'' \<and> \<not> EqualFold sql ''exit''"

lemma HasSuffix_char: "HasSuffix s [c] \<longleftrightarrow> s \<noteq> [] \<and> last s = c"
  by (cases s rule: rev_cases) (auto simp: HasSuffix_def)

lemma typed_one_line:
  assumes "newline \<notin> set line" "newline \<notin> set buf" "buf = [] \<or> last buf = CHR '' ''" "HasSuffix (TrimSpace u line) '';''"
  shows "one_line u (TrimSpace u (buf @ line @ '' ''))" (is "one_line u ?sql")
proof -
  have l: "TrimSpace u line \<noteq> []" "last (TrimSpace u line) = CHR '';''" using assms(4) by (auto simp: HasSuffix_char)
  have s: "?sql \<noteq> []" "last ?sql = CHR '';''" using last_TrimSpace [OF l(1) assms(3)] l(2) by auto
  have "last (map upper_char ?sql) = CHR '';''" using s by (simp add: last_map upper_char_def)
  moreover have "last (map upper_char ''quit'') \<noteq> CHR '';''" "last (map upper_char ''exit'') \<noteq> CHR '';''"
    by (simp_all add: upper_char_def char_of_eq_iff)
  ultimately have "\<not> EqualFold ?sql ''quit''" "\<not> EqualFold ?sql ''exit''" unfolding EqualFold_def by metis+
  moreover have "newline \<notin> set ?sql" using set_TrimSpace [of u "buf @ line @ '' ''"] assms(1,2) by auto
  ultimately show ?thesis using s(1) TrimSpace_newline by (simp add: one_line_def)
qed

lemma scan_lines_plain: "line \<in> set (scan_lines inp) \<Longrightarrow> newline \<notin> set line"
proof (induction inp rule: scan_lines.induct)
  case (1 inp)
  have "newline \<notin> set (TrimSuffix (takeWhile (\<lambda>c. c \<noteq> newline) inp) [CHR 0x0D])"
    by (auto simp: TrimSuffix_def dest: in_set_takeD set_takeWhileD)
  then show ?case using 1 by (subst (asm) (2) scan_lines.simps) (auto simp: Let_def split: if_splits)
qed

section \<open>One statement\<close>

text \<open>What the protocol can tell: a result, or an error whose text is a line.\<close>

definition told :: "server_env \<Rightarrow> string \<Rightarrow> Session \<Rightarrow> bool" where
  "told v sql se =
     (case fst (Execute (v_unicode v) (v_order v) sql se) of
        Inl e \<Rightarrow> \<not> stops e \<and> v_error v e \<noteq> [] \<and> newline \<notin> set (v_error v e)
      | Inr res \<Rightarrow> sendable (v_float v) res)"

fun all_told :: "server_env \<Rightarrow> Session \<Rightarrow> string list \<Rightarrow> bool" where
  "all_told v se [] = True"
| "all_told v se (sql # sqls) = (told v sql se \<and> all_told v (snd (Execute (v_unicode v) (v_order v) sql se)) sqls)"

lemma ReadResult_WriteError:
  assumes "newline \<notin> set msg"
  shows "ReadResult (WriteError msg @ rest) = (Inr (client_result\<lparr>crErr := msg\<rparr>), rest)"
proof -
  have "map (\<lambda>c. if c = newline then CHR '' '' else c) msg = msg" using assms by (intro map_idI) auto
  then have w: "WriteError msg @ rest = (''ERR '' @ msg) @ newline # rest" by (simp add: WriteError_def)
  have "read_line ((''ERR '' @ msg) @ newline # rest) = (Inr (''ERR '' @ msg), rest)" using assms by (intro read_line_line) auto
  then show ?thesis unfolding w ReadResult_def bind_def by (simp add: HasPrefix_def)
qed

lemma print_client_view: "sendable ff res \<Longrightarrow> ff = v_float (ce_server ce) \<Longrightarrow> printRemoteResult ce (client_view ff res) = printLocalResult ce res"
  by (auto simp: sendable.simps printRemoteResult_def printLocalResult_def client_view_def print_rows_def split: option.splits)

abbreviation link_to :: "Session \<Rightarrow> Session link" where
  "link_to se \<equiv> \<lparr>lk_peer = se, lk_unread = [], lk_closed = False\<rparr>"

lemma run_same:
  assumes "one_line (v_unicode (ce_server ce)) sql" "told (ce_server ce) sql se"
  defines "v \<equiv> ce_server ce"
  shows "\<exists>os. \<forall>out. run_local ce sql (se, out) = (Inr (), (snd (Execute (v_unicode v) (v_order v) sql se), out @ os)) \<and>
    run_remote ce (serve_text v) sql (link_to se, out) = (Inr (), (link_to (snd (Execute (v_unicode v) (v_order v) sql se)), out @ os))"
proof -
  obtain r se' where e: "Execute (v_unicode v) (v_order v) sql se = (r, se')" by fastforce
  have rd: "ReadString (sql @ [newline]) = (Inr (sql @ [newline]), [])" "ReadString [] = (Inl ErrEOF, [])"
    using assms(1) ReadString_line [of sql "[]"] by (auto simp: one_line_def ReadString_def)
  have h: "serve_text v (sql @ [newline]) se = ((reply, False), se')" if "respond v sql se = (Inr reply, se')" for reply
    using that assms(1) rd by (simp add: serve_text.simps handle_line_def one_line_def bind_def v_def)
  show ?thesis
  proof (cases r)
    case (Inl err)
    let ?m = "v_error v err"
    have t: "\<not> stops err" "?m \<noteq> []" "newline \<notin> set ?m" using assms(2) e Inl by (auto simp: told_def v_def)
    have "serve_text v (sql @ [newline]) se = ((WriteError ?m, False), se')" by (rule h) (use e Inl t(1) in \<open>simp add: respond_def\<close>)
    then have "send (serve_text v) sql (link_to se) = (Inr (client_result\<lparr>crErr := ?m\<rparr>), link_to se')"
      using ReadResult_WriteError [OF t(3), of "[]"] by (simp add: send_def)
    then show ?thesis
      using e Inl t(1,2)
      by (simp add: run_local_def run_remote_def emit_def printRemoteResult_def client_result_def v_def [symmetric] Let_def)
  next
    case (Inr res)
    have t: "sendable (v_float v) res" using assms(2) e Inr by (simp add: told_def v_def)
    have "serve_text v (sql @ [newline]) se = ((WriteResult (v_float v) res, False), se')" by (rule h) (use e Inr in \<open>simp add: respond_def\<close>)
    then have "send (serve_text v) sql (link_to se) = (Inr (client_view (v_float v) res), link_to se')"
      using read_written [OF t, of "[]"] by (simp add: send_def)
    then show ?thesis
      using e Inr print_client_view [OF t, of ce]
      by (simp add: run_local_def run_remote_def emit_def v_def [symmetric] Let_def)
  qed
qed

section \<open>Whole sessions\<close>

lemma typed_Cons:
  assumes "typed_statements u buf (line # lines) = sqls" "\<not> (buf = [] \<and> ToLower (TrimSuffix (TrimSpace u line) '';'') \<in> {''exit'', ''quit''})"
  shows "HasSuffix (TrimSpace u line) '';'' \<Longrightarrow> sqls = TrimSpace u (buf @ line @ '' '') # typed_statements u [] lines"
    "\<not> HasSuffix (TrimSpace u line) '';'' \<Longrightarrow> sqls = typed_statements u (buf @ line @ '' '') lines"
  using assms by (auto simp: Let_def)

lemma repl_loop_same:
  assumes "\<forall>l\<in>set lines. newline \<notin> set l" "newline \<notin> set buf" "buf = [] \<or> last buf = CHR '' ''"
    and "all_told (ce_server ce) se (typed_statements (v_unicode (ce_server ce)) buf lines)"
  shows "\<exists>se' os. \<forall>out. repl_loop (v_unicode (ce_server ce)) (run_local ce) buf lines (se, out) = (Inr (), (se', out @ os)) \<and>
    repl_loop (v_unicode (ce_server ce)) (run_remote ce (serve_text (ce_server ce))) buf lines (link_to se, out) = (Inr (), (link_to se', out @ os))"
  using assms
proof (induction lines arbitrary: buf se)
  case (Cons line lines)
  let ?v = "ce_server ce" and ?u = "v_unicode (ce_server ce)" and ?buf = "buf @ line @ '' ''"
  consider "buf = []" "ToLower (TrimSuffix (TrimSpace ?u line) '';'') \<in> {''exit'', ''quit''}"
    | "\<not> (buf = [] \<and> ToLower (TrimSuffix (TrimSpace ?u line) '';'') \<in> {''exit'', ''quit''})" "HasSuffix (TrimSpace ?u line) '';''"
    | "\<not> (buf = [] \<and> ToLower (TrimSuffix (TrimSpace ?u line) '';'') \<in> {''exit'', ''quit''})" "\<not> HasSuffix (TrimSpace ?u line) '';''"
    by blast
  then show ?case
  proof cases
    case 2
    let ?sql = "TrimSpace ?u ?buf" and ?se = "snd (Execute ?u (v_order ?v) (TrimSpace ?u ?buf) se)"
    have one: "one_line ?u ?sql" by (rule typed_one_line) (use Cons.prems 2 in auto)
    have t: "told ?v ?sql se" "all_told ?v ?se (typed_statements ?u [] lines)" using Cons.prems(4) typed_Cons(1) [OF refl 2(1,2)] by auto
    obtain os where r: "\<And>out. run_local ce ?sql (se, out) = (Inr (), (?se, out @ os))"
      "\<And>out. run_remote ce (serve_text ?v) ?sql (link_to se, out) = (Inr (), (link_to ?se, out @ os))"
      using run_same [OF one t(1)] by blast
    obtain se' os' where "\<And>out. repl_loop ?u (run_local ce) [] lines (?se, out) = (Inr (), (se', out @ os'))"
      "\<And>out. repl_loop ?u (run_remote ce (serve_text ?v)) [] lines (link_to ?se, out) = (Inr (), (link_to se', out @ os'))"
      using Cons.IH [of "[]" ?se] Cons.prems(1) t(2) by auto
    moreover have "?sql \<noteq> []" using one by (simp add: one_line_def)
    ultimately show ?thesis
      using 2 r by (auto simp: Let_def bind_def emit_def intro!: exI [of _ se'] exI [of _ "os @ Stdout ''eleonesql> '' # os'"])
  next
    case 3
    have "all_told ?v se (typed_statements ?u ?buf lines)" using Cons.prems(4) typed_Cons(2) [OF refl 3(1,2)] by simp
    then obtain se' os where "\<And>out. repl_loop ?u (run_local ce) ?buf lines (se, out) = (Inr (), (se', out @ os))"
      "\<And>out. repl_loop ?u (run_remote ce (serve_text ?v)) ?buf lines (link_to se, out) = (Inr (), (link_to se', out @ os))"
      using Cons.IH [of ?buf se] Cons.prems(1,2) by auto
    then show ?thesis using 3 by (auto simp: Let_def bind_def emit_def intro!: exI [of _ se'] exI [of _ "Stdout ''        -> '' # os"])
  qed (simp add: ret_def)
qed (simp add: ret_def)

text \<open>
  C20: the client connected to a server prints, after its greeting, what it prints for the same input when it opens
  the server's files itself, and both end with the same session, as long as every outcome can be told
  in the protocol: result texts without tabs and newlines, error texts of one line.
\<close>

theorem networked_is_embedded:
  assumes "txn_Open order (case files dataPath of None \<Rightarrow> [] | Some data \<Rightarrow> data) (files walPath) = Inr store" "walPath \<noteq> []"
    and "all_told (ce_server ce) (NewSession store) (typed_statements (v_unicode (ce_server ce)) [] (scan_lines stdin))"
  shows "\<exists>(se :: Session) out. runEmbedded ce order files dataPath walPath [] stdin =
      (Inr (), Some (snd (store_Close (se_store se))), embedded_greeting dataPath # out) \<and>
    runNetworked ce addr (serve_text (ce_server ce)) (Inr (NewSession store)) [] stdin =
      (Inr (), connected_greeting addr # out)"
proof -
  let ?v = "ce_server ce" and ?u = "v_unicode (ce_server ce)"
  have plain: "\<forall>l\<in>set (scan_lines stdin). newline \<notin> set l" using scan_lines_plain by blast
  obtain se' os where r: "\<And>out. repl_loop ?u (run_local ce) [] (scan_lines stdin) (NewSession store, out) = (Inr (), (se', out @ os))"
    "\<And>out. repl_loop ?u (run_remote ce (serve_text ?v)) [] (scan_lines stdin) (link_to (NewSession store), out) = (Inr (), (link_to se', out @ os))"
    using repl_loop_same [OF plain _ _ assms(3)] by auto
  show ?thesis
    by (rule exI [of _ se'], rule exI [of _ "Stdout ''eleonesql> '' # os"])
      (use r assms(1,2) in \<open>simp add: runEmbedded_def runNetworked_def repl_def bind_def emit_def Let_def\<close>)
qed

lemma parse_begin_semicolon: "Parse (v_unicode ascii_env) ''BEGIN;'' = Inr BeginStmt"
proof -
  let ?u = "v_unicode ascii_env" and ?r = "[66, 69, 71, 73, 78, 59] :: rune list"
  have r: "runes ''BEGIN;'' = ?r" by (simp add: runes_def decode_runes.simps decode_rune_def)
  have s: "string_of [66, 69, 71, 73, 78] = ''BEGIN''" "string_of [59] = '';''"
    by (simp_all add: string_of_def encode_rune_def surrogate_def char_of_eq_iff)
  have "ToUpper ''BEGIN'' = ''BEGIN''" by (simp add: upper_char_def)
  with s have 1: "lex_next ?u ?r 0 = Inr (\<lparr>kType = TokKeyword, kText = ''BEGIN'', kPos = 0\<rparr>, 5)"
    by (simp add: lex_next_unfold lex_token_def Let_def skip_while_eq skip_end_def IsSpace_def IsDigit_def IsLetter_def src_text_def slice_def holds_at_eq keyword_list_def)
  have 2: "lex_next ?u ?r 5 = Inr (\<lparr>kType = TokPunct, kText = '';'', kPos = 5\<rparr>, 6)"
    using s(2) by (simp add: runes_def decode_runes.simps decode_rune_def lex_next_unfold lex_token_def Let_def skip_while_eq skip_end_def IsSpace_def IsDigit_def IsLetter_def src_text_def slice_def holds_at_eq keyword_list_def)
  have 3: "lex_next ?u ?r 6 = Inr (\<lparr>kType = TokEOF, kText = [], kPos = 6\<rparr>, 6)"
    by (simp add: lex_next_unfold Let_def skip_end_def)
  have "Tokenize ?u ''BEGIN;'' = Inr [\<lparr>kType = TokKeyword, kText = ''BEGIN'', kPos = 0\<rparr>, \<lparr>kType = TokPunct, kText = '';'', kPos = 5\<rparr>,
      \<lparr>kType = TokEOF, kText = [], kPos = 6\<rparr>]"
    by (simp add: Tokenize_def r tokenize_loop.simps 1 2 3)
  then show ?thesis
    by (simp add: Parse_def parseStatement_def parseBegin_def cur_def advance_def isKeyword_def skipPunct_def isPunct_def
        bind_def ret_def)
qed

abbreviation plain_client :: client_env where "plain_client \<equiv> \<lparr>ce_server = ascii_env, ce_layout = \<lambda>s. s\<rparr>"

theorem networked_is_embedded_witness:
  "\<exists>store (se :: Session) out. txn_Open (\<lambda>p. p) [] None = Inr store \<and>
     runEmbedded plain_client (\<lambda>p. p) (\<lambda>_. None) ''d'' ''w'' [] (''BEGIN;'' @ [newline]) =
       (Inr (), Some (snd (store_Close (se_store se))), embedded_greeting ''d'' # out) \<and>
     runNetworked plain_client ''a'' (serve_text ascii_env) (Inr (NewSession store)) [] (''BEGIN;'' @ [newline]) =
       (Inr (), connected_greeting ''a'' # out)"
proof -
  obtain store where o: "txn_Open (\<lambda>p. p) [] None = Inr store" "\<not> st_locked store" "\<not> wclosed (st_wal store)" by (rule new_store)
  let ?u = "v_unicode ascii_env"
  have "scan_lines (''BEGIN;'' @ [newline]) = [''BEGIN;'']" by (simp add: scan_lines.simps TrimSuffix_def HasSuffix_def)
  moreover have "TrimSpace ?u ''BEGIN;'' = ''BEGIN;''" "TrimSpace ?u ''BEGIN; '' = ''BEGIN;''"
    by (simp_all add: TrimSpace_def rune_parts.simps decode_rune_def IsSpace_def)
  ultimately have t: "typed_statements ?u [] (scan_lines (''BEGIN;'' @ [newline])) = [''BEGIN;'']"
    by (simp add: Let_def TrimSuffix_def HasSuffix_def char_of_eq_iff)
  have "fst (Execute ?u (v_order ascii_env) ''BEGIN;'' (NewSession store)) = Inr (message ''BEGIN'' 0)"
    using o(2,3) by (simp add: Execute_def parse_begin_semicolon bind_def executeStmt_def exec_begin_def NewSession_def on_sess_def Begin_def Let_def
        on_wal_def wal_Begin_def writeRecord_def)
  moreover have "sendable (v_float ascii_env) (message ''BEGIN'' 0)" by (simp add: sendable.simps message_def)
  ultimately have told: "all_told ascii_env (NewSession store) (typed_statements ?u [] (scan_lines (''BEGIN;'' @ [newline])))"
    unfolding t by (simp add: told_def)
  from networked_is_embedded [of "\<lambda>p. p" "\<lambda>_. None" "''d''" "''w''" store plain_client "''BEGIN;'' @ [newline]" "''a''"] o(1) told
  show ?thesis by fastforce
qed

section \<open>What the reader does not do\<close>

text \<open>
  After an empty line the word exit does not end the session, as it is taken for the rest of a statement.
\<close>

lemma exit_after_empty_line:
  "repl_loop (v_unicode ascii_env) run [] [[], ''exit''] (s, out) = (Inr (), (s, out @ [Stdout ''        -> '', Stdout ''        -> '']))"
proof -
  let ?u = "v_unicode ascii_env"
  have "TrimSpace ?u [] = []" "TrimSpace ?u ''exit'' = ''exit''" by (simp_all add: TrimSpace_def rune_parts.simps decode_rune_def IsSpace_def)
  then show ?thesis by (simp add: Let_def bind_def emit_def ret_def HasSuffix_def TrimSuffix_def)
qed

text \<open>
  A blank statement given on the command line is skipped by the server without an answer, so the client waits for ever.
\<close>

lemma blank_statement_waits:
  "runNetworked ce addr (serve_text (ce_server ce)) (Inr se) '' '' stdin = (Inl Diverges, [])"
proof -
  have "TrimSpace (v_unicode (ce_server ce)) ('' '' @ [newline]) = []"
    by (simp add: TrimSpace_def rune_parts.simps decode_rune_def IsSpace_def)
  moreover have "ReadString ('' '' @ [newline]) = (Inr ('' '' @ [newline]), [])" "ReadString [] = (Inl ErrEOF, [])" by (simp_all add: ReadString_def)
  ultimately have "serve_text (ce_server ce) ('' '' @ [newline]) se = (([], False), se)"
    by (simp add: serve_text.simps handle_line_def ret_def)
  moreover have "ReadResult [] = (Inl ErrEOF, [])" by (simp add: ReadResult_def read_line_def bind_def ReadString_def)
  ultimately show ?thesis by (simp add: runNetworked_def send_def stops_def Let_def)
qed

end
