(* ===== verification/EngineSpec.thy ===== *)
theory EngineSpec
  imports Engine SortedMap BTreeCursor
begin

text \<open>
  What the row statements need of a transaction, as a contract between two implementations of
  its operations: when the operations agree, so do the statements.  The specification
  is a database of sorted tables in memory.
\<close>

text \<open>The row statement of a syntax tree, in any transaction.\<close>

definition row_stmt :: "Statement \<Rightarrow> ('s, 'c) txn_ops \<Rightarrow> ('s, Result) sm" where
  "row_stmt stmt T =
     (case stmt of Insert_stmt st \<Rightarrow> execInsert T st | Update_stmt st \<Rightarrow> execUpdate T st
      | Delete_stmt st \<Rightarrow> execDelete T st | Select_stmt st \<Rightarrow> execSelect T st | _ \<Rightarrow> fail Panic)"

section \<open>Two runs\<close>

text \<open>
  \<open>agree R m n\<close>: from related states, \<open>n\<close> returns what \<open>m\<close> returns and leaves a related
  state, unless \<open>m\<close> does not return.
\<close>

definition agree :: "('s \<Rightarrow> 't \<Rightarrow> bool) \<Rightarrow> ('s, 'a) sm \<Rightarrow> ('t, 'a) sm \<Rightarrow> bool" where
  "agree R m n \<longleftrightarrow> (\<forall>s t r s'. R s t \<longrightarrow> m s = (r, s') \<longrightarrow>
     (\<exists>e. r = Inl e \<and> stops e) \<or> (\<exists>t'. n t = (r, t') \<and> R s' t'))"

named_theorems agree_intros \<open>programs that agree\<close>

lemma agreeI:
  "(\<And>s t r s'. R s t \<Longrightarrow> m s = (r, s') \<Longrightarrow> (\<And>e. r = Inl e \<Longrightarrow> \<not> stops e) \<Longrightarrow> \<exists>t'. n t = (r, t') \<and> R s' t') \<Longrightarrow> agree R m n"
  unfolding agree_def by blast

lemma agreeD:
  "agree R m n \<Longrightarrow> R s t \<Longrightarrow> m s = (r, s') \<Longrightarrow> (\<And>e. r = Inl e \<Longrightarrow> \<not> stops e) \<Longrightarrow> \<exists>t'. n t = (r, t') \<and> R s' t'"
  unfolding agree_def by blast

lemma agree_ret [agree_intros]: "agree R (ret x) (ret x)"
  by (simp add: agree_def)

lemma agree_fail [agree_intros]: "agree R (fail e) (fail e)"
  by (simp add: agree_def)

lemma agree_lift [agree_intros]: "agree R (lift r) (lift r)"
  by (simp add: agree_def)

lemma agree_bind [agree_intros]:
  assumes "agree R m n" "\<And>x. agree R (k x) (l x)"
  shows "agree R (bind m k) (bind n l)"
proof (rule agreeI)
  fix s t r s' assume a: "R s t" "bind m k s = (r, s')" and go: "\<And>e. r = Inl e \<Longrightarrow> \<not> stops e"
  obtain r1 s1 where m: "m s = (r1, s1)" by fastforce
  then have "\<And>e. r1 = Inl e \<Longrightarrow> \<not> stops e" using a(2) go by (auto simp: bind_def)
  from agreeD [OF assms(1) a(1) m this] obtain t1 where n: "n t = (r1, t1)" "R s1 t1" by blast
  show "\<exists>t'. bind n l t = (r, t') \<and> R s' t'"
  proof (cases r1)
    case (Inl e)
    then show ?thesis using a(2) m n by (simp add: bind_def)
  next
    case (Inr x)
    then show ?thesis using agreeD [OF assms(2) n(2) _ go] a(2) m n(1) by (simp add: bind_def)
  qed
qed

lemma agree_if [agree_intros]: "(b \<Longrightarrow> agree R m n) \<Longrightarrow> (\<not> b \<Longrightarrow> agree R m' n') \<Longrightarrow> agree R (if b then m else m') (if b then n else n')"
  by simp

lemma agree_split [agree_intros]: "(\<And>x y. agree R (m x y) (n x y)) \<Longrightarrow> agree R (case z of (x, y) \<Rightarrow> m x y) (case z of (x, y) \<Rightarrow> n x y)"
  by (cases z) simp

lemma agree_option [agree_intros]:
  "agree R m n \<Longrightarrow> (\<And>x. agree R (m' x) (n' x)) \<Longrightarrow>
   agree R (case z of None \<Rightarrow> m | Some x \<Rightarrow> m' x) (case z of None \<Rightarrow> n | Some x \<Rightarrow> n' x)"
  by (cases z) simp_all

lemma agree_each [agree_intros]: "(\<And>x. agree R (m x) (n x)) \<Longrightarrow> agree R (each m xs) (each n xs)"
proof (induction xs)
  case Nil
  show ?case by (simp only: each.simps) (rule agree_ret)
next
  case (Cons x xs)
  have "agree R (each m xs) (each n xs)" using Cons by blast
  with Cons.prems show ?case unfolding each.simps by (intro agree_bind)
qed

section \<open>Reading a cursor\<close>

text \<open>The cursor gives the entries in turn and then ends, without a change of the state.\<close>

primrec reads :: "('s, 'c) txn_ops \<Rightarrow> 's \<Rightarrow> 'c \<Rightarrow> (bytes \<times> bytes) list \<Rightarrow> bool" where
  "reads T s c [] \<longleftrightarrow> (\<exists>d. t_Next T c s = (Inr (None, d), s))"
| "reads T s c (x # xs) \<longleftrightarrow> (\<exists>d. t_Next T c s = (Inr (Some x, d), s) \<and> reads T s d xs)"

definition decode_all :: "Type list \<Rightarrow> (bytes \<times> bytes) list \<Rightarrow> Value list list result" where
  "decode_all types kvs = traverse (\<lambda>(k, v). DecodeRow v types) kvs"

lemma fetch_loop_reads:
  "reads T s c l \<Longrightarrow> length l < n \<Longrightarrow>
   fetch_loop T types n c ks rows s = (rbind (decode_all types l) (\<lambda>vs. Inr (ks @ map fst l, rows @ vs)), s)"
proof (induction l arbitrary: c n ks rows)
  case Nil
  then show ?case by (cases n) (auto simp: bind_def decode_all_def)
next
  case (Cons x l)
  obtain k v where x: "x = (k, v)" by fastforce
  obtain d where d: "t_Next T c s = (Inr (Some x, d), s)" "reads T s d l" using Cons.prems by auto
  obtain m where n: "n = Suc m" using Cons.prems by (cases n) auto
  have "fetch_loop T types m d (ks @ [k]) (rows @ [vals]) s =
      (rbind (decode_all types l) (\<lambda>vs. Inr ((ks @ [k]) @ map fst l, (rows @ [vals]) @ vs)), s)" for vals
    using Cons.IH [OF d(2)] Cons.prems(2) n by simp
  then show ?case
    using d(1) by (cases "DecodeRow v types"; cases "decode_all types l") (simp_all add: n x bind_def decode_all_def)
qed

lemma lookup_loop_reads:
  "reads T s c l \<Longrightarrow> length l < n \<Longrightarrow>
   lookup_loop T pre n c out s = (Inr (out @ map snd (takeWhile (\<lambda>x. hasPrefix (fst x) pre) l)), s)"
proof (induction l arbitrary: c n out)
  case Nil
  then show ?case by (cases n) (auto simp: bind_def)
next
  case (Cons x l)
  obtain k v where x: "x = (k, v)" by fastforce
  obtain d where d: "t_Next T c s = (Inr (Some x, d), s)" "reads T s d l" using Cons.prems by auto
  obtain m where n: "n = Suc m" using Cons.prems by (cases n) auto
  show ?case using d(1) Cons.IH [OF d(2), of m "out @ [v]"] Cons.prems(2) by (simp add: n x bind_def)
qed

text \<open>What the scans do once a cursor reads the entries \<open>l\<close>.\<close>

definition scans :: "('s, 'c) txn_ops \<Rightarrow> string \<Rightarrow> bytes option \<Rightarrow> 's \<Rightarrow> (bytes \<times> bytes) list \<Rightarrow> bool" where
  "scans T target start s l \<longleftrightarrow>
     (\<exists>c. t_Cursor T target start s = (Inr c, s) \<and> reads T s c l \<and> length l < t_fuel T s c)"

lemma fetchAllRows_scans:
  "scans T (TableTarget (tName td)) None s l \<Longrightarrow>
   fetchAllRows T td s = (rbind (decode_all (ColumnTypes td) l) (\<lambda>vs. Inr (map fst l, vs)), s)"
  by (auto simp: scans_def fetchAllRows_def bind_def fetch_loop_reads)

lemma indexEqualityLookup_scans:
  "scans T (IndexTarget (tName td) (iName idx)) (Some (SortKey v)) s l \<Longrightarrow>
   indexEqualityLookup T td idx v s = (Inr (map snd (takeWhile (\<lambda>x. hasPrefix (fst x) (SortKey v)) l)), s)"
  by (auto simp: scans_def indexEqualityLookup_def Let_def bind_def lookup_loop_reads)

lemma checkUnique_scans:
  "scans T (IndexTarget (tName td) (iName idx)) (Some (SortKey v)) s l \<Longrightarrow>
   checkUniqueViaTxn T td idx v s =
     (case l of x # _ \<Rightarrow> (if hasPrefix (fst x) (SortKey v) then Inl (ErrDuplicateValue (iColumn idx)) else Inr ()) | [] \<Rightarrow> Inr (), s)"
  by (cases l) (auto simp: scans_def checkUniqueViaTxn_def Let_def bind_def)

lemma no_cursor:
  assumes "t_Cursor T target start s = (Inl e, s)"
  shows "TableTarget (tName td) = target \<Longrightarrow> start = None \<Longrightarrow> fetchAllRows T td s = (Inl e, s)"
    "IndexTarget (tName td) (iName idx) = target \<Longrightarrow> start = Some (SortKey v) \<Longrightarrow> indexEqualityLookup T td idx v s = (Inl e, s)"
    "IndexTarget (tName td) (iName idx) = target \<Longrightarrow> start = Some (SortKey v) \<Longrightarrow> checkUniqueViaTxn T td idx v s = (Inl e, s)"
  using assms by (auto simp: fetchAllRows_def indexEqualityLookup_def checkUniqueViaTxn_def Let_def bind_def)

section \<open>The contract\<close>

locale same_txn =
  fixes T :: "('s, 'c) txn_ops" and U :: "('t, 'd) txn_ops" and R :: "'s \<Rightarrow> 't \<Rightarrow> bool"
  assumes Table_law: "agree R (t_Table T n) (t_Table U n)"
    and NextRow_law: "agree R (t_NextRow T n) (t_NextRow U n)"
    and Put_law: "agree R (t_Put T target k v) (t_Put U target k v)"
    and Delete_law: "agree R (t_Delete T target k) (t_Delete U target k)"
    and Get_law: "agree R (t_Get T target k) (t_Get U target k)"
    and scan_law: "R s t \<Longrightarrow> (\<exists>e. t_Cursor T target start s = (Inl e, s) \<and> t_Cursor U target start t = (Inl e, t)) \<or>
      (\<exists>l. scans T target start s l \<and> scans U target start t l)"
begin

lemma same_fetchAllRows: "agree R (fetchAllRows T td) (fetchAllRows U td)"
proof (rule agreeI)
  fix s t r s' assume a: "R s t" "fetchAllRows T td s = (r, s')"
  show "\<exists>t'. fetchAllRows U td t = (r, t') \<and> R s' t'"
    using scan_law [OF a(1), of "TableTarget (tName td)" None] a fetchAllRows_scans [of T td s] fetchAllRows_scans [of U td t]
      no_cursor(1) [of T "TableTarget (tName td)" None s] no_cursor(1) [of U "TableTarget (tName td)" None t] by fastforce
qed

lemma same_indexEqualityLookup: "agree R (indexEqualityLookup T td idx v) (indexEqualityLookup U td idx v)"
proof (rule agreeI)
  fix s t r s' assume a: "R s t" "indexEqualityLookup T td idx v s = (r, s')"
  let ?g = "IndexTarget (tName td) (iName idx)" and ?k = "Some (SortKey v)"
  show "\<exists>t'. indexEqualityLookup U td idx v t = (r, t') \<and> R s' t'"
    using scan_law [OF a(1), of ?g ?k] a indexEqualityLookup_scans [of T td idx v s] indexEqualityLookup_scans [of U td idx v t]
      no_cursor(2) [of T ?g ?k s] no_cursor(2) [of U ?g ?k t] by fastforce
qed

lemma same_checkUnique: "agree R (checkUniqueViaTxn T td idx v) (checkUniqueViaTxn U td idx v)"
proof (rule agreeI)
  fix s t r s' assume a: "R s t" "checkUniqueViaTxn T td idx v s = (r, s')"
  let ?g = "IndexTarget (tName td) (iName idx)" and ?k = "Some (SortKey v)"
  show "\<exists>t'. checkUniqueViaTxn U td idx v t = (r, t') \<and> R s' t'"
    using scan_law [OF a(1), of ?g ?k] a checkUnique_scans [of T td idx v s] checkUnique_scans [of U td idx v t]
      no_cursor(3) [of T ?g ?k s] no_cursor(3) [of U ?g ?k t] by fastforce
qed

lemma same_need_table: "agree R (need_table T n) (need_table U n)"
  unfolding need_table_def by (intro agree_intros Table_law)

lemma same_load_keys: "agree R (load_keys T td rks ks rows) (load_keys U td rks ks rows)"
proof (induction rks arbitrary: ks rows)
  case Nil
  show ?case by (simp only: load_keys.simps) (rule agree_ret)
next
  case (Cons rk rks)
  show ?case
  proof (rule agreeI)
    fix s t r s' assume a: "R s t" "load_keys T td (rk # rks) ks rows s = (r, s')" and go: "\<And>e. r = Inl e \<Longrightarrow> \<not> stops e"
    obtain r1 s1 where g: "t_Get T (TableTarget (tName td)) rk s = (r1, s1)" by fastforce
    then have "\<And>e. r1 = Inl e \<Longrightarrow> \<not> stops e" using a(2) go by (auto split: if_splits)
    from agreeD [OF Get_law a(1) g this] obtain t1 where u: "t_Get U (TableTarget (tName td)) rk t = (r1, t1)" "R s1 t1" by blast
    show "\<exists>t'. load_keys U td (rk # rks) ks rows t = (r, t') \<and> R s' t'"
    proof (cases r1)
      case (Inl e)
      then have "\<not> stops e" using a(2) go g by (auto split: if_splits)
      then show ?thesis using agreeD [OF Cons.IH u(2) _ go] a(2) g u(1) Inl by simp
    next
      case (Inr raw)
      have "agree R (bind (lift (DecodeRow raw (ColumnTypes td))) (\<lambda>vals. load_keys T td rks (ks @ [rk]) (rows @ [vals])))
          (bind (lift (DecodeRow raw (ColumnTypes td))) (\<lambda>vals. load_keys U td rks (ks @ [rk]) (rows @ [vals])))"
        by (intro agree_intros Cons.IH)
      from agreeD [OF this u(2) _ go] show ?thesis using a(2) g u(1) Inr by simp
    qed
  qed
qed

lemma same_loadRows: "agree R (loadRows T td cond alias) (loadRows U td cond alias)"
  unfolding loadRows_def by (intro agree_intros same_fetchAllRows same_indexEqualityLookup same_load_keys)

lemma same_join_all: "agree R (join_all T js tuples) (join_all U js tuples)"
proof (induction js arbitrary: tuples)
  case Nil
  show ?case by (simp only: join_all.simps) (rule agree_ret)
next
  case (Cons j js)
  then show ?case by (simp only: join_all.simps) (intro agree_intros same_need_table same_fetchAllRows)
qed

lemma same_join_columns: "agree R (join_columns T js) (join_columns U js)"
proof (induction js)
  case Nil
  show ?case by (simp only: join_columns.simps) (rule agree_ret)
next
  case (Cons j js)
  then show ?case by (simp only: join_columns.simps) (intro agree_intros same_need_table)
qed

lemma same_execSelect: "agree R (execSelect T st) (execSelect U st)"
  unfolding execSelect_def Let_def selectColumns_def
  by (intro agree_intros same_need_table same_loadRows same_join_all same_join_columns)

lemma same_execInsert: "agree R (execInsert T st) (execInsert U st)"
  unfolding execInsert_def insert_row_def insert_index_entry_def Let_def
  by (intro agree_intros same_need_table same_checkUnique NextRow_law Put_law)

lemma same_count_rows: "(\<And>k row. agree R (m k row) (n k row)) \<Longrightarrow> agree R (count_rows m rows c) (count_rows n rows c)"
proof (induction rows arbitrary: c)
  case Nil
  show ?case by (simp only: count_rows.simps) (rule agree_ret)
next
  case (Cons x rows)
  obtain k row where x: "x = (k, row)" by fastforce
  have "agree R (count_rows m rows c') (count_rows n rows c')" for c' using Cons by blast
  with Cons.prems show ?case unfolding x count_rows.simps by (intro agree_bind)
qed

lemma same_execUpdate: "agree R (execUpdate T st) (execUpdate U st)"
  unfolding execUpdate_def update_row_def move_index_entry_def Let_def
  by (intro agree_intros same_need_table same_loadRows same_count_rows same_checkUnique Put_law Delete_law)

lemma same_execDelete: "agree R (execDelete T st) (execDelete U st)"
  unfolding execDelete_def delete_row_def delete_index_entry_def
  by (intro agree_intros same_need_table same_loadRows same_count_rows Delete_law)

end

section \<open>The database in memory\<close>

record adb =
  a_schema :: "string \<Rightarrow> TableDef option"
  a_next :: "string \<Rightarrow> uint64"
  a_data :: "string \<Rightarrow> (bytes \<times> bytes) list option"

definition on_target :: "string \<Rightarrow> ((bytes \<times> bytes) list \<Rightarrow> 'a result) \<Rightarrow> (adb, 'a) sm" where
  "on_target target f a = (case a_data a target of None \<Rightarrow> Inl (ErrUnknownTarget target) | Some l \<Rightarrow> f l, a)"

definition set_target :: "string \<Rightarrow> (bytes \<times> bytes) list \<Rightarrow> (adb, unit) sm" where
  "set_target target l a = (Inr (), a\<lparr>a_data := (a_data a)(target \<mapsto> l)\<rparr>)"

definition db_txn :: "(adb, (bytes \<times> bytes) list) txn_ops" where
  "db_txn = \<lparr>
     t_Table = (\<lambda>n a. (Inr (a_schema a n), a)),
     t_NextRow = (\<lambda>n a. case a_schema a n of
        None \<Rightarrow> (Inl Panic, a)
      | Some _ \<Rightarrow> (Inr (a_next a n), a\<lparr>a_next := (a_next a)(n := a_next a n + 1)\<rparr>)),
     t_Put = (\<lambda>target k v.
        bind (on_target target (\<lambda>l. if length k > maxKeyValue \<or> length v > maxKeyValue then Inl ErrKeyTooLarge else Inr l))
          (\<lambda>l. set_target target (al_put k v l))),
     t_Delete = (\<lambda>target k. bind (on_target target (\<lambda>l. if map_of l k = None then Inl ErrKeyNotFound else Inr l))
        (\<lambda>l. set_target target (al_del k l))),
     t_Get = (\<lambda>target k. on_target target (\<lambda>l. case map_of l k of None \<Rightarrow> Inl ErrKeyNotFound | Some v \<Rightarrow> Inr v)),
     t_Cursor = (\<lambda>target start. on_target target (\<lambda>l. Inr (entries_from start l))),
     t_Next = (\<lambda>c a. (Inr (case c of [] \<Rightarrow> (None, []) | x # xs \<Rightarrow> (Some x, xs)), a)),
     t_fuel = (\<lambda>a c. length c + 1)\<rparr>"

lemma db_reads: "reads db_txn a l l"
  by (induction l) (simp_all add: db_txn_def)

lemma db_scans: "a_data a target = Some l \<Longrightarrow> scans db_txn target start a (entries_from start l)"
  using db_reads [of a "entries_from start l"] by (simp add: scans_def) (simp add: db_txn_def on_target_def)

end
