(* ===== verification/EngineStore.thy ===== *)
theory EngineStore
  imports EngineSpec TxnProps
begin

text \<open>
  The statements on a store do what they do on the database in memory: the operations of a
  transaction agree with those of the specification as long as every write
  finds its tree ready for it.
\<close>

section \<open>Schemas under row statements\<close>

definition schema_view :: "Catalog \<Rightarrow> string \<Rightarrow> (TableDef \<times> uint64) option" where
  "schema_view c n = map_option (\<lambda>td. (schema_of td, tNextRow td)) (Table c n)"

lemma schema_view_tables: "c_tables c' = c_tables c \<Longrightarrow> schema_view c' = schema_view c"
  by (simp add: fun_eq_iff schema_view_def Table_def)

lemma schema_view_pager [simp]: "schema_view (c\<lparr>c_pager := q\<rparr>) = schema_view c"
  by (rule schema_view_tables) simp

lemma persist_keeps_tables: "persist td c = (r, c') \<Longrightarrow> c_tables c' = c_tables c"
proof -
  assume "persist td c = (r, c')"
  then have "c' = c'\<lparr>c_tables := c_tables c\<rparr>" using persist_tables [of td "c_tables c" c] by simp
  from arg_cong [OF this, of c_tables] show ?thesis by simp
qed

lemma slot_view: "schema_of (slot_table (HeapRoot td) pid) = schema_of td" "tNextRow (slot_table (HeapRoot td) pid) = tNextRow td"
  "schema_of (slot_table (IndexRoot td i) pid) = schema_of td" "tNextRow (slot_table (IndexRoot td i) pid) = tNextRow td"
proof -
  have "(map (\<lambda>ix. ix\<lparr>iRoot := 0\<rparr>) xs)[i := (xs ! i)\<lparr>iRoot := 0\<rparr>] = map (\<lambda>ix. ix\<lparr>iRoot := 0\<rparr>) xs" for xs :: "IndexDef list"
    by (cases "i < length xs") (simp_all add: list_update_same_conv list_update_beyond)
  then show "schema_of (slot_table (IndexRoot td i) pid) = schema_of td" by (simp add: schema_of_def slot_table_def map_update)
qed (simp_all add: schema_of_def slot_table_def)

lemma resolve_slot:
  assumes "resolve c t = Some (r, sl)"
  obtains n td where "Table c n = Some td" "sl = HeapRoot td \<or> (\<exists>i. sl = IndexRoot td i)"
proof (cases "take 2 t = ''T:''")
  case True
  then show thesis using assms that by (auto simp: resolve_def split: option.splits)
next
  case False
  then obtain td where "Table c (takeWhile (\<lambda>ch. ch \<noteq> CHR '':'') (drop 2 t)) = Some td"
    "index_slot td (drop (length (takeWhile (\<lambda>ch. ch \<noteq> CHR '':'') (drop 2 t)) + 1) (drop 2 t)) 0 (tIndexes td) = Some (r, sl)"
    using assms by (auto simp: resolve_def Let_def split: option.splits if_splits)
  then show thesis using that index_slot_SomeD by metis
qed

lemma save_root_view:
  assumes "resolve c t = Some (r, sl)" "\<And>n td. Table c n = Some td \<Longrightarrow> tName td = n" "c_tables d = c_tables c"
    and "save_root sl pid d = (x, c')"
  shows "schema_view c' = schema_view c"
proof -
  let ?td = "slot_table sl pid"
  obtain n td where td: "Table c n = Some td" "sl = HeapRoot td \<or> (\<exists>i. sl = IndexRoot td i)" by (rule resolve_slot [OF assms(1)])
  have v: "schema_of ?td = schema_of td" "tNextRow ?td = tNextRow td" "tName ?td = n"
    using td slot_view assms(2) [OF td(1)] by (auto simp: slot_table_def)
  have "c_tables c' = table_set n ?td (c_tables c)"
    using assms(3,4) v(3) by (auto simp: save_root_def SaveTable_def Let_def dest: persist_keeps_tables)
  then show ?thesis
    using td(1) v by (auto simp: fun_eq_iff schema_view_def Table_def map_of_table_set)
qed

text \<open>The same for the operations that change trees.\<close>

lemma txn_view:
  assumes "\<And>n td. Table (st_cat s) n = Some td \<Longrightarrow> tName td = n"
  shows "txn_Put target k v (s, t) = (r, (s', t')) \<Longrightarrow> schema_view (st_cat s') = schema_view (st_cat s)"
    "txn_Delete target k (s, t) = (r, (s', t')) \<Longrightarrow> schema_view (st_cat s') = schema_view (st_cat s)"
proof -
  show "schema_view (st_cat s') = schema_view (st_cat s)" if p: "txn_Put target k v (s, t) = (r, (s', t'))"
  proof (cases "resolve (st_cat s) target")
    case None
    then show ?thesis using p by (simp add: txn_Put_def bind_def resolve_target_def)
  next
    case (Some rs)
    obtain root sl where rs: "rs = (root, sl)" by fastforce
    have sv: "schema_view c' = schema_view (st_cat s)" if "save_root sl pid (st_cat s\<lparr>c_pager := q\<rparr>) = (x, c')" for pid q x c'
      using save_root_view [OF Some [unfolded rs] assms _ that] by simp
    show ?thesis
      using p Some rs
      by (auto simp: txn_Put_def bind_def resolve_target_def on_tree_apply on_pager_def on_store_def on_wal_def save_moved_def
          push_undo_def on_cat_def split: prod.splits sum.splits if_splits) (erule sv)+
  qed
  show "schema_view (st_cat s') = schema_view (st_cat s)" if p: "txn_Delete target k (s, t) = (r, (s', t'))"
  proof (cases "resolve (st_cat s) target")
    case None
    then show ?thesis using p by (simp add: txn_Delete_def bind_def resolve_target_def)
  next
    case (Some rs)
    obtain root sl where rs: "rs = (root, sl)" by fastforce
    have sv: "schema_view c' = schema_view (st_cat s)" if "save_root sl pid (st_cat s\<lparr>c_pager := q\<rparr>) = (x, c')" for pid q x c'
      using save_root_view [OF Some [unfolded rs] assms _ that] by simp
    show ?thesis
      using p Some rs
      by (auto simp: txn_Delete_def bind_def resolve_target_def on_tree_apply on_pager_def on_store_def on_wal_def save_moved_def
          push_undo_def on_cat_def split: prod.splits sum.splits if_splits) (erule sv)+
  qed
qed

section \<open>Drawing a row number\<close>

definition save_ready :: "Catalog \<Rightarrow> string \<Rightarrow> bool" where
  "save_ready c n \<longleftrightarrow> (\<exists>sys tr b td. store_inv c sys tr \<and> Table c n = Some td \<and>
     put_ready b (str_bytes (tName td)) (encodeTableDef td) (c_pager c) sys)"

lemma save_schema_store:
  assumes inv: "store_inv c sys tr" and td: "Table c n = Some td" "tName td' = tName td" "td_ok td'"
      "length (encodeTableDef td') = length (encodeTableDef td)"
      "\<And>u. root_at (with_table td' c) u = root_at c u"
    and ready: "put_ready b (str_bytes (tName td)) (encodeTableDef td) (c_pager c) sys"
  obtains c' sys' where "save_schema td' c = (Inr (), c')" "store_inv c' sys' tr" "contents c' tr = contents c tr"
    "root_at c' = root_at c" "Table c' = (Table c)(n \<mapsto> td')"
    "pager_room (c_pager c) \<le> pager_room (c_pager c') + (height sys + 2)"
    "\<And>u r j. root_at c u = Some r \<Longrightarrow> j \<in> set (pages (tr u)) \<Longrightarrow> page (c_pager c') j = page (c_pager c) j"
    "\<And>m. roomy m (c_pager c) sys \<Longrightarrow> 6 + length n + length (encodeTableDef td) \<le> m \<Longrightarrow>
       roomy (m - (6 + length n + length (encodeTableDef td))) (c_pager c') sys'"
proof -
  note I = store_invD [OF inv]
  have n: "tName td = n" using cat_invD(5) [OF I(1) td(1)] .
  have room: "height sys + 1 < pager_room (c_pager c)" using ready by (simp add: put_ready_def)
  have ready': "put_ready b (str_bytes (tName td')) (encodeTableDef td') (c_pager c) sys"
    using put_ready_cong [OF ready _ td(4), of "c_pager c"] td(2) room by simp
  from persist_inv [OF I(1) td(3) this] obtain c1 sys' where
    P: "persist td' c = (Inr (), c1)" "cat_inv (with_table td' c1) sys'" "c_tables c1 = c_tables c"
      "shifts (height sys + 2) (c_pager c) (set (pages sys)) (c_pager c1) (set (pages sys'))" by blast
  let ?c = "with_table td' c1" and ?T = "tree_pages c tr"
  have dj: "?T \<inter> set (pages sys) = {}" using I(5) by (fastforce simp: tree_pages_def)
  note S = shiftsD [OF P(4) dj I(2)]
  have pq: "c_pager ?c = c_pager c1" by (simp add: with_table_def)
  have rt: "root_at ?c = root_at c"
    using root_at_cong [of ?c "with_table td' c"] P(3) td(5) by (auto simp: with_table_def)
  have tp: "tree_pages ?c tr = ?T" by (simp add: tree_pages_def rt)
  have sub: "set (pages (tr u)) \<subseteq> ?T" if "root_at c u = Some r" for u r using that by (auto simp: tree_pages_def)
  have bt: "btree_at (c_pager c1) (tr u)" if "root_at c u = Some r" for u r
    by (rule btree_at_cong [OF I(3) [OF that]]) (use S sub [OF that] in \<open>auto intro: pager_owned_mono\<close>)
  have dj': "set (pages (tr u)) \<inter> set (pages sys') = {}" if "root_at c u = Some r" for u r using sub [OF that] S(2) by blast
  have apart: "set (pages (tr u)) \<inter> set (pages (tr w)) = {}" if "u \<noteq> w" "root_at c u \<noteq> None" "root_at c w \<noteq> None" for u w
    using I(6) [OF that(1)] that(2,3) by blast
  have "store_inv ?c sys' tr"
    unfolding store_inv_def tp rt pq
    using P(2) S(1) bt dj' I(4) apart by (intro conjI allI impI) (auto simp: Un_ac)
  moreover have "contents ?c tr = contents c tr" by (simp add: contents_def rt)
  moreover have "save_schema td' c = (Inr (), ?c)"
    using P(1,3) by (simp add: save_schema_def SaveTable_def persist_tables with_table_def)
  moreover have "Table ?c = (Table c)(n \<mapsto> td')"
    using P(3) n td(2) by (auto simp: fun_eq_iff) (simp add: Table_def)
  moreover have "page (c_pager ?c) j = page (c_pager c) j" if "root_at c u = Some r" "j \<in> set (pages (tr u))" for u r j
    using S(3) sub [OF that(1)] that(2) pq by auto
  moreover have "roomy (m - (6 + length n + length (encodeTableDef td))) (c_pager ?c) sys'"
    if "roomy m (c_pager c) sys" "6 + length n + length (encodeTableDef td) \<le> m" for m
    using persist_roomy [OF cat_invD(1,2) [OF I(1)] that(1) ready' _ P(1)] cat_invD(1,2) [OF P(2)] that(2) td(2,4) n pq
    by (simp add: with_table_def)
  moreover have "pager_room (c_pager c) \<le> pager_room (c_pager ?c) + (height sys + 2)" using shifts_room [OF P(4)] pq by simp
  ultimately show thesis using that rt by blast
qed

lemma next_row_store:
  assumes "store_holds c \<sigma>" "save_ready c n"
  obtains td c' where "Table c n = Some td" "save_schema (td\<lparr>tNextRow := tNextRow td + 1\<rparr>) c = (Inr (), c')"
    "store_holds c' \<sigma>" "root_at c' = root_at c" "Table c' = (Table c)(n \<mapsto> td\<lparr>tNextRow := tNextRow td + 1\<rparr>)"
proof -
  obtain sys tr b td where R: "store_inv c sys tr" "Table c n = Some td"
    "put_ready b (str_bytes (tName td)) (encodeTableDef td) (c_pager c) sys" using assms(2) by (auto simp: save_ready_def)
  have "store_holds c (contents c tr)" using R(1) unfolding store_holds_def by blast
  then have \<sigma>: "\<sigma> = contents c tr" by (rule store_holds_unique [OF assms(1)])
  let ?td = "td\<lparr>tNextRow := tNextRow td + 1\<rparr>"
  have C: "cat_inv c sys" using store_invD(1) [OF R(1)] .
  have ok: "td_ok ?td" using cat_invD(6) [OF C R(2)] by (simp add: td_ok_def)
  have len: "length (encodeTableDef ?td) = length (encodeTableDef td)" by (simp add: encodeTableDef_def)
  have n: "tName td = n" using cat_invD(5) [OF C R(2)] .
  have rt: "root_at (with_table ?td c) u = root_at c u" for u
    using R(2) n by (auto simp: root_at_def2)
  obtain c' sys' where "save_schema ?td c = (Inr (), c')" "store_inv c' sys' tr" "contents c' tr = contents c tr"
    "root_at c' = root_at c" "Table c' = (Table c)(n \<mapsto> ?td)"
    by (rule save_schema_store [OF R(1,2) _ ok len rt R(3)]) auto
  then show thesis using that [OF R(2)] \<sigma> unfolding store_holds_def by blast
qed

end
