(* ===== verification/EngineRefine.thy ===== *)
theory EngineRefine
  imports EngineStore Session
begin

text \<open>
  The operations of a transaction on a store and those of the database in memory agree, and
  with them the row statements.
\<close>

section \<open>A store holds a database\<close>

definition db_of :: "adb \<Rightarrow> db" where
  "db_of a = (\<lambda>(target, k). case a_data a target of None \<Rightarrow> None | Some l \<Rightarrow> map_of l k)"

definition holds_db :: "Catalog \<Rightarrow> adb \<Rightarrow> bool" where
  "holds_db c a \<longleftrightarrow> store_holds c (db_of a) \<and> dom (root_at c) = dom (a_data a) \<and>
     (\<forall>target l. a_data a target = Some l \<longrightarrow> keys_sorted l) \<and>
     (\<forall>n. schema_view c n = map_option (\<lambda>td. (td, a_next a n)) (a_schema a n))"

text \<open>In a transaction of a run: \<open>\<sigma>\<close> and \<open>xs\<close> are the contents and the finished transactions before it.\<close>

definition txn_rel :: "db \<Rightarrow> xact list \<Rightarrow> Store \<times> Txn \<Rightarrow> adb \<Rightarrow> bool" where
  "txn_rel \<sigma> xs st a \<longleftrightarrow> holds_db (st_cat (fst st)) a \<and> (\<exists>cs. run_inv (fst st) (Some (snd st)) \<sigma> xs cs)"

lemma holds_dbD:
  assumes "holds_db c a"
  shows "store_holds c (db_of a)" "root_at c target = None \<longleftrightarrow> a_data a target = None" "a_data a target = Some l \<Longrightarrow> keys_sorted l"
    "schema_view c n = map_option (\<lambda>td. (td, a_next a n)) (a_schema a n)"
proof -
  have d: "dom (root_at c) = dom (a_data a)" using assms by (simp add: holds_db_def)
  show "root_at c target = None \<longleftrightarrow> a_data a target = None" using d by (metis domIff)
qed (use assms in \<open>auto simp: holds_db_def\<close>)

lemma table_schema: "holds_db c a \<Longrightarrow> map_option schema_of (Table c n) = a_schema a n"
  using holds_dbD(4) [of c a n] by (cases "Table c n"; cases "a_schema a n") (auto simp: schema_view_def)

lemma db_of_data: "a_data a target = Some l \<Longrightarrow> db_of a (target, k) = map_of l k"
  by (simp add: db_of_def)

lemma db_of_update:
  "a_data a target = Some l \<Longrightarrow> map_of l' = (map_of l)(k := v) \<Longrightarrow>
   db_of (a\<lparr>a_data := (a_data a)(target \<mapsto> l')\<rparr>) = (db_of a)((target, k) := v)"
  by (auto simp: fun_eq_iff db_of_def)

lemma holds_db_names: "holds_db c a \<Longrightarrow> Table c n = Some td \<Longrightarrow> tName td = n"
  using holds_dbD(1) cat_invD(5) store_invD(1) unfolding store_holds_def by blast

text \<open>The entries of a target in the trees are those of the database.\<close>

lemma holds_db_tree:
  assumes "holds_db c a" "a_data a target = Some l"
  obtains r t where "root_at c target = Some r" "r \<noteq> 0" "btree_at (c_pager c) t" "root_of t = r" "entries t = l"
proof -
  obtain sys tr where s: "store_inv c sys tr" "contents c tr = db_of a" using holds_dbD(1) [OF assms(1)] by (auto simp: store_holds_def)
  obtain r where r: "root_at c target = Some r" using holds_dbD(2) [OF assms(1), of target] assms(2) by auto
  have b: "btree_at (c_pager c) (tr target)" "root_of (tr target) = r" using store_invD(3,4) [OF s(1) r] by auto
  have "map_of (entries (tr target)) k = map_of l k" for k
    using fun_cong [OF s(2), of "(target, k)"] r assms(2) by (simp add: contents_def db_of_def)
  then have "entries (tr target) = l"
    using sorted_map_of_eq [OF btree_atD(5) [OF b(1)] holds_dbD(3) [OF assms]] by blast
  then show thesis using that [OF r root_at_ne_0 [OF s(1) r] b] by simp
qed

section \<open>The operations\<close>

text \<open>A cursor of a store reads the entries of the target from its start key on.\<close>

lemma real_reads:
  "pager_owned p A \<Longrightarrow> cursor_rest p A c l \<Longrightarrow> c_pager (st_cat s) = p \<Longrightarrow> reads real_txn (s, t) c l"
proof (induction l arbitrary: c)
  case Nil
  then show ?case using Next_rest [OF Nil.prems(1,2)] by (auto simp: real_txn_def on_tree_apply on_pager_def)
next
  case (Cons x l)
  obtain d where "Next c p = (Inr (Some x, d), p)" "cursor_rest p A d l" using Next_rest [OF Cons.prems(1,2)] by auto
  then show ?case using Cons.IH [OF Cons.prems(1) _ Cons.prems(3)] Cons.prems(3)
    by (auto simp: real_txn_def on_tree_apply on_pager_def)
qed

lemma real_scans:
  assumes "holds_db (st_cat s) a" "a_data a target = Some l"
  shows "scans real_txn target start (s, t) (entries_from start l)"
proof -
  let ?p = "c_pager (st_cat s)"
  obtain r tree where t: "root_at (st_cat s) target = Some r" "r \<noteq> 0" "btree_at ?p tree" "root_of tree = r" "entries tree = l"
    by (rule holds_db_tree [OF assms])
  obtain sl where sl: "resolve (st_cat s) target = Some (r, sl)" using t(1) by (auto simp: root_at_def)
  obtain c where c: "NewCursor r start ?p = (Inr c, ?p)" "cursor_rest ?p (set (pages tree)) c (entries_from start l)"
    using NewCursor_rest [OF t(3)] t(4,5) by metis
  have "t_Cursor real_txn target start (s, t) = (Inr c, (s, t))"
    using c(1) by (simp add: real_txn_def txn_Cursor_def bind_def resolve_target_ok [OF sl t(2)] on_tree_apply on_pager_def)
  moreover have "reads real_txn (s, t) c (entries_from start l)" by (rule real_reads [OF btree_atD(4) [OF t(3)] c(2) refl])
  moreover have "length (entries_from start l) < t_fuel real_txn (s, t) c"
  proof -
    have "length (entries_from start l) \<le> length l" by (auto simp: entries_from_def split: option.split)
    also have "length l < load_fuel ?p" using load_fuel_enough [OF t(3)] t(5) by simp
    finally show ?thesis by (simp add: real_txn_def)
  qed
  ultimately show ?thesis unfolding scans_def by blast
qed

lemma real_no_cursor:
  assumes "holds_db (st_cat s) a" "a_data a target = None"
  shows "t_Cursor real_txn target start (s, t) = (Inl (ErrUnknownTarget target), (s, t))"
  using assms holds_dbD(2) [OF assms(1)] by (simp add: real_txn_def txn_Cursor_def bind_def resolve_target_unknown)

text \<open>The operations with every write watched: one that is not ready stops the run.\<close>

definition ready_txn :: "(Store \<times> Txn, cursor) txn_ops" where
  "ready_txn = real_txn\<lparr>
     t_Put := (\<lambda>target k v st. if root_at (st_cat (fst st)) target = None \<or> write_ready (st_cat (fst st)) target k v
        then txn_Put target k v st else (Inl Panic, st)),
     t_NextRow := (\<lambda>n st. if save_ready (st_cat (fst st)) n then next_row n st else (Inl Panic, st))\<rparr>"

lemma ready_same [simp]:
  "t_Table ready_txn = lookup_schema" "t_Delete ready_txn = txn_Delete" "t_Get ready_txn = txn_Get"
  "t_Cursor ready_txn = t_Cursor real_txn" "t_Next ready_txn = t_Next real_txn" "t_fuel ready_txn = t_fuel real_txn"
  "t_Table real_txn = lookup_schema" "t_Delete real_txn = txn_Delete" "t_Get real_txn = txn_Get"
  "t_Put real_txn = txn_Put" "t_NextRow real_txn = next_row"
  by (simp_all add: ready_txn_def real_txn_def)

lemma ready_reads: "reads ready_txn st c l = reads real_txn st c l"
  by (induction l arbitrary: c) simp_all

lemma ready_scans: "scans ready_txn target start st l = scans real_txn target start st l"
  by (simp add: scans_def ready_reads)

lemma txn_relD:
  assumes "txn_rel \<sigma> xs (s, t) a"
  obtains cs where "holds_db (st_cat s) a" "run_inv s (Some t) \<sigma> xs cs" "perform (committed \<sigma> xs) cs = db_of a" "\<not> wclosed (st_wal s)"
  using assms store_holds_unique holds_dbD(1) run_invD(1,3) unfolding txn_rel_def fst_conv snd_conv by metis

lemma txn_rel_change:
  assumes "holds_db (st_cat s) a" "run_inv s (Some t) \<sigma> xs cs" "perform (committed \<sigma> xs) cs = db_of a"
    and l: "a_data a target = Some l" "keys_sorted l'" "map_of l' = (map_of l)(k := v)" "v = None \<Longrightarrow> map_of l k \<noteq> None"
    and t': "t' = t\<lparr>tx_undo := tx_undo t @ [entry_of (op_of (db_of a) ((target, k), v))]\<rparr>"
    and s': "store_holds (st_cat s') ((db_of a)((target, k) := v))" "dom (root_at (st_cat s')) = dom (root_at (st_cat s))"
      "wfile (st_wal s') = wfile (st_wal s) @ rec_bytes (logged (tx_id t) (db_of a) ((target, k), v))"
      "\<not> wclosed (st_wal s')" "st_locked s' = st_locked s" "schema_view (st_cat s') = schema_view (st_cat s)"
  shows "txn_rel \<sigma> xs (s', t') (a\<lparr>a_data := (a_data a)(target \<mapsto> l')\<rparr>)"
proof -
  have "run_inv s' (Some t') \<sigma> xs (cs @ [((target, k), v)])"
    using run_inv_change [OF assms(2), of t' "(target, k)" v s'] assms(3) t' s' l(4) db_of_data [OF l(1)] by simp
  moreover have "holds_db (st_cat s') (a\<lparr>a_data := (a_data a)(target \<mapsto> l')\<rparr>)"
    using assms(1) s' l(1,2) unfolding holds_db_def db_of_update [OF l(1,3)]
    by (auto simp: insert_absorb domI)
  ultimately show ?thesis unfolding txn_rel_def by auto
qed

lemma Put_step:
  assumes rel: "txn_rel \<sigma> xs (s, t) a" and w: "root_at (st_cat s) target = None \<or> write_ready (st_cat s) target k v"
  shows "\<exists>r st' a'. txn_Put target k v (s, t) = (r, st') \<and> t_Put db_txn target k v a = (r, a') \<and> txn_rel \<sigma> xs st' a'"
proof -
  obtain cs where R: "holds_db (st_cat s) a" "run_inv s (Some t) \<sigma> xs cs" "perform (committed \<sigma> xs) cs = db_of a" "\<not> wclosed (st_wal s)"
    by (rule txn_relD [OF rel])
  show ?thesis
  proof (cases "a_data a target")
    case None
    then have "txn_Put target k v (s, t) = (Inl (ErrUnknownTarget target), (s, t))"
      using holds_dbD(2) [OF R(1)] by (simp add: txn_Put_def bind_def resolve_target_unknown)
    then show ?thesis using None rel by (simp add: db_txn_def bind_def on_target_def)
  next
    case (Some l)
    then have w': "write_ready (st_cat s) target k v" using w holds_dbD(2) [OF R(1), of target] by simp
    then have len: "length k \<le> maxKeyValue" "length v \<le> maxKeyValue"
      using span_length by (auto simp: write_ready_def put_ready_def)
    from w' txn_Put_holds [OF holds_dbD(1) [OF R(1)] w' R(4), of t]
    obtain s' t' where P: "txn_Put target k v (s, t) = (Inr (), (s', t'))"
      "t' = t\<lparr>tx_undo := tx_undo t @ [entry_of (op_of (db_of a) ((target, k), Some v))]\<rparr>"
      "store_holds (st_cat s') ((db_of a)((target, k) \<mapsto> v))" "dom (root_at (st_cat s')) = dom (root_at (st_cat s))"
      "wfile (st_wal s') = wfile (st_wal s) @ rec_bytes (logged (tx_id t) (db_of a) ((target, k), Some v))"
      "\<not> wclosed (st_wal s')" "st_locked s' = st_locked s" by (auto simp del: op_of.simps logged.simps)
    have sorted: "keys_sorted l" using holds_dbD(3) [OF R(1) Some] .
    have view: "schema_view (st_cat s') = schema_view (st_cat s)" using txn_view(1) [OF holds_db_names [OF R(1)] P(1)] by simp
    have "txn_rel \<sigma> xs (s', t') (a\<lparr>a_data := (a_data a)(target \<mapsto> al_put k v l)\<rparr>)"
      by (rule txn_rel_change [OF R(1-3) Some keys_sorted_al_put [OF sorted] map_of_al_put [OF sorted] _ P(2-7) view]) simp
    then show ?thesis using P(1) Some len by (simp add: db_txn_def bind_def on_target_def set_target_def)
  qed
qed

lemma Delete_step:
  assumes rel: "txn_rel \<sigma> xs (s, t) a"
  shows "\<exists>r st' a'. txn_Delete target k (s, t) = (r, st') \<and> t_Delete db_txn target k a = (r, a') \<and> txn_rel \<sigma> xs st' a'"
proof -
  obtain cs where R: "holds_db (st_cat s) a" "run_inv s (Some t) \<sigma> xs cs" "perform (committed \<sigma> xs) cs = db_of a" "\<not> wclosed (st_wal s)"
    by (rule txn_relD [OF rel])
  note D = txn_Delete_holds [OF holds_dbD(1) [OF R(1)] R(4), where target = target and key = k and t = t]
  show ?thesis
  proof (cases "a_data a target")
    case None
    then show ?thesis using D(1) holds_dbD(2) [OF R(1)] rel by (simp add: db_txn_def bind_def on_target_def)
  next
    case (Some l)
    note e = db_of_data [OF Some, of k]
    show ?thesis
    proof (cases "map_of l k")
      case None
      then show ?thesis using D(2) holds_dbD(2) [OF R(1), of target] Some e rel by (simp add: db_txn_def bind_def on_target_def)
    next
      case (Some v)
      obtain s' t' where P: "txn_Delete target k (s, t) = (Inr (), (s', t'))"
        "t' = t\<lparr>tx_undo := tx_undo t @ [entry_of (op_of (db_of a) ((target, k), None))]\<rparr>"
        "store_holds (st_cat s') ((db_of a)((target, k) := None))" "dom (root_at (st_cat s')) = dom (root_at (st_cat s))"
        "wfile (st_wal s') = wfile (st_wal s) @ rec_bytes (logged (tx_id t) (db_of a) ((target, k), None))"
        "\<not> wclosed (st_wal s')" "st_locked s' = st_locked s" using D(3) e Some by (auto simp del: op_of.simps logged.simps)
      have sorted: "keys_sorted (al_del k l)" using keys_sorted_al_del holds_dbD(3) [OF R(1) \<open>a_data a target = Some l\<close>] by blast
      have view: "schema_view (st_cat s') = schema_view (st_cat s)" using txn_view(2) [OF holds_db_names [OF R(1)] P(1)] by simp
      have "txn_rel \<sigma> xs (s', t') (a\<lparr>a_data := (a_data a)(target \<mapsto> al_del k l)\<rparr>)"
        by (rule txn_rel_change [OF R(1-3) \<open>a_data a target = Some l\<close> sorted map_of_al_del _ P(2-7) view]) (simp add: Some)
      then show ?thesis using P(1) Some \<open>a_data a target = Some l\<close> by (simp add: db_txn_def bind_def on_target_def set_target_def)
    qed
  qed
qed

lemma Get_step:
  assumes rel: "txn_rel \<sigma> xs (s, t) a"
  shows "\<exists>r. txn_Get target k (s, t) = (r, (s, t)) \<and> t_Get db_txn target k a = (r, a)"
proof -
  obtain cs where R: "holds_db (st_cat s) a" by (rule txn_relD [OF rel])
  show ?thesis
    using txn_Get_holds [OF holds_dbD(1) [OF R], of target k t] holds_dbD(2) [OF R, of target]
    by (cases "a_data a target") (auto simp: db_txn_def on_target_def db_of_data split: option.splits)
qed

lemma NextRow_step:
  assumes rel: "txn_rel \<sigma> xs (s, t) a" and w: "save_ready (st_cat s) n"
  shows "\<exists>r st' a'. next_row n (s, t) = (r, st') \<and> t_NextRow db_txn n a = (r, a') \<and> txn_rel \<sigma> xs st' a'"
proof -
  obtain cs where R: "holds_db (st_cat s) a" "run_inv s (Some t) \<sigma> xs cs" "perform (committed \<sigma> xs) cs = db_of a" "\<not> wclosed (st_wal s)"
    by (rule txn_relD [OF rel])
  obtain td c' where N: "Table (st_cat s) n = Some td" "save_schema (td\<lparr>tNextRow := tNextRow td + 1\<rparr>) (st_cat s) = (Inr (), c')"
    "store_holds c' (db_of a)" "root_at c' = root_at (st_cat s)" "Table c' = (Table (st_cat s))(n \<mapsto> td\<lparr>tNextRow := tNextRow td + 1\<rparr>)"
    by (rule next_row_store [OF holds_dbD(1) [OF R(1)] w])
  note v = holds_dbD(4) [OF R(1), of n]
  have a: "a_schema a n = Some (schema_of td)" "a_next a n = tNextRow td"
    using v N(1) by (cases "a_schema a n"; auto simp: schema_view_def)+
  let ?s = "s\<lparr>st_cat := c'\<rparr>" and ?a = "a\<lparr>a_next := (a_next a)(n := tNextRow td + 1)\<rparr>"
  have "schema_view c' m = map_option (\<lambda>td. (td, a_next ?a m)) (a_schema ?a m)" for m
    using holds_dbD(4) [OF R(1), of m] a by (auto simp: schema_view_def N(5) schema_of_def)
  then have "holds_db c' ?a" using R(1) N(3,4) by (simp add: holds_db_def db_of_def)
  moreover have "run_inv ?s (Some t) \<sigma> xs cs" using R(2,3) N(3) by (simp add: run_inv_def)
  ultimately have "txn_rel \<sigma> xs (?s, t) ?a" unfolding txn_rel_def by auto
  then show ?thesis using N(1,2) a by (simp add: next_row_def bind_def on_store_def on_cat_def db_txn_def)
qed

section \<open>The row statements\<close>

lemma Table_step:
  assumes "txn_rel \<sigma> xs (s, t) a"
  shows "lookup_schema n (s, t) = (Inr (a_schema a n), (s, t))" "t_Table db_txn n a = (Inr (a_schema a n), a)"
proof -
  obtain cs where R: "holds_db (st_cat s) a" by (rule txn_relD [OF assms])
  show "lookup_schema n (s, t) = (Inr (a_schema a n), (s, t))" using table_schema [OF R] by (simp add: lookup_schema_def)
qed (simp add: db_txn_def)

lemma scan_step:
  assumes "txn_rel \<sigma> xs (s, t) a"
  shows "(\<exists>e. t_Cursor real_txn target start (s, t) = (Inl e, (s, t)) \<and> t_Cursor db_txn target start a = (Inl e, a)) \<or>
    (\<exists>l. scans real_txn target start (s, t) l \<and> scans db_txn target start a l)"
proof -
  obtain cs where R: "holds_db (st_cat s) a" by (rule txn_relD [OF assms])
  show ?thesis
  proof (cases "a_data a target")
    case None
    then show ?thesis using real_no_cursor [OF R None, of start t] by (simp add: db_txn_def on_target_def)
  next
    case (Some l)
    then show ?thesis using real_scans [OF R Some, of start t] db_scans [OF Some, of start] by blast
  qed
qed

text \<open>A watched operation that does not stop is the operation, and the specification follows it.\<close>

definition followed :: "db \<Rightarrow> xact list \<Rightarrow> 'a txm \<Rightarrow> 'a txm \<Rightarrow> (adb, 'a) sm \<Rightarrow> bool" where
  "followed \<sigma> xs m m' n \<longleftrightarrow> (\<forall>st a r st'. txn_rel \<sigma> xs st a \<longrightarrow> m st = (r, st') \<longrightarrow>
     (\<exists>e. r = Inl e \<and> stops e) \<or> (m' st = (r, st') \<and> (\<exists>a'. n a = (r, a') \<and> txn_rel \<sigma> xs st' a')))"

lemma followedD:
  assumes "followed \<sigma> xs m m' n"
  shows "agree (txn_rel \<sigma> xs) m n" "agree (\<lambda>st st'. st' = st \<and> (\<exists>a. txn_rel \<sigma> xs st a)) m m'"
proof -
  have F: "(\<exists>e. r = Inl e \<and> stops e) \<or> (m' st = (r, st') \<and> (\<exists>a'. n a = (r, a') \<and> txn_rel \<sigma> xs st' a'))"
    if "txn_rel \<sigma> xs st a" "m st = (r, st')" for st a r st' using assms that unfolding followed_def by blast
  show "agree (txn_rel \<sigma> xs) m n" unfolding agree_def using F by blast
  show "agree (\<lambda>st st'. st' = st \<and> (\<exists>a. txn_rel \<sigma> xs st a)) m m'"
  proof (rule agreeI)
    fix st u r st' assume a: "u = st \<and> (\<exists>a. txn_rel \<sigma> xs st a)" "m st = (r, st')" "\<And>e. r = Inl e \<Longrightarrow> \<not> stops e"
    then obtain a where "txn_rel \<sigma> xs st a" by blast
    from F [OF this a(2)] a(3) have "m' st = (r, st')" "\<exists>a. txn_rel \<sigma> xs st' a" by auto
    then show "\<exists>t'. m' u = (r, t') \<and> t' = st' \<and> (\<exists>a. txn_rel \<sigma> xs st' a)" using a(1) by (intro exI [of _ st']) simp
  qed
qed

lemma followedI:
  "(\<And>s t a. txn_rel \<sigma> xs (s, t) a \<Longrightarrow> \<exists>r st' a'. m (s, t) = (r, st') \<and> n a = (r, a') \<and> txn_rel \<sigma> xs st' a') \<Longrightarrow> followed \<sigma> xs m m n"
  unfolding followed_def by (metis prod.collapse prod.inject)

lemma followed_Table: "followed \<sigma> xs (lookup_schema n) (lookup_schema n) (t_Table db_txn n)"
  by (rule followedI) (metis Table_step)

lemma followed_Get: "followed \<sigma> xs (txn_Get target k) (txn_Get target k) (t_Get db_txn target k)"
  by (rule followedI) (metis Get_step)

lemma followed_Delete: "followed \<sigma> xs (txn_Delete target k) (txn_Delete target k) (t_Delete db_txn target k)"
  by (rule followedI) (rule Delete_step)

lemma followed_Put: "followed \<sigma> xs (t_Put ready_txn target k v) (txn_Put target k v) (t_Put db_txn target k v)"
proof -
  have p: "t_Put ready_txn target k v (s, t) = (if root_at (st_cat s) target = None \<or> write_ready (st_cat s) target k v
      then txn_Put target k v (s, t) else (Inl Panic, (s, t)))" for s t by (simp add: ready_txn_def)
  show ?thesis unfolding followed_def split_paired_All p using Put_step by (metis prod.inject stops_def)
qed

lemma followed_NextRow: "followed \<sigma> xs (t_NextRow ready_txn n) (next_row n) (t_NextRow db_txn n)"
proof -
  have p: "t_NextRow ready_txn n (s, t) = (if save_ready (st_cat s) n then next_row n (s, t) else (Inl Panic, (s, t)))" for s t
    by (simp add: ready_txn_def)
  show ?thesis unfolding followed_def split_paired_All p using NextRow_step by (metis prod.inject stops_def)
qed

lemmas followed_ops = followed_Table followed_NextRow followed_Put followed_Delete followed_Get

interpretation spec: same_txn ready_txn db_txn "txn_rel \<sigma> xs" for \<sigma> xs
proof
  fix st a target start assume "txn_rel \<sigma> xs st a"
  then show "(\<exists>e. t_Cursor ready_txn target start st = (Inl e, st) \<and> t_Cursor db_txn target start a = (Inl e, a)) \<or>
      (\<exists>l. scans ready_txn target start st l \<and> scans db_txn target start a l)"
    using scan_step by (cases st) (simp add: ready_scans)
qed (simp_all only: ready_same followed_ops [THEN followedD(1)])

interpretation code: same_txn ready_txn real_txn "\<lambda>st st'. st' = st \<and> (\<exists>a. txn_rel \<sigma> xs st a)" for \<sigma> xs
proof
  fix st st' target start assume "st' = st \<and> (\<exists>a. txn_rel \<sigma> xs st a)"
  then show "(\<exists>e. t_Cursor ready_txn target start st = (Inl e, st) \<and> t_Cursor real_txn target start st' = (Inl e, st')) \<or>
      (\<exists>l. scans ready_txn target start st l \<and> scans real_txn target start st' l)"
    using scan_step by (cases st) (fastforce simp: ready_scans)
qed (simp_all only: ready_same followed_ops [THEN followedD(2)])

text \<open>The statement runs to its end with every write ready.\<close>

definition completes :: "Statement \<Rightarrow> Store \<times> Txn \<Rightarrow> bool" where
  "completes stmt st \<longleftrightarrow> (case fst (row_stmt stmt ready_txn st) of Inl e \<Rightarrow> \<not> stops e | Inr _ \<Rightarrow> True)"

lemma row_stmt_step:
  assumes "txn_rel \<sigma> xs st a" "completes stmt st"
  obtains r st' a' where "row_stmt stmt real_txn st = (r, st')" "row_stmt stmt db_txn a = (r, a')" "txn_rel \<sigma> xs st' a'"
    "\<And>e. r = Inl e \<Longrightarrow> \<not> stops e" "row_stmt stmt ready_txn st = (r, st')"
proof -
  obtain r st' where m: "row_stmt stmt ready_txn st = (r, st')" by (cases "row_stmt stmt ready_txn st")
  then have go: "\<And>e. r = Inl e \<Longrightarrow> \<not> stops e" using assms(2) by (auto simp: completes_def)
  have "agree (txn_rel \<sigma> xs) (row_stmt stmt ready_txn) (row_stmt stmt db_txn)"
    by (cases stmt) (simp_all add: row_stmt_def spec.same_execInsert spec.same_execUpdate spec.same_execDelete spec.same_execSelect agree_fail)
  from agreeD [OF this assms(1) m go] obtain a' where a': "row_stmt stmt db_txn a = (r, a')" "txn_rel \<sigma> xs st' a'" by blast
  have "agree (\<lambda>st st'. st' = st \<and> (\<exists>a. txn_rel \<sigma> xs st a)) (row_stmt stmt ready_txn) (row_stmt stmt real_txn)"
    by (cases stmt) (simp_all add: row_stmt_def code.same_execInsert code.same_execUpdate code.same_execDelete code.same_execSelect agree_fail)
  from agreeD [OF this _ m go] assms(1) have "row_stmt stmt real_txn st = (r, st')" by blast
  then show thesis using a' go m that by blast
qed

end
