(* ===== verification/EngineProps.thy ===== *)
theory EngineProps
  imports EngineRefine SessionProps
begin

text \<open>
  Statements on a store: in a transaction a row statement does what it does on the database
  in memory, and one outside a transaction happens as a whole or not at all.
\<close>

section \<open>Statements in a transaction\<close>

text \<open>
  C8: a row statement in a transaction of a run returns the value or the error it returns
  on the database in memory, and leaves the store with the contents, the schemas and
  the row numbers it leaves there; \<open>completes\<close> says that every write of it is \<open>write_ready\<close>: a value of at most 1008 bytes, a
  tree that takes it without losing entries, and pages left.
\<close>

theorem row_stmt_refines:
  assumes "store_run s (Some t) \<sigma> xs cs" "holds_db (st_cat s) a" "completes stmt (s, t)"
  shows "\<exists>r s' t' a'. row_stmt stmt real_txn (s, t) = (r, (s', t')) \<and> row_stmt stmt db_txn a = (r, a') \<and> holds_db (st_cat s') a'"
proof -
  have "txn_rel \<sigma> xs (s, t) a" using assms(2) store_run_inv [OF assms(1)] by (auto simp: txn_rel_def)
  then obtain r st' a' where "row_stmt stmt real_txn (s, t) = (r, st')" "row_stmt stmt db_txn a = (r, a')" "txn_rel \<sigma> xs st' a'"
    using assms(3) by (rule row_stmt_step)
  then show ?thesis by (cases st') (auto simp: txn_rel_def)
qed

section \<open>Statements outside a transaction\<close>

definition is_row_stmt :: "Statement \<Rightarrow> bool" where
  "is_row_stmt stmt = (case stmt of Insert_stmt _ \<Rightarrow> True | Update_stmt _ \<Rightarrow> True | Delete_stmt _ \<Rightarrow> True | Select_stmt _ \<Rightarrow> True | _ \<Rightarrow> False)"

text \<open>Every write of the statement, and of its rollback when it fails, finds room.\<close>

definition stmt_ready :: "Statement \<Rightarrow> Store \<Rightarrow> bool" where
  "stmt_ready stmt store = (case Begin store of
     (Inl _, _) \<Rightarrow> False
   | (Inr t, s) \<Rightarrow> completes stmt (s, t) \<and>
       (case row_stmt stmt real_txn (s, t) of (Inl e, (s', t')) \<Rightarrow> undo_ready s' t' | _ \<Rightarrow> True))"

lemma executeStmt_row: "is_row_stmt stmt \<Longrightarrow> executeStmt order stmt = runInTxn (row_stmt stmt real_txn)"
  by (cases stmt) (simp_all add: is_row_stmt_def executeStmt_def row_stmt_def)

lemma holds_db_cong:
  "holds_db c a \<Longrightarrow> store_holds c' (db_of a) \<Longrightarrow> c_tables c' = c_tables c \<Longrightarrow> holds_db c' a"
  using root_at_cong [of c' c] schema_view_tables [of c' c] by (auto simp: holds_db_def)

lemma Commit_cat: "txn_Commit (s, t) = (r, (s', t')) \<Longrightarrow> st_cat s' = st_cat s"
  by (auto simp: txn_Commit_def bind_def on_store_def on_wal_def split: if_splits prod.splits sum.splits)

lemma checkpoint_holds_db:
  assumes "holds_db (st_cat s) a" "\<not> wclosed (st_wal s)"
  obtains s' where "MaybeCheckpoint n s = (Inr (), s')" "holds_db (st_cat s') a" "st_locked s' = st_locked s"
proof (cases "n \<le> st_writes s")
  case True
  obtain s' where s': "MaybeCheckpoint n s = (Inr (), s')" "store_holds (st_cat s') (db_of a)" "st_locked s' = st_locked s"
    using checkpoint_state [OF holds_dbD(1) [OF assms(1)] assms(2) True] by metis
  have "c_tables (st_cat s') = c_tables (st_cat s)"
    using s'(1) True
    by (auto simp: MaybeCheckpoint_def bind_def on_cat_def on_pager_def on_wal_def split: if_splits prod.splits sum.splits)
  then show thesis using that [OF s'(1) holds_db_cong [OF assms(1) s'(2)] s'(3)] by simp
next
  case False
  then show thesis using that [of s] assms by (simp add: MaybeCheckpoint_def)
qed

text \<open>How a statement outside a transaction ends: rolled back, or committed with a possible checkpoint.\<close>

lemma runInTxn_outcome [consumes 4]:
  assumes se: "se_txn se = None" and run: "run_inv (se_store se) None \<sigma> xs []" and a: "holds_db (st_cat (se_store se)) a"
    and ready: "stmt_ready stmt (se_store se)"
  obtains (failed) err s' t' s'' t'' a' xs' where "runInTxn (row_stmt stmt real_txn) se = (Inl err, se\<lparr>se_store := s''\<rparr>)"
      "row_stmt stmt db_txn a = (Inl err, a')" "holds_db (st_cat s') a'" "txn_Rollback (s', t') = (Inr (), (s'', t''))"
      "run_inv s'' None \<sigma> xs' []" "store_holds (st_cat s'') (db_of a)"
    | (ended) res s2 s3 a' xs' where "runInTxn (row_stmt stmt real_txn) se = (Inr res, se\<lparr>se_store := s3\<rparr>)"
      "row_stmt stmt db_txn a = (Inr res, a')" "run_inv s2 None \<sigma> xs' []" "MaybeCheckpoint 2000 s2 = (Inr (), s3)"
      "holds_db (st_cat s3) a'" "st_locked s3 = st_locked s2"
proof -
  have com: "committed \<sigma> xs = db_of a" using store_holds_unique [OF holds_dbD(1) [OF a]] run_invD(1) [OF run] by auto
  obtain t s where b: "Begin (se_store se) = (Inr t, s)" "run_inv s (Some t) \<sigma> xs []" by (rule Begin_inv [OF run])
  have "st_cat s = st_cat (se_store se)" using b(1) by (auto simp: Begin_def Let_def on_wal_def split: if_splits prod.splits)
  then have rel: "txn_rel \<sigma> xs (s, t) a" using a b(2) by (auto simp: txn_rel_def)
  have ok: "completes stmt (s, t)" using ready b(1) by (simp add: stmt_ready_def)
  obtain r st' a' where e: "row_stmt stmt real_txn (s, t) = (r, st')" "row_stmt stmt db_txn a = (r, a')" "txn_rel \<sigma> xs st' a'"
    "\<And>e. r = Inl e \<Longrightarrow> \<not> stops e" by (rule row_stmt_step [OF rel ok]) blast
  obtain s' t' where st': "st' = (s', t')" by (cases st')
  obtain cs where x: "holds_db (st_cat s') a'" "run_inv s' (Some t') \<sigma> xs cs" by (rule txn_relD [OF e(3) [unfolded st']])
  have B: "on_sess Begin se = (Inr t, se\<lparr>se_store := s\<rparr>)" using b(1) by (simp add: on_sess_def)
  show thesis
  proof (cases r)
    case (Inl err)
    have "undo_ready s' t'" using ready b(1) e(1) Inl st' by (simp add: stmt_ready_def)
    then obtain s'' t'' where R: "txn_Rollback (s', t') = (Inr (), (s'', t''))" "run_inv s'' None \<sigma> (xs @ [finished t' cs False]) []"
      by (rule Rollback_inv [OF x(2)])
    have "store_holds (st_cat s'') (db_of a)" using run_invD(1) [OF R(2)] com by (simp add: committed_snoc after_def) (simp add: finished_def)
    moreover have "runInTxn (row_stmt stmt real_txn) se = (Inl err, se\<lparr>se_store := s''\<rparr>)"
      using se B e(1,4) Inl R(1) st' by (simp add: runInTxn_def bind_def)
    ultimately show thesis using failed e(2) Inl x(1) R by blast
  next
    case (Inr res)
    obtain s2 t2 where C: "txn_Commit (s', t') = (Inr (), (s2, t2))" "run_inv s2 None \<sigma> (xs @ [finished t' cs True]) []"
      by (rule Commit_inv [OF x(2)])
    have "holds_db (st_cat s2) a'" using Commit_cat [OF C(1)] x(1) by simp
    then obtain s3 where M: "MaybeCheckpoint 2000 s2 = (Inr (), s3)" "holds_db (st_cat s3) a'" "st_locked s3 = st_locked s2"
      using run_invD(3) [OF C(2)] by (rule checkpoint_holds_db)
    have "runInTxn (row_stmt stmt real_txn) se = (Inr res, se\<lparr>se_store := s3\<rparr>)"
      using se B e(1) Inr C(1) M(1) st' by (simp add: runInTxn_def bind_def on_sess_def)
    then show thesis using ended e(2) Inr C(2) M by blast
  qed
qed

lemma runInTxn_row:
  assumes se: "se_txn se = None" and run: "run_inv (se_store se) None \<sigma> xs []" and a: "holds_db (st_cat (se_store se)) a"
    and ready: "stmt_ready stmt (se_store se)"
  shows "\<exists>r se' a'. runInTxn (row_stmt stmt real_txn) se = (r, se') \<and> row_stmt stmt db_txn a = (r, a') \<and> se_txn se' = None \<and>
    \<not> st_locked (se_store se') \<and>
    (case r of Inl e \<Rightarrow> store_holds (st_cat (se_store se')) (db_of a) | Inr _ \<Rightarrow> holds_db (st_cat (se_store se')) a')"
  using assms
proof (cases rule: runInTxn_outcome)
  case (failed err s' t' s'' t'' a' xs')
  then show ?thesis using se run_invD(4) [OF failed(5)] by simp
next
  case (ended res s2 s3 a' xs')
  then show ?thesis using se run_invD(4) [OF ended(3)] by simp
qed

text \<open>
  C7: a row statement of a session without a transaction happens as a whole or not at
  all.  It returns what it returns on the database in memory; when that is an error, the rows
  and index entries of the store are those from before the statement, though some had been
  written, and otherwise the store holds the new database.  The lock is free afterwards.  The statement is one whose puts,
  and those of its rollback when it fails, have values of at most 1008 bytes and find trees that take them without
  losing entries (\<open>stmt_ready\<close>).
\<close>

theorem statement_atomic:
  assumes "is_row_stmt stmt" "se_txn se = None" "store_run (se_store se) None \<sigma> xs []" "holds_db (st_cat (se_store se)) a"
    and "stmt_ready stmt (se_store se)"
  shows "\<exists>r se' a'. executeStmt order stmt se = (r, se') \<and> row_stmt stmt db_txn a = (r, a') \<and> se_txn se' = None \<and>
    \<not> st_locked (se_store se') \<and>
    (case r of Inl e \<Rightarrow> store_holds (st_cat (se_store se')) (db_of a) | Inr _ \<Rightarrow> holds_db (st_cat (se_store se')) a')"
  unfolding executeStmt_row [OF assms(1)] by (rule runInTxn_row [OF assms(2) store_run_inv [OF assms(3)] assms(4,5)])

section \<open>Failed statements of an explicit transaction\<close>

text \<open>
  C34: in an explicit transaction \<^verbatim>\<open>runInTxn\<close> does not undo a statement that fails.  The session
  reports the error of the statement and its transaction stays open; the store holds the database as the
  statement had left it when it failed, with the rows and index entries written until then, and a COMMIT keeps them.
  Every write of the statement is one that \<open>write_ready\<close> admits (\<open>completes\<close>).
\<close>

theorem failed_statement_stays:
  assumes "is_row_stmt stmt" "se_txn se = Some t" "store_run (se_store se) (Some t) \<sigma> xs cs" "holds_db (st_cat (se_store se)) a"
    and "completes stmt (se_store se, t)" "row_stmt stmt db_txn a = (Inl e, a')"
  shows "\<exists>se1 se2. executeStmt order stmt se = (Inl e, se1) \<and> InTxn se1 \<and> holds_db (st_cat (se_store se1)) a' \<and>
    executeStmt order CommitStmt se1 = (Inr (message ''COMMIT'' 0), se2) \<and> \<not> InTxn se2 \<and> holds_db (st_cat (se_store se2)) a'"
proof -
  have "txn_rel \<sigma> xs (se_store se, t) a" using assms(4) store_run_inv [OF assms(3)] by (auto simp: txn_rel_def)
  then obtain r st' a1 where "row_stmt stmt real_txn (se_store se, t) = (r, st')" "row_stmt stmt db_txn a = (r, a1)" "txn_rel \<sigma> xs st' a1"
    using assms(5) by (rule row_stmt_step)
  then obtain s' t' where e: "row_stmt stmt real_txn (se_store se, t) = (Inl e, (s', t'))" "txn_rel \<sigma> xs (s', t') a'"
    using assms(6) by (cases st') auto
  obtain ds where x: "holds_db (st_cat s') a'" "run_inv s' (Some t') \<sigma> xs ds" by (rule txn_relD [OF e(2)])
  obtain s2 t2 where C: "txn_Commit (s', t') = (Inr (), (s2, t2))" "run_inv s2 None \<sigma> (xs @ [finished t' ds True]) []"
    by (rule Commit_inv [OF x(2)])
  have "holds_db (st_cat s2) a'" using Commit_cat [OF C(1)] x(1) by simp
  then obtain s3 where M: "MaybeCheckpoint 2000 s2 = (Inr (), s3)" "holds_db (st_cat s3) a'" "st_locked s3 = st_locked s2"
    using run_invD(3) [OF C(2)] by (rule checkpoint_holds_db)
  have "executeStmt order stmt se = (Inl e, \<lparr>se_store = s', se_txn = Some t'\<rparr>)"
    using assms(2) e(1) by (simp add: executeStmt_row [OF assms(1)] runInTxn_def)
  moreover have "executeStmt order CommitStmt \<lparr>se_store = s', se_txn = Some t'\<rparr> =
      (Inr (message ''COMMIT'' 0), \<lparr>se_store = s3, se_txn = None\<rparr>)"
    using C(1) M(1) by (simp add: executeStmt_def bind_def end_txn_def on_sess_def)
  ultimately show ?thesis using x(1) M(2) by (simp add: InTxn_def)
qed

section \<open>A statement on the table \<open>users\<close>\<close>

definition users_schema :: TableDef where
  "users_schema = schema_of (new_table ''users'' users_columns 0)"

definition users_db :: adb where
  "users_db = \<lparr>a_schema = [''users'' \<mapsto> users_schema], a_next = (\<lambda>_. 1), a_data = [''T:users'' \<mapsto> []]\<rparr>"

lemma users_holds:
  assumes "store_holds c (\<lambda>_. None)" "Table c = [''users'' \<mapsto> new_table ''users'' users_columns root]" "root_at c = [''T:users'' \<mapsto> root]"
  shows "holds_db c users_db"
proof -
  have "db_of users_db = (\<lambda>_. None)" by (auto simp: fun_eq_iff db_of_def users_db_def)
  moreover have "schema_view c n = map_option (\<lambda>td. (td, a_next users_db n)) (a_schema users_db n)" for n
    by (simp add: schema_view_def assms(2) users_db_def users_schema_def schema_of_def new_table_def)
  ultimately show ?thesis using assms(1,3) by (auto simp: holds_db_def users_db_def split: if_splits)
qed

definition lit_int :: "int64 \<Rightarrow> Expr" where
  "lit_int i = LiteralExpr (zero_literal\<lparr>lKind := ''int'', lI := i\<rparr>)"

definition lit_null :: Expr where
  "lit_null = LiteralExpr (zero_literal\<lparr>lKind := ''null''\<rparr>)"

text \<open>A row that fits: its number is drawn and it is put.\<close>

lemma users_insert_row:
  assumes run: "store_run s (Some t) (\<lambda>_. None) [] []" "tx_undo t = []"
    and u: "store_inv (st_cat s) sys tr" "Table (st_cat s) = [''users'' \<mapsto> new_table ''users'' users_columns root]"
      "root_at (st_cat s) = [''T:users'' \<mapsto> root]" "tr ''T:users'' = GLeaf root []" "roomy 3000 (c_pager (st_cat s)) sys"
      "roomy page_room (c_pager (st_cat s)) (tr ''T:users'')" "50 < pager_room (c_pager (st_cat s))"
  shows "\<exists>s' t'. insert_row ready_txn users_schema [0, 1] [lit_int 7, lit_null] (s, t) = (Inr (), (s', t')) \<and>
    tx_undo t' = [\<lparr>u_target = ''T:users'', u_key = EncodeUint64 1, u_hadPrev = False, u_prev = []\<rparr>] \<and>
    root_at (st_cat s') ''T:users'' \<noteq> None"
proof -
  let ?td = "new_table ''users'' users_columns root" and ?c = "st_cat s"
  let ?td' = "?td\<lparr>tNextRow := tNextRow ?td + 1\<rparr>" and ?vals = "[IntValue 7, NullValue TypeText]"
  note I = run_invD [OF store_run_inv [OF run(1)]]
  have len: "length (encodeTableDef ?td) \<le> 500" "length (encodeTableDef ?td') = length (encodeTableDef ?td)"
    using users_def_length by (simp_all add: encodeTableDef_def)
  have n: "tName ?td = ''users''" by (simp add: new_table_def)
  have T: "Table ?c ''users'' = Some ?td" using u(2) by simp
  have keys: "span 13 k" if "k \<in> insert (str_bytes ''users'') (fst ` set (entries sys))" for k
  proof -
    have "k = str_bytes ''users''"
      using that sys_keys [OF store_invD(1) [OF u(1)], of k] T u(2) by (metis fun_upd_apply insertE option.distinct(1))
    then show ?thesis by (simp add: span_def)
  qed
  have ready: "put_ready 13 (str_bytes (tName ?td)) (encodeTableDef ?td) (c_pager ?c) sys"
    unfolding n by (rule put_ready_roomy [OF u(5) _ _ _ keys]) (use u(7) len(1) in \<open>auto simp: cell_cost_def\<close>)
  have ok: "td_ok ?td'" by (simp add: td_ok_def new_table_def users_columns_def)
  have rt: "root_at (with_table ?td' ?c) w = root_at ?c w" for w
    using T by (auto simp: root_at_def2 new_table_def)
  obtain c1 sys1 where c1: "save_schema ?td' ?c = (Inr (), c1)" "store_inv c1 sys1 tr" "contents c1 tr = contents ?c tr"
    "root_at c1 = root_at ?c" "Table c1 = (Table ?c)(''users'' \<mapsto> ?td')"
    "pager_room (c_pager ?c) \<le> pager_room (c_pager c1) + (height sys + 2)"
    "\<And>w r j. root_at ?c w = Some r \<Longrightarrow> j \<in> set (pages (tr w)) \<Longrightarrow> page (c_pager c1) j = page (c_pager ?c) j"
    "\<And>m. roomy m (c_pager ?c) sys \<Longrightarrow> 6 + length ''users'' + length (encodeTableDef ?td) \<le> m \<Longrightarrow>
       roomy (m - (6 + length ''users'' + length (encodeTableDef ?td))) (c_pager c1) sys1"
    by (rule save_schema_store [OF u(1) T _ ok len(2) rt ready]) auto
  have sys1: "roomy 2000 (c_pager c1) sys1" by (rule roomy_mono [OF c1(8) [OF u(5)]]) (use len(1) in simp_all)
  have heap: "roomy page_room (c_pager c1) (tr ''T:users'')" by (rule roomy_cong [OF u(6)]) (use c1(7) [of "''T:users''" root] u(3) in simp)
  have h: "store_holds c1 (\<lambda>_. None)"
    using c1(2,3) store_holds_unique [OF I(1)] u(1) unfolding store_holds_def by (force simp: committed_def)
  have wr: "write_ready c1 ''T:users'' (EncodeUint64 1) (EncodeRow ?vals)"
    by (rule write_ready_roomy [OF c1(2), where r = root and td = ?td' and b = 9 and b' = 13 and n = page_room and m = 2000])
      (use c1(4,5,6) u heap sys1 len roomy_height [OF u(5)] in
        \<open>auto simp: target_table_def span_def cell_cost_def new_table_def EncodeRow_def EncodeUint64_def encode_value_def split: if_splits\<close>)
  let ?s = "s\<lparr>st_cat := c1\<rparr>"
  have nr: "t_NextRow ready_txn ''users'' (s, t) = (Inr 1, (?s, t))"
  proof -
    have "save_ready ?c ''users''" using u(1) T ready unfolding save_ready_def by blast
    then show ?thesis using T c1(1) by (simp add: ready_txn_def next_row_def bind_def on_store_def on_cat_def) (simp add: new_table_def)
  qed
  obtain s' t' where P: "txn_Put ''T:users'' (EncodeUint64 1) (EncodeRow ?vals) (?s, t) = (Inr (), (s', t'))"
    "t' = t\<lparr>tx_undo := tx_undo t @ [entry_of (op_of (\<lambda>_. None) ((''T:users'', EncodeUint64 1), Some (EncodeRow ?vals)))]\<rparr>"
    "dom (root_at (st_cat s')) = dom (root_at c1)"
    using txn_Put_holds [of ?s "\<lambda>_. None" "''T:users''" "EncodeUint64 1" "EncodeRow ?vals" t] h wr I(3) by (auto simp del: op_of.simps)
  have "t_Put ready_txn ''T:users'' (EncodeUint64 1) (EncodeRow ?vals) (?s, t) = (Inr (), (s', t'))"
    using P(1) wr by (simp add: ready_txn_def)
  moreover have "root_at (st_cat s') ''T:users'' \<noteq> None" using P(3) c1(4) u(3) by (metis domIff fun_upd_same option.distinct(1))
  ultimately show ?thesis using nr P(2) run(2)
    by (simp add: insert_row_def bind_def users_schema_def schema_of_def new_table_def users_columns_def column_value_def lit_int_def
        lit_null_def evalLiteral_def zero_literal_def coerce_def TableTarget_def entry_of_def)
qed

text \<open>Two rows, of which the second breaks the constraint of its first column.\<close>

definition bad_insert :: Statement where
  "bad_insert = Insert_stmt \<lparr>inTable = ''users'', inColumns = [], inRows = [[lit_int 7, lit_null], [lit_null, lit_null]]\<rparr>"

definition good_insert :: Statement where
  "good_insert = Insert_stmt \<lparr>inTable = ''users'', inColumns = [], inRows = [[lit_int 7, lit_null]]\<rparr>"

lemma insert_users_exec:
  assumes "txn_rel \<sigma> xs (s, t) users_db"
  shows "execInsert ready_txn \<lparr>inTable = ''users'', inColumns = [], inRows = rows\<rparr> (s, t) =
    bind (each (insert_row ready_txn users_schema [0, 1]) rows) (\<lambda>_. ret (message ''INSERT'' (int (length rows)))) (s, t)"
  using Table_step(1) [OF assms, of "''users''"]
  by (simp add: execInsert_def need_table_def bind_def users_db_def insert_columns_def users_schema_def schema_of_def new_table_def
      users_columns_def column_position_def ColumnIndex_def)

text \<open>A row whose first value is missing fails before anything is written.\<close>

lemma users_bad_row: "insert_row T users_schema [0, 1] [lit_null, lit_null] st = (Inl (ErrMayNotBeNull ''id''), st)"
  by (simp add: insert_row_def bind_def users_schema_def schema_of_def new_table_def users_columns_def column_value_def
      lit_null_def evalLiteral_def zero_literal_def coerce_def)

lemma users_statements:
  obtains s0 s t s' t' s'' t'' where "store_run s0 None (\<lambda>_. None) [] []" "holds_db (st_cat s0) users_db" "Begin s0 = (Inr t, s)"
    "store_run s (Some t) (\<lambda>_. None) [] []" "holds_db (st_cat s) users_db"
    "row_stmt good_insert ready_txn (s, t) = (Inr (message ''INSERT'' 1), (s', t'))"
    "row_stmt bad_insert ready_txn (s, t) = (Inl (ErrMayNotBeNull ''id''), (s'', t''))" "undo_ready s'' t''"
proof -
  obtain s0 s t sys tr root where b: "store_run s0 None (\<lambda>_. None) [] []" "Begin s0 = (Inr t, s)" "st_cat s0 = st_cat s"
    and run: "store_run s (Some t) (\<lambda>_. None) [] []" "tx_undo t = []"
    and u: "store_inv (st_cat s) sys tr" "Table (st_cat s) = [''users'' \<mapsto> new_table ''users'' users_columns root]"
      "root_at (st_cat s) = [''T:users'' \<mapsto> root]" "tr ''T:users'' = GLeaf root []" "roomy 3000 (c_pager (st_cat s)) sys"
      "roomy page_room (c_pager (st_cat s)) (tr ''T:users'')" "50 < pager_room (c_pager (st_cat s))" by (rule users_txn)
  have "store_holds (st_cat s) (\<lambda>_. None)" using run_invD(1) [OF store_run_inv [OF run(1)]] by (simp add: committed_def)
  then have h: "holds_db (st_cat s) users_db" by (rule users_holds [OF _ u(2,3)])
  then have rel: "txn_rel (\<lambda>_. None) [] (s, t) users_db" using store_run_inv [OF run(1)] by (auto simp: txn_rel_def)
  obtain s' t' where i: "insert_row ready_txn users_schema [0, 1] [lit_int 7, lit_null] (s, t) = (Inr (), (s', t'))"
    "tx_undo t' = [\<lparr>u_target = ''T:users'', u_key = EncodeUint64 1, u_hadPrev = False, u_prev = []\<rparr>]"
    "root_at (st_cat s') ''T:users'' \<noteq> None" using users_insert_row [OF run u] by blast
  have "undo_ready s' t'" using delete_ready [OF i(3)] i(2) by (simp add: undo_ready_def undo_op_def)
  moreover have "row_stmt good_insert ready_txn (s, t) = (Inr (message ''INSERT'' 1), (s', t'))"
    using i(1) insert_users_exec [OF rel] by (simp add: row_stmt_def good_insert_def bind_def)
  moreover have "row_stmt bad_insert ready_txn (s, t) = (Inl (ErrMayNotBeNull ''id''), (s', t'))"
    using i(1) insert_users_exec [OF rel] by (simp add: row_stmt_def bad_insert_def bind_def users_bad_row del: One_nat_def)
  ultimately show thesis using that [OF b(1) _ b(2) run(1) h] b(3) h by simp
qed

theorem row_stmt_refines_witness:
  "\<exists>s t s' t' a'. store_run s (Some t) (\<lambda>_. None) [] [] \<and>
     row_stmt good_insert real_txn (s, t) = (Inr (message ''INSERT'' 1), (s', t')) \<and>
     row_stmt good_insert db_txn users_db = (Inr (message ''INSERT'' 1), a') \<and> holds_db (st_cat s') a'"
proof -
  obtain s0 s t s' t' s'' t'' where u: "store_run s0 None (\<lambda>_. None) [] []" "holds_db (st_cat s0) users_db" "Begin s0 = (Inr t, s)"
    "store_run s (Some t) (\<lambda>_. None) [] []" "holds_db (st_cat s) users_db"
    "row_stmt good_insert ready_txn (s, t) = (Inr (message ''INSERT'' 1), (s', t'))"
    "row_stmt bad_insert ready_txn (s, t) = (Inl (ErrMayNotBeNull ''id''), (s'', t''))" "undo_ready s'' t''"
    by (rule users_statements)
  have c: "completes good_insert (s, t)" using u(6) by (simp add: completes_def)
  have "txn_rel (\<lambda>_. None) [] (s, t) users_db" using u(5) store_run_inv [OF u(4)] by (auto simp: txn_rel_def)
  then have "fst (row_stmt good_insert real_txn (s, t)) = Inr (message ''INSERT'' 1)"
    using c by (rule row_stmt_step) (use u(6) in simp)
  with row_stmt_refines [OF u(4,5) c] u(4) show ?thesis by (metis fst_conv)
qed

theorem statement_atomic_witness:
  "\<exists>se se'. executeStmt (\<lambda>ns. ns) bad_insert se = (Inl (ErrMayNotBeNull ''id''), se') \<and>
     store_holds (st_cat (se_store se')) (db_of users_db) \<and> \<not> st_locked (se_store se')"
proof -
  obtain s0 s t s' t' s'' t'' where u: "store_run s0 None (\<lambda>_. None) [] []" "holds_db (st_cat s0) users_db" "Begin s0 = (Inr t, s)"
    "store_run s (Some t) (\<lambda>_. None) [] []" "holds_db (st_cat s) users_db"
    "row_stmt good_insert ready_txn (s, t) = (Inr (message ''INSERT'' 1), (s', t'))"
    "row_stmt bad_insert ready_txn (s, t) = (Inl (ErrMayNotBeNull ''id''), (s'', t''))" "undo_ready s'' t''"
    by (rule users_statements)
  have c: "completes bad_insert (s, t)" using u(7) by (simp add: completes_def stops_def)
  have "txn_rel (\<lambda>_. None) [] (s, t) users_db" using u(5) store_run_inv [OF u(4)] by (auto simp: txn_rel_def)
  then obtain a' where e: "row_stmt bad_insert real_txn (s, t) = (Inl (ErrMayNotBeNull ''id''), (s'', t''))"
    "row_stmt bad_insert db_txn users_db = (Inl (ErrMayNotBeNull ''id''), a')" using c by (rule row_stmt_step) (use u(7) in auto)
  have "stmt_ready bad_insert s0" using u(3,8) c e by (simp add: stmt_ready_def)
  with statement_atomic [of bad_insert "NewSession s0" "\<lambda>_. None" "[]" users_db "\<lambda>ns. ns"] u(1,2) e(2)
  show ?thesis by (fastforce simp: is_row_stmt_def bad_insert_def NewSession_def)
qed

lemma insert_users_memory:
  "execInsert db_txn \<lparr>inTable = ''users'', inColumns = [], inRows = rows\<rparr> users_db =
    bind (each (insert_row db_txn users_schema [0, 1]) rows) (\<lambda>_. ret (message ''INSERT'' (int (length rows)))) users_db"
  by (simp add: execInsert_def need_table_def bind_def db_txn_def users_db_def insert_columns_def users_schema_def schema_of_def new_table_def
      users_columns_def column_position_def ColumnIndex_def)

lemma bad_insert_memory: "\<exists>a'. row_stmt bad_insert db_txn users_db = (Inl (ErrMayNotBeNull ''id''), a') \<and>
    a_data a' = [''T:users'' \<mapsto> [(EncodeUint64 1, EncodeRow [IntValue 7, NullValue TypeText])]]"
proof -
  let ?vals = "[IntValue 7, NullValue TypeText]"
  have len: "length (EncodeRow ?vals) \<le> maxKeyValue" "length (EncodeUint64 1) \<le> maxKeyValue"
    by (simp_all add: EncodeRow_def encode_value_def)
  have "\<exists>a'. insert_row db_txn users_schema [0, 1] [lit_int 7, lit_null] users_db = (Inr (), a') \<and>
      a_data a' = [''T:users'' \<mapsto> [(EncodeUint64 1, EncodeRow ?vals)]]"
    using len by (simp add: insert_row_def bind_def users_schema_def schema_of_def new_table_def users_columns_def column_value_def lit_int_def
        lit_null_def evalLiteral_def zero_literal_def coerce_def TableTarget_def db_txn_def users_db_def on_target_def set_target_def)
  then obtain a' where "insert_row db_txn users_schema [0, 1] [lit_int 7, lit_null] users_db = (Inr (), a')"
    "a_data a' = [''T:users'' \<mapsto> [(EncodeUint64 1, EncodeRow ?vals)]]" by blast
  then show ?thesis using insert_users_memory by (simp add: row_stmt_def bad_insert_def bind_def users_bad_row del: One_nat_def)
qed

theorem failed_statement_stays_witness:
  "\<exists>se se1 se2 a'. InTxn se \<and> executeStmt (\<lambda>ns. ns) bad_insert se = (Inl (ErrMayNotBeNull ''id''), se1) \<and>
     executeStmt (\<lambda>ns. ns) CommitStmt se1 = (Inr (message ''COMMIT'' 0), se2) \<and> holds_db (st_cat (se_store se2)) a' \<and>
     a_data a' = [''T:users'' \<mapsto> [(EncodeUint64 1, EncodeRow [IntValue 7, NullValue TypeText])]]"
proof -
  obtain s0 s t s' t' s'' t'' where u: "store_run s0 None (\<lambda>_. None) [] []" "holds_db (st_cat s0) users_db" "Begin s0 = (Inr t, s)"
    "store_run s (Some t) (\<lambda>_. None) [] []" "holds_db (st_cat s) users_db"
    "row_stmt good_insert ready_txn (s, t) = (Inr (message ''INSERT'' 1), (s', t'))"
    "row_stmt bad_insert ready_txn (s, t) = (Inl (ErrMayNotBeNull ''id''), (s'', t''))" "undo_ready s'' t''"
    by (rule users_statements)
  have c: "completes bad_insert (s, t)" using u(7) by (simp add: completes_def stops_def)
  obtain a' where a': "row_stmt bad_insert db_txn users_db = (Inl (ErrMayNotBeNull ''id''), a')"
    "a_data a' = [''T:users'' \<mapsto> [(EncodeUint64 1, EncodeRow [IntValue 7, NullValue TypeText])]]" using bad_insert_memory by blast
  let ?se = "\<lparr>se_store = s, se_txn = Some t\<rparr>"
  have "\<exists>se1 se2. executeStmt (\<lambda>ns. ns) bad_insert ?se = (Inl (ErrMayNotBeNull ''id''), se1) \<and> InTxn se1 \<and>
      holds_db (st_cat (se_store se1)) a' \<and> executeStmt (\<lambda>ns. ns) CommitStmt se1 = (Inr (message ''COMMIT'' 0), se2) \<and>
      \<not> InTxn se2 \<and> holds_db (st_cat (se_store se2)) a'"
    by (rule failed_statement_stays [where t = t]) (use u(4,5) c a'(1) in \<open>simp_all add: is_row_stmt_def bad_insert_def\<close>)
  with a'(2) show ?thesis by (metis InTxn_def Session.select_convs(2) option.distinct(1))
qed

end
