(* ===== verification/Rows.thy ===== *)
theory Rows
  imports EngineSpec
begin

text \<open>
  Rows and their index entries: the values expressions give, what a consistent database
  holds, and that the row statements keep it so.
\<close>

section \<open>Types\<close>

definition column_types :: "Type set" where
  "column_types = {TypeInteger, TypeFloat, TypeText, TypeBoolean}"

definition typed :: "Type \<Rightarrow> Value \<Rightarrow> bool" where
  "typed t v \<longleftrightarrow> t \<in> column_types \<and>
     (v = NullValue t \<or> v = IntValue (vI v) \<and> t = TypeInteger \<or> v = FloatValue (vF v) \<and> t = TypeFloat
      \<or> v = TextValue (vS v) \<and> t = TypeText \<or> v = BoolValue (vB v) \<and> t = TypeBoolean)"

lemma typed_cases [consumes 1, case_names Null Int Float Text Bool]:
  assumes "typed t v"
  obtains "v = NullValue t" | i where "v = IntValue i" "t = TypeInteger" | f where "v = FloatValue f" "t = TypeFloat"
    | s where "v = TextValue s" "t = TypeText" | b where "v = BoolValue b" "t = TypeBoolean"
  using assms unfolding typed_def by metis

lemma typed_intros [simp]:
  "t \<in> column_types \<Longrightarrow> typed t (NullValue t)" "typed TypeInteger (IntValue i)" "typed TypeFloat (FloatValue f)"
  "typed TypeText (TextValue s)" "typed TypeBoolean (BoolValue b)"
  by (simp_all add: typed_def column_types_def)

lemma typed_vType: "typed t v \<Longrightarrow> vType v = t"
  by (auto elim: typed_cases)

lemma column_types_simps [simp]: "TypeInteger \<in> column_types" "TypeFloat \<in> column_types" "TypeText \<in> column_types" "TypeBoolean \<in> column_types"
  by (simp_all add: column_types_def)

definition typed_binding :: "Binding \<Rightarrow> bool" where
  "typed_binding b \<longleftrightarrow> list_all2 typed (ColumnTypes (bTable b)) (bValues b)"

lemma typed_values: "list_all2 typed ts vs \<Longrightarrow> v \<in> set vs \<Longrightarrow> typed (vType v) v"
  by (induction rule: list_all2_induct) (auto dest: typed_vType)

lemma resolve_loop_typed:
  "\<forall>b\<in>set tp. typed_binding b \<Longrightarrow> (\<And>w. found = Some w \<Longrightarrow> typed (vType w) w) \<Longrightarrow> resolve_loop tp table name found = Inr v \<Longrightarrow>
   typed (vType v) v"
proof (induction tp arbitrary: found)
  case Nil
  then show ?case by (auto split: option.splits)
next
  case (Cons b tp)
  show ?case
  proof (cases "(table \<noteq> [] \<and> table \<noteq> bAlias b) \<or> ColumnIndex (bTable b) name < 0")
    case True
    then show ?thesis using Cons.IH [of found] Cons.prems by (auto simp: Let_def split: if_splits)
  next
    case False
    let ?i = "nat (ColumnIndex (bTable b) name)"
    have f: "?i < length (bValues b)" "resolve_loop tp table name (Some (bValues b ! ?i)) = Inr v"
      using Cons.prems(3) False by (auto simp: Let_def split: if_splits)
    have "typed (vType (bValues b ! ?i)) (bValues b ! ?i)"
      using Cons.prems(1) typed_values nth_mem [OF f(1)] unfolding typed_binding_def by fastforce
    then show ?thesis using Cons.IH [OF _ _ f(2)] Cons.prems(1) by auto
  qed
qed

text \<open>
  Evaluation does not panic on rows with a value for each column, and the rows that are loaded have one: a filter
  and a sort that pass over the errors of an evaluation pass over no panic.
\<close>

definition full_binding :: "Binding \<Rightarrow> bool" where
  "full_binding b \<longleftrightarrow> length (bValues b) = length (tColumns (bTable b))"

lemma first_index_range: "first_index P xs i = -1 \<or> (i \<le> first_index P xs i \<and> first_index P xs i < i + int (length xs))"
proof (induction xs arbitrary: i)
  case (Cons x xs)
  show ?case using Cons.IH [of "i + 1"] by auto
qed simp

lemma ColumnIndex_bound: "0 \<le> ColumnIndex td name \<Longrightarrow> nat (ColumnIndex td name) < length (tColumns td)"
  using first_index_range [of "\<lambda>c. cName c = name" "tColumns td" 0] by (auto simp: ColumnIndex_def)

lemma resolve_loop_no_panic: "\<forall>b\<in>set tp. full_binding b \<Longrightarrow> resolve_loop tp table name found \<noteq> Inl Panic"
proof (induction tp arbitrary: found)
  case (Cons b tp)
  then show ?case using ColumnIndex_bound [of "bTable b" name] by (auto simp: Let_def full_binding_def)
qed (simp split: option.split)

lemma operators_no_panic:
  "arith op l r \<noteq> Inl Panic" "compareWith test l r \<noteq> Inl Panic" "evalUnary op v \<noteq> Inl Panic" "evalLiteral e \<noteq> Inl Panic"
  by (auto simp: arith_def compareWith_def evalUnary_def evalLiteral_def Let_def)

lemma evalBinary_no_panic: "l \<noteq> Inl Panic \<Longrightarrow> r \<noteq> Inl Panic \<Longrightarrow> evalBinary op l r \<noteq> Inl Panic"
  by (cases l; cases r) (auto simp: evalBinary_def operators_no_panic)

lemma eval_no_panic: "\<forall>b\<in>set tp. full_binding b \<Longrightarrow> eval e tp \<noteq> Inl Panic"
proof (induction e)
  case (UnaryExpr op e)
  then show ?case by (cases "eval e tp") (auto simp: operators_no_panic)
qed (auto simp: operators_no_panic evalBinary_no_panic tuple_resolve_def resolve_loop_no_panic)

lemma loaded_rows_full: "decode_all (ColumnTypes td) l = Inr rows \<Longrightarrow> row \<in> set rows \<Longrightarrow> full_binding (bind_row alias td key row)"
  by (induction l arbitrary: rows)
    (auto simp: decode_all_def rbind_Inr_iff full_binding_def bind_row_def ColumnTypes_def dest!: DecodeRow_length)

lemma arith_typed: "arith op l r = Inr v \<Longrightarrow> typed (vType v) v"
  by (auto simp: arith_def Let_def split: if_splits)

lemma compareWith_typed: "compareWith test l r = Inr v \<Longrightarrow> typed (vType v) v"
  by (auto simp: compareWith_def split: if_splits)

lemma evalBinary_typed:
  assumes "evalBinary op l r = Inr v"
  shows "typed (vType v) v"
proof (cases "op = ''AND'' \<or> op = ''OR''")
  case True
  then show ?thesis using assms by (cases l; cases r) (auto simp: evalBinary_def split: if_splits)
next
  case False
  obtain x y where xy: "l = Inr x" "r = Inr y" using assms False by (cases l; cases r) (simp_all add: evalBinary_def)
  have "(\<exists>test. compareWith test x y = Inr v) \<or> arith op x y = Inr v"
    using assms False unfolding evalBinary_def xy by (simp only: if_False rbind_simps split: if_splits) blast+
  then show ?thesis using compareWith_typed arith_typed by blast
qed

lemma eval_typed: "\<forall>b\<in>set tp. typed_binding b \<Longrightarrow> eval e tp = Inr v \<Longrightarrow> typed (vType v) v"
proof (induction e arbitrary: v)
  case (ColumnRef table name)
  then show ?case using resolve_loop_typed [of tp None] by (simp add: tuple_resolve_def)
next
  case (BinaryExpr op l r)
  then show ?case using evalBinary_typed by simp
qed (auto simp: evalLiteral_def evalUnary_def rbind_def split: if_splits sum.splits)

lemma coerce_typed: "typed (vType v) v \<Longrightarrow> want \<in> column_types \<Longrightarrow> coerce v want = Inr cv \<Longrightarrow> typed want cv"
  by (auto simp: coerce_def split: if_splits)

lemma column_value_typed:
  "\<forall>b\<in>set tp. typed_binding b \<Longrightarrow> cType col \<in> column_types \<Longrightarrow> column_value col (eval e tp) = Inr cv \<Longrightarrow> typed (cType col) cv"
  using eval_typed [of tp e] coerce_typed [of _ "cType col" cv]
  by (cases "eval e tp") (auto simp: column_value_def split: sum.splits)

lemma fill_values_keeps_types:
  assumes "\<forall>b\<in>set tp. typed_binding b" "\<forall>c\<in>set (tColumns td). cType c \<in> column_types"
    and "\<forall>p\<in>fst ` set pes. p < length (tColumns td)" "list_all2 typed (ColumnTypes td) vals"
    and "fill_values td tp pes vals = Inr vals'"
  shows "list_all2 typed (ColumnTypes td) vals'"
  using assms(3-5)
proof (induction pes arbitrary: vals)
  case Nil
  then show ?case by simp
next
  case (Cons pe pes)
  obtain p e where pe: "pe = (p, e)" by fastforce
  let ?col = "tColumns td ! p"
  obtain cv where cv: "column_value ?col (eval e tp) = Inr cv" "fill_values td tp pes (vals[p := cv]) = Inr vals'"
    using Cons.prems(3) pe by (cases "column_value ?col (eval e tp)") auto
  have "typed (cType ?col) cv" by (rule column_value_typed [OF assms(1) _ cv(1)]) (use assms(2) Cons.prems(1) pe in auto)
  then have "list_all2 typed (ColumnTypes td) (vals[p := cv])"
    using Cons.prems(1,2) pe by (simp add: ColumnTypes_def list_all2_conv_all_nth nth_list_update)
  then show ?case using Cons.IH Cons.prems(1) cv(2) by simp
qed

text \<open>
  C13: the values of a row that INSERT or UPDATE computes have the types of their columns,
  whatever the expressions: \<^verbatim>\<open>fill_values\<close> coerces each value or reports an error.
\<close>

theorem fill_values_typed:
  assumes "\<forall>b\<in>set tp. typed_binding b" "\<forall>c\<in>set (tColumns td). cType c \<in> column_types"
    and "\<forall>p\<in>fst ` set pes. p < length (tColumns td)" "list_all2 typed (ColumnTypes td) vals"
    and "fill_values td tp pes vals = Inr vals'"
  shows "list_all2 typed (ColumnTypes td) vals'"
  by (rule fill_values_keeps_types [OF assms])

definition flag_table :: TableDef where
  "flag_table = \<lparr>tName = ''t'', tColumns = [\<lparr>cName = ''x'', cType = TypeFloat, cPrimaryKey = False, cUnique = False, cNotNull = False\<rparr>],
     tRoot = 0, tNextRow = 0, tIndexes = []\<rparr>"

theorem fill_values_typed_witness:
  "fill_values flag_table [] [(0, LiteralExpr (zero_literal\<lparr>lKind := ''int'', lI := 2\<rparr>))] [NullValue TypeFloat] =
     Inr [FloatValue (f_of_int64 2)] \<and>
   list_all2 typed (ColumnTypes flag_table) [FloatValue (f_of_int64 2)]"
proof -
  have "fill_values flag_table [] [(0, LiteralExpr (zero_literal\<lparr>lKind := ''int'', lI := 2\<rparr>))] [NullValue TypeFloat] =
      Inr [FloatValue (f_of_int64 2)]"
    by (simp add: flag_table_def column_value_def evalLiteral_def coerce_def)
  moreover from fill_values_typed [OF _ _ _ _ this] have "list_all2 typed (ColumnTypes flag_table) [FloatValue (f_of_int64 2)]"
    by (simp add: flag_table_def ColumnTypes_def)
  ultimately show ?thesis by blast
qed

end
