(* ===== verification/Consistent.thy ===== *)
theory Consistent
  imports Rows
begin

text \<open>
  Consistent databases: every table holds rows of its schema, and every index has exactly one entry
  for each row.  The row statements keep this when they succeed.
\<close>

section \<open>Tables and indexes\<close>

definition column_in :: "TableDef \<Rightarrow> IndexDef \<Rightarrow> Value list \<Rightarrow> Value" where
  "column_in td ix vals = vals ! nat (ColumnIndex td (iColumn ix))"

definition index_entries :: "TableDef \<Rightarrow> IndexDef \<Rightarrow> (bytes \<rightharpoonup> Value list) \<Rightarrow> (bytes \<times> bytes) set" where
  "index_entries td ix R = (\<lambda>(k, vals). (indexKey (column_in td ix vals) k, k)) ` Map.graph R"

definition heap_entries :: "(bytes \<rightharpoonup> Value list) \<Rightarrow> (bytes \<times> bytes) set" where
  "heap_entries R = (\<lambda>(k, vals). (k, EncodeRow vals)) ` Map.graph R"

definition index_ok :: "adb \<Rightarrow> TableDef \<Rightarrow> (bytes \<rightharpoonup> Value list) \<Rightarrow> IndexDef \<Rightarrow> bool" where
  "index_ok a td R ix \<longleftrightarrow> (\<exists>l. a_data a (IndexTarget (tName td) (iName ix)) = Some l \<and> keys_sorted l \<and> set l = index_entries td ix R)"

definition row_ok :: "TableDef \<Rightarrow> Value list \<Rightarrow> bool" where
  "row_ok td vals \<longleftrightarrow> list_all2 (\<lambda>c v. typed (cType c) v \<and> (cNotNull c \<longrightarrow> \<not> vNull v)) (tColumns td) vals \<and>
     length (EncodeRow vals) \<le> maxKeyValue"

definition heap_ok :: "adb \<Rightarrow> TableDef \<Rightarrow> (bytes \<rightharpoonup> Value list) \<Rightarrow> bool" where
  "heap_ok a td R \<longleftrightarrow> (\<exists>l. a_data a (TableTarget (tName td)) = Some l \<and> keys_sorted l \<and>
     set l = heap_entries R)"

definition rows_ok :: "adb \<Rightarrow> TableDef \<Rightarrow> (bytes \<rightharpoonup> Value list) \<Rightarrow> bool" where
  "rows_ok a td R \<longleftrightarrow> (\<forall>k vals. R k = Some vals \<longrightarrow> row_ok td vals \<and> (\<exists>i. k = EncodeUint64 i \<and> i < a_next a (tName td)))"

definition table_ok :: "adb \<Rightarrow> TableDef \<Rightarrow> (bytes \<rightharpoonup> Value list) \<Rightarrow> bool" where
  "table_ok a td R \<longleftrightarrow> heap_ok a td R \<and> rows_ok a td R \<and> (\<forall>ix\<in>set (tIndexes td). index_ok a td R ix)"

text \<open>
  Index columns are not floats: \<^verbatim>\<open>Compare\<close> takes negative zero for zero and NaN for
  any number, while their sort keys differ.  A colon in a table's name would confuse targets.
\<close>

definition schema_ok :: "TableDef \<Rightarrow> bool" where
  "schema_ok td \<longleftrightarrow> (\<forall>c\<in>set (tColumns td). cType c \<in> column_types) \<and> CHR '':'' \<notin> set (tName td) \<and>
     distinct (map iName (tIndexes td)) \<and>
     (\<forall>ix\<in>set (tIndexes td). 0 \<le> ColumnIndex td (iColumn ix) \<and> cType (tColumns td ! nat (ColumnIndex td (iColumn ix))) \<noteq> TypeFloat)"

definition db_ok :: "adb \<Rightarrow> bool" where
  "db_ok a \<longleftrightarrow> (\<forall>n td. a_schema a n = Some td \<longrightarrow> tName td = n \<and> schema_ok td \<and> (\<exists>R. table_ok a td R))"

section \<open>Columns\<close>

lemma row_ok_types: "row_ok td vals \<Longrightarrow> list_all2 typed (ColumnTypes td) vals" "row_ok td vals \<Longrightarrow> length vals = length (tColumns td)"
  by (auto simp: row_ok_def ColumnTypes_def list_all2_map1 dest: list_all2_lengthD intro: list_all2_mono)

lemma encode_value_length: "typed t v \<Longrightarrow> length (vS v) \<le> length (encode_value v)"
  by (auto simp: encode_value_def NullValue_def IntValue_def FloatValue_def BoolValue_def ZeroValue_def elim!: typed_cases)

lemma typed_wf: "typed t v \<Longrightarrow> length (vS v) < 2 ^ 32 \<Longrightarrow> wf_value t v"
  by (auto simp: typed_def wf_value_def column_types_def)

lemma length_concat_map: "x \<in> set xs \<Longrightarrow> length (f x) \<le> length (concat (map f xs))"
  by (induction xs) auto

lemma row_ok_decode:
  assumes "row_ok td vals"
  shows "DecodeRow (EncodeRow vals) (ColumnTypes td) = Inr vals"
proof -
  have "wf_value t v" if "typed t v" "v \<in> set vals" for t v
  proof -
    have "length (encode_value v) \<le> length (EncodeRow vals)"
      using length_concat_map [OF that(2), of encode_value] by (simp add: EncodeRow_def)
    then show ?thesis using typed_wf [OF that(1)] encode_value_length [OF that(1)] assms by (simp add: row_ok_def)
  qed
  then have "list_all2 wf_value (ColumnTypes td) vals"
    using row_ok_types(1) [OF assms] by (auto simp: list_all2_conv_all_nth)
  then show ?thesis using DecodeRow_EncodeRow_append [of _ _ "[]"] by simp
qed

section \<open>Targets and operations\<close>

lemma targets [simp]: "TableTarget n \<noteq> IndexTarget m i" "IndexTarget m i \<noteq> TableTarget n" "TableTarget n = TableTarget m \<longleftrightarrow> n = m"
  "IndexTarget n i = IndexTarget n j \<longleftrightarrow> i = j"
  by (simp_all add: TableTarget_def IndexTarget_def)

lemma index_targets_apart:
  assumes "CHR '':'' \<notin> set n" "CHR '':'' \<notin> set m" "IndexTarget n i = IndexTarget m j"
  shows "n = m"
proof -
  have e: "n @ '':'' @ i = m @ '':'' @ j" using assms(3) by (simp add: IndexTarget_def)
  have "takeWhile (\<lambda>c. c \<noteq> CHR '':'') (xs @ '':'' @ ys) = xs" if "CHR '':'' \<notin> set xs" for xs ys
    using that by (induction xs) auto
  from this [OF assms(1), of i] this [OF assms(2), of j] e show ?thesis by simp
qed

definition with_target :: "adb \<Rightarrow> string \<Rightarrow> (bytes \<times> bytes) list \<Rightarrow> adb" where
  "with_target a target l = a\<lparr>a_data := (a_data a)(target \<mapsto> l)\<rparr>"

lemma with_target_simps [simp]: "a_schema (with_target a u l) = a_schema a" "a_next (with_target a u l) = a_next a"
  "a_data (with_target a u l) = (a_data a)(u \<mapsto> l)"
  by (simp_all add: with_target_def)

lemma db_PutE:
  assumes "t_Put db_txn target k v a = (Inr x, a')" "a_data a target = Some l"
  shows "a' = with_target a target (al_put k v l)" "length k \<le> maxKeyValue" "length v \<le> maxKeyValue"
  using assms by (auto simp: db_txn_def bind_def on_target_def set_target_def with_target_def split: if_splits)

lemma db_DeleteE:
  assumes "t_Delete db_txn target k a = (Inr x, a')" "a_data a target = Some l"
  shows "a' = with_target a target (al_del k l)"
  using assms by (auto simp: db_txn_def bind_def on_target_def set_target_def with_target_def split: if_splits)

section \<open>Index entries of a row\<close>

lemma indexKey_inj: "length k = length k' \<Longrightarrow> indexKey v k = indexKey w k' \<longleftrightarrow> SortKey v = SortKey w \<and> k = k'"
  by (simp add: indexKey_def)

lemma index_entryE:
  assumes "e \<in> index_entries td ix R"
  obtains k vals where "e = (indexKey (column_in td ix vals) k, k)" "R k = Some vals"
  using assms by (auto simp: index_entries_def Map.graph_def)

lemma index_entry: "R k = Some vals \<Longrightarrow> (indexKey (column_in td ix vals) k, k) \<in> index_entries td ix R"
  by (force simp: index_entries_def Map.graph_def)

lemma index_entry_key:
  assumes "e \<in> index_entries td ix R" "\<forall>j\<in>dom R. length j = length k"
  shows "fst e = indexKey v k \<Longrightarrow> snd e = k" "R k = Some vals \<Longrightarrow> fst e = indexKey (column_in td ix vals) k \<longleftrightarrow> snd e = k" "snd e \<in> dom R"
proof -
  obtain j w where e: "e = (indexKey (column_in td ix w) j, j)" "R j = Some w" by (rule index_entryE [OF assms(1)])
  then have "length j = length k" using assms(2) by blast
  then show "fst e = indexKey v k \<Longrightarrow> snd e = k" "R k = Some vals \<Longrightarrow> fst e = indexKey (column_in td ix vals) k \<longleftrightarrow> snd e = k" "snd e \<in> dom R"
    using e indexKey_inj by auto
qed

lemma index_entries_upd: "R k = None \<Longrightarrow>
    index_entries td ix (R(k \<mapsto> vals)) = insert (indexKey (column_in td ix vals) k, k) (index_entries td ix R)"
  by (simp add: index_entries_def graph_map_upd fun_upd_idem)

lemma index_entries_del: "index_entries td ix (R(k := None)) = {e \<in> index_entries td ix R. snd e \<noteq> k}"
  by (auto simp: index_entries_def graph_fun_upd_None)

lemma heap_entryE:
  assumes "e \<in> heap_entries R"
  obtains k vals where "e = (k, EncodeRow vals)" "R k = Some vals"
  using assms by (auto simp: heap_entries_def Map.graph_def)

lemma heap_entry: "R k = Some vals \<Longrightarrow> (k, EncodeRow vals) \<in> heap_entries R"
  by (force simp: heap_entries_def Map.graph_def)

lemma heap_entries_upd: "heap_entries (R(k \<mapsto> vals)) = insert (k, EncodeRow vals) {e \<in> heap_entries R. fst e \<noteq> k}"
  by (auto simp: heap_entries_def graph_map_upd graph_fun_upd_None)

lemma heap_entries_del: "heap_entries (R(k := None)) = {e \<in> heap_entries R. fst e \<noteq> k}"
  by (auto simp: heap_entries_def graph_fun_upd_None)

text \<open>A step that does to one index what the change from \<open>R\<close> to \<open>R'\<close> of the rows asks for.\<close>

definition index_step :: "TableDef \<Rightarrow> (bytes \<rightharpoonup> Value list) \<Rightarrow> (bytes \<rightharpoonup> Value list) \<Rightarrow> (IndexDef \<Rightarrow> (adb, unit) sm) \<Rightarrow> IndexDef \<Rightarrow> bool" where
  "index_step td R R' f ix \<longleftrightarrow> (\<forall>a a'. index_ok a td R ix \<longrightarrow> f ix a = (Inr (), a') \<longrightarrow>
     index_ok a' td R' ix \<and> (\<exists>l. a' = with_target a (IndexTarget (tName td) (iName ix)) l))"

lemma index_put:
  assumes "index_ok a td R ix" "R k = None" "\<forall>j\<in>dom R. length j = length k"
    and "t_Put db_txn (IndexTarget (tName td) (iName ix)) (indexKey (column_in td ix vals) k) k a = (Inr x, a')"
  shows "index_ok a' td (R(k \<mapsto> vals)) ix \<and> (\<exists>l. a' = with_target a (IndexTarget (tName td) (iName ix)) l)"
proof -
  let ?u = "IndexTarget (tName td) (iName ix)" and ?i = "indexKey (column_in td ix vals) k"
  obtain l where l: "a_data a ?u = Some l" "keys_sorted l" "set l = index_entries td ix R" using assms(1) by (auto simp: index_ok_def)
  note a' = db_PutE(1) [OF assms(4) l(1)]
  have "fst e \<noteq> ?i" if "e \<in> set l" for e using index_entry_key(1,3) [OF that [unfolded l(3)] assms(3)] assms(2) by auto
  then have "set (al_put ?i k l) = insert (?i, k) (set l)" using set_al_put [OF l(2), of ?i k] by auto
  also have "\<dots> = index_entries td ix (R(k \<mapsto> vals))" using l(3) index_entries_upd [of R k td ix vals, OF assms(2)] by simp
  finally show ?thesis using a' keys_sorted_al_put [OF l(2)] by (auto simp: index_ok_def)
qed

lemma index_delete:
  assumes "index_ok a td R ix" "R k = Some vals" "\<forall>j\<in>dom R. length j = length k"
    and "t_Delete db_txn (IndexTarget (tName td) (iName ix)) (indexKey (column_in td ix vals) k) a = (Inr x, a')"
  shows "index_ok a' td (R(k := None)) ix \<and> (\<exists>l. a' = with_target a (IndexTarget (tName td) (iName ix)) l)"
proof -
  let ?u = "IndexTarget (tName td) (iName ix)" and ?i = "indexKey (column_in td ix vals) k"
  obtain l where l: "a_data a ?u = Some l" "keys_sorted l" "set l = index_entries td ix R" using assms(1) by (auto simp: index_ok_def)
  note a' = db_DeleteE [OF assms(4) l(1)]
  have "set (al_del ?i l) = index_entries td ix (R(k := None))"
    unfolding set_al_del l(3) index_entries_del using index_entry_key(2) [OF _ assms(3,2)] by blast
  then show ?thesis using a' keys_sorted_al_del [OF l(2)] by (auto simp: index_ok_def)
qed

lemma Compare_0_eq: "typed t v \<Longrightarrow> typed t w \<Longrightarrow> t \<noteq> TypeFloat \<Longrightarrow> Compare v w = 0 \<Longrightarrow> v = w"
proof -
  assume a: "typed t v" "typed t w" "t \<noteq> TypeFloat" "Compare v w = 0"
  show "v = w"
    using a(1)
  proof (cases rule: typed_cases)
    case Null
    show ?thesis using a(2) Null a(4) by (cases rule: typed_cases) (simp_all add: Compare_def)
  next
    case (Int i)
    show ?thesis using a(2) Int a(4) by (cases rule: typed_cases) (auto simp: Compare_def intro!: arg_cong [of _ _ IntValue] signed_word_eqI split: if_splits)
  next
    case (Text s)
    show ?thesis using a(2) Text a(4) by (cases rule: typed_cases) (simp_all add: Compare_def strings_Compare_def bytes_compare_order)
  next
    case (Bool b)
    show ?thesis using a(2) Bool a(4) by (cases rule: typed_cases) (simp_all add: Compare_def split: if_splits)
  qed (use a(3) in simp)
qed

lemma index_at_column: "0 \<le> i \<Longrightarrow> nat i < length xs \<Longrightarrow> index_at xs i = Inr (xs ! nat i)"
  by (simp add: index_at_def)

section \<open>All indexes of a table\<close>

lemma index_ok_other: "iName ix \<noteq> iName jx \<Longrightarrow> index_ok (with_target a (IndexTarget (tName td) (iName ix)) l) td R jx = index_ok a td R jx"
  by (simp add: index_ok_def)

lemma each_index:
  assumes "\<forall>ix\<in>set ixs. index_step td R R' f ix" "distinct (map iName ixs)" "\<forall>ix\<in>set ixs. index_ok a td R ix"
    and "each f ixs a = (Inr (), a')"
  shows "(\<forall>ix\<in>set ixs. index_ok a' td R' ix) \<and> (\<exists>d. a' = a\<lparr>a_data := d\<rparr> \<and>
    (\<forall>u. u \<notin> (IndexTarget (tName td) \<circ> iName) ` set ixs \<longrightarrow> d u = a_data a u))"
  using assms
proof (induction ixs arbitrary: a)
  case Nil
  then show ?case by (auto intro!: exI [of _ "a_data a"])
next
  case (Cons ix ixs)
  obtain a1 where a1: "f ix a = (Inr (), a1)" "each f ixs a1 = (Inr (), a')"
    using Cons.prems(4) by (auto simp: bind_def split: prod.splits sum.splits)
  obtain l where s: "index_ok a1 td R' ix" "a1 = with_target a (IndexTarget (tName td) (iName ix)) l"
    using Cons.prems(1,3) a1(1) unfolding index_step_def by force
  have new: "iName ix \<notin> iName ` set ixs" using Cons.prems(2) by simp
  have "index_ok a1 td R jx" if "jx \<in> set ixs" for jx
  proof -
    have "iName ix \<noteq> iName jx" using new that by (metis image_eqI)
    then show ?thesis using Cons.prems(3) that by (simp add: s(2) index_ok_other)
  qed
  then obtain d where d: "\<forall>jx\<in>set ixs. index_ok a' td R' jx" "a' = a1\<lparr>a_data := d\<rparr>"
    "\<forall>u. u \<notin> (IndexTarget (tName td) \<circ> iName) ` set ixs \<longrightarrow> d u = a_data a1 u"
    using Cons.IH [OF _ _ _ a1(2)] Cons.prems(1,2) by auto
  have "IndexTarget (tName td) (iName ix) \<notin> (IndexTarget (tName td) \<circ> iName) ` set ixs" using new by auto
  then have "index_ok a' td R' ix" using s(1) d(2) spec [OF d(3), of "IndexTarget (tName td) (iName ix)"] by (simp add: index_ok_def)
  moreover have "d u = a_data a u" if "u \<notin> (IndexTarget (tName td) \<circ> iName) ` set (ix # ixs)" for u
    using d(3) that by (simp add: s(2))
  moreover have "a' = a\<lparr>a_data := d\<rparr>" using d(2) by (simp add: s(2) with_target_def)
  ultimately show ?case using d(1) by auto
qed

text \<open>Then the change of the row itself.\<close>

lemma table_changed:
  assumes ok: "schema_ok td" "table_ok a td R"
    and ixs: "\<forall>ix\<in>set (tIndexes td). index_step td R R' f ix" "each f (tIndexes td) a = (Inr (), a1)"
    and heap: "\<And>l. a_data a1 (TableTarget (tName td)) = Some l \<Longrightarrow> keys_sorted l \<Longrightarrow> set l = heap_entries R \<Longrightarrow>
        \<exists>l'. a' = with_target a1 (TableTarget (tName td)) l' \<and> keys_sorted l' \<and> set l' = heap_entries R'"
    and rows: "rows_ok a td R'"
  shows "table_ok a' td R'" "\<exists>d. a' = a\<lparr>a_data := d\<rparr>"
    "u \<noteq> TableTarget (tName td) \<Longrightarrow> \<forall>i. u \<noteq> IndexTarget (tName td) i \<Longrightarrow> a_data a' u = a_data a u"
proof -
  have "distinct (map iName (tIndexes td))" "\<forall>ix\<in>set (tIndexes td). index_ok a td R ix"
    using ok by (auto simp: schema_ok_def table_ok_def)
  from each_index [OF ixs(1) this ixs(2)] obtain d where d: "\<forall>ix\<in>set (tIndexes td). index_ok a1 td R' ix" "a1 = a\<lparr>a_data := d\<rparr>"
    "\<forall>u. u \<notin> (IndexTarget (tName td) \<circ> iName) ` set (tIndexes td) \<longrightarrow> d u = a_data a u" by blast
  have "d (TableTarget (tName td)) = a_data a (TableTarget (tName td))" using spec [OF d(3), of "TableTarget (tName td)"] by auto
  then obtain l where l: "a_data a1 (TableTarget (tName td)) = Some l" "keys_sorted l" "set l = heap_entries R"
    using ok(2) d(2) by (auto simp: table_ok_def heap_ok_def)
  obtain l' where l': "a' = with_target a1 (TableTarget (tName td)) l'" "keys_sorted l'"
    "set l' = heap_entries R'" using heap [OF l] by blast
  have "heap_ok a' td R'" using l' by (auto simp: heap_ok_def)
  moreover have "\<forall>ix\<in>set (tIndexes td). index_ok a' td R' ix" using d(1) l'(1) by (auto simp: index_ok_def)
  moreover have "rows_ok a' td R'" using rows by (simp add: rows_ok_def l'(1) d(2))
  ultimately show "table_ok a' td R'" by (simp add: table_ok_def)
  show "\<exists>d. a' = a\<lparr>a_data := d\<rparr>" using l'(1) d(2) by (auto simp: with_target_def)
  show "a_data a' u = a_data a u" if "u \<noteq> TableTarget (tName td)" "\<forall>i. u \<noteq> IndexTarget (tName td) i"
    using that d(2,3) l'(1) by auto
qed

text \<open>The rest of the database does not notice.\<close>

lemma db_ok_changed:
  assumes ok: "db_ok a" "a_schema a n = Some td" and a': "table_ok a' td R'" "a_schema a' = a_schema a"
    "\<And>m. m \<noteq> n \<Longrightarrow> a_next a' m = a_next a m"
    "\<And>u. u \<noteq> TableTarget n \<Longrightarrow> \<forall>i. u \<noteq> IndexTarget n i \<Longrightarrow> a_data a' u = a_data a u"
  shows "db_ok a'"
  unfolding db_ok_def
proof (intro allI impI)
  fix m td' assume m: "a_schema a' m = Some td'"
  have td: "tName td = n" "schema_ok td" using ok by (auto simp: db_ok_def)
  obtain R where td': "tName td' = m" "schema_ok td'" "table_ok a td' R" using ok(1) m a'(2) by (auto simp: db_ok_def)
  show "tName td' = m \<and> schema_ok td' \<and> (\<exists>R. table_ok a' td' R)"
  proof (cases "m = n")
    case True
    then show ?thesis using td' m a'(1,2) ok(2) by auto
  next
    case False
    have "IndexTarget m i \<noteq> IndexTarget n j" for i j
      using index_targets_apart [of m n i j] False td td' by (auto simp: schema_ok_def)
    then have "a_data a' (TableTarget m) = a_data a (TableTarget m)" "a_data a' (IndexTarget m i) = a_data a (IndexTarget m i)" for i
      using a'(4) False by auto
    then have "table_ok a' td' R"
      using td'(1,3) a'(3) [OF False] by (simp add: table_ok_def heap_ok_def rows_ok_def index_ok_def)
    then show ?thesis using td' by blast
  qed
qed

section \<open>Steps on one row\<close>

lemma row_column:
  assumes "schema_ok td" "ix \<in> set (tIndexes td)" "row_ok td vals"
  shows "index_at vals (ColumnIndex td (iColumn ix)) = Inr (column_in td ix vals)"
    "typed (cType (tColumns td ! nat (ColumnIndex td (iColumn ix)))) (column_in td ix vals)"
    "cType (tColumns td ! nat (ColumnIndex td (iColumn ix))) \<noteq> TypeFloat"
proof -
  have i: "0 \<le> ColumnIndex td (iColumn ix)" "cType (tColumns td ! nat (ColumnIndex td (iColumn ix))) \<noteq> TypeFloat"
    using assms(1,2) by (auto simp: schema_ok_def)
  note b = ColumnIndex_bound [OF i(1)]
  show "index_at vals (ColumnIndex td (iColumn ix)) = Inr (column_in td ix vals)"
    using i b row_ok_types(2) [OF assms(3)] by (simp add: index_at_column column_in_def)
  show "typed (cType (tColumns td ! nat (ColumnIndex td (iColumn ix)))) (column_in td ix vals)"
    using row_ok_types(1) [OF assms(3)] b by (auto simp: list_all2_conv_all_nth ColumnTypes_def column_in_def)
qed (use assms(1,2) in \<open>auto simp: schema_ok_def\<close>)

lemma bind_InrE:
  assumes "bind m k s = (Inr x, s')"
  obtains y s1 where "m s = (Inr y, s1)" "k y s1 = (Inr x, s')"
  using assms by (auto simp: bind_def split: prod.splits sum.splits)

lemma checkUnique_state: "checkUniqueViaTxn db_txn td idx v a = (r, a') \<Longrightarrow> a' = a"
  by (auto simp: checkUniqueViaTxn_def Let_def bind_def db_txn_def on_target_def split: prod.splits sum.splits option.splits if_splits list.splits)

lemma insert_step:
  assumes "schema_ok td" "ix \<in> set (tIndexes td)" "row_ok td vals" "R k = None" "\<forall>j\<in>dom R. length j = length k"
  shows "index_step td R (R(k \<mapsto> vals)) (insert_index_entry db_txn td vals k) ix"
  unfolding index_step_def
proof (intro allI impI)
  fix a a' assume ok: "index_ok a td R ix" and e: "insert_index_entry db_txn td vals k ix a = (Inr (), a')"
  note c = row_column [OF assms(1-3)]
  let ?v = "column_in td ix vals"
  obtain a1 where a1: "(if iUnique ix \<and> \<not> vNull ?v then checkUniqueViaTxn db_txn td ix ?v else ret ()) a = (Inr (), a1)"
    "t_Put db_txn (IndexTarget (tName td) (iName ix)) (indexKey ?v k) k a1 = (Inr (), a')"
    using e unfolding insert_index_entry_def c(1) by (auto elim!: bind_InrE)
  have "a1 = a" using a1(1) checkUnique_state by (auto split: if_splits)
  with index_put [OF ok assms(4,5)] a1(2)
  show "index_ok a' td (R(k \<mapsto> vals)) ix \<and> (\<exists>l. a' = with_target a (IndexTarget (tName td) (iName ix)) l)" by blast
qed

lemma delete_step:
  assumes "schema_ok td" "ix \<in> set (tIndexes td)" "row_ok td vals" "R k = Some vals" "\<forall>j\<in>dom R. length j = length k"
  shows "index_step td R (R(k := None)) (delete_index_entry db_txn td k vals) ix"
  unfolding index_step_def
proof (intro allI impI)
  fix a a' assume ok: "index_ok a td R ix" and e: "delete_index_entry db_txn td k vals ix a = (Inr (), a')"
  have "t_Delete db_txn (IndexTarget (tName td) (iName ix)) (indexKey (column_in td ix vals) k) a = (Inr (), a')"
    using e unfolding delete_index_entry_def row_column(1) [OF assms(1-3)] by (auto elim!: bind_InrE)
  with index_delete [OF ok assms(4,5)]
  show "index_ok a' td (R(k := None)) ix \<and> (\<exists>l. a' = with_target a (IndexTarget (tName td) (iName ix)) l)" by blast
qed

lemma move_step:
  assumes "schema_ok td" "ix \<in> set (tIndexes td)" "row_ok td old" "row_ok td new" "R k = Some old" "\<forall>j\<in>dom R. length j = length k"
  shows "index_step td R (R(k \<mapsto> new)) (move_index_entry db_txn td k old new) ix"
  unfolding index_step_def
proof (intro allI impI)
  fix a a' assume ok: "index_ok a td R ix" and e: "move_index_entry db_txn td k old new ix a = (Inr (), a')"
  note o = row_column [OF assms(1-3)] and n = row_column [OF assms(1,2,4)]
  let ?u = "IndexTarget (tName td) (iName ix)" and ?v = "column_in td ix old" and ?w = "column_in td ix new"
  show "index_ok a' td (R(k \<mapsto> new)) ix \<and> (\<exists>l. a' = with_target a ?u l)"
  proof (cases "Compare ?v ?w = 0")
    case True
    then have "?v = ?w" using Compare_0_eq o(2,3) n(2) by blast
    moreover have "index_entries td ix (R(k \<mapsto> x)) = insert (indexKey (column_in td ix x) k, k) (index_entries td ix (R(k := None)))" for x
      using index_entries_upd [of "R(k := None)" k td ix x] by simp
    moreover have "R(k \<mapsto> old) = R" using assms(5) by (simp add: fun_upd_idem)
    ultimately have "index_entries td ix (R(k \<mapsto> new)) = index_entries td ix R" by metis
    moreover have "a' = a" using e True unfolding move_index_entry_def o(1) n(1) by (simp add: bind_def)
    moreover obtain l where "a_data a ?u = Some l" using ok by (auto simp: index_ok_def)
    then have "a = with_target a ?u l" by (simp add: with_target_def fun_upd_idem)
    ultimately show ?thesis using ok by (auto simp: index_ok_def)
  next
    case False
    obtain a1 a2 where a1: "(if iUnique ix \<and> \<not> vNull ?w then checkUniqueViaTxn db_txn td ix ?w else ret ()) a = (Inr (), a1)"
      "t_Delete db_txn ?u (indexKey ?v k) a1 = (Inr (), a2)" "t_Put db_txn ?u (indexKey ?w k) k a2 = (Inr (), a')"
      using e False unfolding move_index_entry_def o(1) n(1) by (auto elim!: bind_InrE)
    have "a1 = a" using a1(1) checkUnique_state by (auto split: if_splits)
    with index_delete [OF ok assms(5,6)] a1(2) obtain l where d: "index_ok a2 td (R(k := None)) ix" "a2 = with_target a ?u l" by blast
    have "\<forall>j\<in>dom (R(k := None)). length j = length k" using assms(6) by auto
    from index_put [OF d(1) _ this a1(3)] obtain l' where "index_ok a' td (R(k \<mapsto> new)) ix" "a' = with_target a2 ?u l'" by auto
    then show ?thesis using d(2) by (auto simp: with_target_def)
  qed
qed

end
