(* ===== verification/RowStatements.thy ===== *)
theory RowStatements
  imports Consistent
begin

text \<open>
  The row statements on a consistent database: what the scans and seeks load, and that INSERT, UPDATE and
  DELETE leave a consistent database when they succeed.
\<close>

section \<open>Loading rows\<close>

lemma table_rows:
  assumes "table_ok a td R" "R k = Some vals"
  shows "row_ok td vals" "length k = 8" "DecodeRow (EncodeRow vals) (ColumnTypes td) = Inr vals"
proof -
  obtain i where "row_ok td vals" "k = EncodeUint64 i" using assms unfolding table_ok_def rows_ok_def by blast
  then show "row_ok td vals" "length k = 8" "DecodeRow (EncodeRow vals) (ColumnTypes td) = Inr vals" using row_ok_decode by simp_all
qed

lemma table_keys: "table_ok a td R \<Longrightarrow> \<forall>j\<in>dom R. length j = 8"
  using table_rows(2) by blast

lemma heapE:
  assumes "table_ok a td R"
  obtains l where "a_data a (TableTarget (tName td)) = Some l" "keys_sorted l" "set l = heap_entries R"
  using assms by (auto simp: table_ok_def heap_ok_def)

lemma indexE:
  assumes "table_ok a td R" "ix \<in> set (tIndexes td)"
  obtains l where "a_data a (IndexTarget (tName td) (iName ix)) = Some l" "keys_sorted l" "set l = index_entries td ix R"
  using assms by (auto simp: table_ok_def index_ok_def)

lemma traverse_map: "(\<And>x. x \<in> set xs \<Longrightarrow> f x = Inr (g x)) \<Longrightarrow> traverse f xs = Inr (map g xs)"
  by (induction xs) auto

lemma fetchAllRows_rows:
  assumes "table_ok a td R" "a_data a (TableTarget (tName td)) = Some l"
  shows "fetchAllRows db_txn td a = (Inr (map fst l, map (the \<circ> R \<circ> fst) l), a)"
proof -
  have l: "set l = heap_entries R" by (rule heapE [OF assms(1)]) (use assms(2) in simp)
  have "DecodeRow (snd x) (ColumnTypes td) = Inr ((the \<circ> R \<circ> fst) x)" if x: "x \<in> set l" for x
  proof -
    obtain k vals where "x = (k, EncodeRow vals)" "R k = Some vals" by (rule heap_entryE [OF x [unfolded l]])
    then show ?thesis using table_rows(3) [OF assms(1)] by simp
  qed
  then have "decode_all (ColumnTypes td) l = Inr (map (the \<circ> R \<circ> fst) l)"
    unfolding decode_all_def by (intro traverse_map) (auto split: prod.split)
  moreover have "scans db_txn (TableTarget (tName td)) None a l" using db_scans [OF assms(2), of None] by (simp add: entries_from_def)
  ultimately show ?thesis using fetchAllRows_scans by fastforce
qed

lemma heap_lookup:
  assumes "table_ok a td R" "R k = Some vals"
  shows "t_Get db_txn (TableTarget (tName td)) k a = (Inr (EncodeRow vals), a)"
proof -
  obtain l where l: "a_data a (TableTarget (tName td)) = Some l" "keys_sorted l" "set l = heap_entries R"
    by (rule heapE [OF assms(1)])
  have "map_of l k = Some (EncodeRow vals)" using map_of_sorted_iff [OF l(2)] l(3) heap_entry [of R, OF assms(2)] by simp
  then show ?thesis using l(1) by (simp add: db_txn_def on_target_def)
qed

lemma load_keys_rows:
  assumes "table_ok a td R"
  shows "set rks \<subseteq> dom R \<Longrightarrow> load_keys db_txn td rks ks rows a = (Inr (ks @ rks, rows @ map (the \<circ> R) rks), a)"
proof (induction rks arbitrary: ks rows)
  case (Cons rk rks)
  then obtain vals where v: "R rk = Some vals" by auto
  show ?case
    using heap_lookup [OF assms v] table_rows(3) [OF assms v] Cons.IH [of "ks @ [rk]" "rows @ [vals]"] Cons.prems v by (simp add: bind_def)
qed simp

text \<open>The keys an index gives for a value.\<close>

definition seek_keys :: "(bytes \<times> bytes) list \<Rightarrow> Value \<Rightarrow> bytes list" where
  "seek_keys l v = map snd (takeWhile (\<lambda>x. hasPrefix (fst x) (SortKey v)) (entries_from (Some (SortKey v)) l))"

lemma indexEqualityLookup_keys:
  "a_data a (IndexTarget (tName td) (iName idx)) = Some l \<Longrightarrow> indexEqualityLookup db_txn td idx v a = (Inr (seek_keys l v), a)"
  using indexEqualityLookup_scans [OF db_scans] by (simp add: seek_keys_def)

lemma index_keys_distinct:
  assumes "keys_sorted l" "set l = index_entries td ix R"
  shows "distinct (map snd l)"
proof -
  have "distinct l" using assms(1) by (metis distinct_map strict_sorted_iff)
  moreover have "inj_on snd (set l)" unfolding assms(2) by (auto simp: inj_on_def index_entries_def Map.graph_def)
  ultimately show ?thesis by (simp add: distinct_map)
qed

lemma seek_keys_subset: "set (seek_keys l v) \<subseteq> snd ` set l"
  by (auto simp: seek_keys_def entries_from_def dest!: set_takeWhileD)

lemma distinct_map_takeWhile: "distinct (map f xs) \<Longrightarrow> distinct (map f (takeWhile P xs))"
  by (induction xs) (auto dest: set_takeWhileD)

lemma seek_keys_distinct:
  assumes "distinct (map snd l)"
  shows "distinct (seek_keys l v)"
proof -
  have "distinct (map snd (filter P l))" for P using assms by (simp add: distinct_map_filter)
  moreover have "distinct (map snd (takeWhile P xs))" if "distinct (map snd xs)" for P :: "bytes \<times> bytes \<Rightarrow> bool" and xs :: "(bytes \<times> bytes) list"
    using that by (simp add: distinct_map_takeWhile)
  ultimately show ?thesis by (simp add: seek_keys_def entries_from_def)
qed

text \<open>What is loaded are rows of the table, each at most once.\<close>

lemma index_for_index: "index_for td col lit ixs = Inr (Some (ix, v)) \<Longrightarrow> ix \<in> set ixs \<and> iColumn ix = col"
proof (induction ixs)
  case (Cons x ixs)
  then show ?case
    by (cases "literalValue lit"; cases "index_at (tColumns td) (ColumnIndex td col)") (auto split: if_splits sum.splits)
qed simp

lemma findEqualityIndex_index: "findEqualityIndex td cond alias = Inr (Some (ix, v)) \<Longrightarrow> ix \<in> set (tIndexes td)"
  by (auto simp: findEqualityIndex_def dest!: index_for_index split: Expr.splits if_splits option.splits)

lemma loadRows_rows:
  assumes ok: "table_ok a td R" and e: "loadRows db_txn td cond alias a = (Inr (ks, rows), a')"
  shows "a' = a \<and> distinct ks \<and> set ks \<subseteq> dom R \<and> rows = map (the \<circ> R) ks"
proof -
  obtain l where l: "a_data a (TableTarget (tName td)) = Some l" "keys_sorted l" "set l = heap_entries R"
    by (rule heapE [OF ok])
  have all: "fst ` set l = dom R" "distinct (map fst l)"
    using l(2,3) by (force simp: heap_entries_def Map.graph_def image_iff, simp add: strict_sorted_iff)
  show ?thesis
  proof (cases "fetchAllRows db_txn td a = (Inr (ks, rows), a')")
    case True
    then show ?thesis using fetchAllRows_rows [OF ok l(1)] all by auto
  next
    case False
    then obtain cond' ix v where c: "cond = Some cond'" "findEqualityIndex td cond' alias = Inr (Some (ix, v))"
      using e by (auto simp: loadRows_def bind_def split: option.splits sum.splits)
    obtain li where li: "a_data a (IndexTarget (tName td) (iName ix)) = Some li" "keys_sorted li" "set li = index_entries td ix R"
      by (rule indexE [OF ok findEqualityIndex_index [OF c(2)]])
    have "set (seek_keys li v) \<subseteq> dom R" using seek_keys_subset [of li v] li(3) by (auto elim!: index_entryE)
    then show ?thesis
      using e c indexEqualityLookup_keys [OF li(1)] load_keys_rows [OF ok] seek_keys_distinct [OF index_keys_distinct [OF li(2,3)], of v]
      by (auto simp: loadRows_def bind_def)
  qed
qed

section \<open>Changing rows\<close>

text \<open>A database at work on one table.\<close>

definition working :: "string \<Rightarrow> TableDef \<Rightarrow> adb \<Rightarrow> (bytes \<rightharpoonup> Value list) \<Rightarrow> bool" where
  "working n td a R \<longleftrightarrow> db_ok a \<and> a_schema a n = Some td \<and> table_ok a td R"

lemma workingD:
  assumes "working n td a R"
  shows "tName td = n" "schema_ok td" "table_ok a td R" "db_ok a" "a_schema a n = Some td"
  using assms by (auto simp: working_def db_ok_def)

text \<open>A change of one row, its index entries first.\<close>

lemma working_change:
  assumes w: "working n td a R"
    and ixs: "\<forall>ix\<in>set (tIndexes td). index_step td R R' f ix" "each f (tIndexes td) a = (Inr (), a1)"
    and heap: "\<And>l. a_data a1 (TableTarget n) = Some l \<Longrightarrow> keys_sorted l \<Longrightarrow> set l = heap_entries R \<Longrightarrow>
        \<exists>l'. a' = with_target a1 (TableTarget n) l' \<and> keys_sorted l' \<and> set l' = heap_entries R'"
    and rows: "rows_ok a td R'"
  shows "working n td a' R'" "a_next a' = a_next a" "a_schema a' = a_schema a"
proof -
  note W = workingD [OF w]
  note T = table_changed [OF W(2,3) ixs _ rows, of a', unfolded W(1), OF heap]
  have t: "table_ok a' td R'" by (rule T(1))
  have "\<exists>d. a' = a\<lparr>a_data := d\<rparr>" by (rule T(2))
  then obtain d where d: "a' = a\<lparr>a_data := d\<rparr>" ..
  then have "db_ok a'" by (intro db_ok_changed [OF W(4,5) t]) (use T(3) in auto)
  then show "working n td a' R'" "a_next a' = a_next a" "a_schema a' = a_schema a" using t W(5) d by (simp_all add: working_def)
qed

lemma rows_ok_put: "rows_ok a td R \<Longrightarrow> row_ok td vals \<Longrightarrow> k = EncodeUint64 i \<Longrightarrow> i < a_next a (tName td) \<Longrightarrow> rows_ok a td (R(k \<mapsto> vals))"
  by (auto simp: rows_ok_def)

lemma heap_put:
  assumes "t_Put db_txn (TableTarget n) k (EncodeRow vals) a1 = (Inr x, a')" "a_data a1 (TableTarget n) = Some l" "keys_sorted l"
    "set l = heap_entries R"
  shows "\<exists>l'. a' = with_target a1 (TableTarget n) l' \<and> keys_sorted l' \<and> set l' = heap_entries (R(k \<mapsto> vals))"
proof -
  have "set (al_put k (EncodeRow vals) l) = heap_entries (R(k \<mapsto> vals))"
    unfolding set_al_put [OF assms(3)] assms(4) heap_entries_upd ..
  then show ?thesis using db_PutE(1) [OF assms(1,2)] keys_sorted_al_put [OF assms(3)] by blast
qed

lemma heap_delete:
  assumes "t_Delete db_txn (TableTarget n) k a1 = (Inr x, a')" "a_data a1 (TableTarget n) = Some l" "keys_sorted l"
    "set l = heap_entries R"
  shows "\<exists>l'. a' = with_target a1 (TableTarget n) l' \<and> keys_sorted l' \<and> set l' = heap_entries (R(k := None))"
proof -
  have "set (al_del k l) = heap_entries (R(k := None))" unfolding set_al_del assms(4) heap_entries_del ..
  then show ?thesis using db_DeleteE [OF assms(1,2)] keys_sorted_al_del [OF assms(3)] by blast
qed

lemma db_Put_fits: "t_Put db_txn target k v a = (Inr x, a') \<Longrightarrow> length v \<le> maxKeyValue"
  by (auto simp: db_txn_def bind_def on_target_def set_target_def split: option.splits if_splits sum.splits)

lemma check_not_null_ok:
  "check_not_null cols vals = Inr () \<Longrightarrow> length vals = length cols \<Longrightarrow> list_all2 (\<lambda>c v. cNotNull c \<longrightarrow> \<not> vNull v) cols vals"
  by (induction cols vals rule: check_not_null.induct) (auto split: if_splits)

lemma row_okI:
  assumes "list_all2 typed (ColumnTypes td) vals" "check_not_null (tColumns td) vals = Inr ()" "length (EncodeRow vals) \<le> maxKeyValue"
  shows "row_ok td vals"
proof -
  have "length vals = length (tColumns td)" using list_all2_lengthD [OF assms(1)] by (simp add: ColumnTypes_def)
  from check_not_null_ok [OF assms(2) this] show ?thesis
    using assms(1,3) by (simp add: row_ok_def ColumnTypes_def list_all2_conv_all_nth)
qed

lemma liftE: "bind (lift r) k s = (Inr x, s') \<Longrightarrow> (\<And>y. r = Inr y \<Longrightarrow> k y s = (Inr x, s') \<Longrightarrow> thesis) \<Longrightarrow> thesis"
  by (cases r) (auto simp: bind_def)

lemma zip_positions: "\<forall>p\<in>set ps. p < n \<Longrightarrow> \<forall>p\<in>fst ` set (zip ps es). p < n"
  by (auto dest: set_zip_leftD)

lemma insert_row_working:
  assumes w: "working n td a R" and pos: "\<forall>p\<in>set ps. p < length (tColumns td)" and next_row: "a_next a n < a_next a n + 1"
    and e: "insert_row db_txn td ps es a = (Inr (), a')"
  shows "\<exists>R'. working n td a' R'" "a_next a' n = a_next a n + 1"
proof -
  note W = workingD [OF w]
  let ?a = "a\<lparr>a_next := (a_next a)(n := a_next a n + 1)\<rparr>" and ?k = "EncodeUint64 (a_next a n)"
  obtain vals a1 where v: "fill_values td [] (zip ps es) (map (NullValue \<circ> cType) (tColumns td)) = Inr vals"
    "check_not_null (tColumns td) vals = Inr ()"
    "each (insert_index_entry db_txn td vals ?k) (tIndexes td) ?a = (Inr (), a1)"
    "t_Put db_txn (TableTarget n) ?k (EncodeRow vals) a1 = (Inr (), a')"
    using e W(1,5) by (auto simp: insert_row_def Let_def split: if_splits elim!: liftE bind_InrE) (auto simp: db_txn_def)
  have types: "\<forall>c\<in>set (tColumns td). cType c \<in> column_types" using W(2) by (auto simp: schema_ok_def)
  have "list_all2 typed (ColumnTypes td) (map (NullValue \<circ> cType) (tColumns td))"
    using types by (simp add: ColumnTypes_def list_all2_conv_all_nth)
  then have "list_all2 typed (ColumnTypes td) vals"
    using fill_values_keeps_types [OF _ types zip_positions [OF pos] _ v(1)] by simp
  then have row: "row_ok td vals" using row_okI v(2) db_Put_fits [OF v(4)] by blast
  have "rows_ok ?a td R" using W(1,3) next_row by (force simp: table_ok_def rows_ok_def)
  then have "table_ok ?a td R" using W(3) by (simp add: table_ok_def heap_ok_def index_ok_def)
  moreover from this have "db_ok ?a" by (rule db_ok_changed [OF W(4,5)]) simp_all
  ultimately have w': "working n td ?a R" using W(5) by (simp add: working_def)
  have new: "R ?k = None"
  proof (cases "R ?k")
    case (Some x)
    then obtain i where "?k = EncodeUint64 i" "i < a_next a n" using W(1,3) unfolding table_ok_def rows_ok_def by blast
    then show ?thesis by (simp add: EncodeUint64_def)
  qed simp
  have steps: "\<forall>ix\<in>set (tIndexes td). index_step td R (R(?k \<mapsto> vals)) (insert_index_entry db_txn td vals ?k) ix"
    using insert_step [where R = R and k = ?k, OF W(2) _ row new] table_keys [OF W(3)] by auto
  have "rows_ok ?a td (R(?k \<mapsto> vals))"
    using rows_ok_put [OF \<open>rows_ok ?a td R\<close> row refl] next_row W(1) by simp
  from working_change [OF w' steps v(3) heap_put [OF v(4)] this]
  show "\<exists>R'. working n td a' R'" "a_next a' n = a_next a n + 1" by auto
qed

lemma typed_bind_row: "row_ok td row \<Longrightarrow> typed_binding (bind_row alias td key row)"
  by (simp add: typed_binding_def bind_row_def row_ok_types)

lemma update_row_working:
  assumes w: "working n td a R" and pos: "\<forall>p\<in>set ps. p < length (tColumns td)" and r: "R k = Some row"
    and e: "update_row db_txn td st ps k row a = (Inr m, a')"
  shows "\<exists>R'. working n td a' R' \<and> (\<forall>j. j \<noteq> k \<longrightarrow> R' j = R j)"
proof (cases "a' = a")
  case True
  then show ?thesis using w by blast
next
  case False
  note W = workingD [OF w]
  let ?tp = "[bind_row (upTable st) td k row]"
  obtain vals a1 where v: "fill_values td ?tp (zip ps (map asValue (upSet st))) row = Inr vals"
    "check_not_null (tColumns td) vals = Inr ()"
    "each (move_index_entry db_txn td k row vals) (tIndexes td) a = (Inr (), a1)"
    "t_Put db_txn (TableTarget n) k (EncodeRow vals) a1 = (Inr (), a')"
    using e False W(1) by (auto simp: update_row_def Let_def split: if_splits elim!: liftE bind_InrE)
  have types: "\<forall>c\<in>set (tColumns td). cType c \<in> column_types" using W(2) by (auto simp: schema_ok_def)
  note old = table_rows [OF W(3) r]
  have "list_all2 typed (ColumnTypes td) vals"
    using fill_values_keeps_types [OF _ types zip_positions [OF pos] row_ok_types(1) [OF old(1)] v(1)] typed_bind_row [OF old(1)] by simp
  then have row: "row_ok td vals" using row_okI v(2) db_Put_fits [OF v(4)] by blast
  have steps: "\<forall>ix\<in>set (tIndexes td). index_step td R (R(k \<mapsto> vals)) (move_index_entry db_txn td k row vals) ix"
    using move_step [where R = R and k = k, OF W(2) _ old(1) row r] table_keys [OF W(3)] old(2) by auto
  have "rows_ok a td (R(k \<mapsto> vals))" using W(3) r row by (auto simp: table_ok_def rows_ok_def)
  then have "working n td a' (R(k \<mapsto> vals))" using working_change(1) [OF w steps v(3)] heap_put [OF v(4)] by blast
  then show ?thesis by auto
qed

lemma delete_row_working:
  assumes w: "working n td a R" and r: "R k = Some row" and e: "delete_row db_txn td st k row a = (Inr m, a')"
  shows "\<exists>R'. working n td a' R' \<and> (\<forall>j. j \<noteq> k \<longrightarrow> R' j = R j)"
proof (cases "a' = a")
  case True
  then show ?thesis using w by blast
next
  case False
  note W = workingD [OF w]
  obtain a1 where v: "each (delete_index_entry db_txn td k row) (tIndexes td) a = (Inr (), a1)"
    "t_Delete db_txn (TableTarget n) k a1 = (Inr (), a')"
    using e False W(1) by (auto simp: delete_row_def split: if_splits elim!: liftE bind_InrE)
  note old = table_rows [OF W(3) r]
  have steps: "\<forall>ix\<in>set (tIndexes td). index_step td R (R(k := None)) (delete_index_entry db_txn td k row) ix"
    using delete_step [where R = R and k = k, OF W(2) _ old(1) r] table_keys [OF W(3)] old(2) by auto
  have "rows_ok a td (R(k := None))" using W(3) by (auto simp: table_ok_def rows_ok_def)
  then have "working n td a' (R(k := None))" using working_change(1) [OF w steps v(1)] heap_delete [OF v(2)] by blast
  then show ?thesis by auto
qed

lemma count_rows_working:
  assumes step: "\<And>a R k row m a'. working n td a R \<Longrightarrow> R k = Some row \<Longrightarrow> f k row a = (Inr m, a') \<Longrightarrow>
      \<exists>R'. working n td a' R' \<and> (\<forall>j. j \<noteq> k \<longrightarrow> R' j = R j)"
  shows "working n td a R \<Longrightarrow> distinct (map fst rows) \<Longrightarrow> \<forall>(k, row)\<in>set rows. R k = Some row \<Longrightarrow>
    count_rows f rows c a = (Inr c', a') \<Longrightarrow> db_ok a'"
proof (induction rows arbitrary: a R c)
  case Nil
  then show ?case using workingD(4) by auto
next
  case (Cons x rows)
  obtain k row where x: "x = (k, row)" by fastforce
  obtain m a1 where m: "f k row a = (Inr m, a1)" "count_rows f rows (c + m) a1 = (Inr c', a')"
    using Cons.prems(4) unfolding x count_rows.simps by (rule bind_InrE)
  obtain R' where R': "working n td a1 R'" "\<forall>j. j \<noteq> k \<longrightarrow> R' j = R j" using step [OF Cons.prems(1) _ m(1)] Cons.prems(3) x by auto
  have "R' j = Some w" if "(j, w) \<in> set rows" for j w
  proof -
    have "j \<noteq> k" using that Cons.prems(2) x by (metis distinct.simps(2) fst_conv image_eqI list.map(2) list.set_map)
    then show ?thesis using R'(2) Cons.prems(3) that by auto
  qed
  then have "\<forall>(j, w)\<in>set rows. R' j = Some w" by blast
  then show ?case using Cons.IH [OF R'(1) _ _ m(2)] Cons.prems(2) by simp
qed

end
