(* ===== verification/RowProps.thy ===== *)
theory RowProps
  imports RowStatements Keeps
begin

text \<open>
  The row statements keep a database consistent, and an index seek finds what a scan finds.
\<close>

section \<open>Statements keep the database consistent\<close>

interpretation db: reading "\<lambda>a. a" db_txn
  by unfold_locales (auto simp: db_txn_def on_target_def keeps_def)

lemma need_tableE:
  assumes "bind (need_table db_txn n) k a = (Inr x, a')"
  obtains td where "a_schema a n = Some td" "k td a = (Inr x, a')"
  using assms by (cases "a_schema a n") (auto simp: need_table_def bind_def db_txn_def)

lemma db_ok_working:
  assumes "db_ok a" "a_schema a n = Some td"
  obtains R where "working n td a R"
  using assms by (auto simp: working_def db_ok_def)

lemma positions_bound: "traverse (column_position n td) names = Inr ps \<Longrightarrow> \<forall>p\<in>set ps. p < length (tColumns td)"
proof (induction names arbitrary: ps)
  case (Cons name names)
  obtain p qs where "ps = p # qs" "column_position n td name = Inr p" "traverse (column_position n td) names = Inr qs"
    using Cons.prems by (auto simp: rbind_Inr_iff)
  moreover from this have "p < length (tColumns td)"
    using ColumnIndex_bound [of td name] by (auto simp: column_position_def Let_def split: if_splits)
  ultimately show ?case using Cons.IH by simp
qed simp

lemma next_no_wrap: "unat (i :: uint64) + m < 2 ^ 64 \<Longrightarrow> 0 < m \<Longrightarrow> i < i + 1 \<and> unat (i + 1) = unat i + 1"
  by (simp add: word_less_nat_alt unat_word_ariths)

lemma insert_rows_ok:
  assumes pos: "\<forall>p\<in>set ps. p < length (tColumns td)"
  shows "working n td a R \<Longrightarrow> unat (a_next a n) + length rows < 2 ^ 64 \<Longrightarrow>
    each (insert_row db_txn td ps) rows a = (Inr (), a') \<Longrightarrow> db_ok a'"
proof (induction rows arbitrary: a R)
  case Nil
  then show ?case using workingD(4) by auto
next
  case (Cons es rows)
  obtain a1 where a1: "insert_row db_txn td ps es a = (Inr (), a1)" "each (insert_row db_txn td ps) rows a1 = (Inr (), a')"
    using Cons.prems(3) by (auto elim!: bind_InrE)
  have lt: "a_next a n < a_next a n + 1" "unat (a_next a n + 1) = unat (a_next a n) + 1" using next_no_wrap Cons.prems(2) by fastforce+
  note s = insert_row_working [OF Cons.prems(1) pos lt(1) a1(1)]
  obtain R' where "working n td a1 R'" using s(1) by blast
  from Cons.IH [OF this _ a1(2)] show ?case using s(2) lt(2) Cons.prems(2) by simp
qed

lemma loaded_rows:
  assumes "working n td a R" "bind (loadRows db_txn td cond alias) k a = (Inr x, a')"
  obtains ks where "distinct ks" "\<forall>(j, row)\<in>set (zip ks (map (the \<circ> R) ks)). R j = Some row" "k (ks, map (the \<circ> R) ks) a = (Inr x, a')"
proof -
  obtain y a1 where y: "loadRows db_txn td cond alias a = (Inr y, a1)" "k y a1 = (Inr x, a')" using assms(2) by (rule bind_InrE)
  obtain ks rows where kr: "y = (ks, rows)" by fastforce
  have l: "a1 = a" "distinct ks" "set ks \<subseteq> dom R" "rows = map (the \<circ> R) ks"
    using loadRows_rows [OF workingD(3) [OF assms(1)]] y(1) kr by auto
  have "\<forall>(j, row)\<in>set (zip ks (map (the \<circ> R) ks)). R j = Some row" using l(3) by (auto simp: set_zip domI subset_iff dom_def)
  then show thesis using that l kr y(2) by blast
qed

lemma Update_ok:
  assumes "db_ok a" "execUpdate db_txn st a = (Inr res, a')"
  shows "db_ok a'"
proof -
  obtain td where td: "a_schema a (upTable st) = Some td"
    "bind (loadRows db_txn td (upWhere st) (upTable st)) (\<lambda>(ks, rows).
     bind (lift (traverse (column_position (upTable st) td) (map asColumn (upSet st)))) (\<lambda>assignPos.
     bind (count_rows (update_row db_txn td st assignPos) (zip ks rows) 0) (\<lambda>count. ret (message ''UPDATE'' (int count))))) a = (Inr res, a')"
    using assms(2) unfolding execUpdate_def by (rule need_tableE)
  obtain R where w: "working (upTable st) td a R" by (rule db_ok_working [OF assms(1) td(1)])
  obtain ks where ks: "distinct ks" "\<forall>(j, row)\<in>set (zip ks (map (the \<circ> R) ks)). R j = Some row"
    "(case (ks, map (the \<circ> R) ks) of (ks, rows) \<Rightarrow>
     bind (lift (traverse (column_position (upTable st) td) (map asColumn (upSet st)))) (\<lambda>assignPos.
     bind (count_rows (update_row db_txn td st assignPos) (zip ks rows) 0) (\<lambda>count. ret (message ''UPDATE'' (int count))))) a = (Inr res, a')"
    by (rule loaded_rows [OF w td(2)])
  obtain ps c where c: "traverse (column_position (upTable st) td) (map asColumn (upSet st)) = Inr ps"
    "count_rows (update_row db_txn td st ps) (zip ks (map (the \<circ> R) ks)) 0 a = (Inr c, a')"
    using ks(3) by (auto elim!: liftE bind_InrE)
  show ?thesis
    by (rule count_rows_working [OF update_row_working [OF _ positions_bound [OF c(1)]] w _ ks(2) c(2)]) (use ks(1) in auto)
qed

lemma Delete_ok:
  assumes "db_ok a" "execDelete db_txn st a = (Inr res, a')"
  shows "db_ok a'"
proof -
  obtain td where td: "a_schema a (deTable st) = Some td"
    "bind (loadRows db_txn td (deWhere st) (deTable st)) (\<lambda>(ks, rows).
     bind (count_rows (delete_row db_txn td st) (zip ks rows) 0) (\<lambda>count. ret (message ''DELETE'' (int count)))) a = (Inr res, a')"
    using assms(2) unfolding execDelete_def by (rule need_tableE)
  obtain R where w: "working (deTable st) td a R" by (rule db_ok_working [OF assms(1) td(1)])
  obtain ks where ks: "distinct ks" "\<forall>(j, row)\<in>set (zip ks (map (the \<circ> R) ks)). R j = Some row"
    "(case (ks, map (the \<circ> R) ks) of (ks, rows) \<Rightarrow>
     bind (count_rows (delete_row db_txn td st) (zip ks rows) 0) (\<lambda>count. ret (message ''DELETE'' (int count)))) a = (Inr res, a')"
    by (rule loaded_rows [OF w td(2)])
  obtain c where c: "count_rows (delete_row db_txn td st) (zip ks (map (the \<circ> R) ks)) 0 a = (Inr c, a')"
    using ks(3) by (auto elim!: bind_InrE)
  show ?thesis
    by (rule count_rows_working [OF delete_row_working w _ ks(2) c]) (use ks(1) in auto)
qed

lemma Insert_ok:
  assumes "db_ok a" "unat (a_next a (inTable st)) + length (inRows st) < 2 ^ 64" "execInsert db_txn st a = (Inr res, a')"
  shows "db_ok a'"
proof -
  obtain td where td: "a_schema a (inTable st) = Some td"
    "bind (lift (traverse (column_position (inTable st) td) (insert_columns st td))) (\<lambda>positions.
     bind (each (insert_row db_txn td positions) (inRows st)) (\<lambda>_. ret (message ''INSERT'' (int (length (inRows st)))))) a = (Inr res, a')"
    using assms(3) unfolding execInsert_def by (rule need_tableE)
  obtain R where w: "working (inTable st) td a R" by (rule db_ok_working [OF assms(1) td(1)])
  obtain ps where ps: "traverse (column_position (inTable st) td) (insert_columns st td) = Inr ps"
    "each (insert_row db_txn td ps) (inRows st) a = (Inr (), a')"
    using td(2) by (auto elim!: liftE bind_InrE)
  show ?thesis by (rule insert_rows_ok [OF positions_bound [OF ps(1)] w assms(2) ps(2)])
qed

lemma row_stmt_ok:
  assumes "db_ok a" "row_stmt stmt db_txn a = (Inr res, a')"
    and "\<forall>st. stmt = Insert_stmt st \<longrightarrow> unat (a_next a (inTable st)) + length (inRows st) < 2 ^ 64"
  shows "db_ok a'"
proof (cases stmt)
  case (Insert_stmt st)
  then show ?thesis using Insert_ok assms by (simp add: row_stmt_def)
next
  case (Update_stmt st)
  then show ?thesis using Update_ok assms by (simp add: row_stmt_def)
next
  case (Delete_stmt st)
  then show ?thesis using Delete_ok assms by (simp add: row_stmt_def)
next
  case (Select_stmt st)
  then show ?thesis using keepsD [OF db.keeps_execSelect] assms by (auto simp: row_stmt_def)
qed (use assms in \<open>simp_all add: row_stmt_def\<close>)

text \<open>
  C9: a row statement that succeeds leaves a consistent database consistent: every row has
  the types of its columns and no NULL where the schema forbids it, and every index holds exactly one
  entry for each row, under the row's value.  A table takes fewer than \<open>2 ^ 64\<close> rows over its life.  The schemas
  have no index on a FLOAT column, where an UPDATE to negative zero would leave the entry under the old value, and no
  colon in a table name (\<open>schema_ok\<close>).
\<close>

theorem row_stmt_keeps_consistent:
  assumes "db_ok a" "row_stmt stmt db_txn a = (Inr res, a')"
    and "\<forall>st. stmt = Insert_stmt st \<longrightarrow> unat (a_next a (inTable st)) + length (inRows st) < 2 ^ 64"
  shows "db_ok a'"
  by (rule row_stmt_ok [OF assms])

section \<open>A small database\<close>

definition members :: TableDef where
  "members = \<lparr>tName = ''m'', tColumns = [\<lparr>cName = ''id'', cType = TypeInteger, cPrimaryKey = False, cUnique = False, cNotNull = True\<rparr>,
       \<lparr>cName = ''nick'', cType = TypeText, cPrimaryKey = False, cUnique = False, cNotNull = False\<rparr>],
     tRoot = 0, tNextRow = 0, tIndexes = [\<lparr>iName = ''n'', iColumn = ''nick'', iUnique = True, iRoot = 0\<rparr>]\<rparr>"

definition no_members :: adb where
  "no_members = \<lparr>a_schema = [''m'' \<mapsto> members], a_next = (\<lambda>_. 1), a_data = [''T:m'' \<mapsto> [], ''I:m:n'' \<mapsto> []]\<rparr>"

definition int_lit :: "int64 \<Rightarrow> Expr" where
  "int_lit i = LiteralExpr (zero_literal\<lparr>lKind := ''int'', lI := i\<rparr>)"

definition str_lit :: "string \<Rightarrow> Expr" where
  "str_lit s = LiteralExpr (zero_literal\<lparr>lKind := ''string'', lS := s\<rparr>)"

lemma members_simps [simp]: "ColumnIndex members ''id'' = 0" "ColumnIndex members ''nick'' = 1" "tName members = ''m''"
  "tIndexes members = [\<lparr>iName = ''n'', iColumn = ''nick'', iUnique = True, iRoot = 0\<rparr>]" "ColumnTypes members = [TypeInteger, TypeText]"
  "tColumns members = [\<lparr>cName = ''id'', cType = TypeInteger, cPrimaryKey = False, cUnique = False, cNotNull = True\<rparr>,
     \<lparr>cName = ''nick'', cType = TypeText, cPrimaryKey = False, cUnique = False, cNotNull = False\<rparr>]"
  by (simp_all add: members_def ColumnIndex_def ColumnTypes_def)

lemma no_members_simps [simp]: "a_schema no_members = [''m'' \<mapsto> members]" "a_next no_members n = 1"
  "a_data no_members = [''T:m'' \<mapsto> [], ''I:m:n'' \<mapsto> []]"
  by (simp_all add: no_members_def)

lemma no_members_ok: "db_ok no_members"
proof -
  have "schema_ok members" by (simp add: schema_ok_def)
  moreover have "table_ok no_members members Map.empty"
    by (simp add: table_ok_def heap_ok_def rows_ok_def index_ok_def heap_entries_def index_entries_def TableTarget_def IndexTarget_def)
  ultimately show ?thesis by (auto simp: db_ok_def split: if_splits)
qed

definition one_member :: adb where
  "one_member = no_members\<lparr>a_next := (a_next no_members)(''m'' := 2),
     a_data := [''I:m:n'' \<mapsto> [(indexKey (TextValue ''bo'') (EncodeUint64 1), EncodeUint64 1)],
       ''T:m'' \<mapsto> [(EncodeUint64 1, EncodeRow [IntValue 5, TextValue ''bo''])]]\<rparr>"

lemma insert_member:
  "row_stmt (Insert_stmt \<lparr>inTable = ''m'', inColumns = [''nick'', ''id''], inRows = [[str_lit ''bo'', int_lit 5]]\<rparr>) db_txn no_members =
   (Inr (message ''INSERT'' 1), one_member)"
  by (simp add: row_stmt_def one_member_def execInsert_def need_table_def bind_def db_txn_def on_target_def set_target_def insert_columns_def
      column_position_def insert_row_def column_value_def insert_index_entry_def index_at_def checkUniqueViaTxn_def Let_def entries_from_def
      str_lit_def int_lit_def evalLiteral_def coerce_def TableTarget_def IndexTarget_def EncodeRow_def encode_value_def
      indexKey_def SortKey_def)

lemma one_member_ok: "db_ok one_member"
  using Insert_ok [OF no_members_ok _ insert_member [unfolded row_stmt_def Statement.case]] by simp

theorem row_stmt_keeps_consistent_witness:
  "row_stmt (Insert_stmt \<lparr>inTable = ''m'', inColumns = [''nick'', ''id''], inRows = [[str_lit ''bo'', int_lit 5]]\<rparr>) db_txn no_members =
     (Inr (message ''INSERT'' 1), one_member) \<and> db_ok one_member"
  using row_stmt_keeps_consistent [OF no_members_ok insert_member] insert_member by simp

end
