(* ===== verification/SystemProps.thy ===== *)
theory SystemProps
  imports EngineProps RowProps
begin

text \<open>
  Sessions on a store with a consistent database: the pieces of the proof that a statement
  leaves one, whether it succeeds or is rolled back.
\<close>

section \<open>Schemas under a rollback\<close>

lemma schema_of_same:
  assumes "schema_of a = schema_of b"
  shows "tName a = tName b" "iName ` set (tIndexes a) = iName ` set (tIndexes b)"
proof -
  show "tName a = tName b" using arg_cong [OF assms, of tName] by (simp add: schema_of_def)
  have "iName ` set (tIndexes td) = iName ` set (tIndexes (schema_of td))" for td by (auto simp: schema_of_def image_iff)
  then show "iName ` set (tIndexes a) = iName ` set (tIndexes b)" using assms by metis
qed

lemma view_names:
  assumes "schema_view c' = schema_view c" "\<And>n td. Table c n = Some td \<Longrightarrow> tName td = n"
  shows "Table c' n = Some td \<Longrightarrow> tName td = n"
proof -
  assume t: "Table c' n = Some td"
  then obtain td' where "Table c n = Some td'" "schema_of td' = schema_of td"
    using fun_cong [OF assms(1), of n] by (cases "Table c n") (auto simp: schema_view_def)
  then show "tName td = n" using assms(2) schema_of_same(1) by metis
qed

lemma index_root_None: "index_root i xs = None \<longleftrightarrow> i \<notin> iName ` set xs"
  by (induction xs) auto

lemma view_targets:
  assumes "schema_view c' = schema_view c"
  shows "dom (root_at c') = dom (root_at c)"
proof -
  have "root_at c' u = None \<longleftrightarrow> root_at c u = None" for u
  proof -
    have "map_option schema_of (Table c' (target_table u)) = map_option schema_of (Table c (target_table u))"
      using fun_cong [OF assms, of "target_table u"] by (auto simp: schema_view_def map_option_case split: option.splits)
    then show ?thesis
      by (cases "Table c' (target_table u)"; cases "Table c (target_table u)") (auto simp: root_at_def2 index_root_None dest: schema_of_same(2))
  qed
  then show ?thesis by (auto simp: dom_def)
qed

lemma undo_entry_view:
  assumes "\<And>n td. Table (st_cat s) n = Some td \<Longrightarrow> tName td = n" "undo_entry e (s, t) = (r, (s', t'))"
  shows "schema_view (st_cat s') = schema_view (st_cat s)"
proof (cases "resolve (st_cat s) (u_target e)")
  case None
  then show ?thesis using assms(2) by (simp add: undo_entry_def)
next
  case (Some rs)
  obtain root sl where rs: "rs = (root, sl)" by fastforce
  have sv: "schema_view c' = schema_view (st_cat s)" if "save_root sl pid (st_cat s\<lparr>c_pager := q\<rparr>) = (x, c')" for pid q x c'
    using save_root_view [OF Some [unfolded rs] assms(1) _ that] by simp
  show ?thesis
    using assms(2) Some rs
    by (auto simp: undo_entry_def bind_def on_tree_apply on_pager_def on_store_def save_moved_def on_cat_def
        split: prod.splits sum.splits if_splits) (erule sv)+
qed

lemma each_undo_view:
  assumes "\<And>n td. Table (st_cat s) n = Some td \<Longrightarrow> tName td = n" "each undo_entry es (s, t) = (r, (s', t'))"
  shows "schema_view (st_cat s') = schema_view (st_cat s)"
  using assms
proof (induction es arbitrary: s t)
  case (Cons e es)
  obtain r1 s1 t1 where e: "undo_entry e (s, t) = (r1, (s1, t1))" by (metis prod.exhaust)
  note v = undo_entry_view [OF Cons.prems(1) e]
  show ?case
  proof (cases r1)
    case (Inr x)
    then have "each undo_entry es (s1, t1) = (r, (s', t'))" using Cons.prems(2) e by (simp add: bind_def)
    from Cons.IH [OF view_names [OF v Cons.prems(1)] this] v show ?thesis by simp
  qed (use Cons.prems(2) e v in \<open>simp add: bind_def\<close>)
qed simp

lemma Rollback_view:
  assumes "\<And>n td. Table (st_cat s) n = Some td \<Longrightarrow> tName td = n" "txn_Rollback (s, t) = (r, (s', t'))"
  shows "schema_view (st_cat s') = schema_view (st_cat s)"
proof -
  obtain r1 s1 t1 where e: "each undo_entry (rev (tx_undo t)) (s, t\<lparr>tx_done := True\<rparr>) = (r1, (s1, t1))" by (metis prod.exhaust)
  have "st_cat s' = st_cat s1 \<or> st_cat s' = st_cat s"
    using assms(2) e by (auto simp: txn_Rollback_def bind_def on_store_def on_wal_def split: if_splits prod.splits sum.splits)
  then show ?thesis using each_undo_view [OF assms(1) e] by auto
qed

section \<open>What a failed statement leaves in memory\<close>

interpretation dbk: keeping "\<lambda>a. (dom (a_data a), a_schema a)" db_txn
  by unfold_locales (auto simp: keeps_def db_txn_def bind_def on_target_def set_target_def split: option.splits if_splits)

interpretation dbn: writing a_next db_txn
  by unfold_locales (auto simp: keeps_def db_txn_def bind_def on_target_def set_target_def split: option.splits if_splits)

lemma row_stmt_targets: "row_stmt stmt db_txn a = (r, a') \<Longrightarrow> dom (a_data a') = dom (a_data a) \<and> a_schema a' = a_schema a"
  using keepsD [OF dbk.keeps_execInsert] keepsD [OF dbk.keeps_execUpdate] keepsD [OF dbk.keeps_execDelete] keepsD [OF dbk.keeps_execSelect]
  by (cases stmt) (auto simp: row_stmt_def)

text \<open>Row numbers only grow.\<close>

lemma bind_NextRow: "bind (t_NextRow db_txn n) k a =
    (case a_schema a n of None \<Rightarrow> (Inl Panic, a) | Some _ \<Rightarrow> k (a_next a n) (a\<lparr>a_next := (a_next a)(n := a_next a n + 1)\<rparr>))"
  by (simp add: db_txn_def bind_def split: option.split)

lemma bind_lift_case: "bind (lift r) k a = (case r of Inl e \<Rightarrow> (Inl e, a) | Inr x \<Rightarrow> k x a)"
  by (cases r) (simp_all add: bind_def)

lemma insert_row_next:
  assumes "insert_row db_txn td ps es a = (r, a')"
  shows "a_next a' = a_next a \<or> a_next a' = (a_next a)(tName td := a_next a (tName td) + 1)"
proof -
  have k: "keeps a_next (bind (each (insert_index_entry db_txn td vals key) (tIndexes td)) (\<lambda>_. t_Put db_txn (TableTarget (tName td)) key row))"
    for vals key row by (intro keeps_intros dbn.keeps_insert_index_entry dbn.writes)
  show ?thesis
    using assms by (auto simp: insert_row_def Let_def bind_lift_case bind_NextRow split: if_splits sum.splits option.splits dest!: keepsD [OF k])
qed

lemma insert_rows_next:
  "each (insert_row db_txn td ps) rows a = (r, a') \<Longrightarrow> unat (a_next a (tName td)) + length rows < 2 ^ 64 \<Longrightarrow> a_next a m \<le> a_next a' m"
proof (induction rows arbitrary: a)
  case (Cons es rows)
  obtain r1 a1 where a1: "insert_row db_txn td ps es a = (r1, a1)" by fastforce
  have w: "a_next a (tName td) < a_next a (tName td) + 1" "unat (a_next a (tName td) + 1) = unat (a_next a (tName td)) + 1"
    using next_no_wrap [of "a_next a (tName td)" "length (es # rows)"] Cons.prems(2) by auto
  have le: "a_next a m \<le> a_next a1 m" "unat (a_next a1 (tName td)) \<le> unat (a_next a (tName td)) + 1"
    using insert_row_next [OF a1] w by auto
  show ?case
  proof (cases r1)
    case (Inr x)
    then have "a_next a1 m \<le> a_next a' m" using Cons.IH [of a1] Cons.prems a1 le(2) by (simp add: bind_def)
    then show ?thesis using le(1) by (rule order.trans [rotated])
  qed (use Cons.prems a1 le(1) in \<open>simp add: bind_def\<close>)
qed simp

definition rows_left :: "adb \<Rightarrow> Statement \<Rightarrow> bool" where
  "rows_left a stmt \<longleftrightarrow> (\<forall>st. stmt = Insert_stmt st \<longrightarrow> unat (a_next a (inTable st)) + length (inRows st) < 2 ^ 64)"

lemma execInsert_next:
  assumes "db_ok a" "execInsert db_txn st a = (r, a')" "unat (a_next a (inTable st)) + length (inRows st) < 2 ^ 64"
  shows "a_next a m \<le> a_next a' m"
proof (cases "a' = a")
  case False
  then obtain td where td: "a_schema a (inTable st) = Some td" using assms(2)
    by (cases "a_schema a (inTable st)") (auto simp: execInsert_def need_table_def bind_def db_txn_def)
  have n: "tName td = inTable st" using assms(1) td by (auto simp: db_ok_def)
  have t: "bind (need_table db_txn (inTable st)) k a = k td a" for k :: "TableDef \<Rightarrow> (adb, Result) sm"
    using td by (simp add: need_table_def bind_def db_txn_def)
  obtain ps r1 where "each (insert_row db_txn td ps) (inRows st) a = (r1, a')"
    using assms(2) False unfolding execInsert_def t bind_lift_case by (auto simp: bind_def split: sum.splits prod.splits)
  from insert_rows_next [OF this] show ?thesis using assms(3) n by simp
qed simp

lemma row_stmt_next:
  assumes "db_ok a" "row_stmt stmt db_txn a = (r, a')" "rows_left a stmt"
  shows "a_next a m \<le> a_next a' m"
  using assms execInsert_next keepsD [OF dbn.keeps_execUpdate] keepsD [OF dbn.keeps_execDelete] keepsD [OF dbn.keeps_execSelect]
  by (cases stmt) (fastforce simp: row_stmt_def rows_left_def)+

text \<open>The database after the rollback of a failed statement: the old rows, the numbers that were drawn.\<close>

lemma undone_ok:
  assumes "db_ok a" "row_stmt stmt db_txn a = (r, a')" "rows_left a stmt"
  shows "db_ok (a'\<lparr>a_data := a_data a\<rparr>)"
proof -
  have s: "a_schema a' = a_schema a" using row_stmt_targets [OF assms(2)] by blast
  have "rows_ok (a'\<lparr>a_data := a_data a\<rparr>) td R" if ro: "rows_ok a td R" for td R
    unfolding rows_ok_def
  proof (intro allI impI conjI)
    fix k vals assume "R k = Some vals"
    then obtain i where i: "row_ok td vals" "k = EncodeUint64 i" "i < a_next a (tName td)" using ro unfolding rows_ok_def by blast
    show "row_ok td vals" by (rule i(1))
    show "\<exists>i. k = EncodeUint64 i \<and> i < a_next (a'\<lparr>a_data := a_data a\<rparr>) (tName td)"
      using i(2) order.strict_trans2 [OF i(3) row_stmt_next [OF assms]] by auto
  qed
  then have "table_ok (a'\<lparr>a_data := a_data a\<rparr>) td R" if "table_ok a td R" for td R
    using that by (simp add: table_ok_def heap_ok_def index_ok_def)
  then show ?thesis using assms(1) s unfolding db_ok_def by fastforce
qed

section \<open>A session on a consistent store\<close>

definition session_holds :: "Session \<Rightarrow> adb \<Rightarrow> bool" where
  "session_holds se a \<longleftrightarrow> se_txn se = None \<and> (\<exists>\<sigma> xs. run_inv (se_store se) None \<sigma> xs []) \<and>
     holds_db (st_cat (se_store se)) a \<and> db_ok a"

lemma undone_holds:
  assumes x: "holds_db (st_cat s') a'" and e: "row_stmt stmt db_txn a = (r, a')" and old: "holds_db c a"
    and R: "txn_Rollback (s', t') = (r', (s'', t''))" "store_holds (st_cat s'') (db_of a)"
  shows "holds_db (st_cat s'') (a'\<lparr>a_data := a_data a\<rparr>)"
proof -
  have v: "schema_view (st_cat s'') = schema_view (st_cat s')" by (rule Rollback_view [OF holds_db_names [OF x] R(1)])
  have "dom (root_at (st_cat s'')) = dom (a_data a)"
    using view_targets [OF v] x row_stmt_targets [OF e] by (simp add: holds_db_def)
  moreover have "db_of (a'\<lparr>a_data := a_data a\<rparr>) = db_of a" by (simp add: fun_eq_iff db_of_def)
  ultimately show ?thesis using R(2) x old v by (simp add: holds_db_def)
qed

lemma checkpoint_run:
  assumes "run_inv s None \<sigma> xs []" "MaybeCheckpoint n s = (r, s')"
  shows "\<exists>\<sigma> xs. run_inv s' None \<sigma> xs []"
proof (cases "n \<le> st_writes s")
  case True
  obtain s1 where "MaybeCheckpoint n s = (Inr (), s1)" "run_inv s1 None (committed \<sigma> xs) [] []" by (rule checkpoint_inv [OF assms(1) True])
  then show ?thesis using assms(2) by auto
next
  case False
  then show ?thesis using assms by (auto simp: MaybeCheckpoint_def)
qed

lemma statement_step:
  assumes se: "session_holds se a" and st: "is_row_stmt stmt" "stmt_ready stmt (se_store se)" "rows_left a stmt"
  shows "\<exists>r se' a'. executeStmt order stmt se = (r, se') \<and> fst (row_stmt stmt db_txn a) = r \<and> session_holds se' a'"
proof -
  obtain \<sigma> xs where I: "se_txn se = None" "run_inv (se_store se) None \<sigma> xs []" "holds_db (st_cat (se_store se)) a" "db_ok a"
    using se by (auto simp: session_holds_def)
  show ?thesis
    using I(1-3) st(2)
  proof (cases rule: runInTxn_outcome)
    case (failed err s' t' s'' t'' a' xs')
    have "session_holds (se\<lparr>se_store := s''\<rparr>) (a'\<lparr>a_data := a_data a\<rparr>)"
      using I(1) failed(5) undone_holds [OF failed(3,2) I(3) failed(4,6)] undone_ok [OF I(4) failed(2) st(3)]
      by (auto simp: session_holds_def)
    then show ?thesis using failed(1,2) by (auto simp: executeStmt_row [OF st(1)])
  next
    case (ended res s2 s3 a' xs')
    have "db_ok a'" using row_stmt_ok [OF I(4) ended(2)] st(3) by (simp add: rows_left_def)
    then have "session_holds (se\<lparr>se_store := s3\<rparr>) a'"
      using I(1) ended(5) checkpoint_run [OF ended(3,4)] by (auto simp: session_holds_def)
    then show ?thesis using ended(1,2) by (auto simp: executeStmt_row [OF st(1)])
  qed
qed

text \<open>The sessions that row statements lead to, from a session \<open>se\<close>.\<close>

definition numbers_left :: "Store \<Rightarrow> Statement \<Rightarrow> bool" where
  "numbers_left store stmt \<longleftrightarrow> (\<forall>a. holds_db (st_cat store) a \<longrightarrow> rows_left a stmt)"

inductive statements :: "(string list \<Rightarrow> string list) \<Rightarrow> Session \<Rightarrow> Session \<Rightarrow> bool" for order se where
  start: "statements order se se"
| step: "statements order se se1 \<Longrightarrow> is_row_stmt stmt \<Longrightarrow> stmt_ready stmt (se_store se1) \<Longrightarrow> numbers_left (se_store se1) stmt \<Longrightarrow>
    executeStmt order stmt se1 = (r, se2) \<Longrightarrow> statements order se se2"

lemma statements_hold: "statements order se se' \<Longrightarrow> session_holds se a \<Longrightarrow> \<exists>a'. session_holds se' a'"
proof (induction rule: statements.induct)
  case (step se1 stmt r se2)
  obtain b where b: "session_holds se1 b" using step.IH step.prems by blast
  have "rows_left b stmt" using b step.hyps(4) by (auto simp: numbers_left_def session_holds_def)
  from statement_step [OF b step.hyps(2,3) this, of order] show ?case using step.hyps(5) by auto
qed blast

section \<open>The table \<open>users\<close>\<close>

lemma users_db_ok: "db_ok users_db"
proof -
  have s: "tName users_schema = ''users''" "tIndexes users_schema = []" "tColumns users_schema = users_columns"
    by (simp_all add: users_schema_def schema_of_def new_table_def)
  have "schema_ok users_schema" by (simp add: schema_ok_def s) (simp add: users_columns_def)
  moreover have "table_ok users_db users_schema Map.empty"
    by (simp add: table_ok_def heap_ok_def rows_ok_def heap_entries_def s) (simp add: users_db_def TableTarget_def)
  ultimately show ?thesis using s by (auto simp: db_ok_def users_db_def split: if_splits)
qed

lemma bad_insert_numbers:
  assumes "holds_db (st_cat store) users_db"
  shows "numbers_left store bad_insert"
  unfolding numbers_left_def rows_left_def
proof (intro allI impI)
  fix a st assume a: "holds_db (st_cat store) a" "bad_insert = Insert_stmt st"
  have "map_option (\<lambda>td. (td, a_next a ''users'')) (a_schema a ''users'') = Some (users_schema, 1)"
    using holds_dbD(4) [OF a(1), of "''users''"] holds_dbD(4) [OF assms, of "''users''"] by (simp add: users_db_def)
  then have "a_next a ''users'' = 1" by auto
  then show "unat (a_next a (inTable st)) + length (inRows st) < 2 ^ 64" using a(2) by (auto simp: bad_insert_def)
qed

end
