(* ===== verification/SeekProps.thy ===== *)
theory SeekProps
  imports RowProps
begin

text \<open>
  An index seek finds the rows a scan finds, in the same order: SELECT with seeks is SELECT without.
\<close>

section \<open>Prefixes in byte order\<close>

lemma hasPrefix_Cons [simp]: "hasPrefix (x # xs) (p # ps) \<longleftrightarrow> x = p \<and> hasPrefix xs ps" "hasPrefix xs []" "\<not> hasPrefix [] (p # ps)"
  by (auto simp: hasPrefix_def)

lemma prefix_le: "hasPrefix x p \<Longrightarrow> p \<le> x"
proof (induction p arbitrary: x)
  case (Cons b p)
  then show ?case by (cases x) auto
qed simp

lemma prefix_between: "p \<le> x \<Longrightarrow> x \<le> y \<Longrightarrow> hasPrefix y p \<Longrightarrow> hasPrefix x p"
proof (induction p arbitrary: x y)
  case (Cons b p)
  then show ?case by (cases x; cases y) (auto simp: order.order_iff_strict)
qed simp

lemma append_less: "p @ x < p @ y \<longleftrightarrow> x < (y :: bytes)"
  by (induction p) auto

lemma seek_filter:
  "keys_sorted l \<Longrightarrow> takeWhile (\<lambda>x. hasPrefix (fst x) p) (filter (\<lambda>x. p \<le> fst x) l) = filter (\<lambda>x. hasPrefix (fst x) p) l"
proof (induction l)
  case (Cons x l)
  have "\<not> hasPrefix (fst y) p" if "y \<in> set l" "p \<le> fst x" "\<not> hasPrefix (fst x) p" for y
    using prefix_between [of p "fst x" "fst y"] that Cons.prems by fastforce
  then have "filter (\<lambda>x. hasPrefix (fst x) p) l = []" if "p \<le> fst x" "\<not> hasPrefix (fst x) p" using that by simp
  then show ?case using Cons prefix_le by auto
qed simp

lemma seek_keys_filter: "keys_sorted l \<Longrightarrow> seek_keys l v = map snd (filter (\<lambda>x. hasPrefix (fst x) (SortKey v)) l)"
  by (simp add: seek_keys_def entries_from_def seek_filter)

section \<open>What the condition selects\<close>

lemma index_for_value:
  "index_for td col lit ixs = Inr (Some (ix, v)) \<Longrightarrow>
   \<exists>lv. literalValue lit = Inr lv \<and> coerce lv (cType (tColumns td ! nat (ColumnIndex td col))) = Inr v \<and> 0 \<le> ColumnIndex td col"
proof (induction ixs)
  case (Cons x ixs)
  then show ?case
    by (cases "literalValue lit"; cases "index_at (tColumns td) (ColumnIndex td col)")
      (auto simp: index_at_def split: if_splits sum.splits)
qed simp

lemma resolve_column:
  "table = [] \<or> table = alias \<Longrightarrow> 0 \<le> ColumnIndex td col \<Longrightarrow> length row = length (tColumns td) \<Longrightarrow>
   eval (ColumnRef table col) [bind_row alias td key row] = Inr (row ! nat (ColumnIndex td col))"
  using ColumnIndex_bound [of td col] by (simp add: tuple_resolve_def bind_row_def Let_def)

lemma matchColumnLiteralE:
  assumes "matchColumnLiteral a b alias = Some (col, lit)"
  obtains table l where "a = ColumnRef table col" "b = LiteralExpr l" "lit = b" "table = [] \<or> table = alias"
  using assms by (auto simp: matchColumnLiteral_def split: Expr.splits if_splits)

lemma matches_equal:
  assumes "eval l tp = Inr x" "eval r tp = Inr y" "matches (BinaryExpr ''='' l r) tp"
  shows "Compare x y = 0" "\<not> vNull x" "\<not> vNull y"
  using assms by (auto simp: matches_def evalBinary_def compareWith_def Truthy_def split: if_splits)

text \<open>A row the condition selects has the sought value in its column.\<close>

lemma seek_value:
  assumes f: "findEqualityIndex td cond alias = Inr (Some (ix, v))" and ok: "schema_ok td" "row_ok td row"
    and m: "matches cond [bind_row alias td key row]"
  shows "column_in td ix row = v"
proof -
  note ix = findEqualityIndex_index [OF f]
  note c = row_column [OF ok(1) ix ok(2)]
  let ?t = "cType (tColumns td ! nat (ColumnIndex td (iColumn ix)))" and ?tp = "[bind_row alias td key row]"
  obtain a b where ab: "cond = BinaryExpr ''='' a b" by (cases cond) (use f in \<open>simp_all add: findEqualityIndex_def split: if_splits\<close>)
  obtain x y col lit where xy: "x = a \<and> y = b \<or> x = b \<and> y = a" "matchColumnLiteral x y alias = Some (col, lit)"
    "index_for td col lit (tIndexes td) = Inr (Some (ix, v))"
    using f unfolding ab
    by (cases "matchColumnLiteral a b alias"; cases "matchColumnLiteral b a alias") (force simp: findEqualityIndex_def)+
  obtain table l where e: "x = ColumnRef table col" "y = LiteralExpr l" "lit = y" "table = [] \<or> table = alias"
    by (rule matchColumnLiteralE [OF xy(2)])
  have col: "iColumn ix = col" using index_for_index [OF xy(3)] by simp
  obtain lv where lv: "literalValue lit = Inr lv" "coerce lv ?t = Inr v" "0 \<le> ColumnIndex td col"
    using index_for_value [OF xy(3)] unfolding col by blast
  have ev: "eval x ?tp = Inr (column_in td ix row)" "eval y ?tp = Inr lv"
    using resolve_column [OF e(4) lv(3) row_ok_types(2) [OF ok(2)]] lv(1) e(1-3) by (simp_all add: column_in_def col literalValue_def)
  have "(Compare (column_in td ix row) lv = 0 \<or> Compare lv (column_in td ix row) = 0) \<and> \<not> vNull lv"
    using xy(1)
  proof
    assume o: "x = a \<and> y = b"
    show ?thesis using matches_equal [of a ?tp "column_in td ix row" b lv] ev o m unfolding ab by blast
  next
    assume o: "x = b \<and> y = a"
    show ?thesis using matches_equal [of a ?tp lv b "column_in td ix row"] ev o m unfolding ab by blast
  qed
  moreover have "typed (vType lv) lv" using eval_typed [of "[]" lit lv] lv(1) by (simp add: literalValue_def)
  moreover have "vType lv = ?t \<and> v = lv" using calculation lv(2) c(3) by (auto simp: coerce_def split: if_splits)
  ultimately show ?thesis using Compare_0_eq [OF c(2) _ c(3), of lv] Compare_0_eq [of ?t lv "column_in td ix row"] c(2,3) by auto
qed

section \<open>Seek and scan\<close>

lemma sorted_keys_filter:
  assumes "keys_sorted l" "\<And>e. e \<in> set l \<Longrightarrow> P (snd e) \<Longrightarrow> fst e = p @ snd e"
  shows "sorted_wrt (<) (filter P (map snd l))"
proof -
  have "sorted_wrt (\<lambda>x y. fst x < fst y) (filter (P \<circ> snd) l)" using assms(1) by (simp add: sorted_wrt_map sorted_wrt_filter)
  then have "sorted_wrt (\<lambda>x y. snd x < snd y) (filter (P \<circ> snd) l)"
    by (rule sorted_wrt_mono_rel [rotated]) (use assms(2) append_less in auto)
  then show ?thesis by (simp add: filter_map sorted_wrt_map)
qed

lemma seek_selects:
  assumes ok: "table_ok a td R" "schema_ok td" and f: "findEqualityIndex td cond alias = Inr (Some (ix, v))"
    and li: "keys_sorted li" "set li = index_entries td ix R" and l: "keys_sorted l" "set l = heap_entries R"
  shows "filter (\<lambda>k. matches cond [bind_row alias td [] (the (R k))]) (seek_keys li v) =
    filter (\<lambda>k. matches cond [bind_row alias td [] (the (R k))]) (map fst l)"
proof -
  let ?F = "\<lambda>k. matches cond [bind_row alias td [] (the (R k))]"
  have val: "column_in td ix vals = v" if "R k = Some vals" "?F k" for k vals
    using seek_value [OF f ok(2) table_rows(1) [OF ok(1) that(1)]] that by simp
  have entry: "fst e = SortKey v @ snd e" if e: "e \<in> set li" "?F (snd e)" for e
  proof -
    obtain k vals where "e = (indexKey (column_in td ix vals) k, k)" "R k = Some vals" by (rule index_entryE [OF e(1) [unfolded li(2)]])
    then show ?thesis using val e(2) by (simp add: indexKey_def)
  qed
  have keys: "fst ` set l = dom R" using l(2) by (force simp: heap_entries_def Map.graph_def image_iff)
  have "k \<in> set (seek_keys li v)" if k: "k \<in> dom R" "?F k" for k
  proof -
    obtain vals where r: "R k = Some vals" using k(1) by blast
    have "(indexKey v k, k) \<in> set li" using index_entry [of R, OF r, of td ix] val [OF r k(2)] li(2) by simp
    moreover have "hasPrefix (indexKey v k) (SortKey v)" by (simp add: hasPrefix_def indexKey_def)
    ultimately show ?thesis unfolding seek_keys_filter [OF li(1)] by force
  qed
  moreover have "set (seek_keys li v) \<subseteq> dom R" using seek_keys_subset [of li v] li(2) by (auto elim!: index_entryE)
  ultimately have "set (filter ?F (seek_keys li v)) = set (filter ?F (map fst l))" using keys by auto
  moreover have "sorted_wrt (<) (filter ?F (seek_keys li v))"
    unfolding seek_keys_filter [OF li(1)]
    by (rule sorted_keys_filter [where p = "SortKey v"]) (use li(1) entry in \<open>auto simp: sorted_wrt_map sorted_wrt_filter\<close>)
  moreover have "sorted_wrt (<) (filter ?F (map fst l))" using l(1) by (rule sorted_wrt_filter)
  ultimately show ?thesis by (metis strict_sorted_equal)
qed

text \<open>SELECT without seeks: the rest of the statement on the rows of a scan.\<close>

definition select_rows :: "('s, 'c) txn_ops \<Rightarrow> SelectStmt \<Rightarrow> TableDef \<Rightarrow> Value list list \<Rightarrow> ('s, Result) sm" where
  "select_rows T st td rows =
     bind (join_all T (seJoins st) (map (\<lambda>vals. [bind_row (seAlias st) td [] vals]) rows)) (\<lambda>tuples.
       let tuples = (case seWhere st of None \<Rightarrow> tuples | Some cond \<Rightarrow> filterTuples tuples cond)
       in if is_count st then ret (rowset [siAlias (hd (seItems st))] [[IntValue (word_of_nat (length tuples))]])
          else
            (let tuples = (if seOrderBy st \<noteq> [] then sortTuples tuples (seOrderBy st) else tuples)
             in bind (lift (limit_rows st tuples)) (\<lambda>tuples.
                bind (selectColumns T st td) (\<lambda>cols.
                bind (lift (traverse (projectTuple st) tuples)) (\<lambda>outRows. ret (rowset cols outRows))))))"

definition scanSelect :: "('s, 'c) txn_ops \<Rightarrow> SelectStmt \<Rightarrow> ('s, Result) sm" where
  "scanSelect T st = bind (need_table T (seTable st)) (\<lambda>td. bind (fetchAllRows T td) (\<lambda>(_, rows). select_rows T st td rows))"

lemma execSelect_rows:
  "execSelect T st = bind (need_table T (seTable st)) (\<lambda>td.
     bind (loadRows T td (if seJoins st = [] then seWhere st else None) (seAlias st)) (\<lambda>(_, rows). select_rows T st td rows))"
  by (simp add: execSelect_def select_rows_def)

lemma select_rows_filter:
  assumes "seJoins st = []" "seWhere st = Some cond"
    and "filterTuples (map (\<lambda>vals. [bind_row (seAlias st) td [] vals]) rows) cond =
      filterTuples (map (\<lambda>vals. [bind_row (seAlias st) td [] vals]) rows') cond"
  shows "select_rows T st td rows = select_rows T st td rows'"
  using assms by (simp add: select_rows_def fun_eq_iff bind_def)

lemma index_for_total: "\<forall>ix\<in>set ixs. 0 \<le> ColumnIndex td (iColumn ix) \<Longrightarrow> \<exists>m. index_for td col lit ixs = Inr m"
proof (induction ixs)
  case (Cons ix ixs)
  have "index_at (tColumns td) (ColumnIndex td (iColumn ix)) = Inr (tColumns td ! nat (ColumnIndex td (iColumn ix)))"
    using index_at_column [OF _ ColumnIndex_bound] Cons.prems by simp
  then show ?case using Cons by (auto split: sum.split)
qed simp

lemma findEqualityIndex_total:
  assumes "schema_ok td"
  shows "\<exists>m. findEqualityIndex td cond alias = Inr m"
proof -
  have "\<exists>m. index_for td col lit (tIndexes td) = Inr m" for col lit using index_for_total assms by (auto simp: schema_ok_def)
  then show ?thesis by (cases cond) (auto simp: findEqualityIndex_def split: option.split)
qed

lemma loaded_same:
  assumes ok: "table_ok a td R" "schema_ok td" and st: "seJoins st = []" "seWhere st = Some cond"
  shows "bind (loadRows db_txn td (Some cond) (seAlias st)) (\<lambda>(_, rows). select_rows T st td rows) a =
    bind (fetchAllRows db_txn td) (\<lambda>(_, rows). select_rows T st td rows) a"
proof -
  obtain m where m: "findEqualityIndex td cond (seAlias st) = Inr m" using findEqualityIndex_total [OF ok(2)] by blast
  show ?thesis
  proof (cases m)
    case None
    then show ?thesis using m by (simp add: loadRows_def bind_def)
  next
    case (Some iv)
    obtain ix v where iv: "iv = (ix, v)" by fastforce
    have f: "findEqualityIndex td cond (seAlias st) = Inr (Some (ix, v))" using m Some iv by simp
    obtain l where l: "a_data a (TableTarget (tName td)) = Some l" "keys_sorted l" "set l = heap_entries R" by (rule heapE [OF ok(1)])
    obtain li where li: "a_data a (IndexTarget (tName td) (iName ix)) = Some li" "keys_sorted li" "set li = index_entries td ix R"
      by (rule indexE [OF ok(1) findEqualityIndex_index [OF f]])
    have sub: "set (seek_keys li v) \<subseteq> dom R" using seek_keys_subset [of li v] li(3) by (auto elim!: index_entryE)
    have load: "loadRows db_txn td (Some cond) (seAlias st) a = (Inr (seek_keys li v, map (the \<circ> R) (seek_keys li v)), a)"
      using f indexEqualityLookup_keys [OF li(1)] load_keys_rows [OF ok(1) sub] by (simp add: loadRows_def bind_def)
    have "filterTuples (map (\<lambda>vals. [bind_row (seAlias st) td [] vals]) (map (the \<circ> R) ks)) cond =
        map (\<lambda>k. [bind_row (seAlias st) td [] (the (R k))]) (filter (\<lambda>k. matches cond [bind_row (seAlias st) td [] (the (R k))]) ks)" for ks
      by (simp add: filterTuples_def filter_map comp_def)
    then have "filterTuples (map (\<lambda>vals. [bind_row (seAlias st) td [] vals]) (map (the \<circ> R) (seek_keys li v))) cond =
        filterTuples (map (\<lambda>vals. [bind_row (seAlias st) td [] vals]) (map (the \<circ> R) (map fst l))) cond"
      using seek_selects [OF ok f li(2,3) l(2,3)] by (simp only:)
    from select_rows_filter [OF st this, of T] show ?thesis
      using load fetchAllRows_rows [OF ok(1) l(1)] by (simp add: bind_def)
  qed
qed

text \<open>
  C11: on a consistent database, whose schemas have no index on a FLOAT column and no colon in a table name (\<open>schema_ok\<close>), SELECT
  returns what it returns without index seeks: the same rows in the same order, or the same error.
\<close>

theorem seek_is_scan:
  assumes "db_ok a"
  shows "execSelect db_txn st a = scanSelect db_txn st a"
proof (cases "a_schema a (seTable st)")
  case None
  then show ?thesis by (simp add: execSelect_rows scanSelect_def need_table_def bind_def db_txn_def)
next
  case (Some td)
  obtain R where ok: "schema_ok td" "table_ok a td R" using assms Some by (auto simp: db_ok_def)
  have td: "bind (need_table db_txn (seTable st)) k a = k td a" for k :: "TableDef \<Rightarrow> (adb, Result) sm"
    using Some by (simp add: need_table_def bind_def db_txn_def)
  show ?thesis
  proof (cases "seJoins st = [] \<and> seWhere st \<noteq> None")
    case True
    then show ?thesis using loaded_same [OF ok(2,1)] by (auto simp: execSelect_rows scanSelect_def td)
  next
    case False
    then have "(if seJoins st = [] then seWhere st else None) = None" by auto
    then show ?thesis by (simp add: execSelect_rows scanSelect_def td loadRows_def)
  qed
qed

definition by_nick :: SelectStmt where
  "by_nick = \<lparr>seItems = [], seStar = True, seTable = ''m'', seAlias = ''m'', seJoins = [],
     seWhere = Some (BinaryExpr ''='' (ColumnRef [] ''nick'') (str_lit ''bo'')), seOrderBy = [], seLimit = 0, seHasLim = False\<rparr>"

lemma one_member_rows: "fetchAllRows db_txn members one_member = (Inr ([EncodeUint64 1], [[IntValue 5, TextValue ''bo'']]), one_member)"
proof -
  have "DecodeRow (EncodeRow [IntValue 5, TextValue ''bo'']) [TypeInteger, TypeText] = Inr [IntValue 5, TextValue ''bo'']"
    using DecodeRow_EncodeRow_append [of "[TypeInteger, TypeText]" "[IntValue 5, TextValue ''bo'']" "[]"] by (simp add: wf_value_def)
  moreover have "scans db_txn (TableTarget ''m'') None one_member [(EncodeUint64 1, EncodeRow [IntValue 5, TextValue ''bo''])]"
    using db_scans [of one_member "''T:m''" _ None] by (simp add: one_member_def entries_from_def TableTarget_def)
  ultimately show ?thesis using fetchAllRows_scans [of db_txn members one_member] by (simp add: decode_all_def)
qed

theorem seek_is_scan_witness:
  "findEqualityIndex members (the (seWhere by_nick)) ''m'' =
     Inr (Some (\<lparr>iName = ''n'', iColumn = ''nick'', iUnique = True, iRoot = 0\<rparr>, TextValue ''bo'')) \<and>
   execSelect db_txn by_nick one_member = (Inr (rowset [''id'', ''nick''] [[IntValue 5, TextValue ''bo'']]), one_member)"
proof -
  have td: "need_table db_txn ''m'' one_member = (Inr members, one_member)"
    by (simp add: need_table_def bind_def db_txn_def one_member_def)
  have "scanSelect db_txn by_nick one_member = (Inr (rowset [''id'', ''nick''] [[IntValue 5, TextValue ''bo'']]), one_member)"
    using one_member_rows td
    by (simp add: scanSelect_def select_rows_def by_nick_def bind_def filterTuples_def matches_def bind_row_def
        tuple_resolve_def evalBinary_def compareWith_def str_lit_def evalLiteral_def Compare_def strings_Compare_def bytes_compare_order
        Truthy_def is_count_def limit_rows_def selectColumns_def projectTuple_def)
  then show ?thesis using seek_is_scan [OF one_member_ok]
    by (simp add: by_nick_def findEqualityIndex_def matchColumnLiteral_def str_lit_def literalValue_def evalLiteral_def index_at_def coerce_def)
qed

end
