(* ===== verification/IndexProps.thy ===== *)
theory IndexProps
  imports SeekProps OnePage Session
begin

text \<open>
  CREATE INDEX on a table with rows (\<^verbatim>\<open>engine/ddl.go\<close>, \<^verbatim>\<open>createIndexFor\<close>): the loop that reads the rows and fills the
  index, on pages, against the same loop on lists, and what the index holds afterwards.
\<close>

section \<open>The loop on lists\<close>

text \<open>The indexed value of a row.\<close>

definition field :: "Type list \<Rightarrow> int \<Rightarrow> bytes \<Rightarrow> Value result" where
  "field types colIdx v = rbind (DecodeRow v types) (\<lambda>vals. index_at vals colIdx)"

definition has_entry :: "(bytes \<times> bytes) list \<Rightarrow> Value \<Rightarrow> bool" where
  "has_entry kvs x \<longleftrightarrow> (\<exists>e\<in>set kvs. hasPrefix (fst e) (SortKey x))"

fun fill :: "Type list \<Rightarrow> int \<Rightarrow> string \<Rightarrow> bool \<Rightarrow> (bytes \<times> bytes) list \<Rightarrow> (bytes \<times> bytes) list \<Rightarrow> (bytes \<times> bytes) list result" where
  "fill types colIdx column unique [] kvs = Inr kvs"
| "fill types colIdx column unique ((k, v) # rows) kvs =
     rbind (field types colIdx v) (\<lambda>x.
       if unique \<and> has_entry kvs x then Inl (ErrDuplicateValue column)
       else fill types colIdx column unique rows (al_put (indexKey x k) k kvs))"

text \<open>Every insertion into the index is one that a page or a split takes.\<close>

fun fill_ready :: "Type list \<Rightarrow> int \<Rightarrow> (bytes \<times> bytes) list \<Rightarrow> page_id \<Rightarrow> pager \<Rightarrow> bool" where
  "fill_ready types colIdx [] ibt p \<longleftrightarrow> True"
| "fill_ready types colIdx ((k, v) # rows) ibt p \<longleftrightarrow>
     (case field types colIdx v of
        Inl _ \<Rightarrow> True
      | Inr x \<Rightarrow> btree_can_put p ibt (indexKey x k) k \<and>
          (case Put ibt (indexKey x k) k p of (Inr ibt', q) \<Rightarrow> fill_ready types colIdx rows ibt' q | _ \<Rightarrow> True))"

lemma hasIndexEntry_tree:
  assumes "btree_at p u"
  shows "hasIndexEntryForValue (root_of u) x p = (Inr (has_entry (entries u) x), p)"
proof -
  let ?pre = "SortKey x" and ?l = "entries_from (Some (SortKey x)) (entries u)"
  note I = btree_atD [OF assms]
  obtain c where c: "NewCursor (root_of u) (Some ?pre) p = (Inr c, p)" "cursor_rest p (set (pages u)) c ?l"
    using NewCursor_rest [OF assms] by blast
  have l: "takeWhile (\<lambda>e. hasPrefix (fst e) ?pre) ?l = filter (\<lambda>e. hasPrefix (fst e) ?pre) (entries u)"
    using seek_filter [OF I(5)] by (simp add: entries_from_def)
  show ?thesis
  proof (cases ?l)
    case Nil
    then obtain c' where "Next c p = (Inr (None, c'), p)" using Next_rest [OF I(4) c(2)] by auto
    moreover have "filter (\<lambda>e. hasPrefix (fst e) ?pre) (entries u) = []" using l Nil by simp
    then have "\<not> has_entry (entries u) x" by (auto simp: has_entry_def filter_empty_conv)
    ultimately show ?thesis using c(1) by (simp add: hasIndexEntryForValue_def Let_def bind_def)
  next
    case (Cons e es)
    then obtain c' where "Next c p = (Inr (Some e, c'), p)" using Next_rest [OF I(4) c(2)] by auto
    moreover have "has_entry (entries u) x \<longleftrightarrow> hasPrefix (fst e) ?pre"
    proof -
      have "has_entry (entries u) x \<longleftrightarrow> filter (\<lambda>e. hasPrefix (fst e) ?pre) (entries u) \<noteq> []" by (auto simp: has_entry_def filter_empty_conv)
      then show ?thesis unfolding l [symmetric] Cons by simp
    qed
    ultimately show ?thesis using c(1) by (cases e) (simp add: hasIndexEntryForValue_def Let_def bind_def)
  qed
qed

section \<open>The loop on pages\<close>

text \<open>The pages of a file determine the tree with a given root.\<close>

lemma leaf_repr_unique:
  assumes "leaf_repr b sib kvs" "leaf_repr b sib' kvs'"
  shows "kvs = kvs'"
proof -
  let ?n = "\<lparr>n_id = 0, n_buf = b\<rparr>"
  have r: "leaf_repr (n_buf ?n) sib kvs" "leaf_repr (n_buf ?n) sib' kvs'" using assms by simp_all
  have "length kvs = length kvs'" using leaf_reprD(2) [OF r(1)] leaf_reprD(2) [OF r(2)] by simp
  then show ?thesis using leafKV_repr [OF r(1)] leafKV_repr [OF r(2)] by (intro nth_equalityI) auto
qed

lemma internal_repr_unique:
  assumes "internal_repr b rm kcs" "internal_repr b rm' kcs'"
  shows "kcs = kcs' \<and> rm = rm'"
proof -
  let ?n = "\<lparr>n_id = 0, n_buf = b\<rparr>"
  have r: "internal_repr (n_buf ?n) rm kcs" "internal_repr (n_buf ?n) rm' kcs'" using assms by simp_all
  have "length kcs = length kcs'" "rm = rm'" using internal_reprD [OF r(1)] internal_reprD [OF r(2)] by simp_all
  then show ?thesis using internalKC_repr [OF r(1)] internalKC_repr [OF r(2)] by (auto intro!: nth_equalityI)
qed

lemma leaf_not_internal: "leaf_repr b sib kvs \<Longrightarrow> inner_repr b rm kcs \<Longrightarrow> False"
  using leaf_reprD(1) [of "\<lparr>n_id = 0, n_buf = b\<rparr>"] internal_reprD(1) [of "\<lparr>n_id = 0, n_buf = b\<rparr>"] by (auto simp: inner_repr_def)

lemma stored_unique:
  "stored t p nxt \<Longrightarrow> stored u p nxt' \<Longrightarrow> root_of t = root_of u \<Longrightarrow> t = u"
  "fstored f p nxt \<Longrightarrow> fstored g p nxt' \<Longrightarrow> fcells f = fcells g \<Longrightarrow> root_of (flast f) = root_of (flast g) \<Longrightarrow> f = g"
proof (induction t and f arbitrary: nxt u nxt' and nxt g nxt')
  case (GLeaf pid kvs)
  then show ?case using leaf_repr_unique leaf_not_internal by (cases u) auto
next
  case (GNode pid f)
  obtain g where u: "u = GNode pid g" using GNode.prems by (cases u) (auto dest: leaf_not_internal)
  have "inner_repr (page p pid) (root_of (flast f)) (fcells f)" "inner_repr (page p pid) (root_of (flast g)) (fcells g)"
    using GNode.prems u by simp_all
  then have "fcells f = fcells g \<and> root_of (flast f) = root_of (flast g)"
    using internal_repr_unique unfolding inner_repr_def by blast
  then show ?case using GNode.IH GNode.prems u by auto
next
  case (FLast t)
  then show ?case by (cases g) auto
next
  case (FCons t k f)
  then obtain t' f' where g: "g = FCons t' k f'" by (cases g) auto
  then show ?case using FCons by auto
qed

lemma tree_unique: "btree_at p t \<Longrightarrow> btree_at p u \<Longrightarrow> root_of t = root_of u \<Longrightarrow> t = u"
  using stored_unique(1) by (auto simp: btree_at_def)

text \<open>A tree beside the pages \<open>X\<close> of others, and a change of the file that leaves those alone.\<close>

definition beside :: "pager \<Rightarrow> page_id set \<Rightarrow> gtree \<Rightarrow> bool" where
  "beside p X u \<longleftrightarrow> btree_at p u \<and> X \<inter> set (pages u) = {} \<and> pager_owned p (set (pages u) \<union> X)"

definition same_pages :: "page_id set \<Rightarrow> pager \<Rightarrow> pager \<Rightarrow> bool" where
  "same_pages X p q \<longleftrightarrow> (\<forall>j\<in>X. page q j = page p j) \<and> catalog_root q = catalog_root p \<and> pager_owned q X"

lemma same_pages_refl: "pager_owned p X \<Longrightarrow> same_pages X p p"
  by (simp add: same_pages_def)

lemma same_pages_trans: "same_pages X p q \<Longrightarrow> same_pages X q r \<Longrightarrow> same_pages X p r"
  by (simp add: same_pages_def)

lemma same_pages_tree: "same_pages X p q \<Longrightarrow> btree_at p t \<Longrightarrow> set (pages t) \<subseteq> X \<Longrightarrow> btree_at q t"
  using stored_cong(1) [of t q p 0] pager_owned_mono [of q X "set (pages t)"] by (auto simp: same_pages_def btree_at_def)

lemma Put_beside:
  assumes "beside p X u" "btree_can_put p (root_of u) key val"
  obtains u' q where "Put (root_of u) key val p = (Inr (root_of u'), q)" "entries u' = al_put key val (entries u)" "beside q X u'"
    "same_pages X p q" "pager_room p \<le> pager_room q + (height u + 2)"
proof -
  have B: "btree_at p u" "X \<inter> set (pages u) = {}" "pager_owned p (set (pages u) \<union> X)" using assms(1) by (auto simp: beside_def)
  obtain b where b: "put_ready b key val p u" using assms(2) tree_unique [OF _ B(1)] by (auto simp: btree_can_put_def)
  obtain u' q where q: "Put (root_of u) key val p = (Inr (root_of u'), q)" "btree_at q u'"
    "entries u' = al_put key val (entries u)" "moves (height u + 2) p (set (pages u)) q (set (pages u'))"
    using Put_ok [OF B(1) b] by metis
  note M = movesD [OF q(4) B(2,3)]
  have "beside q X u'" using q(2) M by (auto simp: beside_def)
  moreover have "same_pages X p q" using M q(4) pager_owned_mono [OF M(1), of X] by (auto simp: same_pages_def moves_def)
  ultimately show thesis using that [OF q(1,3)] moves_room [OF q(4)] by blast
qed

lemma backfill_fill:
  assumes "beside p X u" "btree_at p t" "set (pages t) \<subseteq> X"
    and "cursor_rest p (set (pages t)) c rest" "length rest < n" "fill_ready types colIdx rest (root_of u) p"
  shows "\<exists>q. same_pages X p q \<and> (case fill types colIdx column unique rest (entries u) of
      Inl e \<Rightarrow> backfill_loop n types colIdx column unique c (root_of u) p = (Inl e, q)
    | Inr kvs \<Rightarrow> \<exists>u'. backfill_loop n types colIdx column unique c (root_of u) p = (Inr (root_of u'), q) \<and> beside q X u' \<and> entries u' = kvs)"
  using assms
proof (induction n arbitrary: p u c rest)
  case (Suc n)
  have u: "btree_at p u" "pager_owned p X" using Suc.prems(1) pager_owned_mono by (auto simp: beside_def)
  note own = btree_atD(4) [OF Suc.prems(2)]
  let ?L = "backfill_loop (Suc n) types colIdx column unique c (root_of u) p"
  show ?case
  proof (cases rest)
    case Nil
    then obtain c' where "Next c p = (Inr (None, c'), p)" using Next_rest [OF own Suc.prems(4)] by auto
    then have "?L = (Inr (root_of u), p)" by (simp add: bind_def)
    then show ?thesis using Nil Suc.prems(1) same_pages_refl [OF u(2)] by (intro exI [of _ p]) auto
  next
    case (Cons r rows)
    obtain k v where r: "r = (k, v)" by fastforce
    obtain c' where c': "Next c p = (Inr (Some (k, v), c'), p)" "cursor_rest p (set (pages t)) c' rows"
      using Next_rest [OF own Suc.prems(4)] Cons r by auto
    show ?thesis
    proof (cases "field types colIdx v")
      case (Inl e)
      then have "?L = (Inl e, p)"
        using c'(1) by (auto simp: bind_def field_def rbind_def lift_def split: sum.splits)
      then show ?thesis using Cons r Inl same_pages_refl [OF u(2)] by (intro exI [of _ p]) (simp add: rbind_def)
    next
      case (Inr x)
      then obtain vals where vals: "DecodeRow v types = Inr vals" "index_at vals colIdx = Inr x"
        by (auto simp: field_def rbind_def split: sum.splits)
      have dup: "(if unique then hasIndexEntryForValue (root_of u) x else ret False) p = (Inr (unique \<and> has_entry (entries u) x), p)"
        using hasIndexEntry_tree [OF u(1), of x] by simp
      show ?thesis
      proof (cases "unique \<and> has_entry (entries u) x")
        case True
        then have "?L = (Inl (ErrDuplicateValue column), p)" using c'(1) vals dup by (simp add: bind_def)
        then show ?thesis using Cons r Inr True same_pages_refl [OF u(2)] by (intro exI [of _ p]) (simp add: rbind_def)
      next
        case False
        have can: "btree_can_put p (root_of u) (indexKey x k) k" using Suc.prems(6) Cons r Inr by simp
        obtain u' q where q: "Put (root_of u) (indexKey x k) k p = (Inr (root_of u'), q)" "entries u' = al_put (indexKey x k) k (entries u)"
          "beside q X u'" "same_pages X p q" using Put_beside [OF Suc.prems(1) can] by metis
        note t = same_pages_tree [OF q(4) Suc.prems(2,3)]
        have cur: "cursor_rest q (set (pages t)) c' rows"
          by (rule cursor_rest_cong [OF c'(2) btree_atD(4) [OF t]]) (use q(4) Suc.prems(3) in \<open>auto simp: same_pages_def\<close>)
        have ready: "fill_ready types colIdx rows (root_of u') q" "length rows < n" using Suc.prems(5,6) Cons r Inr q(1) by simp_all
        have L: "?L = backfill_loop n types colIdx column unique c' (root_of u') q"
          using c'(1) vals dup False q(1) by (simp add: bind_def)
        have F: "fill types colIdx column unique rest (entries u) = fill types colIdx column unique rows (entries u')"
          using Cons r Inr False q(2) by (auto simp: rbind_def)
        show ?thesis unfolding L F using Suc.IH [OF q(3) t Suc.prems(3) cur ready(2,1)] same_pages_trans [OF q(4)] by blast
      qed
    qed
  qed
qed simp

section \<open>What the index holds\<close>

lemma indexKey_inject: "length k = length k' \<Longrightarrow> indexKey x k = indexKey x' k' \<longleftrightarrow> SortKey x = SortKey x' \<and> k = k'"
  by (auto simp: indexKey_def)

lemma hasPrefix_indexKey: "hasPrefix (indexKey x k) (SortKey x)"
  by (simp add: hasPrefix_def indexKey_def)

definition row_entries :: "Type list \<Rightarrow> int \<Rightarrow> (bytes \<times> bytes) list \<Rightarrow> (bytes \<times> bytes) set" where
  "row_entries types colIdx rows = {(indexKey x k, k) | k v x. (k, v) \<in> set rows \<and> field types colIdx v = Inr x}"

lemma row_entries_Cons:
  "field types colIdx v = Inr x \<Longrightarrow> row_entries types colIdx ((k, v) # rows) = insert (indexKey x k, k) (row_entries types colIdx rows)"
  by (auto simp: row_entries_def)

text \<open>The entries of rows with keys of one length; a unique index has them only when no two rows share a value.\<close>

lemma fill_exact:
  assumes "fill types colIdx column unique rows kvs = Inr kvs'" "keys_sorted kvs" "distinct (map fst rows)"
    and "\<forall>r\<in>set rows. length (fst r) = m" "\<forall>e\<in>set kvs. length (snd e) = m \<and> snd e \<notin> fst ` set rows \<and> (\<exists>x. fst e = indexKey x (snd e))"
  shows "keys_sorted kvs' \<and> set kvs' = set kvs \<union> row_entries types colIdx rows"
  using assms
proof (induction rows arbitrary: kvs)
  case (Cons r rows)
  obtain k v where r: "r = (k, v)" by fastforce
  obtain x where x: "field types colIdx v = Inr x" "fill types colIdx column unique rows (al_put (indexKey x k) k kvs) = Inr kvs'"
    using Cons.prems(1) r by (cases "field types colIdx v") (auto simp: rbind_def split: if_splits)
  have fresh: "indexKey x k \<notin> fst ` set kvs"
    using Cons.prems(4,5) r indexKey_inject by fastforce
  have s: "set (al_put (indexKey x k) k kvs) = insert (indexKey x k, k) (set kvs)" 
  proof -
    have "fst e \<noteq> indexKey x k" if "e \<in> set kvs" for e using imageI [OF that, of fst] fresh by metis
    then show ?thesis using set_al_put [OF Cons.prems(2)] by auto
  qed
  have "keys_sorted kvs' \<and> set kvs' = set (al_put (indexKey x k) k kvs) \<union> row_entries types colIdx rows"
  proof (rule Cons.IH [OF x(2) keys_sorted_al_put [OF Cons.prems(2)]])
    show "distinct (map fst rows)" "\<forall>r\<in>set rows. length (fst r) = m" using Cons.prems(3,4) by simp_all
    show "\<forall>e\<in>set (al_put (indexKey x k) k kvs). length (snd e) = m \<and> snd e \<notin> fst ` set rows \<and> (\<exists>x. fst e = indexKey x (snd e))"
      unfolding s
    proof (intro ballI, elim insertE)
      show "length (snd e) = m \<and> snd e \<notin> fst ` set rows \<and> (\<exists>x. fst e = indexKey x (snd e))" if "e = (indexKey x k, k)" for e
        using that Cons.prems(3,4) r by auto
      show "length (snd e) = m \<and> snd e \<notin> fst ` set rows \<and> (\<exists>x. fst e = indexKey x (snd e))" if "e \<in> set kvs" for e
        using bspec [OF Cons.prems(5) that] by simp
    qed
  qed
  then show ?case using s r row_entries_Cons [OF x(1)] by auto
qed (simp add: row_entries_def)

lemma has_entry_al_put: "keys_sorted kvs \<Longrightarrow> has_entry (al_put key val kvs) x \<longleftrightarrow> has_entry kvs x \<or> hasPrefix key (SortKey x)"
  by (cases "hasPrefix key (SortKey x)") (auto simp: has_entry_def set_al_put, force)

lemma fill_unique:
  assumes "fill types colIdx column True rows kvs = Inr kvs'" "keys_sorted kvs"
  shows "(\<forall>r\<in>set rows. \<forall>x. field types colIdx (snd r) = Inr x \<longrightarrow> \<not> has_entry kvs x) \<and>
    distinct (map (\<lambda>r. field types colIdx (snd r)) rows)"
  using assms
proof (induction rows arbitrary: kvs)
  case (Cons r rows)
  obtain k v where r: "r = (k, v)" by fastforce
  obtain x where x: "field types colIdx v = Inr x" "\<not> has_entry kvs x" "fill types colIdx column True rows (al_put (indexKey x k) k kvs) = Inr kvs'"
    using Cons.prems(1) r by (cases "field types colIdx v") (auto simp: rbind_def split: if_splits)
  have "(\<forall>r\<in>set rows. \<forall>y. field types colIdx (snd r) = Inr y \<longrightarrow> \<not> has_entry (al_put (indexKey x k) k kvs) y) \<and>
      distinct (map (\<lambda>r. field types colIdx (snd r)) rows)"
    by (rule Cons.IH [OF x(3) keys_sorted_al_put [OF Cons.prems(2)]])
  then show ?case using r x(1,2) has_entry_al_put [OF Cons.prems(2)] hasPrefix_indexKey by force
qed simp

lemma fill_duplicate:
  assumes "fill types colIdx column unique rows kvs = Inl e" "keys_sorted kvs" "\<forall>r\<in>set rows. \<exists>x. field types colIdx (snd r) = Inr x"
    and "\<forall>r\<in>set rows. fst r \<notin> snd ` set kvs" "distinct (map fst rows)"
  shows "e = ErrDuplicateValue column \<and> unique \<and> (\<exists>(k, v)\<in>set rows. \<exists>x. field types colIdx v = Inr x \<and>
    (\<exists>d\<in>set kvs \<union> row_entries types colIdx rows. snd d \<noteq> k \<and> hasPrefix (fst d) (SortKey x)))"
  using assms
proof (induction rows arbitrary: kvs)
  case (Cons r rows)
  obtain k v where r: "r = (k, v)" by fastforce
  obtain x where x: "field types colIdx v = Inr x" using Cons.prems(3) r by auto
  show ?case
  proof (cases "unique \<and> has_entry kvs x")
    case True
    then obtain d where "d \<in> set kvs" "hasPrefix (fst d) (SortKey x)" by (auto simp: has_entry_def)
    moreover have "snd d \<noteq> k" using calculation(1) Cons.prems(4) r by force
    ultimately show ?thesis using Cons.prems(1) r x True by (auto simp: rbind_def)
  next
    case False
    let ?kvs = "al_put (indexKey x k) k kvs"
    have f: "fill types colIdx column unique rows ?kvs = Inl e" using Cons.prems(1) r x False by (auto simp: rbind_def split: if_splits)
    have "e = ErrDuplicateValue column \<and> unique \<and> (\<exists>(k, v)\<in>set rows. \<exists>x. field types colIdx v = Inr x \<and>
        (\<exists>d\<in>set ?kvs \<union> row_entries types colIdx rows. snd d \<noteq> k \<and> hasPrefix (fst d) (SortKey x)))"
      by (rule Cons.IH [OF f keys_sorted_al_put [OF Cons.prems(2)]])
        (use Cons.prems(3-5) r in \<open>auto simp: set_al_put [OF Cons.prems(2)]\<close>)
    then obtain k2 v2 x2 d where d: "e = ErrDuplicateValue column" "unique" "(k2, v2) \<in> set rows" "field types colIdx v2 = Inr x2"
      "d \<in> set ?kvs \<union> row_entries types colIdx rows" "snd d \<noteq> k2" "hasPrefix (fst d) (SortKey x2)" by blast
    have "d \<in> set kvs \<union> row_entries types colIdx (r # rows)"
      using d(5) r row_entries_Cons [OF x, of k rows] by (auto simp: set_al_put [OF Cons.prems(2)])
    with d show ?thesis by (intro conjI bexI [of _ "(k2, v2)"]) auto
  qed
qed simp

text \<open>The value of some row is the beginning of the entry of another row.\<close>

definition clash :: "Type list \<Rightarrow> int \<Rightarrow> (bytes \<times> bytes) list \<Rightarrow> bool" where
  "clash types colIdx rows \<longleftrightarrow> (\<exists>(k, v)\<in>set rows. \<exists>x. field types colIdx v = Inr x \<and>
     (\<exists>d\<in>row_entries types colIdx rows. snd d \<noteq> k \<and> hasPrefix (fst d) (SortKey x)))"

lemma backfill_exact:
  assumes "beside p X (GLeaf ibt [])" "btree_at p t" "set (pages t) \<subseteq> X" "NewCursor (root_of t) None p = (Inr c, p)"
    and "length (entries t) < n" "fill_ready types colIdx (entries t) ibt p"
    and "\<forall>r\<in>set (entries t). length (fst r) = 8 \<and> (\<exists>x. field types colIdx (snd r) = Inr x)"
  shows "\<exists>q. same_pages X p q \<and>
    ((\<exists>u. backfill_loop n types colIdx column unique c ibt p = (Inr (root_of u), q) \<and> beside q X u \<and>
        set (entries u) = row_entries types colIdx (entries t) \<and>
        (unique \<longrightarrow> distinct (map (\<lambda>r. field types colIdx (snd r)) (entries t)))) \<or>
     backfill_loop n types colIdx column unique c ibt p = (Inl (ErrDuplicateValue column), q) \<and> unique \<and>
        clash types colIdx (entries t))"
proof -
  note I = btree_atD [OF assms(2)]
  have cur: "cursor_rest p (set (pages t)) c (entries t)" using NewCursor_rest [OF assms(2), of None] assms(4) by (auto simp: entries_from_def)
  have d: "distinct (map fst (entries t))" using I(5) strict_sorted_iff by blast
  obtain q where q: "same_pages X p q" "case fill types colIdx column unique (entries t) [] of
      Inl e \<Rightarrow> backfill_loop n types colIdx column unique c ibt p = (Inl e, q)
    | Inr kvs \<Rightarrow> \<exists>u'. backfill_loop n types colIdx column unique c ibt p = (Inr (root_of u'), q) \<and> beside q X u' \<and> entries u' = kvs"
    using backfill_fill [OF assms(1-3) cur assms(5), of types colIdx column unique] assms(6) unfolding root_of.simps entries.simps by blast
  show ?thesis
  proof (cases "fill types colIdx column unique (entries t) []")
    case (Inl e)
    have "e = ErrDuplicateValue column \<and> unique \<and> clash types colIdx (entries t)"
      using fill_duplicate [OF Inl] assms(7) d by (auto simp: clash_def)
    then show ?thesis using q Inl by auto
  next
    case (Inr kvs)
    have "set kvs = row_entries types colIdx (entries t)" using fill_exact [OF Inr, of 8] assms(7) d by auto
    moreover have "unique \<longrightarrow> distinct (map (\<lambda>r. field types colIdx (snd r)) (entries t))" using fill_unique Inr by fastforce
    ultimately show ?thesis using q Inr by auto
  qed
qed

end
