(* ===== verification/CreateIndex.thy ===== *)
theory CreateIndex
  imports IndexProps EngineStore
begin

text \<open>
  CREATE INDEX on a store: \<^verbatim>\<open>createIndexFor\<close> allocates a tree, fills it from the rows and adds it to the schema.
\<close>

section \<open>The target of a new index\<close>

lemma index_root_append: "index_root m (ixs @ [ix]) = (case index_root m ixs of None \<Rightarrow> (if iName ix = m then Some (iRoot ix) else None) | Some r \<Rightarrow> Some r)"
  by (induction ixs) auto

lemma IndexTarget_parts:
  assumes "CHR '':'' \<notin> set n"
  shows "take 2 (IndexTarget n m) = ''I:''" "CHR '':'' \<in> set (drop 2 (IndexTarget n m))"
    "target_table (IndexTarget n m) = n" "target_index (IndexTarget n m) = m"
proof -
  have "takeWhile (\<lambda>ch. ch \<noteq> CHR '':'') (n @ CHR '':'' # m) = n" using assms by (induction n) auto
  then show "take 2 (IndexTarget n m) = ''I:''" "CHR '':'' \<in> set (drop 2 (IndexTarget n m))"
    "target_table (IndexTarget n m) = n" "target_index (IndexTarget n m) = m"
    by (simp_all add: IndexTarget_def target_table_def target_index_def)
qed

lemma root_at_add_index:
  assumes "Table c n = Some td" "tName td = n" "CHR '':'' \<notin> set n" "index_root (iName ix) (tIndexes td) = None"
  shows "root_at (with_table (td\<lparr>tIndexes := tIndexes td @ [ix]\<rparr>) c) = (root_at c)(IndexTarget n (iName ix) \<mapsto> iRoot ix)"
    "root_at c (IndexTarget n (iName ix)) = None"
proof -
  note P = IndexTarget_parts [OF assms(3), of "iName ix"]
  show "root_at c (IndexTarget n (iName ix)) = None" using P assms(1,4) by (simp add: root_at_def2)
  show "root_at (with_table (td\<lparr>tIndexes := tIndexes td @ [ix]\<rparr>) c) = (root_at c)(IndexTarget n (iName ix) \<mapsto> iRoot ix)"
  proof (rule ext)
    fix u
    show "root_at (with_table (td\<lparr>tIndexes := tIndexes td @ [ix]\<rparr>) c) u = ((root_at c)(IndexTarget n (iName ix) \<mapsto> iRoot ix)) u"
    proof (cases "u = IndexTarget n (iName ix)")
      case True
      then show ?thesis using P assms by (simp add: root_at_def2 index_root_append)
    next
      case False
      then have "target_index u \<noteq> iName ix" if "take 2 u = ''I:''" "CHR '':'' \<in> set (drop 2 u)" "target_table u = n"
        using target_eqI [OF that(1,2) P(1,2)] that(3) P(3,4) by auto
      then show ?thesis
        using assms(1,2) False by (cases "target_table u = n") (auto simp: root_at_def2 index_root_append split: option.splits)
    qed
  qed
qed

section \<open>Creating an index\<close>

text \<open>
  What the pages have to admit: a page for the index, the insertions into it, and the new schema in the system tree.
\<close>

definition new_index :: "TableDef \<Rightarrow> string \<Rightarrow> string \<Rightarrow> bool \<Rightarrow> page_id \<Rightarrow> TableDef" where
  "new_index td column name unique root = td\<lparr>tIndexes := tIndexes td @ [\<lparr>iName = name, iColumn = column, iUnique = unique, iRoot = root\<rparr>]\<rparr>"

definition index_ready :: "Catalog \<Rightarrow> gtree \<Rightarrow> TableDef \<Rightarrow> string \<Rightarrow> string \<Rightarrow> bool \<Rightarrow> (bytes \<times> bytes) list \<Rightarrow> bool" where
  "index_ready c sys td column name unique rows \<longleftrightarrow> 0 < pager_room (c_pager c) \<and>
     (case OpenBTree 0 (c_pager c) of
        (Inl _, _) \<Rightarrow> True
      | (Inr ibt, p) \<Rightarrow> fill_ready (ColumnTypes td) (ColumnIndex td column) rows ibt p \<and>
          (case bind (NewCursor (tRoot td) None) (\<lambda>crs p. backfill_loop (load_fuel p) (ColumnTypes td) (ColumnIndex td column) column unique crs ibt p) p of
             (Inl _, _) \<Rightarrow> True
           | (Inr root, q) \<Rightarrow> \<exists>b. put_ready b (str_bytes (tName td)) (encodeTableDef (new_index td column name unique root)) q sys))"

text \<open>The catalog with other pages changed.\<close>

lemma store_inv_pages:
  assumes "store_inv c sys tr" "same_pages (set (pages sys) \<union> tree_pages c tr) (c_pager c) q"
  shows "store_inv (c\<lparr>c_pager := q\<rparr>) sys tr"
proof -
  let ?X = "set (pages sys) \<union> tree_pages c tr" and ?c = "c\<lparr>c_pager := q\<rparr>"
  note I = store_invD [OF assms(1)]
  have T: "Table ?c = Table c" by (simp add: fun_eq_iff Table_def)
  have tp: "tree_pages ?c tr = tree_pages c tr" by (simp add: tree_pages_def)
  have "btree_at q sys" by (rule same_pages_tree [OF assms(2) cat_invD(1) [OF I(1)]]) simp
  then have "cat_inv ?c sys" using I(1) assms(2) by (simp add: cat_inv_def T same_pages_def)
  moreover have "btree_at q (tr t)" if "root_at c t = Some r" for t r
    by (rule same_pages_tree [OF assms(2) I(3) [OF that]]) (use that in \<open>auto simp: tree_pages_def\<close>)
  moreover have "pager_owned q ?X" using assms(2) by (simp add: same_pages_def)
  ultimately show ?thesis using assms(1) by (auto simp: store_inv_def tp)
qed

lemma add_tree:
  assumes inv: "store_inv c sys tr" and u: "beside (c_pager c) (set (pages sys) \<union> tree_pages c tr) u"
    and td: "Table c n = Some td" "CHR '':'' \<notin> set n" "index_root name (tIndexes td) = None"
    and td': "td' = new_index td column name unique (root_of u)" "td_ok td'"
    and ready: "put_ready b (str_bytes n) (encodeTableDef td') (c_pager c) sys"
  obtains c' sys' where "save_schema td' c = (Inr (), c')" "store_inv c' sys' (tr(IndexTarget n name := u))" "Table c' = (Table c)(n \<mapsto> td')"
    "root_at c' = (root_at c)(IndexTarget n name \<mapsto> root_of u)"
proof -
  note I = store_invD [OF inv]
  have n: "tName td = n" "tName td' = n" using cat_invD(5) [OF I(1) td(1)] td'(1) by (simp_all add: new_index_def)
  obtain c1 sys' where P: "persist td' c = (Inr (), c1)" "cat_inv (with_table td' c1) sys'" "c_tables c1 = c_tables c"
      "shifts (height sys + 2) (c_pager c) (set (pages sys)) (c_pager c1) (set (pages sys'))"
    using persist_inv [OF I(1) td'(2), of b] ready n(2) by auto
  let ?c = "with_table td' c1" and ?T = "tree_pages c tr" and ?t = "IndexTarget n name" and ?tr = "tr(IndexTarget n name := u)"
  have B: "btree_at (c_pager c) u" "set (pages u) \<inter> (set (pages sys) \<union> ?T) = {}" "pager_owned (c_pager c) (set (pages sys) \<union> (?T \<union> set (pages u)))"
    using u by (auto simp: beside_def Un_ac)
  have dj: "(?T \<union> set (pages u)) \<inter> set (pages sys) = {}" using I(5) B(2) by (fastforce simp: tree_pages_def)
  note S = shiftsD [OF P(4) dj B(3)]
  have pq: "c_pager ?c = c_pager c1" by (simp add: with_table_def)
  have R: "root_at (with_table td' c) = (root_at c)(?t \<mapsto> root_of u)" "root_at c ?t = None"
    using root_at_add_index [OF td(1) n(1) td(2), of "\<lparr>iName = name, iColumn = column, iUnique = unique, iRoot = root_of u\<rparr>"] td(3) td'(1)
    by (simp_all add: new_index_def)
  have rt: "root_at ?c = (root_at c)(?t \<mapsto> root_of u)"
    using root_at_cong [of ?c "with_table td' c"] P(3) R(1) by (simp add: with_table_def)
  have tp: "tree_pages ?c ?tr = ?T \<union> set (pages u)" using R(2) by (auto simp: tree_pages_def rt split: if_splits) (metis domI option.distinct(1))
  have sub: "set (pages (?tr w)) \<subseteq> ?T \<union> set (pages u)" if "root_at ?c w = Some r" for w r
    using that by (auto simp: tree_pages_def rt split: if_splits)
  have old: "btree_at (c_pager c) (?tr w) \<and> root_of (?tr w) = r" if "root_at ?c w = Some r" for w r
    using that I(3,4) B(1) by (auto simp: rt split: if_splits)
  have bt: "btree_at (c_pager c1) (?tr w)" if "root_at ?c w = Some r" for w r
  proof (rule btree_at_cong)
    show "btree_at (c_pager c) (?tr w)" using old [OF that] by blast
    show "pager_owned (c_pager c1) (set (pages (?tr w)))" by (rule pager_owned_mono [OF S(1)]) (use sub [OF that] in auto)
    show "page (c_pager c1) j = page (c_pager c) j" if "j \<in> set (pages (?tr w))" for j
      using S(3) sub [OF \<open>root_at ?c w = Some r\<close>] that by blast
  qed
  have apart: "set (pages (?tr w)) \<inter> set (pages (?tr z)) = {}" if "w \<noteq> z" "root_at ?c w \<noteq> None" "root_at ?c z \<noteq> None" for w z
  proof -
    have "set (pages (tr x)) \<inter> set (pages u) = {} \<and> set (pages u) \<inter> set (pages (tr x)) = {}" if "root_at c x = Some r" for x r
      using that B(2) by (fastforce simp: tree_pages_def)
    then show ?thesis using that I(6) [OF that(1)] by (force simp: rt split: if_splits)
  qed
  have "store_inv ?c sys' ?tr"
    unfolding store_inv_def tp pq
    using P(2) S(1,2) bt old sub apart by (intro conjI allI impI) blast+
  moreover have "save_schema td' c = (Inr (), ?c)"
    using P(1,3) by (simp add: save_schema_def SaveTable_def persist_tables with_table_def)
  moreover have "Table ?c = (Table c)(n \<mapsto> td')"
    using P(3) n(2) by (auto simp: fun_eq_iff) (simp add: Table_def)
  ultimately show thesis using that rt by blast
qed

text \<open>A new tree beside all others, and what \<^verbatim>\<open>createIndexFor\<close> does with it up to the new schema.\<close>

lemma new_tree_beside:
  assumes "store_inv c sys tr" "0 < pager_room (c_pager c)"
  obtains ibt p where "OpenBTree 0 (c_pager c) = (Inr ibt, p)" "page p ibt = newNodeBuf leafPage"
    "beside p (set (pages sys) \<union> tree_pages c tr) (GLeaf ibt [])" "same_pages (set (pages sys) \<union> tree_pages c tr) (c_pager c) p"
    "pager_room (c_pager c) \<le> pager_room p + 1"
proof -
  let ?X = "set (pages sys) \<union> tree_pages c tr"
  have own: "pager_owned (c_pager c) {}" "pager_owned (c_pager c) ({} \<union> ?X)" using store_invD(2) [OF assms(1)] pager_owned_mono by auto
  obtain ibt p where o: "OpenBTree 0 (c_pager c) = (Inr ibt, p)" "btree_at p (GLeaf ibt [])" "moves 1 (c_pager c) {} p {ibt}"
    "page p ibt = newNodeBuf leafPage"
    using OpenBTree_new [OF own(1) assms(2)] by metis
  note M = movesD [OF o(3) _ own(2)]
  have "beside p ?X (GLeaf ibt [])" using o(2) M by (auto simp: beside_def)
  moreover have "same_pages ?X (c_pager c) p" using M o(3) pager_owned_mono [OF M(1), of ?X] by (auto simp: same_pages_def moves_def)
  ultimately show thesis using that o(1,4) moves_room [OF o(3)] by blast
qed

lemma table_tree:
  assumes "store_inv c sys tr" "Table c n = Some td"
  shows "btree_at (c_pager c) (tr (TableTarget n))" "root_of (tr (TableTarget n)) = tRoot td" "tRoot td \<noteq> 0"
    "set (pages (tr (TableTarget n))) \<subseteq> set (pages sys) \<union> tree_pages c tr"
proof -
  let ?t = "tr (TableTarget n)"
  have rt: "root_at c (TableTarget n) = Some (tRoot td)" using assms(2) by (simp add: root_at_def2 TableTarget_def target_table_def)
  show t: "btree_at (c_pager c) ?t" "root_of ?t = tRoot td" using store_invD(3,4) [OF assms(1) rt] by simp_all
  show "tRoot td \<noteq> 0" using btree_atD(4) [OF t(1)] root_in_pages [of ?t] t(2) by (auto simp: pager_owned_def)
  show "set (pages ?t) \<subseteq> set (pages sys) \<union> tree_pages c tr" using rt by (auto simp: tree_pages_def)
qed

lemma createIndexFor_fills:
  assumes inv: "store_inv c sys tr" and td: "Table c n = Some td" "0 \<le> ColumnIndex td column"
    and rows: "rows = entries (tr (TableTarget n))"
      "\<forall>r\<in>set rows. length (fst r) = 8 \<and> (\<exists>x. field (ColumnTypes td) (ColumnIndex td column) (snd r) = Inr x)"
    and ready: "index_ready c sys td column name unique rows"
  obtains q where "same_pages (set (pages sys) \<union> tree_pages c tr) (c_pager c) q"
    "(\<exists>u b. createIndexFor td column name unique c = bind (save_schema (new_index td column name unique (root_of u)))
          (\<lambda>_. ret \<lparr>iName = name, iColumn = column, iUnique = unique, iRoot = root_of u\<rparr>) (c\<lparr>c_pager := q\<rparr>) \<and>
        beside q (set (pages sys) \<union> tree_pages c tr) u \<and> put_ready b (str_bytes n) (encodeTableDef (new_index td column name unique (root_of u))) q sys \<and>
        set (entries u) = row_entries (ColumnTypes td) (ColumnIndex td column) rows \<and>
        (unique \<longrightarrow> distinct (map (\<lambda>r. field (ColumnTypes td) (ColumnIndex td column) (snd r)) rows))) \<or>
     createIndexFor td column name unique c = (Inl (ErrDuplicateValue column), c\<lparr>c_pager := q\<rparr>) \<and> unique \<and>
        clash (ColumnTypes td) (ColumnIndex td column) rows"
proof -
  let ?X = "set (pages sys) \<union> tree_pages c tr" and ?t = "tr (TableTarget n)"
  let ?L = "\<lambda>crs ibt p. backfill_loop (load_fuel p) (ColumnTypes td) (ColumnIndex td column) column unique crs ibt p"
  note t = table_tree [OF inv td(1)]
  have room: "0 < pager_room (c_pager c)" using ready by (simp add: index_ready_def)
  obtain ibt p where o: "OpenBTree 0 (c_pager c) = (Inr ibt, p)" "beside p ?X (GLeaf ibt [])" "same_pages ?X (c_pager c) p"
    using new_tree_beside [OF inv room] by metis
  note tp = same_pages_tree [OF o(3) t(1,4)]
  obtain crs where crs: "NewCursor (tRoot td) None p = (Inr crs, p)" using NewCursor_rest [OF tp, of None] t(2) by metis
  have fr: "fill_ready (ColumnTypes td) (ColumnIndex td column) (entries ?t) ibt p" using ready o(1) rows(1) by (simp add: index_ready_def)
  have run: "createIndexFor td column name unique c =
      (case ?L crs ibt p of
         (Inl e, q) \<Rightarrow> (Inl e, c\<lparr>c_pager := q\<rparr>)
       | (Inr root, q) \<Rightarrow> bind (save_schema (new_index td column name unique root))
           (\<lambda>_. ret \<lparr>iName = name, iColumn = column, iUnique = unique, iRoot = root\<rparr>) (c\<lparr>c_pager := q\<rparr>))"
    using td(2) o(1) crs t(3)
    by (simp add: createIndexFor_def Let_def bind_def on_pager_def OpenBTree_def [of "tRoot td"] new_index_def split: prod.split sum.split)
  have saved: "\<exists>b. put_ready b (str_bytes n) (encodeTableDef (new_index td column name unique root)) q sys"
    if "?L crs ibt p = (Inr root, q)" for root q
    using ready o(1) crs that cat_invD(5) [OF store_invD(1) [OF inv] td(1)] by (simp add: index_ready_def bind_def)
  obtain q where q: "same_pages ?X p q"
    "(\<exists>u. ?L crs ibt p = (Inr (root_of u), q) \<and> beside q ?X u \<and>
        set (entries u) = row_entries (ColumnTypes td) (ColumnIndex td column) rows \<and>
        (unique \<longrightarrow> distinct (map (\<lambda>r. field (ColumnTypes td) (ColumnIndex td column) (snd r)) rows))) \<or>
     ?L crs ibt p = (Inl (ErrDuplicateValue column), q) \<and> unique \<and> clash (ColumnTypes td) (ColumnIndex td column) rows"
    using backfill_exact [OF o(2) tp t(4) _ load_fuel_enough [OF tp] fr] crs t(2) rows by metis
  show thesis
  proof (rule that [OF same_pages_trans [OF o(3) q(1)]], use q(2) in \<open>elim disjE exE conjE\<close>, goal_cases)
    case (1 u)
    then show ?case using run saved [OF 1(1)] by (intro disjI1 exI [of _ u]) auto
  next
    case 2
    then show ?case using run by simp
  qed
qed

text \<open>
  C10: on a well-formed store, for a table without a colon in its name whose rows have 8-byte keys and decode, CREATE INDEX ends
  in one of two ways.  Either the store has one tree more, under the name of the
  index in the schema, with exactly one entry for each row of the table, the sort key of its value followed by its key, and when the
  index is unique no two rows share a value; or the index is unique, the value of some row is the beginning of the entry of
  another one, and the statement fails with a duplicate and leaves the schemas as they were.  All other
  trees keep their contents.  \<open>index_ready\<close> says that each insertion into the new tree, and the save of the schema, is one the tree
  takes without losing entries: key lengths within a factor of two, splits that lose nothing, pages left.
\<close>

theorem createIndexFor_exact:
  assumes inv: "store_inv c sys tr" and td: "Table c n = Some td" "CHR '':'' \<notin> set n"
    and ix: "0 \<le> ColumnIndex td column" "index_root name (tIndexes td) = None" "\<And>root. td_ok (new_index td column name unique root)"
    and rows: "rows = entries (tr (TableTarget n))"
      "\<forall>r\<in>set rows. length (fst r) = 8 \<and> (\<exists>x. field (ColumnTypes td) (ColumnIndex td column) (snd r) = Inr x)"
    and ready: "index_ready c sys td column name unique rows"
  shows "(\<exists>c' sys' u def. createIndexFor td column name unique c = (Inr def, c') \<and> store_inv c' sys' (tr(IndexTarget n name := u)) \<and>
      Table c' = (Table c)(n \<mapsto> new_index td column name unique (root_of u)) \<and>
      set (entries u) = row_entries (ColumnTypes td) (ColumnIndex td column) rows \<and>
      contents c' (tr(IndexTarget n name := u)) = (\<lambda>(t, k). if t = IndexTarget n name then map_of (entries u) k else contents c tr (t, k)) \<and>
      (unique \<longrightarrow> distinct (map (\<lambda>r. field (ColumnTypes td) (ColumnIndex td column) (snd r)) rows))) \<or>
    (\<exists>c'. createIndexFor td column name unique c = (Inl (ErrDuplicateValue column), c') \<and> store_inv c' sys tr \<and>
      Table c' = Table c \<and> contents c' tr = contents c tr \<and> unique \<and> clash (ColumnTypes td) (ColumnIndex td column) rows)"
proof -
  note I = store_invD [OF inv]
  obtain q where q: "same_pages (set (pages sys) \<union> tree_pages c tr) (c_pager c) q" and outcome:
    "(\<exists>u b. createIndexFor td column name unique c = bind (save_schema (new_index td column name unique (root_of u)))
          (\<lambda>_. ret \<lparr>iName = name, iColumn = column, iUnique = unique, iRoot = root_of u\<rparr>) (c\<lparr>c_pager := q\<rparr>) \<and>
        beside q (set (pages sys) \<union> tree_pages c tr) u \<and> put_ready b (str_bytes n) (encodeTableDef (new_index td column name unique (root_of u))) q sys \<and>
        set (entries u) = row_entries (ColumnTypes td) (ColumnIndex td column) rows \<and>
        (unique \<longrightarrow> distinct (map (\<lambda>r. field (ColumnTypes td) (ColumnIndex td column) (snd r)) rows))) \<or>
     createIndexFor td column name unique c = (Inl (ErrDuplicateValue column), c\<lparr>c_pager := q\<rparr>) \<and> unique \<and>
        clash (ColumnTypes td) (ColumnIndex td column) rows"
    by (rule createIndexFor_fills [OF inv td(1) ix(1) rows ready])
  let ?c = "c\<lparr>c_pager := q\<rparr>"
  have inv': "store_inv ?c sys tr" by (rule store_inv_pages [OF inv q])
  have same: "Table ?c = Table c" "contents ?c tr = contents c tr" "tree_pages ?c tr = tree_pages c tr"
    by (simp_all add: fun_eq_iff Table_def contents_def tree_pages_def)
  from outcome show ?thesis
  proof (elim disjE exE conjE, goal_cases)
    case (1 u b)
    have bes: "beside (c_pager ?c) (set (pages sys) \<union> tree_pages ?c tr) u" using 1(2) same(3) by simp
    have T: "Table ?c n = Some td" using td(1) same(1) by simp
    have b: "put_ready b (str_bytes n) (encodeTableDef (new_index td column name unique (root_of u))) (c_pager ?c) sys" using 1(3) by simp
    obtain c' sys' where s: "save_schema (new_index td column name unique (root_of u)) ?c = (Inr (), c')"
      "store_inv c' sys' (tr(IndexTarget n name := u))" "Table c' = (Table ?c)(n \<mapsto> new_index td column name unique (root_of u))"
      "root_at c' = (root_at ?c)(IndexTarget n name \<mapsto> root_of u)"
      using add_tree [OF inv' bes T td(2) ix(2) refl ix(3) b] by metis
    moreover have "contents c' (tr(IndexTarget n name := u)) =
        (\<lambda>(t, k). if t = IndexTarget n name then map_of (entries u) k else contents c tr (t, k))"
      by (auto simp: fun_eq_iff contents_def s(4))
    ultimately show ?case using 1 same(1) by (intro disjI1) (auto simp: bind_def)
  next
    case 2
    then show ?case using inv' same by auto
  qed
qed

section \<open>An index on one user\<close>

definition ann_key :: bytes where "ann_key = be_put 8 1"

definition ann :: bytes where "ann = EncodeRow [IntValue 7, TextValue ''ann'']"

definition ann_entry :: bytes where "ann_entry = indexKey (IntValue 7) ann_key"

lemma ann_lengths: "length ann_key = 8" "length ann \<le> 100" "length ann_entry = 17"
  by (simp_all add: ann_key_def ann_def ann_entry_def indexKey_def SortKey_def IntValue_def TextValue_def ZeroValue_def EncodeRow_def encode_value_def)

lemma ann_field: "field (ColumnTypes (new_table ''users'' users_columns root)) 0 ann = Inr (IntValue 7)"
proof -
  have "list_all2 wf_value [TypeInteger, TypeText] [IntValue 7, TextValue ''ann'']" by (simp add: wf_value_def)
  then have "DecodeRow ann [TypeInteger, TypeText] = Inr [IntValue 7, TextValue ''ann'']"
    unfolding ann_def using DecodeRow_EncodeRow_append [of _ _ "[]"] by simp
  moreover have "ColumnTypes (new_table ''users'' users_columns root) = [TypeInteger, TypeText]"
    by (simp add: ColumnTypes_def new_table_def users_columns_def)
  ultimately show ?thesis by (simp add: field_def rbind_def index_at_def)
qed

lemma one_user:
  obtains c sys tr root where "store_inv c sys tr" "Table c = [''users'' \<mapsto> new_table ''users'' users_columns root]"
    "entries (tr ''T:users'') = [(ann_key, ann)]" "roomy 3000 (c_pager c) sys" "40 < pager_room (c_pager c)" "root_at c = [''T:users'' \<mapsto> root]"
proof -
  obtain c sys tr root where c: "store_inv c sys tr" "Table c = [''users'' \<mapsto> new_table ''users'' users_columns root]"
    "root_at c = [''T:users'' \<mapsto> root]" "tr ''T:users'' = GLeaf root []" "roomy 3000 (c_pager c) sys"
    "roomy page_room (c_pager c) (tr ''T:users'')" "50 < pager_room (c_pager c)" by (rule users_store)
  note I = store_invD [OF c(1)]
  have rt: "root_at c ''T:users'' = Some root" using c(3) by simp
  have tp: "tree_pages c tr = {root}" "other_pages c tr ''T:users'' = {}" using c(3,4) by (auto simp: tree_pages_def other_pages_def)
  have bt: "btree_at (c_pager c) (GLeaf root [])" using I(3) [OF rt] c(4) by simp
  have bes: "beside (c_pager c) (set (pages sys)) (GLeaf root [])"
    using bt I(5) [OF rt] I(2) tp(1) c(4) by (auto simp: beside_def Un_commute)
  have ready: "put_ready 16 ann_key ann (c_pager c) (GLeaf root [])"
    by (rule put_ready_roomy [of page_room]) (use c(4,6,7) ann_lengths in \<open>auto simp: cell_cost_def span_def\<close>)
  then have can: "btree_can_put (c_pager c) (root_of (GLeaf root [])) ann_key ann" using bt unfolding btree_can_put_def by blast
  obtain u q where q: "Put (root_of (GLeaf root [])) ann_key ann (c_pager c) = (Inr (root_of u), q)"
    "entries u = al_put ann_key ann (entries (GLeaf root []))" "beside q (set (pages sys)) u" "same_pages (set (pages sys)) (c_pager c) q"
    "pager_room (c_pager c) \<le> pager_room q + (height (GLeaf root []) + 2)"
    using Put_beside [OF bes can] by blast
  have bu: "btree_at q u" using q(3) by (simp add: beside_def)
  have ru: "root_of u = root"
    using Put_roomy(2) [OF bt _ _ _ _ q(1) bu, of page_room] c(4,6) ann_lengths by (simp add: cell_cost_def)
  let ?c = "c\<lparr>c_pager := q\<rparr>"
  have T: "Table ?c = Table c" by (simp add: fun_eq_iff Table_def)
  have "btree_at q sys" by (rule same_pages_tree [OF q(4) cat_invD(1) [OF I(1)]]) simp
  then have "cat_inv ?c sys" using I(1) q(4) by (simp add: cat_inv_def T same_pages_def)
  then have "store_inv ?c sys (tr(''T:users'' := u))"
    by (rule store_inv_update(1) [OF c(1) rt]) (use c(3) ru q(3) bu tp(2) in \<open>auto simp: beside_def Un_commute\<close>)
  moreover have "roomy 3000 (c_pager ?c) sys" using roomy_cong [OF c(5), of q] q(4) by (auto simp: same_pages_def)
  ultimately show thesis using that [of ?c sys "tr(''T:users'' := u)" root] T c(2,3,7) q(2,5) by simp
qed

lemma users_index_ready:
  assumes inv: "store_inv c sys tr" and td: "Table c = [''users'' \<mapsto> td]" "td = new_table ''users'' users_columns root"
    and tr: "entries (tr ''T:users'') = [(ann_key, ann)]" "root_at c = [''T:users'' \<mapsto> root]"
    and room: "roomy 3000 (c_pager c) sys" "40 < pager_room (c_pager c)"
  shows "index_ready c sys td ''id'' ''by_id'' False [(ann_key, ann)]"
proof -
  let ?X = "set (pages sys) \<union> tree_pages c tr" and ?p = "c_pager c" and ?t = "tr ''T:users''" and ?types = "ColumnTypes td"
  note I = store_invD [OF inv]
  have rt: "root_at c ''T:users'' = Some root" using tr(2) by simp
  have t: "btree_at ?p ?t" "root_of ?t = tRoot td" using I(3,4) [OF rt] td(2) by (simp_all add: new_table_def)
  have sub: "set (pages ?t) \<subseteq> ?X" "set (pages sys) \<subseteq> ?X" using rt by (auto simp: tree_pages_def)
  have "0 < pager_room ?p" using room(2) by simp
  then obtain ibt p1 where o: "OpenBTree 0 ?p = (Inr ibt, p1)" "page p1 ibt = newNodeBuf leafPage" "beside p1 ?X (GLeaf ibt [])"
    and sp1: "same_pages ?X ?p p1" "pager_room ?p \<le> pager_room p1 + 1"
    using new_tree_beside [OF inv] by metis
  have r1: "30 < pager_room p1" using sp1(2) room(2) by simp
  have "put_ready (8 + length ann_entry) ann_entry ann_key p1 (GLeaf ibt [])"
    by (rule put_ready_empty [OF o(2)]) (use ann_lengths r1 in simp_all)
  then have can: "btree_can_put p1 (root_of (GLeaf ibt [])) ann_entry ann_key"
    using o(3) unfolding btree_can_put_def beside_def by blast
  obtain u q where q: "Put ibt ann_entry ann_key p1 = (Inr (root_of u), q)" "same_pages ?X p1 q" "pager_room p1 \<le> pager_room q + 2"
    using Put_beside [OF o(3) can] by (metis add_0 height.simps(1) root_of.simps(1))
  have ci: "ColumnIndex td ''id'' = 0" by (simp add: td(2) new_table_def users_columns_def ColumnIndex_def)
  have f: "field ?types 0 ann = Inr (IntValue 7)" using ann_field td(2) by simp
  have fill: "fill_ready ?types 0 [(ann_key, ann)] ibt p1" using can f by (simp add: ann_entry_def [symmetric] split: prod.split sum.split)
  note t1 = same_pages_tree [OF sp1(1) t(1) sub(1)]
  note tq = same_pages_tree [OF q(2) t1 sub(1)]
  obtain crs where crs: "NewCursor (tRoot td) None p1 = (Inr crs, p1)" "cursor_rest p1 (set (pages ?t)) crs [(ann_key, ann)]"
  proof -
    obtain crs where "NewCursor (root_of ?t) None p1 = (Inr crs, p1)" "cursor_rest p1 (set (pages ?t)) crs (entries_from None (entries ?t))"
      by (rule NewCursor_rest [OF t1])
    then show thesis using that t(2) tr(1) by (simp add: entries_from_def)
  qed
  obtain crs1 where crs1: "Next crs p1 = (Inr (Some (ann_key, ann), crs1), p1)" "cursor_rest p1 (set (pages ?t)) crs1 []"
    using Next_rest [OF btree_atD(4) [OF t1] crs(2)] by auto
  have "cursor_rest q (set (pages ?t)) crs1 []"
    by (rule cursor_rest_cong [OF crs1(2) btree_atD(4) [OF tq]]) (use q(2) sub(1) in \<open>auto simp: same_pages_def\<close>)
  then obtain crs2 where crs2: "Next crs1 q = (Inr (None, crs2), q)" using Next_rest [OF btree_atD(4) [OF tq]] by force
  obtain vals where vals: "DecodeRow ann ?types = Inr vals" "index_at vals 0 = Inr (IntValue 7)"
    using f by (auto simp: field_def rbind_def split: sum.splits)
  have "1 < load_fuel p1" using load_fuel_enough [OF t1] tr(1) by simp
  then obtain m where m: "load_fuel p1 = Suc (Suc m)" by (intro that [of "load_fuel p1 - 2"]) simp
  have loop: "backfill_loop (load_fuel p1) ?types 0 ''id'' False crs ibt p1 = (Inr (root_of u), q)"
    using crs1(1) crs2 vals q(1) by (simp add: m bind_def ann_entry_def [symmetric])
  let ?td = "new_index td ''id'' ''by_id'' False (root_of u)"
  have "put_ready 13 (str_bytes ''users'') (encodeTableDef ?td) q sys"
  proof (rule put_ready_roomy)
    show "roomy 3000 q sys" using roomy_cong [OF room(1), of q] same_pages_trans [OF sp1(1) q(2)] sub(2) by (auto simp: same_pages_def)
    have len: "length (encodeTableDef ?td) \<le> 500"
      by (simp add: td(2) new_index_def encodeTableDef_def new_table_def users_columns_def writeString_def column_bytes_def index_bytes_def Let_def)
    then show "cell_cost (str_bytes ''users'', encodeTableDef ?td) \<le> 3000" "length (encodeTableDef ?td) \<le> maxKeyValue" by (simp_all add: cell_cost_def)
    show "1 < pager_room q" using q(3) r1 by simp
    show "span 13 k" if "k \<in> insert (str_bytes ''users'') (fst ` set (entries sys))" for k
    proof -
      have "k = str_bytes ''users''" using that td(1) by (auto split: if_splits elim!: sys_keys [OF I(1)])
      then show ?thesis by (simp add: span_def)
    qed
  qed
  then have "\<exists>b. put_ready b (str_bytes (tName td)) (encodeTableDef ?td) q sys" using td(2) by (auto simp: new_table_def)
  then show ?thesis using room(2) o(1) fill crs(1) loop ci by (simp add: index_ready_def bind_def)
qed

theorem createIndexFor_exact_witness:
  "\<exists>c sys tr td c' sys' u def. store_inv c sys tr \<and> createIndexFor td ''id'' ''by_id'' False c = (Inr def, c') \<and>
     store_inv c' sys' (tr(''I:users:by_id'' := u)) \<and> set (entries u) = {(ann_entry, ann_key)}"
proof -
  obtain c sys tr root where c: "store_inv c sys tr" "Table c = [''users'' \<mapsto> new_table ''users'' users_columns root]"
    "entries (tr ''T:users'') = [(ann_key, ann)]" "roomy 3000 (c_pager c) sys" "40 < pager_room (c_pager c)" "root_at c = [''T:users'' \<mapsto> root]"
    by (rule one_user)
  let ?td = "new_table ''users'' users_columns root"
  have ci: "ColumnIndex ?td ''id'' = 0" by (simp add: new_table_def users_columns_def ColumnIndex_def)
  have ok: "td_ok (new_index ?td ''id'' ''by_id'' False r)" for r
    by (simp add: td_ok_def new_index_def new_table_def users_columns_def)
  have rows: "[(ann_key, ann)] = entries (tr (TableTarget ''users''))" using c(3) by (simp add: TableTarget_def)
  have f: "\<forall>r\<in>set [(ann_key, ann)]. length (fst r) = 8 \<and> (\<exists>x. field (ColumnTypes ?td) (ColumnIndex ?td ''id'') (snd r) = Inr x)"
    using ann_field ann_lengths(1) ci by simp
  have e: "row_entries (ColumnTypes ?td) (ColumnIndex ?td ''id'') [(ann_key, ann)] = {(ann_entry, ann_key)}"
    using row_entries_Cons [OF ann_field, where k = ann_key and rows = "[]"] ci by (simp add: ann_entry_def row_entries_def)
  have n: "Table c ''users'' = Some ?td" "CHR '':'' \<notin> set ''users''" "0 \<le> ColumnIndex ?td ''id''" "index_root ''by_id'' (tIndexes ?td) = None"
    using c(2) ci by (simp_all add: new_table_def)
  have "\<exists>c' sys' u def. createIndexFor ?td ''id'' ''by_id'' False c = (Inr def, c') \<and>
      store_inv c' sys' (tr(IndexTarget ''users'' ''by_id'' := u)) \<and> set (entries u) = row_entries (ColumnTypes ?td) (ColumnIndex ?td ''id'') [(ann_key, ann)]"
    using createIndexFor_exact [OF c(1) n ok rows f users_index_ready [OF c(1,2) refl c(3,6,4,5)]] by blast
  moreover have "IndexTarget ''users'' ''by_id'' = ''I:users:by_id''" by (simp add: IndexTarget_def)
  ultimately show ?thesis using c(1) unfolding e by metis
qed

end
