(* ===== verification/OrderProps.thy ===== *)
theory OrderProps
  imports Rows "HOL-Library.Product_Lexorder" "HOL-Library.Multiset"
begin

text \<open>
  ORDER BY: a stable sort by an order that comes from keys, and the keys of values under \<^verbatim>\<open>Compare\<close>.
\<close>

section \<open>Stable sorting by a weak order\<close>



section \<open>Keys of values\<close>



lemma nan_zero [simp]: "\<not> f_nan 0"
  by (simp add: f_nan_def f_mag_def f_inf_mag_def)


section \<open>ORDER BY\<close>











end
