(* ===== verification/EngineFlaws.thy ===== *)
theory EngineFlaws
  imports RowProps
begin

text \<open>
  Two ways a table and its index part: a statement that fails half way and is not undone, and an
  update to a value that compares equal but has another sort key.
\<close>

section \<open>A failed INSERT that is not undone\<close>

definition int_column :: "string \<Rightarrow> ColumnDef" where
  "int_column n = \<lparr>cName = n, cType = TypeInteger, cPrimaryKey = False, cUnique = True, cNotNull = False\<rparr>"

definition pairs :: TableDef where
  "pairs = \<lparr>tName = ''p'', tColumns = [int_column ''a'', int_column ''b''], tRoot = 0, tNextRow = 0,
     tIndexes = [\<lparr>iName = ''ia'', iColumn = ''a'', iUnique = True, iRoot = 0\<rparr>, \<lparr>iName = ''ib'', iColumn = ''b'', iUnique = True, iRoot = 0\<rparr>]\<rparr>"

definition one_pair :: adb where
  "one_pair = \<lparr>a_schema = [''p'' \<mapsto> pairs], a_next = (\<lambda>_. 2),
     a_data = [''T:p'' \<mapsto> [(EncodeUint64 1, EncodeRow [IntValue 1, IntValue 1])],
       ''I:p:ia'' \<mapsto> [(indexKey (IntValue 1) (EncodeUint64 1), EncodeUint64 1)],
       ''I:p:ib'' \<mapsto> [(indexKey (IntValue 1) (EncodeUint64 1), EncodeUint64 1)]]\<rparr>"

definition insert_pair :: "int64 \<Rightarrow> int64 \<Rightarrow> InsertStmt" where
  "insert_pair x y = \<lparr>inTable = ''p'', inColumns = [], inRows = [[int_lit x, int_lit y]]\<rparr>"

lemma pairs_simps [simp]: "ColumnIndex pairs ''a'' = 0" "ColumnIndex pairs ''b'' = 1" "tName pairs = ''p''"
  "tColumns pairs = [int_column ''a'', int_column ''b'']"
  "tIndexes pairs = [\<lparr>iName = ''ia'', iColumn = ''a'', iUnique = True, iRoot = 0\<rparr>, \<lparr>iName = ''ib'', iColumn = ''b'', iUnique = True, iRoot = 0\<rparr>]"
  "cName (int_column n) = n" "cType (int_column n) = TypeInteger" "\<not> cNotNull (int_column n)"
  by (simp_all add: pairs_def int_column_def ColumnIndex_def)

lemma le_append: "p \<le> p @ (x :: bytes)"
  by (induction p) auto

lemma less_append: "length p = length q \<Longrightarrow> p < q \<Longrightarrow> p @ x < q @ (y :: bytes)"
  by (induction p q rule: list_induct2) auto

lemma int_keys: "EncodeInt64 1 @ x < EncodeInt64 2 @ y" "EncodeInt64 1 @ x < EncodeInt64 2" "EncodeInt64 1 \<noteq> EncodeInt64 2"
  "EncodeInt64 1 \<noteq> EncodeInt64 3"
proof -
  have less: "EncodeInt64 1 < EncodeInt64 2" by (simp add: EncodeInt64_less)
  show "EncodeInt64 1 @ x < EncodeInt64 2 @ y" by (rule less_append [OF _ less]) simp
  show "EncodeInt64 1 @ x < EncodeInt64 2" using less_append [OF _ less, of x "[]"] by simp
  show "EncodeInt64 1 \<noteq> EncodeInt64 2" using less by auto
  have "EncodeInt64 1 < EncodeInt64 3" by (simp add: EncodeInt64_less)
  then show "EncodeInt64 1 \<noteq> EncodeInt64 3" by auto
qed

text \<open>The entry of the row that was not inserted, in the index that came first.\<close>

definition half_pair :: adb where
  "half_pair = one_pair\<lparr>a_next := (a_next one_pair)(''p'' := 3), a_data := (a_data one_pair)(''I:p:ia'' \<mapsto>
     [(indexKey (IntValue 1) (EncodeUint64 1), EncodeUint64 1), (indexKey (IntValue 2) (EncodeUint64 2), EncodeUint64 2)])\<rparr>"

lemmas run_insert = execInsert_def need_table_def bind_def db_txn_def on_target_def set_target_def insert_columns_def
  column_position_def insert_row_def column_value_def insert_index_entry_def index_at_def checkUniqueViaTxn_def Let_def entries_from_def
  int_lit_def evalLiteral_def coerce_def TableTarget_def IndexTarget_def indexKey_def hasPrefix_def SortKey_def

lemma insert_pair_run: "execInsert db_txn (insert_pair 2 1) one_pair = (Inl (ErrDuplicateValue ''b''), half_pair)"
  by (simp add: one_pair_def half_pair_def insert_pair_def run_insert le_append int_keys int_keys(3) [symmetric] al_put_Cons not_le)

lemma insert_pair_again: "execInsert db_txn (insert_pair 2 3) half_pair =
    (Inl (ErrDuplicateValue ''a''), half_pair\<lparr>a_next := (a_next half_pair)(''p'' := 4)\<rparr>)"
  by (simp add: one_pair_def half_pair_def insert_pair_def run_insert le_append int_keys int_keys(3) [symmetric] not_le)

text \<open>
  What a failed statement leaves behind when nothing undoes it, as in an explicit transaction: an INSERT that
  breaks the second of two unique constraints leaves its entry in the index of the first; the table has no such
  row, and a later INSERT of a value that no row has is refused as a duplicate.
\<close>

lemma failed_insert_leaves_entry:
  "\<exists>a'. execInsert db_txn (insert_pair 2 1) one_pair = (Inl (ErrDuplicateValue ''b''), a') \<and>
     a_data a' ''T:p'' = Some [(EncodeUint64 1, EncodeRow [IntValue 1, IntValue 1])] \<and>
     fst (execInsert db_txn (insert_pair 2 3) a') = Inl (ErrDuplicateValue ''a'')"
  using insert_pair_run insert_pair_again by (simp add: half_pair_def one_pair_def)

section \<open>A row that cannot be deleted\<close>



















section \<open>Zero and negative zero\<close>

definition readings :: TableDef where
  "readings = \<lparr>tName = ''r'', tColumns = [\<lparr>cName = ''f'', cType = TypeFloat, cPrimaryKey = False, cUnique = False, cNotNull = False\<rparr>],
     tRoot = 0, tNextRow = 0, tIndexes = [\<lparr>iName = ''i'', iColumn = ''f'', iUnique = False, iRoot = 0\<rparr>]\<rparr>"



lemma readings_simps [simp]: "ColumnIndex readings ''f'' = 0" "tName readings = ''r''" "ColumnTypes readings = [TypeFloat]"
  "tColumns readings = [\<lparr>cName = ''f'', cType = TypeFloat, cPrimaryKey = False, cUnique = False, cNotNull = False\<rparr>]"
  "tIndexes readings = [\<lparr>iName = ''i'', iColumn = ''f'', iUnique = False, iRoot = 0\<rparr>]"
  by (simp_all add: readings_def ColumnIndex_def ColumnTypes_def)





end
