(* ===== verification/Spec2Isabelle.thy ===== *)
theory Spec2Isabelle
  imports BTreeDebug CatalogStore WalProps ParserProps LexerProps TxnProps ServerProps ClientProps SystemProps CreateIndex OrderProps EngineFlaws
begin

text \<open>
  EleoneSQL, a relational database engine in Go, from the bytes of its page file up to SQL
  statements and the answers a client reads.

  \<^bold>\<open>The program and the theories.\<close>
  A page file (\<^verbatim>\<open>internal/storage/pager.go\<close>) holds B+ trees (\<^verbatim>\<open>btree.go\<close>); the catalog
  (\<^verbatim>\<open>internal/catalog\<close>) keeps the schemas in one of them, and a tree for the rows of each table and for
  each index.  Transactions (\<^verbatim>\<open>internal/txn\<close>) change trees, log every change before it (\<^verbatim>\<open>internal/wal\<close>) and
  keep what undoes it; the engine (\<^verbatim>\<open>internal/engine\<close>) runs parsed statements (\<^verbatim>\<open>internal/sqlparser\<close>)
  in them, and the server (\<^verbatim>\<open>internal/server\<close>) reads statements from a connection and writes the results
  in a line protocol.

  \<^item> \<open>Prelude\<close>: errors as values (\<open>go_error\<close>, \<open>'a result\<close>), state passing (\<open>('s, 'a) sm\<close> with \<open>bind\<close>),
    big-endian bytes, slices, byte order.  \<open>Float64\<close>, \<open>FloatArith\<close>: float64 as bit patterns; arithmetic rounds the
    exact result to the nearest, ties to even.
  \<^item> \<open>Encoding\<close> (\<^verbatim>\<open>util/encoding.go\<close>) and \<open>Value\<close> (\<^verbatim>\<open>catalog/value.go\<close>): order-preserving keys, sort
    keys, comparison, the row codec.
  \<^item> \<open>Pager\<close>: the file as a byte string with the part of it that is durable; pages, the free list, the header.
  \<^item> \<open>Node\<close>, \<open>BTree\<close>: slotted pages and the tree operations on them.  \<open>SortedMap\<close> is the contract of an ordered
    store; \<open>BTreeShape\<close>, \<open>BTreePages\<close>, \<open>BTreeLeafPut\<close>, \<open>BTreePut\<close>, \<open>BTreeOps\<close>, \<open>BTreeCursor\<close> relate pages to trees
    and trees to sorted lists; \<open>BTreeProps\<close> states the results.  \<open>BTreeDebug\<close>: the dump of a tree.  \<open>OnePage\<close>: trees on one page, on which writes are ready.
  \<^item> \<open>Wal\<close>, with \<open>WalScan\<close>, \<open>WalRecovery\<close> and \<open>WalProps\<close>: records with their checksums, the scan of a log, redo
    and undo.
  \<^item> \<open>Catalog\<close>, with \<open>CatalogProps\<close> (the schema codec) and \<open>CatalogStore\<close> (schemas in the system tree).
  \<^item> \<open>Txn\<close>, with \<open>TxnStore\<close>, \<open>TxnContents\<close>, \<open>TxnReplay\<close> and \<open>TxnProps\<close>: the store, its lock, transactions,
    rollback, recovery at start, checkpoints.
  \<^item> \<open>Ast\<close>, \<open>Lexer\<close>, \<open>LexerProps\<close>, \<open>Parser\<close>, \<open>ParserTotal\<close>, \<open>Grammar\<close>, \<open>ParserProps\<close>: the SQL front end.
  \<^item> \<open>Eval\<close> (\<^verbatim>\<open>engine/expr.go\<close>), \<open>Engine\<close> (\<^verbatim>\<open>scan.go\<close>, \<^verbatim>\<open>select.go\<close>, \<^verbatim>\<open>insert.go\<close>,
    \<^verbatim>\<open>update.go\<close>, \<^verbatim>\<open>delete.go\<close>), \<open>Session\<close> (\<^verbatim>\<open>engine.go\<close>, \<^verbatim>\<open>ddl.go\<close>).
  \<^item> \<open>EngineSpec\<close>, \<open>EngineStore\<close>, \<open>EngineRefine\<close>, \<open>EngineProps\<close>: row statements on a store against row statements on a
    database of sorted tables in memory.  \<open>Rows\<close>, \<open>Consistent\<close>, \<open>RowStatements\<close>, \<open>RowProps\<close>, \<open>SeekProps\<close>,
    \<open>OrderProps\<close>, \<open>EngineFlaws\<close>: what statements do to that database.  \<open>IndexProps\<close>, \<open>CreateIndex\<close>: filling a new
    index from the rows of a table.  \<open>SystemProps\<close>: the statements of a session, one after the other, on a store.
  \<^item> \<open>Wire\<close>, \<open>WireProps\<close> (\<^verbatim>\<open>server/wire\<close>); \<open>Server\<close>, \<open>Keeps\<close>, \<open>SessionProps\<close>, \<open>ServerProps\<close> (\<^verbatim>\<open>server.go\<close>,
    \<^verbatim>\<open>cmd/eleonesqld\<close>): a connection, and the server with its connections; \<open>Client\<close>, \<open>Runes\<close>, \<open>ClientProps\<close>
    (\<^verbatim>\<open>cmd/eleonesql\<close>): the command line client.

  \<^bold>\<open>State and operations.\<close>
  A Go method on a pointer is a function of the state it changes: \<open>pager\<close>, \<open>Catalog\<close> with its pager,
  \<open>Store\<close> with its catalog and log, a store with a \<open>Txn\<close>, a \<open>Session\<close> with its store.  \<open>on_pager\<close>, \<open>on_cat\<close>, \<open>on_wal\<close>,
  \<open>on_store\<close>, \<open>on_tree\<close>, \<open>on_sess\<close> lift an operation to the state around it.  Errors are the left values of a
  result; \<open>Panic\<close> is a run-time panic and \<open>Diverges\<close> a loop that does not end or a lock that is not released.
  The row statements take the operations of their transaction as a record \<open>txn_ops\<close>: \<open>real_txn\<close> are those of
  \<open>Txn\<close>, \<open>db_txn\<close> those of the specification.

  \<^bold>\<open>What is proved.\<close>
  \<^item> Storage: a get, a delete and a cursor do on well-formed trees what they do on sorted association lists, and so does a put
    that \<open>put_ready\<close> admits; the pager never hands out a page in use; a file reopens to the state it was written from.
  \<^item> Recovery: a log cut anywhere restores the committed state, for the log alone from any progress of the page writes, and for the store
    with its pages when the process is killed between two operations.
  \<^item> Catalog: a map from names to schemas that survives restarts.
  \<^item> Front end: tokens are in bounds, quoting round-trips, the expression parser accepts the language of a
    grammar, and \<open>Parse\<close> ends on every input without reading past the source or the tokens.
  \<^item> Transactions: rollback restores, reads see own writes, the lock is released.
  \<^item> Engine: a row statement on a store returns what it returns on the database in memory and leaves what it leaves
    there, and outside a transaction a failed one leaves the rows as they were.  On that database the statements keep
    rows typed and indexes exact, index seeks select what scans select, both without FLOAT indexes, and ORDER BY is a stable sort.  CREATE
    INDEX leaves an index with one entry for each row.  Together, in this
    theory: a session's statements, failing ones among them, leave a store with a consistent database.
  \<^item> Protocol: a client reads the response that was written, for values without tabs and newlines; a connection that ends leaves the
    lock free.
  \<^item> Programs: of the connections of a server at most one has a transaction, and one that waits is served when
    that one is gone; a connected client prints what a client on the files prints.
  \<^item> Where the code does not do what it means to, a theorem shows it: a split that loses a page, an index that keeps the entry of
    zero for negative zero, a checkpoint inside a transaction, recovery that passes over rolled-back page writes, a failed
    statement of an explicit transaction that COMMIT keeps.

  \<^bold>\<open>Interfaces.\<close>
  The locales are the contracts between the parts: an ordered store, the simulation of a catalog operation by its effect
  on contents, operations that keep a part of the state (\<open>reading\<close>, \<open>keeping\<close>), two transactions that agree
  (\<open>same_txn\<close>), an order to sort by (\<open>weak_order\<close>).  Each is interpreted on the definitions of the model.

  \<^bold>\<open>Fuel and hypotheses.\<close>
  \<open>page_fuel\<close> bounds the descent of a tree by the number of pages in the file and \<open>load_fuel\<close> the steps of a
  scan by the number of cells the file can hold; the lemmas show both suffice on well-formed trees.  The parser's loops take
  the number of tokens left as measure.  \<open>put_ready\<close> states when a put does what it should: a value of at
  most 1008 bytes, keys of the tree with lengths within a factor of two, a leaf that has room or entries that can be split evenly, room for a
  separator in every internal page entered through its last pointer, and pages left in the file.  \<open>write_ready\<close>, \<open>undo_ready\<close>, \<open>recovery_ready\<close>,
  \<open>completes\<close>, \<open>stmt_ready\<close> and \<open>index_ready\<close> say so of the writes of an operation, a rollback, a recovery, a statement and the filling of an
  index; every property that rests on one of them says so, and without them the code loses entries, as \<open>last_child_split_lost\<close> shows.
  \<open>schema_ok\<close>, part of a consistent database, leaves out indexes on FLOAT columns, whose keys tell zero from
  negative zero where comparison does not, and colons in table names.  Every read of a slice or a list panics out
  of range; \<^verbatim>\<open>matches\<close> and \<^verbatim>\<open>tuple_less\<close>, which pass over errors, meet no panic because loaded rows have a value for each column.

  \<^bold>\<open>Parameters.\<close>
  The unicode tables beyond ASCII, the order in which a Go map is iterated, the shortest decimal
  text of a float, the texts of errors, the layout of \<^verbatim>\<open>text/tabwriter\<close> and the other end of a client's
  connection are arguments.  \<^verbatim>\<open>sort.SliceStable\<close> is an insertion sort, the only
  stable result for a strict weak order.

  \<^bold>\<open>Not modelled.\<close>
  The mutexes of single methods (every method of the pager, the log and the catalog runs under its lock; the lock
  of a transaction is modelled), and with them interleavings inside a statement: statements of different
  connections follow one another as wholes.  File operations that fail, the parsing of flags, the sockets themselves,
  and the log lines of the server program.
\<close>

section \<open>Sessions on a store\<close>

text \<open>
  C6: a session without a transaction executes row statements one after the other, failing ones among them, and the store
  holds a consistent database after each: the trees on its pages hold typed rows and exact indexes of
  the schemas in its catalog, and its log and its lock are those of a store between transactions.  The schemas have no index on
  a FLOAT column and no colon in a table name (\<open>schema_ok\<close>); the writes of each statement, and of its rollback
  when it fails, are those the trees take without losing entries, with values of at most 1008 bytes (\<open>stmt_ready\<close>), and
  there are row numbers left for its rows (\<open>numbers_left\<close>).
\<close>

theorem session_stays_consistent:
  assumes "session_holds se a" "statements order se se'"
  shows "\<exists>a'. session_holds se' a'"
  by (rule statements_hold [OF assms(2,1)])

theorem session_stays_consistent_witness:
  "\<exists>se se' a'. session_holds se users_db \<and> executeStmt (\<lambda>ns. ns) bad_insert se = (Inl (ErrMayNotBeNull ''id''), se') \<and> session_holds se' a'"
proof -
  obtain s0 s t s' t' s'' t'' where u: "store_run s0 None (\<lambda>_. None) [] []" "holds_db (st_cat s0) users_db" "Begin s0 = (Inr t, s)"
    "store_run s (Some t) (\<lambda>_. None) [] []" "holds_db (st_cat s) users_db"
    "row_stmt good_insert ready_txn (s, t) = (Inr (message ''INSERT'' 1), (s', t'))"
    "row_stmt bad_insert ready_txn (s, t) = (Inl (ErrMayNotBeNull ''id''), (s'', t''))" "undo_ready s'' t''"
    by (rule users_statements)
  have se: "session_holds (NewSession s0) users_db"
    using u(2) users_db_ok store_run_inv [OF u(1)] by (auto simp: session_holds_def NewSession_def)
  have c: "completes bad_insert (s, t)" using u(7) by (simp add: completes_def stops_def)
  have "txn_rel (\<lambda>_. None) [] (s, t) users_db" using u(5) store_run_inv [OF u(4)] by (auto simp: txn_rel_def)
  then obtain a' where e: "row_stmt bad_insert real_txn (s, t) = (Inl (ErrMayNotBeNull ''id''), (s'', t''))"
    "row_stmt bad_insert db_txn users_db = (Inl (ErrMayNotBeNull ''id''), a')" using c by (rule row_stmt_step) (use u(7) in auto)
  have ready: "stmt_ready bad_insert (se_store (NewSession s0))" using u(3,8) c e by (simp add: stmt_ready_def NewSession_def)
  have row: "is_row_stmt bad_insert" by (simp add: is_row_stmt_def bad_insert_def)
  have num: "numbers_left (se_store (NewSession s0)) bad_insert" using bad_insert_numbers u(2) by (simp add: NewSession_def)
  then have "rows_left users_db bad_insert" using se by (auto simp: numbers_left_def session_holds_def)
  from statement_step [OF se row ready this, of "\<lambda>ns. ns"] obtain se' where
    x: "executeStmt (\<lambda>ns. ns) bad_insert (NewSession s0) = (Inl (ErrMayNotBeNull ''id''), se')" using e(2) by auto
  have "statements (\<lambda>ns. ns) (NewSession s0) se'" by (rule step [OF start row ready num x])
  from session_stays_consistent [OF se this] se x show ?thesis by blast
qed

end
